(* ===== verification/Prelude.thy ===== *)
theory Prelude
  imports Main
begin

text \<open>
  Shared ground of the development: the result type and the state monad in which the C functions
  are written, a weakest-precondition calculus for it, C integer narrowing, and the two array
  loops (search with break, shift left) that the identifier tables of the broker share.
\<close>

section \<open>Collections of facts\<close>

named_theorems wp "weakest-precondition equations of the operations"
named_theorems run "equations that run a primitive operation"

section \<open>Outcomes of a C function\<close>

text \<open>
  A call returns a value, ends the process with \<open>exit(code)\<close>, waits for an event that nobody but
  another process can cause, is aborted by a failed \<open>assert\<close>, or runs into behaviour the C
  standard leaves undefined (an access out of bounds, a dangling pointer, signed overflow).
\<close>

datatype 'a res = Ret 'a | Exit int | Blocked | Abort | Undef

type_synonym ('w, 'a) prog = "'w \<Rightarrow> 'a res \<times> 'w"

definition ret :: "'a \<Rightarrow> ('w, 'a) prog" where
  "ret x w = (Ret x, w)"

definition stop :: "'a res \<Rightarrow> ('w, 'a) prog" where
  "stop r w = (r, w)"

definition bnd :: "('w, 'a) prog \<Rightarrow> ('a \<Rightarrow> ('w, 'b) prog) \<Rightarrow> ('w, 'b) prog" where
  "bnd m f w =
     (case m w of
        (Ret x, w') \<Rightarrow> f x w'
      | (Exit c, w') \<Rightarrow> (Exit c, w')
      | (Blocked, w') \<Rightarrow> (Blocked, w')
      | (Abort, w') \<Rightarrow> (Abort, w')
      | (Undef, w') \<Rightarrow> (Undef, w'))"

abbreviation thn :: "('w, 'a) prog \<Rightarrow> ('w, 'b) prog \<Rightarrow> ('w, 'b) prog" where
  "thn m k \<equiv> bnd m (\<lambda>_. k)"

lemma bnd_assoc: "bnd (bnd m f) g = bnd m (\<lambda>x. bnd (f x) g)"
  by (auto simp: fun_eq_iff bnd_def split: prod.split res.split)

definition gets :: "('w \<Rightarrow> 'a) \<Rightarrow> ('w, 'a) prog" where
  "gets f w = (Ret (f w), w)"

definition lift_res :: "'a res \<Rightarrow> ('w, 'a) prog" where
  "lift_res r w = (r, w)"

text \<open>The same sequencing for functions that do not touch the state of the host.\<close>

fun rbind :: "'a res \<Rightarrow> ('a \<Rightarrow> 'b res) \<Rightarrow> 'b res" where
  "rbind (Ret x) f = f x"
| "rbind (Exit c) f = Exit c"
| "rbind Blocked f = Blocked"
| "rbind Abort f = Abort"
| "rbind Undef f = Undef"

lemma rbind_Ret_iff: "rbind r f = Ret y \<longleftrightarrow> (\<exists>x. r = Ret x \<and> f x = Ret y)"
  by (cases r) auto

primrec add_all :: "('v \<Rightarrow> 'a \<Rightarrow> 'v res) \<Rightarrow> 'a list \<Rightarrow> 'v \<Rightarrow> 'v res" where
  "add_all add [] v = Ret v"
| "add_all add (x # xs) v = rbind (add v x) (add_all add xs)"

section \<open>Weakest preconditions\<close>

definition wp :: "('w, 'a) prog \<Rightarrow> ('a res \<Rightarrow> 'w \<Rightarrow> bool) \<Rightarrow> 'w \<Rightarrow> bool" where
  "wp m Q w = (case m w of (r, w') \<Rightarrow> Q r w')"

fun and_then :: "('a \<Rightarrow> 'w \<Rightarrow> bool) \<Rightarrow> ('b res \<Rightarrow> 'w \<Rightarrow> bool) \<Rightarrow> 'a res \<Rightarrow> 'w \<Rightarrow> bool" where
  "and_then K Q (Ret x) w = K x w"
| "and_then K Q (Exit c) w = Q (Exit c) w"
| "and_then K Q Blocked w = Q Blocked w"
| "and_then K Q Abort w = Q Abort w"
| "and_then K Q Undef w = Q Undef w"

lemma wp_ret [wp, simp]: "wp (ret x) Q w = Q (Ret x) w"
  by (simp add: wp_def ret_def)

lemma wp_stop [wp, simp]: "wp (stop r) Q w = Q r w"
  by (simp add: wp_def stop_def)

lemma wp_gets [wp, simp]: "wp (gets f) Q w = Q (Ret (f w)) w"
  by (simp add: wp_def gets_def)

lemma wp_lift_res [wp, simp]: "wp (lift_res r) Q w = Q r w"
  by (simp add: wp_def lift_res_def)

lemma wp_bnd [wp, simp]: "wp (bnd m f) Q w = wp m (and_then (\<lambda>x. wp (f x) Q) Q) w"
  by (auto simp: wp_def bnd_def split: prod.splits res.splits)

lemma wp_if [wp, simp]: "wp (if b then m else n) Q w = (if b then wp m Q w else wp n Q w)"
  by simp

lemma wp_case_option [wp, simp]:
  "wp (case x of None \<Rightarrow> m | Some y \<Rightarrow> f y) Q w = (case x of None \<Rightarrow> wp m Q w | Some y \<Rightarrow> wp (f y) Q w)"
  by (cases x) simp_all

lemma wp_case_prod [wp, simp]:
  "wp (case x of (a, b) \<Rightarrow> f a b) Q w = (case x of (a, b) \<Rightarrow> wp (f a b) Q w)"
  by (cases x) simp

lemma wp_run: "wp m Q w \<longleftrightarrow> Q (fst (m w)) (snd (m w))"
  by (simp add: wp_def case_prod_beta)

lemma wp_mono: "wp m P w \<Longrightarrow> (\<And>r w'. P r w' \<Longrightarrow> Q r w') \<Longrightarrow> wp m Q w"
  by (simp add: wp_run)

lemma wp_and: "wp m (\<lambda>r w'. P r w' \<and> Q r w') w \<longleftrightarrow> wp m P w \<and> wp m Q w"
  by (simp add: wp_run)

lemma wp_eqI: "wp m (\<lambda>r w'. (r, w') = z) w \<Longrightarrow> m w = z"
  by (cases "m w") (simp add: wp_def)

lemma wp_eqD: "m w = (r, w') \<Longrightarrow> wp m Q w = Q r w'"
  by (simp add: wp_def)

lemma and_then_mono:
  "and_then K Q r w \<Longrightarrow> (\<And>x. r = Ret x \<Longrightarrow> K x w \<Longrightarrow> K' x w) \<Longrightarrow>
   (\<And>r'. Q r' w \<Longrightarrow> Q' r' w) \<Longrightarrow> and_then K' Q' r w"
  by (cases r) auto

text \<open>A program is always run from its first statement to its result: \<open>wp\<close> is total.\<close>

lemma wp_not: "wp m (\<lambda>r w'. \<not> Q r w') w \<longleftrightarrow> \<not> wp m Q w"
  by (simp add: wp_run)

section \<open>Programs that keep an invariant\<close>

text \<open>
  \<open>keeps I p R\<close>: started where \<open>I\<close> holds, the program \<open>p\<close> ends where it holds, whatever its outcome,
  and a value that it returns satisfies \<open>R\<close>.
\<close>

named_theorems keeps "programs that keep an invariant"

definition keeps :: "('w \<Rightarrow> bool) \<Rightarrow> ('w, 'a) prog \<Rightarrow> ('a \<Rightarrow> bool) \<Rightarrow> bool" where
  "keeps I p R \<longleftrightarrow> (\<forall>w. I w \<longrightarrow> wp p (\<lambda>r w'. I w' \<and> (\<forall>x. r = Ret x \<longrightarrow> R x)) w)"

lemma keepsI: "(\<And>w. I w \<Longrightarrow> wp p (\<lambda>r w'. I w' \<and> (\<forall>x. r = Ret x \<longrightarrow> R x)) w) \<Longrightarrow> keeps I p R"
  by (simp add: keeps_def)

lemma keepsD: "keeps I p R \<Longrightarrow> I w \<Longrightarrow> p w = (r, w') \<Longrightarrow> I w' \<and> (\<forall>x. r = Ret x \<longrightarrow> R x)"
  unfolding keeps_def wp_run by (metis fst_conv snd_conv)

lemma keeps_weaken: "keeps I p R \<Longrightarrow> (\<And>x. R x \<Longrightarrow> R' x) \<Longrightarrow> keeps I p R'"
  unfolding keeps_def by (blast intro: wp_mono)

lemma keeps_any: "keeps I p R \<Longrightarrow> keeps I p (\<lambda>_. True)"
  by (erule keeps_weaken) simp

lemma keeps_ret: "R x \<Longrightarrow> keeps I (ret x) R"
  by (simp add: keeps_def)

lemma keeps_basic [keeps]:
  "keeps I (ret x) (\<lambda>_. True)" "keeps I (stop (Exit c)) R" "keeps I (gets f) (\<lambda>_. True)"
  "keeps I (lift_res r) (\<lambda>x. r = Ret x)"
  by (simp_all add: keeps_def)

lemma keeps_bind:
  assumes "keeps I p R" "\<And>x. R x \<Longrightarrow> keeps I (f x) R'"
  shows "keeps I (bnd p f) R'"
proof (rule keepsI)
  fix w assume "I w"
  with assms(1) have "wp p (\<lambda>r w'. I w' \<and> (\<forall>x. r = Ret x \<longrightarrow> R x)) w" by (simp add: keeps_def)
  then show "wp (bnd p f) (\<lambda>r w'. I w' \<and> (\<forall>x. r = Ret x \<longrightarrow> R' x)) w"
    unfolding wp_bnd
  proof (rule wp_mono)
    fix r w' assume "I w' \<and> (\<forall>x. r = Ret x \<longrightarrow> R x)"
    with assms(2) show "and_then (\<lambda>x. wp (f x) (\<lambda>r w'. I w' \<and> (\<forall>x. r = Ret x \<longrightarrow> R' x)))
        (\<lambda>r w'. I w' \<and> (\<forall>x. r = Ret x \<longrightarrow> R' x)) r w'"
      by (cases r) (simp_all add: keeps_def)
  qed
qed

lemma keeps_branch [keeps]:
  "(b \<Longrightarrow> keeps I p R) \<Longrightarrow> (\<not> b \<Longrightarrow> keeps I p' R) \<Longrightarrow> keeps I (if b then p else p') R"
  "(z = None \<Longrightarrow> keeps I p R) \<Longrightarrow> (\<And>x. z = Some x \<Longrightarrow> keeps I (f x) R) \<Longrightarrow> keeps I (case z of None \<Rightarrow> p | Some x \<Rightarrow> f x) R"
  "(\<And>x y. v = (x, y) \<Longrightarrow> keeps I (h x y) R) \<Longrightarrow> keeps I (case v of (x, y) \<Rightarrow> h x y) R"
  by (simp_all split: option.split prod.split)

text \<open>When no value in between matters.\<close>

lemma keeps_thn [keeps]:
  "keeps I p (\<lambda>_. True) \<Longrightarrow> (\<And>x. keeps I (f x) R) \<Longrightarrow> keeps I (bnd p f) R"
  by (rule keeps_bind)

section \<open>C integers\<close>

text \<open>
  \<open>int\<close> is 32 bits and \<open>long\<close> 64 bits on the target. Identifiers are only copied and compared,
  so they are kept as integers; the conversion \<open>int x = (long) y\<close> is written out.
\<close>

definition int_of_long :: "int \<Rightarrow> int" where
  "int_of_long x = signed_take_bit 31 x"

definition is_int32 :: "int \<Rightarrow> bool" where
  "is_int32 x \<longleftrightarrow> -2147483648 \<le> x \<and> x < 2147483648"

lemma int_of_long_id [simp]: "is_int32 x \<Longrightarrow> int_of_long x = x"
  by (simp add: is_int32_def int_of_long_def signed_take_bit_int_eq_self)

lemma is_int32_int_of_long [simp]: "is_int32 (int_of_long x)"
  using signed_take_bit_int_greater_eq_minus_exp [of 31 x] signed_take_bit_int_less_exp [of 31 x]
  by (simp add: is_int32_def int_of_long_def)

definition INT_MAX :: int where "INT_MAX = 2147483647"

section \<open>Array loops\<close>

text \<open>
  \<^verbatim>\<open>for (int i = 0; i < n; i++) if (P(xs[i])) { ...; break; }\<close> over an array of
  \<open>length xs\<close> elements: reading at or past the end is undefined.
\<close>

function scan :: "('a \<Rightarrow> bool) \<Rightarrow> 'a list \<Rightarrow> int \<Rightarrow> nat \<Rightarrow> nat option res" where
  "scan P xs n i =
     (if int i < n then
        if i < length xs then (if P (xs ! i) then Ret (Some i) else scan P xs n (Suc i))
        else Undef
      else Ret None)"
  by pat_completeness auto
termination
  by (relation "measure (\<lambda>(P, xs, n, i). nat n - i)") auto

declare scan.simps [simp del]

text \<open>
  \<^verbatim>\<open>for (int i = pos + 1; i < n; i++) xs[i - 1] = xs[i];\<close>
\<close>

function shift :: "'a list \<Rightarrow> int \<Rightarrow> nat \<Rightarrow> 'a list res" where
  "shift xs n i =
     (if int i < n then
        if i < length xs then shift (xs[i - 1 := xs ! i]) n (Suc i) else Undef
      else Ret xs)"
  by pat_completeness auto
termination
  by (relation "measure (\<lambda>(xs, n, i). nat n - i)") auto

declare shift.simps [simp del]

fun index_of :: "('a \<Rightarrow> bool) \<Rightarrow> 'a list \<Rightarrow> nat option" where
  "index_of P [] = None"
| "index_of P (x # xs) = (if P x then Some 0 else map_option Suc (index_of P xs))"

definition del_at :: "nat \<Rightarrow> 'a list \<Rightarrow> 'a list" where
  "del_at i xs = take i xs @ drop (Suc i) xs"

lemma index_of_None_iff: "index_of P xs = None \<longleftrightarrow> (\<forall>x\<in>set xs. \<not> P x)"
  by (induction xs) auto

lemma index_of_SomeD: "index_of P xs = Some i \<Longrightarrow> i < length xs \<and> P (xs ! i) \<and> (\<forall>j<i. \<not> P (xs ! j))"
proof (induction xs arbitrary: i)
  case (Cons x xs)
  then show ?case
    by (auto split: if_splits simp: nth_Cons less_Suc_eq_0_disj split: nat.splits)
qed simp

lemma index_of_append:
  "index_of P (xs @ ys) = (case index_of P xs of Some i \<Rightarrow> Some i
     | None \<Rightarrow> map_option (\<lambda>j. length xs + j) (index_of P ys))"
  by (induction xs; cases "index_of P ys") (auto split: option.splits)

lemma scan_from:
  assumes "nat n \<le> length xs" and "i \<le> nat n"
  shows "scan P xs n i = Ret (map_option (\<lambda>j. i + j) (index_of P (drop i (take (nat n) xs))))"
  using assms
proof (induction P xs n i rule: scan.induct)
  case (1 P xs n i)
  show ?case
  proof (cases "int i < n")
    case True
    with "1.prems" have l: "i < length xs" "i < nat n" by linarith+
    then have d: "drop i (take (nat n) xs) = xs ! i # drop (Suc i) (take (nat n) xs)"
      using "1.prems"(1) Cons_nth_drop_Suc [of i "take (nat n) xs"] by simp
    show ?thesis
    proof (cases "P (xs ! i)")
      case True
      with \<open>int i < n\<close> l d show ?thesis by (simp add: scan.simps [of P xs n i])
    next
      case False
      with True l "1.prems" have
        "scan P xs n (Suc i) = Ret (map_option (\<lambda>j. Suc i + j) (index_of P (drop (Suc i) (take (nat n) xs))))"
        by (intro "1.IH") auto
      with \<open>int i < n\<close> l d False show ?thesis
        by (simp add: scan.simps [of P xs n i] option.map_comp comp_def)
    qed
  next
    case False
    with "1.prems" show ?thesis by (simp add: scan.simps [of P xs n i])
  qed
qed

lemma scan_index_of:
  "nat n \<le> length xs \<Longrightarrow> scan P xs n 0 = Ret (index_of P (take (nat n) xs))"
  using scan_from [of n xs 0 P] by (simp add: option.map_ident)

lemma shift_from:
  assumes "nat n \<le> length xs" and "0 < i" and "i \<le> nat n"
  shows "\<exists>ys. shift xs n i = Ret ys \<and> length ys = length xs
    \<and> take (nat n - 1) ys = take (i - 1) xs @ drop i (take (nat n) xs)
    \<and> drop (nat n) ys = drop (nat n) xs"
  using assms
proof (induction xs n i rule: shift.induct)
  case (1 xs n i)
  show ?case
  proof (cases "int i < n")
    case True
    with "1.prems" have l: "i < length xs" "Suc i \<le> nat n" by linarith+
    obtain ys where ys: "shift (xs[i - 1 := xs ! i]) n (Suc i) = Ret ys" "length ys = length xs"
      "take (nat n - 1) ys = take i (xs[i - 1 := xs ! i]) @ drop (Suc i) (take (nat n) (xs[i - 1 := xs ! i]))"
      "drop (nat n) ys = drop (nat n) (xs[i - 1 := xs ! i])"
      using "1.IH" [OF True l(1)] "1.prems" l by auto
    have "take i (xs[i - 1 := xs ! i]) = take (i - 1) xs @ [xs ! i]"
      using l "1.prems"(2) by (cases i) (simp_all add: take_Suc_conv_app_nth)
    moreover have "drop (Suc i) (take (nat n) (xs[i - 1 := xs ! i])) = drop (Suc i) (take (nat n) xs)"
      by (simp add: take_update_swap drop_update_cancel)
    moreover have "drop i (take (nat n) xs) = xs ! i # drop (Suc i) (take (nat n) xs)"
      using l Cons_nth_drop_Suc [of i "take (nat n) xs"] "1.prems"(1) by simp
    moreover have "drop (nat n) (xs[i - 1 := xs ! i]) = drop (nat n) xs"
      using l by (simp add: drop_update_cancel)
    ultimately show ?thesis
      using ys True l(1) by (simp add: shift.simps [of xs n i])
  next
    case False
    with "1.prems" have "i = nat n" by linarith
    moreover from False have "shift xs n i = Ret xs" by (simp add: shift.simps [of xs n i])
    ultimately show ?thesis by simp
  qed
qed

lemma shift_del_at:
  assumes "nat n \<le> length xs" and "pos < nat n"
  obtains ys where "shift xs n (Suc pos) = Ret ys" "length ys = length xs"
    "take (nat n - 1) ys = del_at pos (take (nat n) xs)"
    "drop (nat n) ys = drop (nat n) xs"
  using shift_from [of n xs "Suc pos"] assms by (auto simp: del_at_def min_def)

lemma set_del_at_subset: "set (del_at i xs) \<subseteq> set xs"
  by (auto simp: del_at_def dest: in_set_takeD in_set_dropD)

lemma length_del_at [simp]: "i < length xs \<Longrightarrow> length (del_at i xs) = length xs - 1"
  by (simp add: del_at_def min_def)

lemma del_at_split: "i < length xs \<Longrightarrow> xs = take i xs @ xs ! i # drop (Suc i) xs"
  by (simp add: id_take_nth_drop)

lemma map_del_at: "map f (del_at i xs) = del_at i (map f xs)"
  by (simp add: del_at_def take_map drop_map)

lemma distinct_del_at:
  "distinct xs \<Longrightarrow> i < length xs \<Longrightarrow> distinct (del_at i xs) \<and> xs ! i \<notin> set (del_at i xs)"
  by (metis del_at_def del_at_split distinct_append distinct.simps(2) not_distinct_conv_prefix
      distinct_remove1 Un_iff set_append disjoint_insert(1) list.simps(15))

end
