(* ===== verification/List_DS.thy ===== *)
theory List_DS
  imports Prelude
begin

text \<open>
  The linked list of \<^verbatim>\<open>broker/common/ds/implementation/list.c\<close> over an explicit heap of nodes, and
  the queue and the stack built on it (queue.c, stack.c).  A freed node leaves the heap, and an
  access through a pointer to it is undefined; \<open>malloc\<close> succeeds and returns a fresh address.
  Each operation returns the elements on which it calls \<open>freeFn\<close> where it has such calls.
\<close>

section \<open>State\<close>

type_synonym ptr = "nat option"

record 'a listNode =
  n_data :: 'a
  n_next :: ptr

record 'a heap =
  nodes :: "nat \<rightharpoonup> 'a listNode"
  fresh :: nat

record clist =
  l_length :: int
  l_elementSize :: int
  l_head :: ptr
  l_tail :: ptr
  l_freeFn :: bool

definition deref :: "'a heap \<Rightarrow> ptr \<Rightarrow> (nat \<times> 'a listNode) res" where
  "deref h p = (case p of None \<Rightarrow> Undef
     | Some a \<Rightarrow> (case nodes h a of None \<Rightarrow> Undef | Some n \<Rightarrow> Ret (a, n)))"

definition new_node :: "'a \<Rightarrow> ptr \<Rightarrow> 'a heap \<Rightarrow> nat \<times> 'a heap" where
  "new_node x nx h =
     (fresh h, h\<lparr>nodes := (nodes h)(fresh h \<mapsto> \<lparr>n_data = x, n_next = nx\<rparr>), fresh := Suc (fresh h)\<rparr>)"

definition free_node :: "nat \<Rightarrow> 'a heap \<Rightarrow> 'a heap" where
  "free_node a h = h\<lparr>nodes := (nodes h)(a := None)\<rparr>"

section \<open>list.c\<close>

definition list_new :: "int \<Rightarrow> bool \<Rightarrow> clist res" where
  "list_new esize free =
     (if \<not> esize > 0 then Abort
      else Ret \<lparr>l_length = 0, l_elementSize = esize, l_head = None, l_tail = None, l_freeFn = free\<rparr>)"

partial_function (option) list_destroy ::
  "'a list \<Rightarrow> clist \<Rightarrow> 'a heap \<Rightarrow> ('a list \<times> clist \<times> 'a heap) res option" where
  "list_destroy freed l h =
     (if l_head l = None then Some (Ret (freed, l, h))
      else case deref h (l_head l) of
        Ret (a, n) \<Rightarrow>
          list_destroy (if l_freeFn l then freed @ [n_data n] else freed)
            (l\<lparr>l_head := n_next n\<rparr>) (free_node a h)
      | _ \<Rightarrow> Some Undef)"

definition list_prepend :: "clist \<Rightarrow> 'a \<Rightarrow> 'a heap \<Rightarrow> (clist \<times> 'a heap) res" where
  "list_prepend l x h =
     (case new_node x (l_head l) h of (node, h) \<Rightarrow>
      let l = l\<lparr>l_head := Some node\<rparr>;
          l = (if l_tail l = None then l\<lparr>l_tail := l_head l\<rparr> else l)
      in Ret (l\<lparr>l_length := l_length l + 1\<rparr>, h))"

definition list_append :: "clist \<Rightarrow> 'a \<Rightarrow> 'a heap \<Rightarrow> (clist \<times> 'a heap) res" where
  "list_append l x h =
     (case new_node x None h of (node, h) \<Rightarrow>
      rbind
       (if l_length l = 0 then Ret (l\<lparr>l_head := Some node, l_tail := Some node\<rparr>, h)
        else rbind (deref h (l_tail l)) (\<lambda>(a, n).
          Ret (l\<lparr>l_tail := Some node\<rparr>,
               h\<lparr>nodes := (nodes h)(a \<mapsto> n\<lparr>n_next := Some node\<rparr>)\<rparr>)))
       (\<lambda>(l, h). Ret (l\<lparr>l_length := l_length l + 1\<rparr>, h)))"

text \<open>The iterator is run on the state \<open>s\<close> it works on and says whether to go on.\<close>

partial_function (option) list_for_each_from ::
  "('a \<Rightarrow> 's \<Rightarrow> bool \<times> 's) \<Rightarrow> 'a heap \<Rightarrow> ptr \<Rightarrow> bool \<Rightarrow> 's \<Rightarrow> 's res option" where
  "list_for_each_from it h node result s =
     (if node = None \<or> \<not> result then Some (Ret s)
      else case deref h node of
        Ret (a, n) \<Rightarrow> (case it (n_data n) s of (r, s') \<Rightarrow> list_for_each_from it h (n_next n) r s')
      | _ \<Rightarrow> Some Undef)"

definition list_for_each :: "('a \<Rightarrow> 's \<Rightarrow> bool \<times> 's) \<Rightarrow> clist \<Rightarrow> 'a heap \<Rightarrow> 's \<Rightarrow> 's res option" where
  "list_for_each it l h s = list_for_each_from it h (l_head l) True s"

definition list_head :: "clist \<Rightarrow> bool \<Rightarrow> 'a heap \<Rightarrow> ('a \<times> clist \<times> 'a heap) res" where
  "list_head l removeFromList h =
     (if l_head l = None then Abort
      else rbind (deref h (l_head l)) (\<lambda>(a, n).
        if removeFromList
        then Ret (n_data n, l\<lparr>l_head := n_next n, l_length := l_length l - 1\<rparr>, free_node a h)
        else Ret (n_data n, l, h)))"

definition list_tail :: "clist \<Rightarrow> 'a heap \<Rightarrow> 'a res" where
  "list_tail l h =
     (if l_tail l = None then Abort else rbind (deref h (l_tail l)) (\<lambda>(a, n). Ret (n_data n)))"

definition list_size :: "clist \<Rightarrow> int" where
  "list_size l = l_length l"

section \<open>queue.c and stack.c\<close>

definition queue_new :: "int \<Rightarrow> bool \<Rightarrow> clist res" where
  "queue_new esize free = list_new esize free"

definition queue_enqueue :: "clist \<Rightarrow> 'a \<Rightarrow> 'a heap \<Rightarrow> (clist \<times> 'a heap) res" where
  "queue_enqueue q x h = list_append q x h"

definition queue_dequeue :: "clist \<Rightarrow> 'a heap \<Rightarrow> ('a \<times> clist \<times> 'a heap) res" where
  "queue_dequeue q h = list_head q True h"

definition queue_peek :: "clist \<Rightarrow> 'a heap \<Rightarrow> ('a \<times> clist \<times> 'a heap) res" where
  "queue_peek q h = list_head q False h"

definition queue_size :: "clist \<Rightarrow> int" where
  "queue_size q = list_size q"

definition queue_destroy :: "clist \<Rightarrow> 'a heap \<Rightarrow> ('a list \<times> clist \<times> 'a heap) res option" where
  "queue_destroy q h = list_destroy [] q h"

definition stack_new :: "int \<Rightarrow> bool \<Rightarrow> clist res" where
  "stack_new esize free = list_new esize free"

definition stack_size :: "clist \<Rightarrow> int" where
  "stack_size s = list_size s"

definition stack_push :: "clist \<Rightarrow> 'a \<Rightarrow> 'a heap \<Rightarrow> (clist \<times> 'a heap) res" where
  "stack_push s x h = list_prepend s x h"

definition stack_pop :: "clist \<Rightarrow> 'a heap \<Rightarrow> ('a \<times> clist \<times> 'a heap) res" where
  "stack_pop s h = (if \<not> stack_size s > 0 then Abort else list_head s True h)"

definition stack_peek :: "clist \<Rightarrow> 'a heap \<Rightarrow> ('a \<times> clist \<times> 'a heap) res" where
  "stack_peek s h = (if \<not> stack_size s > 0 then Abort else list_head s False h)"

definition stack_destroy :: "clist \<Rightarrow> 'a heap \<Rightarrow> ('a list \<times> clist \<times> 'a heap) res option" where
  "stack_destroy s h = list_destroy [] s h"

section \<open>Chains of nodes\<close>

fun chain :: "'a heap \<Rightarrow> ptr \<Rightarrow> nat list \<Rightarrow> 'a list \<Rightarrow> bool" where
  "chain h p [] [] \<longleftrightarrow> p = None"
| "chain h p (a # as) (x # xs) \<longleftrightarrow> p = Some a \<and>
     (\<exists>q. nodes h a = Some \<lparr>n_data = x, n_next = q\<rparr> \<and> chain h q as xs)"
| "chain h p _ _ \<longleftrightarrow> False"

text \<open>
  \<open>owns h l as xs\<close>: the nodes of the list are at the addresses \<open>as\<close> and hold \<open>xs\<close>; every node of
  the heap is below the next fresh address.
\<close>

definition owns :: "'a heap \<Rightarrow> clist \<Rightarrow> nat list \<Rightarrow> 'a list \<Rightarrow> bool" where
  "owns h l as xs \<longleftrightarrow> chain h (l_head l) as xs \<and> distinct as \<and> l_length l = int (length xs)
     \<and> (\<forall>a. nodes h a \<noteq> None \<longrightarrow> a < fresh h)"

definition tail_last :: "clist \<Rightarrow> nat list \<Rightarrow> bool" where
  "tail_last l as \<longleftrightarrow> (as \<noteq> [] \<longrightarrow> l_tail l = Some (last as))"

definition is_list :: "clist \<times> 'a heap \<Rightarrow> 'a list \<Rightarrow> bool" where
  "is_list = (\<lambda>(l, h) xs. \<exists>as. owns h l as xs)"

definition is_queue :: "clist \<times> 'a heap \<Rightarrow> 'a list \<Rightarrow> bool" where
  "is_queue = (\<lambda>(l, h) xs. \<exists>as. owns h l as xs \<and> tail_last l as)"

lemma chain_None [simp]: "chain h None as xs \<longleftrightarrow> as = [] \<and> xs = []"
  by (cases as; cases xs) auto

lemma chain_Nil_values [simp]: "chain h p as [] \<longleftrightarrow> as = [] \<and> p = None"
  by (cases as) auto

lemma chain_length: "chain h p as xs \<Longrightarrow> length as = length xs"
  by (induction h p as xs rule: chain.induct) auto

lemma chain_dom: "chain h p as xs \<Longrightarrow> a \<in> set as \<Longrightarrow> nodes h a \<noteq> None"
  by (induction h p as xs rule: chain.induct) auto

lemma chain_cong:
  "chain h p as xs \<Longrightarrow> (\<And>a. a \<in> set as \<Longrightarrow> nodes h' a = nodes h a) \<Longrightarrow> chain h' p as xs"
  by (induction h p as xs rule: chain.induct) auto

lemma chain_snoc:
  assumes "chain h p (as @ [a]) (xs @ [y])" "b \<notin> set (as @ [a])" "distinct (as @ [a])"
    and "\<And>c. c \<in> set as \<Longrightarrow> nodes h' c = nodes h c"
    and "nodes h' a = Some \<lparr>n_data = y, n_next = Some b\<rparr>"
    and "nodes h' b = Some \<lparr>n_data = x, n_next = None\<rparr>"
  shows "chain h' p (as @ [a, b]) (xs @ [y, x])"
  using assms(1-4)
proof (induction as arbitrary: p xs)
  case Nil
  then have "xs = []" using chain_length [OF Nil.prems(1)] by simp
  with Nil.prems assms(5,6) show ?case by auto
next
  case (Cons c as)
  then obtain z zs where "xs = z # zs"
    using chain_length [OF Cons.prems(1)] by (cases xs) auto
  with Cons show ?case by fastforce
qed

lemma chain_last:
  "chain h p (as @ [a]) xs \<Longrightarrow> \<exists>ys y. xs = ys @ [y] \<and> nodes h a = Some \<lparr>n_data = y, n_next = None\<rparr>"
proof (induction as arbitrary: p xs)
  case Nil
  then obtain y where "xs = [y]" "nodes h a = Some \<lparr>n_data = y, n_next = None\<rparr>"
    by (cases xs; cases "tl xs") auto
  then show ?case by (intro exI [of _ "[]"] exI [of _ y]) simp
next
  case (Cons c as)
  then obtain z zs q where xs: "xs = z # zs" and "chain h q (as @ [a]) zs"
    by (cases xs) auto
  with Cons.IH obtain ys y where "zs = ys @ [y] \<and> nodes h a = Some \<lparr>n_data = y, n_next = None\<rparr>"
    by blast
  with xs show ?case by (intro exI [of _ "z # ys"] exI [of _ y]) simp
qed

lemma nodes_free_node [simp]: "nodes (free_node a h) c = (if c = a then None else nodes h c)"
  "fresh (free_node a h) = fresh h"
  by (simp_all add: free_node_def)

lemma owns_fresh: "owns h l as xs \<Longrightarrow> fresh h \<notin> set as"
  unfolding owns_def using chain_dom by (metis less_irrefl)

section \<open>What the operations do\<close>

lemma list_new_owns: "0 < n \<Longrightarrow> \<forall>a. nodes h a \<noteq> None \<longrightarrow> a < fresh h \<Longrightarrow>
   \<exists>l. list_new n f = Ret l \<and> owns h l [] [] \<and> tail_last l []"
  by (simp add: list_new_def owns_def tail_last_def)

lemma list_prepend_owns:
  assumes "owns h l as xs"
  shows "\<exists>l' h'. list_prepend l x h = Ret (l', h') \<and> owns h' l' (fresh h # as) (x # xs)
    \<and> l_tail l' = (if l_tail l = None then Some (fresh h) else l_tail l)"
proof -
  let ?h = "h\<lparr>nodes := (nodes h)(fresh h \<mapsto> \<lparr>n_data = x, n_next = l_head l\<rparr>), fresh := Suc (fresh h)\<rparr>"
  have "chain ?h (l_head l) as xs"
    using assms owns_fresh [OF assms] by (auto simp: owns_def intro: chain_cong)
  with assms owns_fresh [OF assms] show ?thesis
    by (auto simp: list_prepend_def new_node_def owns_def Let_def less_Suc_eq)
qed

lemma list_append_owns:
  assumes own: "owns h l as xs" and tl: "tail_last l as"
  shows "\<exists>l' h'. list_append l x h = Ret (l', h') \<and> owns h' l' (as @ [fresh h]) (xs @ [x])
    \<and> tail_last l' (as @ [fresh h])"
proof (cases as rule: rev_cases)
  case Nil
  with own have "xs = []" "l_length l = 0" by (auto simp: owns_def dest: chain_length)
  with Nil own show ?thesis
    by (auto simp: list_append_def new_node_def owns_def tail_last_def less_Suc_eq)
next
  case (snoc bs b)
  from own snoc obtain ys y where xs: "xs = ys @ [y]"
    and b: "nodes h b = Some \<lparr>n_data = y, n_next = None\<rparr>"
    using chain_last unfolding owns_def by blast
  have fr: "fresh h \<notin> set (bs @ [b])" using owns_fresh [OF own] snoc by simp
  let ?h = "h\<lparr>nodes := (nodes h)(fresh h \<mapsto> \<lparr>n_data = x, n_next = None\<rparr>,
      b \<mapsto> \<lparr>n_data = y, n_next = Some (fresh h)\<rparr>), fresh := Suc (fresh h)\<rparr>"
  have "chain ?h (l_head l) (bs @ [b, fresh h]) (ys @ [y, x])"
    using own fr snoc xs by (intro chain_snoc [where h = h]) (auto simp: owns_def)
  moreover have "list_append l x h =
      Ret (l\<lparr>l_tail := Some (fresh h), l_length := l_length l + 1\<rparr>, ?h)"
    using own tl snoc xs b fr
    by (auto simp: list_append_def new_node_def owns_def tail_last_def deref_def)
  moreover have "b < fresh h" using own b by (simp add: owns_def)
  ultimately show ?thesis
    using own fr snoc xs by (auto simp: owns_def tail_last_def less_Suc_eq)
qed

lemma list_head_owns:
  assumes "owns h l as xs"
  shows "list_head l rm h =
    (case xs of [] \<Rightarrow> Abort
     | x # xs' \<Rightarrow> if rm then Ret (x, l\<lparr>l_head := n_next (the (nodes h (hd as))), l_length := int (length xs')\<rparr>,
                                free_node (hd as) h)
                 else Ret (x, l, h))"
  using assms by (cases as; cases xs) (auto simp: owns_def list_head_def deref_def)

lemma list_remove_owns:
  assumes "owns h l as (x # xs)"
  shows "\<exists>l' h'. list_head l True h = Ret (x, l', h') \<and> owns h' l' (tl as) xs \<and> l_tail l' = l_tail l"
proof -
  obtain a bs q where as: "as = a # bs" "l_head l = Some a"
    "nodes h a = Some \<lparr>n_data = x, n_next = q\<rparr>" "chain h q bs xs"
    using assms by (cases as) (auto simp: owns_def)
  have "chain (free_node a h) q bs xs"
    using assms as by (auto simp: owns_def free_node_def intro: chain_cong)
  with assms as list_head_owns [OF assms, of True] show ?thesis
    by (auto simp: owns_def free_node_def)
qed

text \<open>Visiting the elements in order until the iterator says to stop.\<close>

primrec iterate :: "('a \<Rightarrow> 's \<Rightarrow> bool \<times> 's) \<Rightarrow> 'a list \<Rightarrow> 's \<Rightarrow> 's" where
  "iterate it [] s = s"
| "iterate it (x # xs) s = (case it x s of (r, s') \<Rightarrow> if r then iterate it xs s' else s')"

lemma list_for_each_iterate:
  assumes "chain h p as xs"
  shows "list_for_each_from it h p True s = Some (Ret (iterate it xs s))"
  using assms
proof (induction h p as xs arbitrary: s rule: chain.induct)
  case (2 h p a as x xs)
  then obtain q where "p = Some a" "nodes h a = Some \<lparr>n_data = x, n_next = q\<rparr>" "chain h q as xs"
    by auto
  with "2.IH" show ?case
    by (auto simp: list_for_each_from.simps [of _ h "Some a"] list_for_each_from.simps [of _ h _ False] deref_def
        split: prod.split)
qed (simp_all add: list_for_each_from.simps)

lemma list_for_each_owns:
  assumes "chain h p as xs"
  shows "list_for_each_from (\<lambda>x s. (True, f x s)) h p True s = Some (Ret (fold f xs s))"
proof -
  have "iterate (\<lambda>x s. (True, f x s)) xs s = fold f xs s" by (induction xs arbitrary: s) simp_all
  then show ?thesis using list_for_each_iterate [OF assms, of "\<lambda>x s. (True, f x s)" s] by simp
qed

lemma list_destroy_owns:
  assumes "chain h (l_head l) as xs" "distinct as"
  shows "\<exists>l' h'. list_destroy fr l h = Some (Ret (if l_freeFn l then fr @ xs else fr, l', h'))
    \<and> nodes h' = (\<lambda>a. if a \<in> set as then None else nodes h a)"
  using assms
proof (induction as arbitrary: h l xs fr)
  case Nil
  then show ?case by (cases xs) (auto simp: list_destroy.simps)
next
  case (Cons a as)
  then obtain x xs' q where xs: "xs = x # xs'" "l_head l = Some a"
    "nodes h a = Some \<lparr>n_data = x, n_next = q\<rparr>" "chain h q as xs'"
    by (cases xs) auto
  have "chain (free_node a h) q as xs'"
    using xs Cons.prems by (auto simp: free_node_def intro: chain_cong)
  with Cons.IH [of "free_node a h" "l\<lparr>l_head := q\<rparr>" xs' "if l_freeFn l then fr @ [x] else fr"] Cons.prems
  obtain l' h' where "list_destroy (if l_freeFn l then fr @ [x] else fr) (l\<lparr>l_head := q\<rparr>) (free_node a h)
      = Some (Ret (if l_freeFn l then fr @ x # xs' else fr, l', h'))"
    "nodes h' = (\<lambda>c. if c \<in> set as then None else nodes (free_node a h) c)"
    by auto
  with xs show ?case
    by (auto simp: list_destroy.simps [of _ l] deref_def fun_eq_iff)
qed

section \<open>First in first out, last in first out\<close>

primrec take_n :: "('q \<Rightarrow> ('a \<times> 'q) res) \<Rightarrow> nat \<Rightarrow> 'q \<Rightarrow> ('a list \<times> 'q) res" where
  "take_n deq 0 q = Ret ([], q)"
| "take_n deq (Suc n) q = rbind (deq q) (\<lambda>(x, q). rbind (take_n deq n q) (\<lambda>(xs, q). Ret (x # xs, q)))"

locale container =
  fixes count :: "'q \<Rightarrow> int"
    and holds :: "'q \<Rightarrow> 'a list \<Rightarrow> bool"
    and take_out :: "'q \<Rightarrow> ('a \<times> 'q) res"
    and peek :: "'q \<Rightarrow> ('a \<times> 'q) res"
  assumes count_holds: "holds q xs \<Longrightarrow> count q = int (length xs)"
    and take_holds: "holds q (x # xs) \<Longrightarrow> \<exists>q'. take_out q = Ret (x, q') \<and> holds q' xs"
    and take_empty: "holds q [] \<Longrightarrow> take_out q = Abort"
    and peek_holds: "holds q (x # xs) \<Longrightarrow> peek q = Ret (x, q)"
begin

lemma take_all: "holds q xs \<Longrightarrow> \<exists>q'. take_n take_out (length xs) q = Ret (xs, q') \<and> holds q' []"
proof (induction xs arbitrary: q)
  case (Cons x xs)
  then obtain q1 where "take_out q = Ret (x, q1)" "holds q1 xs" using take_holds by blast
  with Cons.IH [of q1] show ?case by auto
qed simp

lemma too_many: "holds q xs \<Longrightarrow> take_n take_out (Suc (length xs)) q = Abort"
proof (induction xs arbitrary: q)
  case Nil
  then show ?case by (simp add: take_empty)
next
  case (Cons x xs)
  then obtain q1 where "take_out q = Ret (x, q1)" "holds q1 xs" using take_holds by blast
  with Cons.IH [of q1] show ?case by simp
qed

end

locale fifo = container +
  fixes enq :: "'q \<Rightarrow> 'a \<Rightarrow> 'q res"
  assumes enq_holds: "holds q xs \<Longrightarrow> \<exists>q'. enq q x = Ret q' \<and> holds q' (xs @ [x])"
begin

lemma enq_all: "holds q xs \<Longrightarrow> \<exists>q'. add_all enq ys q = Ret q' \<and> holds q' (xs @ ys)"
proof (induction ys arbitrary: q xs)
  case (Cons y ys)
  then obtain q1 where "enq q y = Ret q1" "holds q1 (xs @ [y])" using enq_holds by blast
  with Cons.IH [of q1 "xs @ [y]"] show ?case by simp
qed simp

lemma in_order:
  assumes "holds q xs"
  shows "\<exists>q1 q2. add_all enq ys q = Ret q1 \<and> count q1 = int (length xs + length ys)
    \<and> take_n take_out (length xs + length ys) q1 = Ret (xs @ ys, q2) \<and> holds q2 []"
proof -
  obtain q1 where "add_all enq ys q = Ret q1" "holds q1 (xs @ ys)" using enq_all [OF assms] by blast
  with take_all [of q1 "xs @ ys"] count_holds [of q1 "xs @ ys"] show ?thesis by auto
qed

end

locale lifo = container +
  fixes push :: "'q \<Rightarrow> 'a \<Rightarrow> 'q res"
  assumes push_holds: "holds q xs \<Longrightarrow> \<exists>q'. push q x = Ret q' \<and> holds q' (x # xs)"
begin

lemma push_all: "holds q xs \<Longrightarrow> \<exists>q'. add_all push ys q = Ret q' \<and> holds q' (rev ys @ xs)"
proof (induction ys arbitrary: q xs)
  case (Cons y ys)
  then obtain q1 where "push q y = Ret q1" "holds q1 (y # xs)" using push_holds by blast
  with Cons.IH [of q1 "y # xs"] show ?case by simp
qed simp

lemma in_reverse:
  assumes "holds q xs"
  shows "\<exists>q1 q2. add_all push ys q = Ret q1 \<and> count q1 = int (length ys + length xs)
    \<and> take_n take_out (length ys + length xs) q1 = Ret (rev ys @ xs, q2) \<and> holds q2 []"
proof -
  obtain q1 where "add_all push ys q = Ret q1" "holds q1 (rev ys @ xs)" using push_all [OF assms] by blast
  with take_all [of q1 "rev ys @ xs"] count_holds [of q1 "rev ys @ xs"] show ?thesis by auto
qed

end

interpretation queue: fifo "\<lambda>(q, h). queue_size q" is_queue "\<lambda>(q, h). queue_dequeue q h"
  "\<lambda>(q, h). queue_peek q h" "\<lambda>(q, h) x. queue_enqueue q x h"
proof (unfold_locales; unfold is_queue_def)
  fix q :: "clist \<times> 'a heap" and x xs
  assume "(case q of (l, h) \<Rightarrow> \<lambda>xs. \<exists>as. owns h l as xs \<and> tail_last l as) (x # xs)"
  then obtain l h as where q: "q = (l, h)" "owns h l as (x # xs)" "tail_last l as"
    by (cases q) auto
  moreover have "as \<noteq> []" using q(2) by (auto simp: owns_def)
  ultimately have "tail_last l' (tl as)" if "l_tail l' = l_tail l" for l'
    using that by (auto simp: tail_last_def last_tl)
  with q list_remove_owns [OF q(2)]
  show "\<exists>q'. (case q of (q, h) \<Rightarrow> queue_dequeue q h) = Ret (x, q') \<and>
     (case q' of (l, h) \<Rightarrow> \<lambda>xs. \<exists>as. owns h l as xs \<and> tail_last l as) xs"
    by (fastforce simp: queue_dequeue_def)
  from q list_head_owns [OF q(2), of False]
  show "(case q of (q, h) \<Rightarrow> queue_peek q h) = Ret (x, q)"
    by (simp add: queue_peek_def)
next
  fix q :: "clist \<times> 'a heap" and x xs
  assume "(case q of (l, h) \<Rightarrow> \<lambda>xs. \<exists>as. owns h l as xs \<and> tail_last l as) xs"
  then obtain l h as where "q = (l, h)" "owns h l as xs" "tail_last l as" by (cases q) auto
  with list_append_owns [of h l as xs x]
  show "\<exists>q'. (case q of (q, h) \<Rightarrow> \<lambda>x. queue_enqueue q x h) x = Ret q' \<and>
     (case q' of (l, h) \<Rightarrow> \<lambda>xs. \<exists>as. owns h l as xs \<and> tail_last l as) (xs @ [x])"
    by (fastforce simp: queue_enqueue_def)
qed (auto simp: queue_size_def list_size_def owns_def queue_dequeue_def list_head_def dest: chain_length)

interpretation stack: lifo "\<lambda>(s, h). stack_size s" is_list "\<lambda>(s, h). stack_pop s h"
  "\<lambda>(s, h). stack_peek s h" "\<lambda>(s, h) x. stack_push s x h"
proof (unfold_locales; unfold is_list_def)
  fix s :: "clist \<times> 'a heap" and x xs
  assume "(case s of (l, h) \<Rightarrow> \<lambda>xs. \<exists>as. owns h l as xs) (x # xs)"
  then obtain l h as where s: "s = (l, h)" "owns h l as (x # xs)" by (cases s) auto
  moreover have "stack_size l > 0" using s(2) by (simp add: stack_size_def list_size_def owns_def)
  ultimately show "\<exists>q'. (case s of (s, h) \<Rightarrow> stack_pop s h) = Ret (x, q') \<and>
     (case q' of (l, h) \<Rightarrow> \<lambda>xs. \<exists>as. owns h l as xs) xs"
    and "(case s of (s, h) \<Rightarrow> stack_peek s h) = Ret (x, s)"
    using list_remove_owns [OF s(2)] list_head_owns [OF s(2), of False]
    by (fastforce simp: stack_pop_def stack_peek_def)+
next
  fix s :: "clist \<times> 'a heap" and x xs
  assume "(case s of (l, h) \<Rightarrow> \<lambda>xs. \<exists>as. owns h l as xs) xs"
  then obtain l h as where "s = (l, h)" "owns h l as xs" by (cases s) auto
  with list_prepend_owns [of h l as xs x]
  show "\<exists>q'. (case s of (s, h) \<Rightarrow> \<lambda>x. stack_push s x h) x = Ret q' \<and>
     (case q' of (l, h) \<Rightarrow> \<lambda>xs. \<exists>as. owns h l as xs) (x # xs)"
    by (fastforce simp: stack_push_def)
qed (auto simp: stack_size_def list_size_def owns_def stack_pop_def dest: chain_length)

section \<open>Properties\<close>

text \<open>The heap before any node is allocated.\<close>

definition empty_heap :: "'a heap" where
  "empty_heap = \<lparr>nodes = (\<lambda>_. None), fresh = 0\<rparr>"

lemma new_queue: "0 < n \<Longrightarrow> \<exists>q. queue_new n f = Ret q \<and> is_queue (q, empty_heap) []"
  using list_new_owns [of n empty_heap f]
  by (auto simp: queue_new_def is_queue_def empty_heap_def)

lemma new_stack: "0 < n \<Longrightarrow> \<exists>s. stack_new n f = Ret s \<and> is_list (s, empty_heap) []"
  using list_new_owns [of n empty_heap f]
  by (auto simp: stack_new_def is_list_def empty_heap_def)

text \<open>
  A queue returns what was put into it, first in first out: after any elements were enqueued on a
  new queue, dequeuing as many times returns them in order, and one more dequeue is caught by the
  assertion of \<open>list_head\<close>; no access goes through a dangling pointer.
\<close>

theorem queue_first_in_first_out:
  "0 < n \<Longrightarrow>
   \<exists>q q1 q2. queue_new n f = Ret q
     \<and> add_all (\<lambda>(q, h) x. queue_enqueue q x h) xs (q, empty_heap) = Ret q1
     \<and> queue_size (fst q1) = int (length xs)
     \<and> take_n (\<lambda>(q, h). queue_dequeue q h) (length xs) q1 = Ret (xs, q2) \<and> queue_size (fst q2) = 0
     \<and> take_n (\<lambda>(q, h). queue_dequeue q h) (Suc (length xs)) q1 = Abort"
proof -
  assume "0 < n"
  then obtain q where q: "queue_new n f = Ret q" "is_queue (q, empty_heap) ([] :: 'a list)"
    using new_queue by blast
  from queue.enq_all [OF q(2), of xs] obtain q1 where
    q1: "add_all (\<lambda>(q, h) x. queue_enqueue q x h) xs (q, empty_heap) = Ret q1" "is_queue q1 xs" by auto
  from queue.take_all [OF q1(2)] obtain q2 where
    q2: "take_n (\<lambda>(q, h). queue_dequeue q h) (length xs) q1 = Ret (xs, q2)" "is_queue q2 []" by blast
  have "queue_size (fst q1) = int (length xs)" "queue_size (fst q2) = 0"
    using queue.count_holds [OF q1(2)] queue.count_holds [OF q2(2)] by (simp_all add: case_prod_beta)
  with q(1) q1(1) q2(1) queue.too_many [OF q1(2)] show ?thesis by (metis length_rev)
qed

lemma queue_first_in_first_out_witness:
  "\<exists>q q1 q2. queue_new 4 False = Ret q
     \<and> add_all (\<lambda>(q, h) x. queue_enqueue q x h) [3, 1, 2 :: int] (q, empty_heap) = Ret q1
     \<and> take_n (\<lambda>(q, h). queue_dequeue q h) 3 q1 = Ret ([3, 1, 2], q2)"
  using queue_first_in_first_out [of 4 False "[3, 1, 2 :: int]"] by (auto simp: eval_nat_numeral)

text \<open>
  A stack returns what was pushed last first: after any elements were pushed on a new stack,
  popping as many times returns them in reverse, and one more pop is caught by the assertion.
\<close>

theorem stack_last_in_first_out:
  "0 < n \<Longrightarrow>
   \<exists>s s1 s2. stack_new n f = Ret s
     \<and> add_all (\<lambda>(s, h) x. stack_push s x h) xs (s, empty_heap) = Ret s1
     \<and> stack_size (fst s1) = int (length xs)
     \<and> take_n (\<lambda>(s, h). stack_pop s h) (length xs) s1 = Ret (rev xs, s2) \<and> stack_size (fst s2) = 0
     \<and> take_n (\<lambda>(s, h). stack_pop s h) (Suc (length xs)) s1 = Abort"
proof -
  assume "0 < n"
  then obtain s where s: "stack_new n f = Ret s" "is_list (s, empty_heap) ([] :: 'a list)"
    using new_stack by blast
  from stack.push_all [OF s(2), of xs] obtain s1 where
    s1: "add_all (\<lambda>(s, h) x. stack_push s x h) xs (s, empty_heap) = Ret s1" "is_list s1 (rev xs)" by auto
  from stack.take_all [OF s1(2)] obtain s2 where
    s2: "take_n (\<lambda>(s, h). stack_pop s h) (length xs) s1 = Ret (rev xs, s2)" "is_list s2 []" by auto
  have "stack_size (fst s1) = int (length xs)" "stack_size (fst s2) = 0"
    using stack.count_holds [OF s1(2)] stack.count_holds [OF s2(2)] by (simp_all add: case_prod_beta)
  with s(1) s1(1) s2(1) stack.too_many [OF s1(2)] show ?thesis by (metis length_rev)
qed

lemma stack_last_in_first_out_witness:
  "\<exists>s s1 s2. stack_new 4 True = Ret s
     \<and> add_all (\<lambda>(s, h) x. stack_push s x h) [3, 1, 2 :: int] (s, empty_heap) = Ret s1
     \<and> take_n (\<lambda>(s, h). stack_pop s h) 3 s1 = Ret ([2, 1, 3], s2)"
  using stack_last_in_first_out [of 4 True "[3, 1, 2 :: int]"] by (auto simp: eval_nat_numeral)

text \<open>
  C39: Destroying a list ends, calls \<open>freeFn\<close> once on each element from the head on when the list
  owns them, frees exactly the nodes of the list and touches no other node of the heap.
\<close>

theorem list_destroy_frees_once:
  "owns h l as xs \<Longrightarrow>
   \<exists>l' h'. list_destroy [] l h = Some (Ret (if l_freeFn l then xs else [], l', h'))
     \<and> nodes h' = (\<lambda>a. if a \<in> set as then None else nodes h a)"
  using list_destroy_owns [of h l as xs "[]"] by (auto simp: owns_def)

lemma list_destroy_frees_once_witness:
  "\<exists>l' h'. list_destroy [] \<lparr>l_length = 2, l_elementSize = 4, l_head = Some 0, l_tail = Some 1, l_freeFn = True\<rparr>
      \<lparr>nodes = [0 \<mapsto> \<lparr>n_data = (5::int), n_next = Some 1\<rparr>, 1 \<mapsto> \<lparr>n_data = 6, n_next = None\<rparr>], fresh = 2\<rparr>
    = Some (Ret ([5, 6], l', h')) \<and> nodes h' 0 = None \<and> nodes h' 1 = None"
proof -
  let ?l = "\<lparr>l_length = 2, l_elementSize = 4, l_head = Some 0, l_tail = Some 1, l_freeFn = True\<rparr>"
  let ?h = "\<lparr>nodes = [0 \<mapsto> \<lparr>n_data = (5::int), n_next = Some 1\<rparr>, 1 \<mapsto> \<lparr>n_data = 6, n_next = None\<rparr>], fresh = 2\<rparr>"
  have "owns ?h ?l [0, 1] [5, 6]" by (auto simp: owns_def split: if_splits)
  from list_destroy_frees_once [OF this] show ?thesis by auto
qed

text \<open>
  \<open>list_head\<close> with removal leaves \<open>tail\<close> alone: once the only node is removed, \<open>tail\<close> points to
  freed memory.  \<open>list_tail\<close> then reads it although the list is empty, and a prepend keeps the
  dangling pointer, so that the next append writes through it.
\<close>

theorem list_tail_dangles:
  "owns h l [a] [x] \<Longrightarrow> l_tail l = Some a \<Longrightarrow>
   \<exists>l1 h1 l2 h2. list_head l True h = Ret (x, l1, h1) \<and> list_size l1 = 0 \<and> list_tail l1 h1 = Undef
     \<and> list_prepend l1 y h1 = Ret (l2, h2) \<and> list_append l2 z h2 = Undef"
  by (auto simp: owns_def list_head_def list_tail_def list_size_def list_prepend_def list_append_def
      new_node_def deref_def free_node_def Let_def)

lemma list_tail_dangles_witness:
  "\<exists>l1 h1 l2 h2. list_head \<lparr>l_length = 1, l_elementSize = 4, l_head = Some 0, l_tail = Some 0, l_freeFn = False\<rparr> True
        \<lparr>nodes = [0 \<mapsto> \<lparr>n_data = (5::int), n_next = None\<rparr>], fresh = 1\<rparr> = Ret (5, l1, h1)
     \<and> list_tail l1 h1 = Undef \<and> list_prepend l1 6 h1 = Ret (l2, h2) \<and> list_append l2 7 h2 = Undef"
  using list_tail_dangles [of "\<lparr>nodes = [0 \<mapsto> \<lparr>n_data = (5::int), n_next = None\<rparr>], fresh = 1\<rparr>"
      "\<lparr>l_length = 1, l_elementSize = 4, l_head = Some 0, l_tail = Some 0, l_freeFn = False\<rparr>" 0 5 6 7]
  by (fastforce simp: owns_def split: if_splits)

end
