(* ===== verification/Map_DS.thy ===== *)
theory Map_DS
  imports Prelude "HOL-Library.Multiset"
begin

text \<open>
  The string-keyed map of \<^verbatim>\<open>broker/common/ds/implementation/map.c\<close>: an unbalanced binary search
  tree ordered by \<open>strcmp\<close>, with the larger keys on the left.  The tree is only reachable from its
  root, so it is modelled as a value; in-place updates rebuild the path to the node.
\<close>

section \<open>State and operations\<close>

datatype 'v mapNode = NULL | MapNode (left: "'v mapNode") (key: string) (val: 'v) (right: "'v mapNode")

record 'v map_t =
  m_length :: int
  m_elementSize :: int
  m_root :: "'v mapNode"
  m_freeFn :: bool

text \<open>\<open>strcmp\<close> compares as unsigned characters; only the sign of its result is specified.\<close>

fun strcmp :: "string \<Rightarrow> string \<Rightarrow> int" where
  "strcmp [] [] = 0"
| "strcmp [] (b # bs) = -1"
| "strcmp (a # as) [] = 1"
| "strcmp (a # as) (b # bs) =
     (if a = b then strcmp as bs else if (of_char a :: int) < of_char b then -1 else 1)"

fun map_free_node :: "bool \<Rightarrow> 'v mapNode \<Rightarrow> 'v list" where
  "map_free_node freeFn NULL = []"
| "map_free_node freeFn (MapNode l k x r) =
     map_free_node freeFn l @ map_free_node freeFn r @ (if freeFn then [x] else [])"

fun map_find_node :: "'v mapNode \<Rightarrow> string \<Rightarrow> 'v mapNode" where
  "map_find_node NULL k = NULL"
| "map_find_node (MapNode l k' x r) k =
     (let result = strcmp k' k in
      if result = 0 then MapNode l k' x r
      else if result < 0 then map_find_node l k
      else map_find_node r k)"

text \<open>The walk to a null child and the link to the new node below the last node visited.\<close>

fun map_insert_node :: "'v mapNode \<Rightarrow> 'v mapNode \<Rightarrow> 'v mapNode" where
  "map_insert_node NULL node = node"
| "map_insert_node (MapNode l k x r) node =
     (if strcmp k (key node) < 0 then MapNode (map_insert_node l node) k x r
      else MapNode l k x (map_insert_node r node))"

text \<open>\<open>memcpy(node->value, element, ...)\<close> on the node that \<open>map_find_node\<close> returns.\<close>

fun map_overwrite :: "'v mapNode \<Rightarrow> string \<Rightarrow> 'v \<Rightarrow> 'v mapNode" where
  "map_overwrite NULL k y = NULL"
| "map_overwrite (MapNode l k' x r) k y =
     (let result = strcmp k' k in
      if result = 0 then MapNode l k' y r
      else if result < 0 then MapNode (map_overwrite l k y) k' x r
      else MapNode l k' x (map_overwrite r k y))"

definition map_new :: "int \<Rightarrow> bool \<Rightarrow> 'v map_t res" where
  "map_new esize free =
     (if \<not> esize > 0 then Abort
      else Ret \<lparr>m_length = 0, m_elementSize = esize, m_root = NULL, m_freeFn = free\<rparr>)"

definition map_destroy :: "'v map_t \<Rightarrow> 'v list" where
  "map_destroy m = map_free_node (m_freeFn m) (m_root m)"

definition map_contains_key :: "'v map_t \<Rightarrow> string \<Rightarrow> bool" where
  "map_contains_key m k \<longleftrightarrow> map_find_node (m_root m) k \<noteq> NULL"

definition map_set :: "'v map_t \<Rightarrow> string \<Rightarrow> 'v \<Rightarrow> 'v map_t" where
  "map_set m k x =
     (if map_contains_key m k then m\<lparr>m_root := map_overwrite (m_root m) k x\<rparr>
      else let node = MapNode NULL k x NULL; m = m\<lparr>m_length := m_length m + 1\<rparr> in
        if m_root m = NULL then m\<lparr>m_root := node\<rparr>
        else m\<lparr>m_root := map_insert_node (m_root m) node\<rparr>)"

definition map_get :: "'v map_t \<Rightarrow> string \<Rightarrow> 'v res" where
  "map_get m k = (case map_find_node (m_root m) k of NULL \<Rightarrow> Abort | MapNode l k' x r \<Rightarrow> Ret x)"

definition map_size :: "'v map_t \<Rightarrow> int" where
  "map_size m = m_length m"

section \<open>The order of the keys\<close>

lemma strcmp_0_iff [simp]: "strcmp a b = 0 \<longleftrightarrow> a = b"
  by (induction a b rule: strcmp.induct) auto

lemma strcmp_refl [simp]: "strcmp a a = 0"
  by simp

lemma strcmp_swap: "strcmp a b = - strcmp b a"
  by (induction a b rule: strcmp.induct) auto

lemma strcmp_trans: "strcmp a b < 0 \<Longrightarrow> strcmp b c < 0 \<Longrightarrow> strcmp a c < 0"
proof (induction a b arbitrary: c rule: strcmp.induct)
  case (2 b bs)
  then show ?case by (cases c) auto
next
  case (4 a as b bs)
  then show ?case by (cases c) (auto split: if_splits)
qed auto

section \<open>Search trees\<close>

fun keys_of :: "'v mapNode \<Rightarrow> string set" where
  "keys_of NULL = {}"
| "keys_of (MapNode l k x r) = insert k (keys_of l \<union> keys_of r)"

fun ordered :: "'v mapNode \<Rightarrow> bool" where
  "ordered NULL \<longleftrightarrow> True"
| "ordered (MapNode l k x r) \<longleftrightarrow> ordered l \<and> ordered r
     \<and> (\<forall>k'\<in>keys_of l. strcmp k k' < 0) \<and> (\<forall>k'\<in>keys_of r. strcmp k k' > 0)"

fun look :: "'v mapNode \<Rightarrow> string \<rightharpoonup> 'v" where
  "look NULL k = None"
| "look (MapNode l k' x r) k = (if k = k' then Some x else case look l k of Some y \<Rightarrow> Some y | None \<Rightarrow> look r k)"

fun nodes_of :: "'v mapNode \<Rightarrow> nat" where
  "nodes_of NULL = 0"
| "nodes_of (MapNode l k x r) = Suc (nodes_of l + nodes_of r)"

fun vals_of :: "'v mapNode \<Rightarrow> 'v multiset" where
  "vals_of NULL = {#}"
| "vals_of (MapNode l k x r) = add_mset x (vals_of l + vals_of r)"

definition map_inv :: "'v map_t \<Rightarrow> bool" where
  "map_inv m \<longleftrightarrow> ordered (m_root m) \<and> m_length m = int (nodes_of (m_root m))"

lemma finite_keys_of [simp]: "finite (keys_of t)"
  by (induction t) auto

lemma look_None_iff: "look t k = None \<longleftrightarrow> k \<notin> keys_of t"
  by (induction t) (auto split: option.splits)

lemma dom_look: "dom (look t) = keys_of t"
  using look_None_iff [of t] by (auto simp: dom_def)

lemma ordered_notin:
  assumes "ordered (MapNode l k x r)"
  shows "strcmp k k' < 0 \<Longrightarrow> k' \<notin> keys_of r" and "strcmp k k' > 0 \<Longrightarrow> k' \<notin> keys_of l"
    and "k \<notin> keys_of l" and "k \<notin> keys_of r" and "keys_of l \<inter> keys_of r = {}"
  using assms by (fastforce dest: bspec)+

lemma card_keys_of: "ordered t \<Longrightarrow> card (keys_of t) = nodes_of t"
proof (induction t)
  case (MapNode l k x r)
  then show ?case using ordered_notin [OF MapNode.prems] by (simp add: card_Un_disjoint)
qed simp

lemma strcmp_cases:
  obtains (eq) "k = k'" | (less) "strcmp k' k < 0" "k \<noteq> k'" | (greater) "strcmp k' k > 0" "k \<noteq> k'"
  by (metis linorder_neqE_linordered_idom strcmp_0_iff)

lemma look_find:
  "ordered t \<Longrightarrow> look t k = (case map_find_node t k of NULL \<Rightarrow> None | MapNode l k' x r \<Rightarrow> Some x)"
proof (induction t)
  case (MapNode l k' x r)
  show ?case
  proof (cases rule: strcmp_cases [of k k'])
    case less
    then have "look r k = None"
      using ordered_notin(1) [OF MapNode.prems] by (simp add: look_None_iff)
    with less MapNode show ?thesis by (auto simp: Let_def split: option.splits)
  next
    case greater
    then have "look l k = None"
      using ordered_notin(2) [OF MapNode.prems] by (simp add: look_None_iff)
    with greater MapNode show ?thesis by (auto simp: Let_def)
  qed simp
qed simp

lemma keys_map_insert_node: "keys_of (map_insert_node t (MapNode NULL k x NULL)) = insert k (keys_of t)"
  by (induction t) auto

lemma keys_map_overwrite [simp]: "keys_of (map_overwrite t k y) = keys_of t"
  by (induction t) (auto simp: Let_def)

lemma nodes_map_overwrite [simp]: "nodes_of (map_overwrite t k y) = nodes_of t"
  by (induction t) (auto simp: Let_def)

lemma ordered_map_overwrite: "ordered t \<Longrightarrow> ordered (map_overwrite t k y)"
  by (induction t) (auto simp: Let_def)

lemma ordered_map_insert_node:
  "ordered t \<Longrightarrow> k \<notin> keys_of t \<Longrightarrow> ordered (map_insert_node t (MapNode NULL k x NULL))"
proof (induction t)
  case (MapNode l k' y r)
  then have "strcmp k' k \<noteq> 0" by auto
  then have "strcmp k' k < 0 \<or> strcmp k' k > 0" by linarith
  with MapNode show ?case by (auto simp: keys_map_insert_node)
qed simp

lemma nodes_map_insert_node: "nodes_of (map_insert_node t (MapNode NULL k x NULL)) = Suc (nodes_of t)"
  by (induction t) auto

lemma look_map_insert_node:
  "ordered t \<Longrightarrow> k \<notin> keys_of t \<Longrightarrow> look (map_insert_node t (MapNode NULL k x NULL)) = (look t)(k \<mapsto> x)"
proof (induction t)
  case (MapNode l k' y r)
  then have "look l k = None" "look r k = None" by (auto simp: look_None_iff)
  with MapNode show ?case by (auto simp: fun_eq_iff split: option.splits)
qed (auto simp: fun_eq_iff)

lemma look_map_overwrite:
  "ordered t \<Longrightarrow> k \<in> keys_of t \<Longrightarrow> look (map_overwrite t k y) = (look t)(k \<mapsto> y)"
proof (induction t)
  case (MapNode l k' x r)
  show ?case
  proof (cases rule: strcmp_cases [of k k'])
    case eq
    then show ?thesis by (auto simp: fun_eq_iff Let_def)
  next
    case less
    then have "k \<in> keys_of l" "look r k = None"
      using MapNode.prems ordered_notin(1) [OF MapNode.prems(1)] by (auto simp: look_None_iff)
    with less MapNode show ?thesis by (auto simp: fun_eq_iff Let_def split: option.splits)
  next
    case greater
    then have "k \<in> keys_of r" "look l k = None"
      using MapNode.prems ordered_notin(2) [OF MapNode.prems(1)] by (auto simp: look_None_iff)
    with greater MapNode show ?thesis by (auto simp: fun_eq_iff Let_def split: option.splits)
  qed
qed simp

lemma map_contains_key_look: "map_inv m \<Longrightarrow> map_contains_key m k \<longleftrightarrow> look (m_root m) k \<noteq> None"
  using look_find [of "m_root m" k]
  by (auto simp: map_contains_key_def map_inv_def split: mapNode.splits)

lemma map_get_look:
  "map_inv m \<Longrightarrow> map_get m k = (case look (m_root m) k of None \<Rightarrow> Abort | Some x \<Rightarrow> Ret x)"
  using look_find [of "m_root m" k]
  by (auto simp: map_get_def map_inv_def split: mapNode.splits)

lemma map_set_inv:
  assumes "map_inv m"
  shows "map_inv (map_set m k x) \<and> look (m_root (map_set m k x)) = (look (m_root m))(k \<mapsto> x)"
proof (cases "map_contains_key m k")
  case True
  then have "k \<in> keys_of (m_root m)"
    using map_contains_key_look [OF assms] dom_look [of "m_root m"] by (auto simp: dom_def)
  with True assms show ?thesis
    by (simp add: map_set_def map_inv_def ordered_map_overwrite look_map_overwrite)
next
  case False
  then have "k \<notin> keys_of (m_root m)"
    using map_contains_key_look [OF assms] by (simp add: look_None_iff)
  with False assms show ?thesis
    by (auto simp: map_set_def map_inv_def Let_def ordered_map_insert_node nodes_map_insert_node
        look_map_insert_node fun_eq_iff)
qed

lemma map_size_card: "map_inv m \<Longrightarrow> map_size m = int (card (dom (look (m_root m))))"
  by (simp add: map_size_def map_inv_def dom_look card_keys_of)

lemma map_free_node_all: "mset (map_free_node True t) = vals_of t"
  by (induction t) (auto simp: ac_simps)

section \<open>The interface of a key-value store\<close>

locale kv_store =
  fixes put :: "'m \<Rightarrow> 'k \<Rightarrow> 'v \<Rightarrow> 'm"
    and get :: "'m \<Rightarrow> 'k \<Rightarrow> 'v res"
    and has :: "'m \<Rightarrow> 'k \<Rightarrow> bool"
    and count :: "'m \<Rightarrow> int"
    and inv :: "'m \<Rightarrow> bool"
    and view :: "'m \<Rightarrow> 'k \<rightharpoonup> 'v"
  assumes put_inv: "inv m \<Longrightarrow> inv (put m k x)"
    and put_view: "inv m \<Longrightarrow> view (put m k x) = (view m)(k \<mapsto> x)"
    and get_view: "inv m \<Longrightarrow> get m k = (case view m k of None \<Rightarrow> Abort | Some x \<Rightarrow> Ret x)"
    and has_view: "inv m \<Longrightarrow> has m k \<longleftrightarrow> view m k \<noteq> None"
    and count_view: "inv m \<Longrightarrow> count m = int (card (dom (view m)))"
begin

lemma put_all: "inv m \<Longrightarrow> inv (fold (\<lambda>(k, x) m. put m k x) kvs m)
    \<and> view (fold (\<lambda>(k, x) m. put m k x) kvs m) = view m ++ map_of (rev kvs)"
proof (induction kvs arbitrary: m)
  case (Cons kv kvs)
  then show ?case
    by (cases kv) (auto simp: put_inv put_view map_add_def fun_eq_iff split: option.splits)
qed simp

text \<open>After any sequence of stores, the last value stored under a key is the one read.\<close>

lemma last_put_wins:
  assumes "inv m" "view m = Map.empty" "m' = fold (\<lambda>(k, x) m. put m k x) kvs m"
  shows "get m' k = (case map_of (rev kvs) k of None \<Rightarrow> Abort | Some x \<Rightarrow> Ret x)
    \<and> (has m' k \<longleftrightarrow> k \<in> fst ` set kvs) \<and> count m' = int (card (fst ` set kvs))"
proof -
  have inv: "inv m'" and view: "view m' = map_of (rev kvs)"
    using put_all [OF assms(1), of kvs] assms(2,3) by simp_all
  have "map_of (rev kvs) k \<noteq> None \<longleftrightarrow> k \<in> fst ` set kvs"
    by (simp add: map_of_eq_None_iff)
  then show ?thesis
    by (simp add: get_view [OF inv] has_view [OF inv] count_view [OF inv] view dom_map_of_conv_image_fst)
qed

end

interpretation strmap: kv_store map_set map_get map_contains_key map_size map_inv "\<lambda>m. look (m_root m)"
  by unfold_locales (simp_all add: map_set_inv map_get_look map_contains_key_look map_size_card)

section \<open>Properties\<close>

text \<open>
  C38: After any sequence of \<open>map_set\<close> on a new map, \<open>map_get\<close> returns the value stored last under a
  key and aborts for a key never stored, \<open>map_contains_key\<close> tells which keys were stored, and
  \<open>map_size\<close> counts the different ones.
\<close>

theorem map_last_set_wins:
  "0 < n \<Longrightarrow> \<exists>m0. map_new n f = Ret m0 \<and>
   (let m = fold (\<lambda>(k, x) m. map_set m k x) kvs m0 in
      map_get m k = (case map_of (rev kvs) k of None \<Rightarrow> Abort | Some x \<Rightarrow> Ret x)
      \<and> (map_contains_key m k \<longleftrightarrow> k \<in> fst ` set kvs) \<and> map_size m = int (card (fst ` set kvs)))"
proof -
  assume n: "0 < n"
  let ?m0 = "\<lparr>m_length = 0, m_elementSize = n, m_root = NULL, m_freeFn = f\<rparr>"
  have new: "map_new n f = Ret ?m0" and inv: "map_inv ?m0" and view: "look (m_root ?m0) = Map.empty"
    using n by (simp_all add: map_new_def map_inv_def fun_eq_iff)
  from strmap.last_put_wins [OF inv view refl, of kvs k] new show ?thesis by (auto simp: Let_def)
qed

lemma map_last_set_wins_witness:
  "\<exists>m0. map_new 4 False = Ret m0 \<and>
    (let m = fold (\<lambda>(k, x) m. map_set m k x) [(''b'', 1), (''a'', 2), (''b'', 3 :: int)] m0 in
       map_get m ''b'' = Ret 3 \<and> map_contains_key m ''b'')"
  using map_last_set_wins [of 4 False "[(''b'', 1), (''a'', 2), (''b'', 3 :: int)]" "''b''"]
  by (auto simp: Let_def)

text \<open>
  Destroying a map that owns its values frees each stored value exactly once.
\<close>

theorem map_destroy_frees_all:
  "m_freeFn m \<Longrightarrow> mset (map_destroy m) = vals_of (m_root m)
    \<and> int (length (map_destroy m)) = int (nodes_of (m_root m))"
proof -
  assume f: "m_freeFn m"
  have "length (map_free_node True t) = nodes_of t" for t :: "'a mapNode" by (induction t) auto
  with f show ?thesis by (simp add: map_destroy_def map_free_node_all)
qed

lemma map_destroy_frees_all_witness:
  "mset (map_destroy \<lparr>m_length = 2, m_elementSize = 4,
      m_root = MapNode (MapNode NULL ''b'' (1::int) NULL) ''a'' 2 NULL, m_freeFn = True\<rparr>) = {#1, 2#}"
  using map_destroy_frees_all [of "\<lparr>m_length = 2, m_elementSize = 4,
      m_root = MapNode (MapNode NULL ''b'' (1::int) NULL) ''a'' 2 NULL, m_freeFn = True\<rparr>"] by simp

end
