(* ===== verification/Ipc.thy ===== *)
theory Ipc
  imports Prelude
begin

text \<open>
  The operating-system state that a process of the system sees, and the wrappers of
  \<^verbatim>\<open>broker/common/ipc/\<close> (semaphore.c, shm.c, msg_queue.c) around the System V calls.
  Every system call takes one outcome from the list \<open>env\<close>, which a theorem quantifies over:
  \<open>Fail\<close> makes the call return its error code, \<open>Part k\<close> is a short read or write of a socket,
  and an exhausted list means that calls succeed.  Logging has no effect on the state and is left
  out; queues have no capacity limit.
\<close>

section \<open>State\<close>

datatype outcome = Ok | Fail | Part nat

text \<open>A System V name space: keys, objects by identifier, and the next fresh identifier.\<close>

record 'a ipc =
  ipc_keys :: "int \<rightharpoonup> int"
  ipc_objs :: "int \<rightharpoonup> 'a"
  ipc_next :: int

text \<open>
  The state of one host: \<open>'m\<close> is the type of queued messages, \<open>'s\<close> the type of shared memory
  contents.  \<open>files\<close> and \<open>dirs\<close> are the file system, by path component.  \<open>dirkey\<close> is what \<open>ftok\<close> derives from the file \<open>DIRECTORY\<close>.  A socket \<open>fd\<close> is the
  list \<open>sent fd\<close> of bytes written to it, the number \<open>got fd\<close> of bytes read from it, and the
  behaviour \<open>peer fd\<close> of the process at the other end: all bytes it has sent as a function of
  all bytes it was sent.
\<close>

record ('m, 's) world =
  env :: "outcome list"
  dirkey :: int
  sems :: "int ipc"
  shms :: "'s ipc"
  queues :: "'m list ipc"
  files :: "(string list \<times> string) list"
  dirs :: "string list list"
  sent :: "int \<Rightarrow> char list"
  got :: "int \<Rightarrow> nat"
  peer :: "int \<Rightarrow> char list \<Rightarrow> char list"

text \<open>A host that has just started: nothing exists yet and no call fails.\<close>

definition idle_host :: "('m, 's) world" where
  "idle_host = \<lparr>env = [], dirkey = 1, sems = \<lparr>ipc_keys = (\<lambda>_. None), ipc_objs = (\<lambda>_. None), ipc_next = 0\<rparr>,
     shms = \<lparr>ipc_keys = (\<lambda>_. None), ipc_objs = (\<lambda>_. None), ipc_next = 0\<rparr>,
     queues = \<lparr>ipc_keys = (\<lambda>_. None), ipc_objs = (\<lambda>_. None), ipc_next = 0\<rparr>,
     files = [], dirs = [[]], sent = (\<lambda>_. []), got = (\<lambda>_. 0), peer = (\<lambda>_ _. [])\<rparr>"

section \<open>System calls\<close>

fun next_outcome :: "outcome list \<Rightarrow> outcome" where
  "next_outcome [] = Ok"
| "next_outcome (x # xs) = x"

definition syscall :: "(('m, 's) world, outcome) prog" where
  "syscall w = (Ret (next_outcome (env w)), w\<lparr>env := tl (env w)\<rparr>)"

lemma wp_syscall [wp, simp]:
  "wp syscall Q w = Q (Ret (next_outcome (env w))) (w\<lparr>env := tl (env w)\<rparr>)"
  by (simp add: wp_def syscall_def)

text \<open>
  A value the C code leaves indeterminate (a function that ends without \<open>return\<close>): the
  environment chooses it.
\<close>

definition indeterminate :: "(('m, 's) world, int) prog" where
  "indeterminate = bnd syscall (\<lambda>x. ret (case x of Ok \<Rightarrow> 0 | Fail \<Rightarrow> -1 | Part k \<Rightarrow> int k))"

subsection \<open>Name spaces\<close>

definition ipc_create :: "'a \<Rightarrow> int \<Rightarrow> 'a ipc \<Rightarrow> int \<times> 'a ipc" where
  "ipc_create x k t =
     (case ipc_keys t k of
        Some _ \<Rightarrow> (-1, t)
      | None \<Rightarrow> (ipc_next t,
          t\<lparr>ipc_keys := (ipc_keys t)(k \<mapsto> ipc_next t),
            ipc_objs := (ipc_objs t)(ipc_next t \<mapsto> x),
            ipc_next := ipc_next t + 1\<rparr>))"

definition ipc_get :: "int \<Rightarrow> 'a ipc \<Rightarrow> int" where
  "ipc_get k t = (case ipc_keys t k of None \<Rightarrow> -1 | Some i \<Rightarrow> i)"

definition ipc_remove :: "int \<Rightarrow> 'a ipc \<Rightarrow> int \<times> 'a ipc" where
  "ipc_remove i t =
     (case ipc_objs t i of
        None \<Rightarrow> (-1, t)
      | Some _ \<Rightarrow> (0,
          t\<lparr>ipc_keys := (\<lambda>k. if ipc_keys t k = Some i then None else ipc_keys t k),
            ipc_objs := (ipc_objs t)(i := None)\<rparr>))"

definition ipc_put :: "int \<Rightarrow> 'a \<Rightarrow> 'a ipc \<Rightarrow> 'a ipc" where
  "ipc_put i x t = t\<lparr>ipc_objs := (ipc_objs t)(i \<mapsto> x)\<rparr>"

lemma ipc_put_simps [simp]:
  "ipc_keys (ipc_put i x t) = ipc_keys t"
  "ipc_objs (ipc_put i x t) = (ipc_objs t)(i \<mapsto> x)"
  "ipc_next (ipc_put i x t) = ipc_next t"
  "ipc_get k (ipc_put i x t) = ipc_get k t"
  "ipc_put i x (ipc_put i y t) = ipc_put i x t"
  by (simp_all add: ipc_put_def ipc_get_def)

lemma ipc_put_same [simp]: "ipc_objs t i = Some x \<Longrightarrow> ipc_put i x t = t"
  by (simp add: ipc_put_def fun_upd_idem)

text \<open>
  \<open>ftok\<close> builds a key from the low 8 bits of the project number and 24 bits of the file; a
  project number above 127 makes the key negative, which the callers take for an error.
\<close>

definition ftok_key :: "int \<Rightarrow> int \<Rightarrow> int" where
  "ftok_key base i = int_of_long ((i mod 256) * 16777216 + base)"

definition ftok :: "int \<Rightarrow> (('m, 's) world, int) prog" where
  "ftok i = bnd syscall (\<lambda>x. if x = Fail then ret (-1) else gets (\<lambda>w. ftok_key (dirkey w) i))"

definition wf_base :: "int \<Rightarrow> bool" where
  "wf_base b \<longleftrightarrow> 0 \<le> b \<and> b < 16777216"

lemma ftok_key_nonneg:
  assumes "wf_base b" "0 \<le> i" "i < 128"
  shows "ftok_key b i = i * 16777216 + b \<and> 0 \<le> ftok_key b i"
proof -
  have "is_int32 (i * 16777216 + b)"
    using assms by (simp add: is_int32_def wf_base_def)
  then show ?thesis using assms by (simp add: ftok_key_def wf_base_def)
qed

lemma ftok_key_eq_iff:
  assumes "wf_base b" "0 \<le> i" "i < 128" "0 \<le> j" "j < 128"
  shows "ftok_key b i = ftok_key b j \<longleftrightarrow> i = j"
  using assms ftok_key_nonneg [of b i] ftok_key_nonneg [of b j] by auto

section \<open>Semaphores (semaphore.c)\<close>

definition creasem :: "int \<Rightarrow> (('m, 's) world, int) prog" where
  "creasem identif =
     bnd (ftok identif) (\<lambda>clave.
     if clave < 0 then ret (-1)
     else bnd syscall (\<lambda>x.
     if x = Fail then ret (-1)
     else (\<lambda>w. case ipc_create 0 clave (sems w) of (i, t) \<Rightarrow> (Ret i, w\<lparr>sems := t\<rparr>))))"

definition getsem :: "int \<Rightarrow> (('m, 's) world, int) prog" where
  "getsem identif =
     bnd (ftok identif) (\<lambda>clave.
     if clave < 0 then ret (-1)
     else bnd syscall (\<lambda>x.
     if x = Fail then ret (-1) else gets (\<lambda>w. ipc_get clave (sems w))))"

definition inisem :: "int \<Rightarrow> int \<Rightarrow> (('m, 's) world, int) prog" where
  "inisem semid n =
     bnd syscall (\<lambda>x w.
       if x = Fail \<or> ipc_objs (sems w) semid = None then (Ret (-1), w)
       else (Ret 0, w\<lparr>sems := ipc_put semid n (sems w)\<rparr>))"

definition sem_p :: "int \<Rightarrow> (('m, 's) world, int) prog" where
  "sem_p semid =
     bnd syscall (\<lambda>x w.
       if x = Fail then (Exit (-1), w)
       else case ipc_objs (sems w) semid of
         None \<Rightarrow> (Exit (-1), w)
       | Some n \<Rightarrow> if n > 0 then (Ret 1, w\<lparr>sems := ipc_put semid (n - 1) (sems w)\<rparr>) else (Blocked, w))"

definition sem_v :: "int \<Rightarrow> (('m, 's) world, int) prog" where
  "sem_v semid =
     bnd syscall (\<lambda>x w.
       if x = Fail then (Exit (-1), w)
       else case ipc_objs (sems w) semid of
         None \<Rightarrow> (Exit (-1), w)
       | Some n \<Rightarrow> (Ret 1, w\<lparr>sems := ipc_put semid (n + 1) (sems w)\<rparr>))"

definition delsem :: "int \<Rightarrow> (('m, 's) world, int) prog" where
  "delsem semid =
     bnd syscall (\<lambda>x w.
       if x = Fail then (Ret (-1), w)
       else case ipc_remove semid (sems w) of (r, t) \<Rightarrow> (Ret r, w\<lparr>sems := t\<rparr>))"

section \<open>Shared memory (shm.c)\<close>

text \<open>A mapped segment is addressed by its identifier; a fresh segment holds zeros.\<close>

definition creashm :: "int \<Rightarrow> 's \<Rightarrow> (('m, 's) world, int) prog" where
  "creashm i zeros =
     bnd (ftok i) (\<lambda>clave.
     if clave < 0 then ret (-1)
     else bnd syscall (\<lambda>x.
     if x = Fail then ret (-1)
     else (\<lambda>w. case ipc_create zeros clave (shms w) of (j, t) \<Rightarrow> (Ret j, w\<lparr>shms := t\<rparr>))))"

definition getshm :: "int \<Rightarrow> (('m, 's) world, int) prog" where
  "getshm i =
     bnd (ftok i) (\<lambda>clave.
     if clave < 0 then ret (-1)
     else bnd syscall (\<lambda>x.
     if x = Fail then ret (-1) else gets (\<lambda>w. ipc_get clave (shms w))))"

definition shm_map :: "int \<Rightarrow> (('m, 's) world, int) prog" where
  "shm_map i =
     bnd syscall (\<lambda>x w.
       if x = Fail \<or> ipc_objs (shms w) i = None then (Exit (-1), w) else (Ret i, w))"

definition shm_unmap :: "int \<Rightarrow> (('m, 's) world, int) prog" where
  "shm_unmap addr = bnd syscall (\<lambda>x. if x = Fail then ret (-1) else ret 0)"

definition delshm :: "int \<Rightarrow> (('m, 's) world, int) prog" where
  "delshm i =
     bnd syscall (\<lambda>x w.
       if x = Fail then (Ret (-1), w)
       else case ipc_remove i (shms w) of (r, t) \<Rightarrow> (Ret r, w\<lparr>shms := t\<rparr>))"

text \<open>Reading and writing through the mapped pointer.\<close>

definition shm_load :: "int \<Rightarrow> (('m, 's) world, 's) prog" where
  "shm_load addr w = (case ipc_objs (shms w) addr of None \<Rightarrow> (Undef, w) | Some x \<Rightarrow> (Ret x, w))"

definition shm_store :: "int \<Rightarrow> 's \<Rightarrow> (('m, 's) world, unit) prog" where
  "shm_store addr x w =
     (case ipc_objs (shms w) addr of None \<Rightarrow> (Undef, w)
      | Some _ \<Rightarrow> (Ret (), w\<lparr>shms := ipc_put addr x (shms w)\<rparr>))"

section \<open>Message queues (msg_queue.c)\<close>

text \<open>
  \<open>msgrcv\<close> with type 0 takes the first message, with a positive type the first message of that
  type, with a negative one the first message of the lowest type not above its absolute value.
\<close>

fun take_first :: "('m \<Rightarrow> bool) \<Rightarrow> 'm list \<Rightarrow> ('m \<times> 'm list) option" where
  "take_first P [] = None"
| "take_first P (m # ms) = (if P m then Some (m, ms) else map_option (\<lambda>(x, r). (x, m # r)) (take_first P ms))"

definition take_msg :: "('m \<Rightarrow> int) \<Rightarrow> int \<Rightarrow> 'm list \<Rightarrow> ('m \<times> 'm list) option" where
  "take_msg mt ty q =
     (if ty = 0 then take_first (\<lambda>_. True) q
      else if ty > 0 then take_first (\<lambda>m. mt m = ty) q
      else take_first (\<lambda>m. mt m \<le> - ty \<and> (\<forall>x\<in>set q. mt x \<le> - ty \<longrightarrow> mt m \<le> mt x)) q)"

definition creamsg :: "int \<Rightarrow> (('m, 's) world, int) prog" where
  "creamsg i =
     bnd (ftok i) (\<lambda>clave.
     if clave < 0 then ret (-1)
     else bnd syscall (\<lambda>x.
     if x = Fail then ret (-1)
     else (\<lambda>w. case ipc_create [] clave (queues w) of (j, t) \<Rightarrow> (Ret j, w\<lparr>queues := t\<rparr>))))"

definition getmsg :: "int \<Rightarrow> (('m, 's) world, int) prog" where
  "getmsg i =
     bnd (ftok i) (\<lambda>clave.
     if clave < 0 then ret (-1)
     else bnd syscall (\<lambda>x.
     if x = Fail then ret (-1) else gets (\<lambda>w. ipc_get clave (queues w))))"

text \<open>\<open>msgsnd\<close> refuses a message whose type is not positive (EINVAL).\<close>

definition sendmsg :: "('m \<Rightarrow> int) \<Rightarrow> int \<Rightarrow> 'm \<Rightarrow> (('m, 's) world, int) prog" where
  "sendmsg mt i m =
     bnd syscall (\<lambda>x w.
       if x = Fail then (Ret (-1), w)
       else case ipc_objs (queues w) i of
         None \<Rightarrow> (Ret (-1), w)
       | Some q \<Rightarrow> if mt m \<le> 0 then (Ret (-1), w)
                   else (Ret 0, w\<lparr>queues := ipc_put i (q @ [m]) (queues w)\<rparr>))"

text \<open>The buffer \<open>buf\<close> of the caller is returned unchanged when nothing was received.\<close>

definition rcvmsg :: "('m \<Rightarrow> int) \<Rightarrow> int \<Rightarrow> 'm \<Rightarrow> int \<Rightarrow> (('m, 's) world, int \<times> 'm) prog" where
  "rcvmsg mt i buf ty =
     bnd syscall (\<lambda>x w.
       if x = Fail then (Ret (-1, buf), w)
       else case ipc_objs (queues w) i of
         None \<Rightarrow> (Ret (-1, buf), w)
       | Some q \<Rightarrow> (case take_msg mt ty q of
           None \<Rightarrow> (Blocked, w)
         | Some (m, q') \<Rightarrow> (Ret (0, m), w\<lparr>queues := ipc_put i q' (queues w)\<rparr>)))"

definition rcvmsg_no_wait :: "('m \<Rightarrow> int) \<Rightarrow> int \<Rightarrow> 'm \<Rightarrow> int \<Rightarrow> (('m, 's) world, int \<times> 'm) prog" where
  "rcvmsg_no_wait mt i buf ty =
     bnd syscall (\<lambda>x w.
       if x = Fail then (Ret (-1, buf), w)
       else case ipc_objs (queues w) i of
         None \<Rightarrow> (Ret (-1, buf), w)
       | Some q \<Rightarrow> (case take_msg mt ty q of
           None \<Rightarrow> (Ret (0, buf), w)
         | Some (m, q') \<Rightarrow> (Ret (1, m), w\<lparr>queues := ipc_put i q' (queues w)\<rparr>)))"

definition delmsg :: "int \<Rightarrow> (('m, 's) world, int) prog" where
  "delmsg i =
     bnd syscall (\<lambda>x w.
       if x = Fail then (Ret (-1), w)
       else case ipc_remove i (queues w) of (r, t) \<Rightarrow> (Ret r, w\<lparr>queues := t\<rparr>))"

section \<open>Weakest preconditions of the wrappers\<close>

abbreviation adv :: "('m, 's) world \<Rightarrow> ('m, 's) world" where
  "adv w \<equiv> w\<lparr>env := tl (env w)\<rparr>"

lemma env_idle [simp]: "env w = [] \<Longrightarrow> w\<lparr>env := []\<rparr> = w"
  by simp

abbreviation failing :: "('m, 's) world \<Rightarrow> bool" where
  "failing w \<equiv> next_outcome (env w) = Fail"

lemma wp_indeterminate [wp]:
  "wp indeterminate Q w = Q (Ret (case next_outcome (env w) of Ok \<Rightarrow> 0 | Fail \<Rightarrow> -1 | Part k \<Rightarrow> int k)) (adv w)"
  by (simp add: indeterminate_def)

lemma ftok_key_simps [simp]:
  "wf_base b \<Longrightarrow> 0 \<le> i \<Longrightarrow> i < 128 \<Longrightarrow> 0 \<le> ftok_key b i"
  "wf_base b \<Longrightarrow> 0 \<le> i \<Longrightarrow> i < 128 \<Longrightarrow> \<not> ftok_key b i < 0"
  "wf_base b \<Longrightarrow> 0 \<le> i \<Longrightarrow> i < 128 \<Longrightarrow> 0 \<le> j \<Longrightarrow> j < 128 \<Longrightarrow> ftok_key b i = ftok_key b j \<longleftrightarrow> i = j"
  using ftok_key_nonneg [of b i] ftok_key_eq_iff [of b i j] by auto

lemma wf_base_1 [simp]: "wf_base 1"
  by (simp add: wf_base_def)

text \<open>Keys are unused in a name space, and identifiers are below the next one.\<close>

definition free_key :: "int \<Rightarrow> 'a ipc \<Rightarrow> bool" where
  "free_key k t \<longleftrightarrow> ipc_keys t k = None \<and> 0 \<le> ipc_next t"

lemma idle_host_simps [simp]:
  "env idle_host = []" "dirkey idle_host = 1" "free_key k (sems idle_host)" "free_key k (shms idle_host)"
  "free_key k (queues idle_host)" "wf_base (dirkey idle_host)"
  by (simp_all add: idle_host_def free_key_def wf_base_def)

lemma wp_ftok [wp]:
  "wp (ftok i) Q w = (if failing w then Q (Ret (-1)) (adv w) else Q (Ret (ftok_key (dirkey w) i)) (adv w))"
  by (simp add: ftok_def)

lemma wp_creasem [wp]:
  "wp (creasem i) Q w =
     (if failing w \<or> ftok_key (dirkey w) i < 0 then Q (Ret (-1)) (adv w)
      else if failing (adv w) then Q (Ret (-1)) (adv (adv w))
      else case ipc_create 0 (ftok_key (dirkey w) i) (sems w) of
        (j, t) \<Rightarrow> Q (Ret j) (w\<lparr>env := tl (tl (env w)), sems := t\<rparr>))"
  by (simp add: creasem_def wp_def ftok_def syscall_def bnd_def ret_def gets_def split: prod.split)

lemma wp_creashm [wp]:
  "wp (creashm i z) Q w =
     (if failing w \<or> ftok_key (dirkey w) i < 0 then Q (Ret (-1)) (adv w)
      else if failing (adv w) then Q (Ret (-1)) (adv (adv w))
      else case ipc_create z (ftok_key (dirkey w) i) (shms w) of
        (j, t) \<Rightarrow> Q (Ret j) (w\<lparr>env := tl (tl (env w)), shms := t\<rparr>))"
  by (simp add: creashm_def wp_def ftok_def syscall_def bnd_def ret_def gets_def split: prod.split)

lemma wp_creamsg [wp]:
  "wp (creamsg i) Q w =
     (if failing w \<or> ftok_key (dirkey w) i < 0 then Q (Ret (-1)) (adv w)
      else if failing (adv w) then Q (Ret (-1)) (adv (adv w))
      else case ipc_create [] (ftok_key (dirkey w) i) (queues w) of
        (j, t) \<Rightarrow> Q (Ret j) (w\<lparr>env := tl (tl (env w)), queues := t\<rparr>))"
  by (simp add: creamsg_def wp_def ftok_def syscall_def bnd_def ret_def gets_def split: prod.split)

lemma wp_inisem [wp]:
  "wp (inisem s n) Q w =
     (if failing w \<or> ipc_objs (sems w) s = None then Q (Ret (-1)) (adv w)
      else Q (Ret 0) (w\<lparr>env := tl (env w), sems := ipc_put s n (sems w)\<rparr>))"
  by (simp add: inisem_def wp_def syscall_def bnd_def)

lemma wp_delsem [wp]:
  "wp (delsem s) Q w =
     (if failing w then Q (Ret (-1)) (adv w)
      else case ipc_remove s (sems w) of (r, t) \<Rightarrow> Q (Ret r) (w\<lparr>env := tl (env w), sems := t\<rparr>))"
  by (simp add: delsem_def wp_def syscall_def bnd_def split: prod.split)

lemma wp_delshm [wp]:
  "wp (delshm s) Q w =
     (if failing w then Q (Ret (-1)) (adv w)
      else case ipc_remove s (shms w) of (r, t) \<Rightarrow> Q (Ret r) (w\<lparr>env := tl (env w), shms := t\<rparr>))"
  by (simp add: delshm_def wp_def syscall_def bnd_def split: prod.split)

lemma wp_delmsg [wp]:
  "wp (delmsg s) Q w =
     (if failing w then Q (Ret (-1)) (adv w)
      else case ipc_remove s (queues w) of (r, t) \<Rightarrow> Q (Ret r) (w\<lparr>env := tl (env w), queues := t\<rparr>))"
  by (simp add: delmsg_def wp_def syscall_def bnd_def split: prod.split)

lemma wp_sem_p [wp]:
  "wp (sem_p s) Q w =
     (if failing w then Q (Exit (-1)) (adv w)
      else case ipc_objs (sems w) s of
        None \<Rightarrow> Q (Exit (-1)) (adv w)
      | Some n \<Rightarrow> if n > 0 then Q (Ret 1) (w\<lparr>env := tl (env w), sems := ipc_put s (n - 1) (sems w)\<rparr>)
                  else Q Blocked (adv w))"
  by (simp add: sem_p_def wp_def syscall_def bnd_def split: option.split)

lemma wp_sem_v [wp]:
  "wp (sem_v s) Q w =
     (if failing w then Q (Exit (-1)) (adv w)
      else case ipc_objs (sems w) s of
        None \<Rightarrow> Q (Exit (-1)) (adv w)
      | Some n \<Rightarrow> Q (Ret 1) (w\<lparr>env := tl (env w), sems := ipc_put s (n + 1) (sems w)\<rparr>))"
  by (simp add: sem_v_def wp_def syscall_def bnd_def split: option.split)

lemma wp_shm_map [wp]:
  "wp (shm_map i) Q w =
     (if failing w \<or> ipc_objs (shms w) i = None then Q (Exit (-1)) (adv w) else Q (Ret i) (adv w))"
  by (simp add: shm_map_def wp_def syscall_def bnd_def)

lemma wp_shm_unmap [wp]:
  "wp (shm_unmap a) Q w = (if failing w then Q (Ret (-1)) (adv w) else Q (Ret 0) (adv w))"
  by (simp add: shm_unmap_def)

lemma wp_shm_load [wp]:
  "wp (shm_load a) Q w = (case ipc_objs (shms w) a of None \<Rightarrow> Q Undef w | Some x \<Rightarrow> Q (Ret x) w)"
  by (simp add: shm_load_def wp_def split: option.split)

lemma wp_shm_store [wp]:
  "wp (shm_store a x) Q w = (case ipc_objs (shms w) a of None \<Rightarrow> Q Undef w
     | Some _ \<Rightarrow> Q (Ret ()) (w\<lparr>shms := ipc_put a x (shms w)\<rparr>))"
  by (simp add: shm_store_def wp_def split: option.split)

lemma wp_getsem [wp]:
  "wp (getsem i) Q w =
     (if failing w \<or> ftok_key (dirkey w) i < 0 then Q (Ret (-1)) (adv w)
      else if failing (adv w) then Q (Ret (-1)) (adv (adv w))
      else Q (Ret (ipc_get (ftok_key (dirkey w) i) (sems w))) (adv (adv w)))"
  by (simp add: getsem_def wp_ftok)

lemma wp_getshm [wp]:
  "wp (getshm i) Q w =
     (if failing w \<or> ftok_key (dirkey w) i < 0 then Q (Ret (-1)) (adv w)
      else if failing (adv w) then Q (Ret (-1)) (adv (adv w))
      else Q (Ret (ipc_get (ftok_key (dirkey w) i) (shms w))) (adv (adv w)))"
  by (simp add: getshm_def wp_ftok)

lemma wp_getmsg [wp]:
  "wp (getmsg i) Q w =
     (if failing w \<or> ftok_key (dirkey w) i < 0 then Q (Ret (-1)) (adv w)
      else if failing (adv w) then Q (Ret (-1)) (adv (adv w))
      else Q (Ret (ipc_get (ftok_key (dirkey w) i) (queues w))) (adv (adv w)))"
  by (simp add: getmsg_def wp_ftok)

lemma wp_sendmsg [wp]:
  "wp (sendmsg mt i m) Q w =
     (if failing w \<or> mt m \<le> 0 then Q (Ret (-1)) (adv w)
      else case ipc_objs (queues w) i of
        None \<Rightarrow> Q (Ret (-1)) (adv w)
      | Some q \<Rightarrow> Q (Ret 0) (w\<lparr>env := tl (env w), queues := ipc_put i (q @ [m]) (queues w)\<rparr>))"
  by (simp add: sendmsg_def wp_def syscall_def bnd_def split: option.split)

lemma wp_rcvmsg [wp]:
  "wp (rcvmsg mt i buf ty) Q w =
     (if failing w then Q (Ret (-1, buf)) (adv w)
      else case ipc_objs (queues w) i of
        None \<Rightarrow> Q (Ret (-1, buf)) (adv w)
      | Some q \<Rightarrow> (case take_msg mt ty q of
          None \<Rightarrow> Q Blocked (adv w)
        | Some (m, q') \<Rightarrow> Q (Ret (0, m)) (w\<lparr>env := tl (env w), queues := ipc_put i q' (queues w)\<rparr>)))"
  by (simp add: rcvmsg_def wp_def syscall_def bnd_def split: option.split prod.split)

lemma wp_rcvmsg_no_wait [wp]:
  "wp (rcvmsg_no_wait mt i buf ty) Q w =
     (if failing w then Q (Ret (-1, buf)) (adv w)
      else case ipc_objs (queues w) i of
        None \<Rightarrow> Q (Ret (-1, buf)) (adv w)
      | Some q \<Rightarrow> (case take_msg mt ty q of
          None \<Rightarrow> Q (Ret (0, buf)) (adv w)
        | Some (m, q') \<Rightarrow> Q (Ret (1, m)) (w\<lparr>env := tl (env w), queues := ipc_put i q' (queues w)\<rparr>)))"
  by (simp add: rcvmsg_no_wait_def wp_def syscall_def bnd_def split: option.split prod.split)

section \<open>Selective receive\<close>

lemma take_first_None_iff: "take_first P q = None \<longleftrightarrow> (\<forall>m\<in>set q. \<not> P m)"
  by (induction q) auto

lemma take_first_SomeD:
  "take_first P q = Some (m, r) \<Longrightarrow> \<exists>us vs. q = us @ m # vs \<and> r = us @ vs \<and> P m \<and> (\<forall>u\<in>set us. \<not> P u)"
proof (induction q arbitrary: r)
  case (Cons a q)
  show ?case
  proof (cases "P a")
    case True
    with Cons.prems show ?thesis by (intro exI [of _ "[]"] exI [of _ r]) auto
  next
    case False
    with Cons.prems obtain r' where "take_first P q = Some (m, r')" and r: "r = a # r'" by auto
    with Cons.IH obtain us vs where "q = us @ m # vs \<and> r' = us @ vs \<and> P m \<and> (\<forall>u\<in>set us. \<not> P u)"
      by blast
    with r False show ?thesis by (intro exI [of _ "a # us"] exI [of _ vs]) auto
  qed
qed simp

lemma take_first_skip: "\<forall>u\<in>set us. \<not> P u \<Longrightarrow> P m \<Longrightarrow> take_first P (us @ m # vs) = Some (m, us @ vs)"
  by (induction us) auto

lemma take_first_filter_other:
  "take_first P q = Some (m, r) \<Longrightarrow> (\<And>x. P x \<Longrightarrow> \<not> R x) \<Longrightarrow> filter R r = filter R q"
  using take_first_SomeD by fastforce

text \<open>
  Receiving with a positive type: of the messages of that type the oldest is taken, and the rest
  of the queue keeps its order.
\<close>

lemma take_msg_type:
  assumes "take_msg mt ty q = Some (m, r)" and "ty > 0"
  shows "mt m = ty \<and> filter (\<lambda>x. mt x = ty) q = m # filter (\<lambda>x. mt x = ty) r
    \<and> filter (\<lambda>x. mt x \<noteq> ty) r = filter (\<lambda>x. mt x \<noteq> ty) q"
proof -
  have "take_first (\<lambda>x. mt x = ty) q = Some (m, r)"
    using assms by (simp add: take_msg_def)
  from take_first_SomeD [OF this] show ?thesis by force
qed

lemma take_msg_any: "take_msg mt 0 q = (case q of [] \<Rightarrow> None | m # r \<Rightarrow> Some (m, r))"
  by (cases q) (simp_all add: take_msg_def)

section \<open>Name spaces as an interface\<close>

text \<open>
  What the wrappers promise about objects and their keys: a created object is found under its key,
  keys of other objects do not change, and a removed object is gone.
\<close>

locale name_space =
  fixes create :: "'a \<Rightarrow> 'k \<Rightarrow> 't \<Rightarrow> int \<times> 't"
    and find :: "'k \<Rightarrow> 't \<Rightarrow> int"
    and content :: "'t \<Rightarrow> int \<rightharpoonup> 'a"
    and remove :: "int \<Rightarrow> 't \<Rightarrow> int \<times> 't"
    and wf :: "'t \<Rightarrow> bool"
  assumes create_found: "wf t \<Longrightarrow> find k t = -1 \<Longrightarrow> create x k t = (i, t') \<Longrightarrow>
      wf t' \<and> find k t' = i \<and> 0 \<le> i \<and> content t i = None \<and> content t' = (content t)(i \<mapsto> x)
      \<and> (\<forall>k'. k' \<noteq> k \<longrightarrow> find k' t' = find k' t)"
    and create_taken: "wf t \<Longrightarrow> find k t \<noteq> -1 \<Longrightarrow> create x k t = (-1, t)"
    and remove_gone: "wf t \<Longrightarrow> content t i \<noteq> None \<Longrightarrow> remove i t = (r, t') \<Longrightarrow>
      wf t' \<and> r = 0 \<and> content t' = (content t)(i := None)
      \<and> (\<forall>k. find k t' = (if find k t = i then -1 else find k t))"
begin

text \<open>Creating and removing an object leaves every lookup as it was.\<close>

lemma create_remove:
  assumes "wf t" "find k t = -1" "create x k t = (i, t1)" "remove i t1 = (r, t2)"
    and named: "\<And>k. find k t \<noteq> -1 \<Longrightarrow> content t (find k t) \<noteq> None"
  shows "wf t2 \<and> r = 0 \<and> content t2 = content t \<and> (\<forall>k. find k t2 = find k t)"
proof -
  note c = create_found [OF assms(1-3)]
  have "content t1 i \<noteq> None" using c by simp
  note d = remove_gone [OF conjunct1 [OF c] this assms(4)]
  have "find k' t \<noteq> i" for k' using named [of k'] c by force
  then have "find k' t2 = find k' t" for k'
    using c d assms(2) by (cases "k' = k") auto
  moreover have "content t2 = content t" using c d by auto
  ultimately show ?thesis using d by blast
qed

text \<open>A second creation under the same key fails until the object is removed.\<close>

lemma create_twice:
  assumes "wf t" "find k t = -1" "create x k t = (i, t1)"
  shows "create y k t1 = (-1, t1)"
  using create_taken [of t1 k y] create_found [OF assms] by auto

end

definition wf_ipc :: "'a ipc \<Rightarrow> bool" where
  "wf_ipc t \<longleftrightarrow> 0 \<le> ipc_next t \<and> (\<forall>i. ipc_objs t i \<noteq> None \<longrightarrow> 0 \<le> i \<and> i < ipc_next t)
     \<and> (\<forall>k i. ipc_keys t k = Some i \<longrightarrow> 0 \<le> i \<and> i < ipc_next t)"

lemma ipc_get_none: "wf_ipc t \<Longrightarrow> ipc_get k t = -1 \<longleftrightarrow> ipc_keys t k = None"
  by (fastforce simp: ipc_get_def wf_ipc_def split: option.splits)

interpretation ipc: name_space ipc_create ipc_get ipc_objs ipc_remove wf_ipc
proof unfold_locales
  fix t t' :: "'a ipc" and k x i
  assume "wf_ipc t" "ipc_get k t = -1" "ipc_create x k t = (i, t')"
  then have n: "ipc_keys t k = None" "i = ipc_next t" and
    t': "t' = t\<lparr>ipc_keys := (ipc_keys t)(k \<mapsto> ipc_next t),
            ipc_objs := (ipc_objs t)(ipc_next t \<mapsto> x), ipc_next := ipc_next t + 1\<rparr>"
    by (auto simp: ipc_get_none ipc_create_def split: option.splits)
  with \<open>wf_ipc t\<close> show "wf_ipc t' \<and> ipc_get k t' = i \<and> 0 \<le> i \<and> ipc_objs t i = None
      \<and> ipc_objs t' = (ipc_objs t)(i \<mapsto> x) \<and> (\<forall>k'. k' \<noteq> k \<longrightarrow> ipc_get k' t' = ipc_get k' t)"
    by (fastforce simp: wf_ipc_def ipc_get_def)
next
  fix t :: "'a ipc" and k x
  assume "wf_ipc t" "ipc_get k t \<noteq> -1"
  then show "ipc_create x k t = (-1, t)"
    by (auto simp: ipc_get_def ipc_create_def split: option.splits)
next
  fix t t' :: "'a ipc" and i r
  assume "wf_ipc t" "ipc_objs t i \<noteq> None" "ipc_remove i t = (r, t')"
  then have t': "r = 0" "t' = t\<lparr>ipc_keys := (\<lambda>k. if ipc_keys t k = Some i then None else ipc_keys t k),
      ipc_objs := (ipc_objs t)(i := None)\<rparr>"
    by (auto simp: ipc_remove_def split: option.splits)
  have "wf_ipc t'" using \<open>wf_ipc t\<close> by (auto simp: t'(2) wf_ipc_def)
  moreover have "ipc_get k t' = (if ipc_get k t = i then -1 else ipc_get k t)" for k
    by (cases "ipc_keys t k") (auto simp: t'(2) ipc_get_def)
  ultimately show "wf_ipc t' \<and> r = 0 \<and> ipc_objs t' = (ipc_objs t)(i := None)
      \<and> (\<forall>k. ipc_get k t' = (if ipc_get k t = i then -1 else ipc_get k t))"
    using t' by simp
qed

text \<open>A name space with fresh objects under the given keys.\<close>

definition with_objs :: "(int \<times> 'a) list \<Rightarrow> 'a ipc \<Rightarrow> 'a ipc" where
  "with_objs kxs t = fold (\<lambda>(k, x) t. snd (ipc_create x k t)) kxs t"

lemma ipc_create_fresh: "ipc_keys t k = None \<Longrightarrow> ipc_create x k t = (ipc_next t, with_objs [(k, x)] t)"
  by (simp add: with_objs_def ipc_create_def)

lemma with_objs_simps:
  "ipc_keys t k = None \<Longrightarrow> ipc_keys (with_objs [(k, x)] t) = (ipc_keys t)(k \<mapsto> ipc_next t)"
  "ipc_keys t k = None \<Longrightarrow> ipc_objs (with_objs [(k, x)] t) = (ipc_objs t)(ipc_next t \<mapsto> x)"
  "ipc_keys t k = None \<Longrightarrow> ipc_next (with_objs [(k, x)] t) = ipc_next t + 1"
  by (simp_all add: with_objs_def ipc_create_def)

lemma wf_ipc_old: "wf_ipc t \<Longrightarrow> ipc_keys t k = Some i \<Longrightarrow> i < ipc_next t" "wf_ipc t \<Longrightarrow> ipc_next t \<le> i \<Longrightarrow> ipc_objs t i = None"
  "wf_ipc t \<Longrightarrow> 0 \<le> ipc_next t"
  by (auto simp: wf_ipc_def)

end
