(* ===== verification/Id_Table.thy ===== *)
theory Id_Table
  imports Ipc
begin

text \<open>
  The identifier tables that live in shared memory: a counter and an array of rows, used by
  \<^verbatim>\<open>broker/server/global_id.c\<close> and \<^verbatim>\<open>broker/client/broker_id.c\<close>.  The loops over the array are
  the same in both files; an access outside the array is undefined.  The second half states what a
  semaphore does for the operations that it guards.
\<close>

section \<open>Tables\<close>

record 'r table =
  count :: int
  ids :: "'r list"

definition zero_table :: "nat \<Rightarrow> 'r \<Rightarrow> 'r table" where
  "zero_table n z = \<lparr>count = 0, ids = replicate n z\<rparr>"

text \<open>\<^verbatim>\<open>ids->ids[ids->count] = id; ids->count = ids->count + 1;\<close>\<close>

definition row_push :: "'r \<Rightarrow> 'r table \<Rightarrow> 'r table res" where
  "row_push r t =
     (if 0 \<le> count t \<and> nat (count t) < length (ids t)
      then Ret (t\<lparr>ids := (ids t)[nat (count t) := r], count := count t + 1\<rparr>) else Undef)"

text \<open>The position of the first row that satisfies \<open>P\<close>.\<close>

definition row_find :: "('r \<Rightarrow> bool) \<Rightarrow> 'r table \<Rightarrow> nat option res" where
  "row_find P t = scan P (ids t) (count t) 0"

text \<open>\<^verbatim>\<open>for (int i = pos + 1; i < count; i++) ids[i - 1] = ids[i]; count = count - 1;\<close>\<close>

definition row_del :: "nat \<Rightarrow> 'r table \<Rightarrow> 'r table res" where
  "row_del pos t =
     rbind (shift (ids t) (count t) (Suc pos)) (\<lambda>a. Ret (t\<lparr>ids := a, count := count t - 1\<rparr>))"

definition rows :: "'r table \<Rightarrow> 'r list" where
  "rows t = take (nat (count t)) (ids t)"

definition wf_table :: "nat \<Rightarrow> 'r table \<Rightarrow> bool" where
  "wf_table n t \<longleftrightarrow> 0 \<le> count t \<and> count t \<le> int n \<and> length (ids t) = n"

lemma wf_zero_table: "wf_table n (zero_table n z)" "rows (zero_table n z) = []"
  by (simp_all add: wf_table_def zero_table_def rows_def)

lemma length_rows: "wf_table n t \<Longrightarrow> int (length (rows t)) = count t"
  by (auto simp: wf_table_def rows_def)

lemma row_push_ok:
  assumes "wf_table n t" "count t < int n"
  shows "\<exists>t'. row_push r t = Ret t' \<and> wf_table n t' \<and> rows t' = rows t @ [r]"
proof -
  have "nat (count t) < length (ids t)" "nat (count t + 1) = Suc (nat (count t))"
    using assms by (auto simp: wf_table_def)
  with assms show ?thesis
    by (simp add: row_push_def wf_table_def rows_def take_Suc_conv_app_nth)
qed

lemma row_find_ok: "wf_table n t \<Longrightarrow> row_find P t = Ret (index_of P (rows t))"
  by (auto simp: row_find_def rows_def wf_table_def intro!: scan_index_of)

lemma row_del_ok:
  assumes "wf_table n t" "i < length (rows t)"
  shows "\<exists>t'. row_del i t = Ret t' \<and> wf_table n t' \<and> rows t' = del_at i (rows t)"
proof -
  have "nat (count t) \<le> length (ids t)" "i < nat (count t)"
    using assms by (auto simp: wf_table_def rows_def)
  then obtain a where "shift (ids t) (count t) (Suc i) = Ret a" "length a = length (ids t)"
    "take (nat (count t) - 1) a = del_at i (take (nat (count t)) (ids t))"
    using shift_del_at by metis
  with assms \<open>i < nat (count t)\<close> show ?thesis
    by (auto simp: row_del_def wf_table_def rows_def nat_diff_distrib)
qed

section \<open>The interface of a table\<close>

definition row_of :: "('r \<Rightarrow> 'k) \<Rightarrow> 'r list \<Rightarrow> 'k \<rightharpoonup> 'r" where
  "row_of key rs k = map_option (\<lambda>i. rs ! i) (index_of (\<lambda>r. key r = k) rs)"

lemma row_of_Nil [simp]: "row_of key [] k = None"
  by (simp add: row_of_def)

lemma row_of_Cons [simp]: "row_of key (r # rs) k = (if key r = k then Some r else row_of key rs k)"
  by (cases "index_of (\<lambda>x. key x = k) rs") (auto simp: row_of_def)

lemma row_of_append [simp]:
  "row_of key (rs @ qs) k = (if row_of key rs k = None then row_of key qs k else row_of key rs k)"
  by (induction rs) auto

lemma row_of_None_iff: "row_of key rs k = None \<longleftrightarrow> k \<notin> key ` set rs"
  by (induction rs) auto

lemma row_of_SomeD: "row_of key rs k = Some r \<Longrightarrow> r \<in> set rs \<and> key r = k"
  by (induction rs) (auto split: if_splits)

lemma row_of_del_at:
  assumes "distinct (map key rs)" "i < length rs"
  shows "row_of key (del_at i rs) = (row_of key rs)(key (rs ! i) := None)"
proof
  fix k
  let ?a = "take i rs" let ?b = "drop (Suc i) rs" let ?k = "key (rs ! i)"
  have rs: "rs = ?a @ rs ! i # ?b" using assms(2) by (rule del_at_split)
  have "distinct (map key ?a @ ?k # map key ?b)"
    using assms(1) by (subst (asm) rs) (simp del: append_take_drop_id)
  then have n: "row_of key ?a ?k = None" "row_of key ?b ?k = None" by (simp_all add: row_of_None_iff)
  have "row_of key rs k = row_of key (?a @ rs ! i # ?b) k" by (subst rs) simp
  then show "row_of key (del_at i rs) k = ((row_of key rs)(?k := None)) k"
    using n by (simp add: del_at_def del: append_take_drop_id)
qed

locale id_table =
  fixes wf :: "'t \<Rightarrow> bool"
    and view :: "'t \<Rightarrow> 'r list"
    and cap :: nat
    and push :: "'r \<Rightarrow> 't \<Rightarrow> 't res"
    and locate :: "('r \<Rightarrow> bool) \<Rightarrow> 't \<Rightarrow> nat option res"
    and del :: "nat \<Rightarrow> 't \<Rightarrow> 't res"
  assumes bounded: "wf t \<Longrightarrow> length (view t) \<le> cap"
    and push_ok: "wf t \<Longrightarrow> length (view t) < cap \<Longrightarrow> \<exists>t'. push r t = Ret t' \<and> wf t' \<and> view t' = view t @ [r]"
    and locate_ok: "wf t \<Longrightarrow> locate P t = Ret (index_of P (view t))"
    and del_ok: "wf t \<Longrightarrow> i < length (view t) \<Longrightarrow> \<exists>t'. del i t = Ret t' \<and> wf t' \<and> view t' = del_at i (view t)"
begin

text \<open>A new key is found after it was added, and the other keys are found as before.\<close>

lemma add_then_find:
  assumes "wf t" "length (view t) < cap" "key r \<notin> key ` set (view t)" "push r t = Ret t'"
  shows "row_of key (view t') = (row_of key (view t))(key r \<mapsto> r)"
proof -
  have "view t' = view t @ [r]" using push_ok [OF assms(1,2), of r] assms(4) by auto
  moreover have "row_of key (view t) (key r) = None" using assms(3) by (simp add: row_of_None_iff)
  ultimately show ?thesis by (auto simp: fun_eq_iff)
qed

text \<open>Deleting the row of a key under distinct keys removes that key and no other.\<close>

lemma del_then_find:
  assumes "wf t" "distinct (map key (view t))" "locate (\<lambda>r. key r = k) t = Ret (Some i)" "del i t = Ret t'"
  shows "row_of key (view t') = (row_of key (view t))(k := None) \<and> distinct (map key (view t'))
    \<and> length (view t') = length (view t) - 1"
proof -
  have i: "i < length (view t)" "key (view t ! i) = k"
    using locate_ok [OF assms(1), of "\<lambda>r. key r = k"] assms(3) index_of_SomeD [of "\<lambda>r. key r = k" "view t" i]
    by simp_all
  then have "view t' = del_at i (view t)" using del_ok [OF assms(1) i(1)] assms(4) by auto
  with i row_of_del_at [OF assms(2) i(1)] distinct_del_at [OF assms(2), of i] show ?thesis
    by (simp add: map_del_at)
qed

end

lemma table_laws: "id_table (wf_table n) rows n row_push row_find row_del"
proof unfold_locales
  fix t :: "'r table" and r
  assume "wf_table n t"
  then show "length (rows t) \<le> n" by (auto simp: wf_table_def rows_def)
next
  fix t :: "'r table" and r
  assume "wf_table n t" "length (rows t) < n"
  then show "\<exists>t'. row_push r t = Ret t' \<and> wf_table n t' \<and> rows t' = rows t @ [r]"
    using length_rows [of n t] by (intro row_push_ok) auto
qed (simp_all add: row_find_ok row_del_ok)

section \<open>Semaphores as guards\<close>

text \<open>\<open>guard w k s n\<close>: project number \<open>k\<close> names the semaphore \<open>s\<close>, whose value is \<open>n\<close>.\<close>

definition guard :: "('m, 's) world \<Rightarrow> int \<Rightarrow> int \<Rightarrow> int \<Rightarrow> bool" where
  "guard w k s n \<longleftrightarrow> 0 \<le> s \<and> 0 \<le> ftok_key (dirkey w) k
     \<and> ipc_keys (sems w) (ftok_key (dirkey w) k) = Some s \<and> ipc_objs (sems w) s = Some n"

lemma guardD:
  assumes "guard w k s n"
  shows "ipc_get (ftok_key (dirkey w) k) (sems w) = s" "0 \<le> s" "\<not> s < 0" "\<not> ftok_key (dirkey w) k < 0"
    "ipc_objs (sems w) s = Some n"
  using assms by (auto simp: guard_def ipc_get_def)

lemma guard_blocked:
  assumes "guard w k s 0" "env w = []"
  shows "sem_p s w = (Blocked, w)"
  using guardD [OF assms(1)] assms(2) by (intro wp_eqI) (simp add: wp_sem_p)

end
