(* ===== verification/Message.thy ===== *)
theory Message
  imports Prelude
begin

text \<open>
  The messages of the broker (\<^verbatim>\<open>broker/common/message.h\<close>, \<^verbatim>\<open>broker/db-server/db_message.h\<close>): the two
  structs, the message types, the fixed-size string fields and the bytes a struct occupies in
  memory on a 64-bit little-endian machine, which is what travels over the sockets.
\<close>

section \<open>Constants and structs\<close>

abbreviation MAX_TOPIC_LENGTH :: nat where "MAX_TOPIC_LENGTH \<equiv> 30"
abbreviation MAX_MSG_LENGTH :: nat where "MAX_MSG_LENGTH \<equiv> 100"
abbreviation MAX_CLIENTS :: nat where "MAX_CLIENTS \<equiv> 50"

abbreviation CREATE :: int where "CREATE \<equiv> 1"
abbreviation SUBSCRIBE :: int where "SUBSCRIBE \<equiv> 2"
abbreviation PUBLISH :: int where "PUBLISH \<equiv> 3"
abbreviation RECEIVE :: int where "RECEIVE \<equiv> 4"
abbreviation DESTROY :: int where "DESTROY \<equiv> 5"
abbreviation ACK_OK :: int where "ACK_OK \<equiv> 6"
abbreviation ACK_CREATE :: int where "ACK_CREATE \<equiv> 7"
abbreviation ACK_NO_MSG :: int where "ACK_NO_MSG \<equiv> 8"
abbreviation ACK_DESTROY :: int where "ACK_DESTROY \<equiv> 9"
abbreviation ACK_ERROR :: int where "ACK_ERROR \<equiv> 10"

abbreviation DB_CREATE :: int where "DB_CREATE \<equiv> 1"
abbreviation DB_SUBSCRIBE :: int where "DB_SUBSCRIBE \<equiv> 2"
abbreviation DB_GET_SUBSCRIBED :: int where "DB_GET_SUBSCRIBED \<equiv> 3"
abbreviation DB_DELETE :: int where "DB_DELETE \<equiv> 4"
abbreviation DB_OK :: int where "DB_OK \<equiv> 5"
abbreviation DB_ERROR :: int where "DB_ERROR \<equiv> 6"

text \<open>A \<open>char\<close> array of a struct is the list of all its characters, those after the NUL included.\<close>

record payload_t =
  topic :: "char list"
  body :: "char list"

record msg_t =
  mtype :: int
  global_id :: int
  msg_type :: int
  payload :: payload_t
  broker_id :: int

record db_msg_t =
  db_global_id :: int
  db_type :: int
  db_topic :: "char list"
  sub_count :: int
  sub_ids :: "int list"

section \<open>C strings in fixed-size fields\<close>

definition NUL :: char where "NUL = CHR 0x00"

definition cstr :: "char list \<Rightarrow> string" where
  "cstr buf = takeWhile (\<lambda>c. c \<noteq> NUL) buf"

definition strncpy :: "char list \<Rightarrow> string \<Rightarrow> nat \<Rightarrow> char list" where
  "strncpy dst src n = take n (cstr src) @ replicate (n - length (cstr src)) NUL @ drop n dst"

text \<open>\<^verbatim>\<open>strncpy(field, s, N - 1); field[N - 1] = 0;\<close>\<close>

definition put_field :: "nat \<Rightarrow> char list \<Rightarrow> string \<Rightarrow> char list" where
  "put_field n dst src = (strncpy dst src (n - 1))[n - 1 := NUL]"

text \<open>Reading a field as a string: without a NUL in it the access runs past the array.\<close>

definition field_str :: "char list \<Rightarrow> string res" where
  "field_str buf = (if NUL \<in> set buf then Ret (cstr buf) else Undef)"

lemma cstr_idem [simp]: "NUL \<notin> set s \<Longrightarrow> cstr s = s"
  by (auto simp: cstr_def takeWhile_eq_all_conv)

lemma NUL_notin_cstr [simp]: "NUL \<notin> set (cstr s)"
  by (auto simp: cstr_def dest: set_takeWhileD)

lemma length_strncpy: "n \<le> length dst \<Longrightarrow> length (strncpy dst src n) = length dst"
  by (simp add: strncpy_def min_def)

lemma length_put_field [simp]: "0 < n \<Longrightarrow> length dst = n \<Longrightarrow> length (put_field n dst src) = n"
  by (simp add: put_field_def length_strncpy)

text \<open>The field always ends in a NUL and holds the first \<open>n - 1\<close> characters.\<close>

lemma cstr_append_NUL: "NUL \<notin> set a \<Longrightarrow> cstr (a @ NUL # b) = a"
  unfolding cstr_def by (subst takeWhile_append2) auto

lemma cstr_put_field:
  assumes "0 < n" "length dst = n"
  shows "cstr (put_field n dst src) = take (n - 1) (cstr src)"
proof -
  obtain d where d: "drop (n - 1) dst = [d]"
    using assms length_drop [of "n - 1" dst] by (metis Suc_diff_1 diff_diff_cancel length_0_conv
        length_Suc_conv less_or_eq_imp_le One_nat_def Suc_leI)
  let ?a = "take (n - 1) (cstr src)"
  let ?r = "replicate (n - 1 - length (cstr src)) NUL"
  have len: "length (?a @ ?r) = n - 1" by auto
  have "put_field n dst src = (?a @ ?r) @ [NUL]"
    unfolding put_field_def strncpy_def d
    using list_update_length [of "?a @ ?r" d "[]" NUL] len by simp
  also have "\<dots> = ?a @ NUL # (if ?r = [] then [] else tl ?r @ [NUL])"
    by (cases "n - 1 - length (cstr src)") (auto simp: replicate_append_same)
  finally show ?thesis
    by (metis NUL_notin_cstr cstr_append_NUL in_set_takeD)
qed

lemma NUL_in_put_field [simp]: "0 < n \<Longrightarrow> length dst = n \<Longrightarrow> NUL \<in> set (put_field n dst src)"
  by (simp add: put_field_def set_update_memI length_strncpy)

lemma field_str_put_field [simp]:
  "0 < n \<Longrightarrow> length dst = n \<Longrightarrow> field_str (put_field n dst src) = Ret (take (n - 1) (cstr src))"
  by (simp add: field_str_def cstr_put_field)

section \<open>Bytes of the structs\<close>

fun le_bytes :: "nat \<Rightarrow> int \<Rightarrow> char list" where
  "le_bytes 0 x = []"
| "le_bytes (Suc n) x = char_of (x mod 256) # le_bytes n (x div 256)"

fun le_val :: "char list \<Rightarrow> int" where
  "le_val [] = 0"
| "le_val (c # cs) = of_char c + 256 * le_val cs"

definition get_int :: "char list \<Rightarrow> int" where
  "get_int bs = signed_take_bit 31 (le_val (take 4 bs))"

definition get_long :: "char list \<Rightarrow> int" where
  "get_long bs = signed_take_bit 63 (le_val (take 8 bs))"

definition sizeof_msg :: nat where "sizeof_msg = 152"
definition sizeof_db_msg :: nat where "sizeof_db_msg = 244"

text \<open>Padding bytes are not specified by C; nothing reads them.\<close>

definition encode_msg :: "msg_t \<Rightarrow> char list" where
  "encode_msg m =
     le_bytes 8 (mtype m) @ le_bytes 4 (global_id m) @ le_bytes 4 (msg_type m)
     @ topic (payload m) @ body (payload m) @ [NUL, NUL] @ le_bytes 4 (broker_id m)"

definition decode_msg :: "char list \<Rightarrow> msg_t" where
  "decode_msg bs =
     \<lparr>mtype = get_long bs, global_id = get_int (drop 8 bs), msg_type = get_int (drop 12 bs),
      payload = \<lparr>topic = take 30 (drop 16 bs), body = take 100 (drop 46 bs)\<rparr>,
      broker_id = get_int (drop 148 bs)\<rparr>"

fun get_ints :: "nat \<Rightarrow> char list \<Rightarrow> int list" where
  "get_ints 0 bs = []"
| "get_ints (Suc n) bs = get_int bs # get_ints n (drop 4 bs)"

definition encode_db_msg :: "db_msg_t \<Rightarrow> char list" where
  "encode_db_msg m =
     le_bytes 4 (db_global_id m) @ le_bytes 4 (db_type m) @ db_topic m @ [NUL, NUL]
     @ le_bytes 4 (sub_count m) @ concat (map (le_bytes 4) (sub_ids m))"

definition decode_db_msg :: "char list \<Rightarrow> db_msg_t" where
  "decode_db_msg bs =
     \<lparr>db_global_id = get_int bs, db_type = get_int (drop 4 bs), db_topic = take 30 (drop 8 bs),
      sub_count = get_int (drop 40 bs), sub_ids = get_ints MAX_CLIENTS (drop 44 bs)\<rparr>"

definition is_int64 :: "int \<Rightarrow> bool" where
  "is_int64 x \<longleftrightarrow> - (2 ^ 63) \<le> x \<and> x < 2 ^ 63"

definition wf_msg :: "msg_t \<Rightarrow> bool" where
  "wf_msg m \<longleftrightarrow> is_int64 (mtype m) \<and> is_int32 (global_id m) \<and> is_int32 (msg_type m)
     \<and> length (topic (payload m)) = MAX_TOPIC_LENGTH \<and> length (body (payload m)) = MAX_MSG_LENGTH
     \<and> is_int32 (broker_id m)"

definition wf_db_msg :: "db_msg_t \<Rightarrow> bool" where
  "wf_db_msg m \<longleftrightarrow> is_int32 (db_global_id m) \<and> is_int32 (db_type m)
     \<and> length (db_topic m) = MAX_TOPIC_LENGTH \<and> is_int32 (sub_count m)
     \<and> length (sub_ids m) = MAX_CLIENTS \<and> (\<forall>x\<in>set (sub_ids m). is_int32 x)"

lemma length_le_bytes [simp]: "length (le_bytes n x) = n"
  by (induction n x rule: le_bytes.induct) auto

lemma le_val_le_bytes: "le_val (le_bytes n x) = x mod 256 ^ n"
proof (induction n x rule: le_bytes.induct)
  case (2 n x)
  have "of_char (char_of (x mod 256)) = x mod 256"
    by simp
  then show ?case using 2 by (simp add: zmod_zmult2_eq)
qed simp

lemma get_int_le_bytes [simp]: "is_int32 x \<Longrightarrow> get_int (le_bytes 4 x @ bs) = x"
proof -
  assume x: "is_int32 x"
  have "get_int (le_bytes 4 x @ bs) = signed_take_bit 31 (take_bit 32 x)"
    by (simp add: get_int_def le_val_le_bytes take_bit_eq_mod)
  also have "\<dots> = signed_take_bit 31 x"
    by (simp add: signed_take_bit_take_bit)
  finally show ?thesis using int_of_long_id [OF x] by (simp add: int_of_long_def)
qed

lemma get_long_le_bytes [simp]: "is_int64 x \<Longrightarrow> get_long (le_bytes 8 x @ bs) = x"
proof -
  assume x: "is_int64 x"
  have "get_long (le_bytes 8 x @ bs) = signed_take_bit 63 (take_bit 64 x)"
    by (simp add: get_long_def le_val_le_bytes take_bit_eq_mod)
  also have "\<dots> = signed_take_bit 63 x"
    by (simp add: signed_take_bit_take_bit)
  finally show ?thesis using x by (simp add: is_int64_def signed_take_bit_int_eq_self)
qed

lemma length_encode_msg: "wf_msg m \<Longrightarrow> length (encode_msg m) = sizeof_msg"
  by (simp add: wf_msg_def encode_msg_def sizeof_msg_def)

lemma decode_encode_msg: "wf_msg m \<Longrightarrow> decode_msg (encode_msg m) = m"
  using get_int_le_bytes [of "broker_id m" "[]"]
  by (simp add: wf_msg_def encode_msg_def decode_msg_def)

lemma length_concat_le_bytes [simp]: "length (concat (map (le_bytes n) xs)) = n * length xs"
  by (induction xs) auto

lemma get_ints_concat:
  "\<forall>x\<in>set xs. is_int32 x \<Longrightarrow> get_ints (length xs) (concat (map (le_bytes 4) xs)) = xs"
  by (induction xs) auto

lemma length_encode_db_msg: "wf_db_msg m \<Longrightarrow> length (encode_db_msg m) = sizeof_db_msg"
  by (simp add: wf_db_msg_def encode_db_msg_def sizeof_db_msg_def)

lemma decode_encode_db_msg: "wf_db_msg m \<Longrightarrow> decode_db_msg (encode_db_msg m) = m"
  using get_ints_concat [of "sub_ids m"]
  by (simp add: wf_db_msg_def encode_db_msg_def decode_db_msg_def del: get_ints.simps)

section \<open>Properties\<close>

text \<open>
  A message and a database message survive the trip through their byte image: decoding the 152
  (244) bytes that encode a well-formed struct gives the same struct.
\<close>

theorem messages_roundtrip:
  "(wf_msg m \<longrightarrow> length (encode_msg m) = sizeof_msg \<and> decode_msg (encode_msg m) = m)
   \<and> (wf_db_msg d \<longrightarrow> length (encode_db_msg d) = sizeof_db_msg \<and> decode_db_msg (encode_db_msg d) = d)"
  by (simp add: length_encode_msg decode_encode_msg length_encode_db_msg decode_encode_db_msg)

lemma messages_roundtrip_witness:
  "decode_msg (encode_msg \<lparr>mtype = 5, global_id = -2, msg_type = PUBLISH,
      payload = \<lparr>topic = replicate 30 NUL, body = replicate 100 (CHR ''x'')\<rparr>, broker_id = 1\<rparr>)
    = \<lparr>mtype = 5, global_id = -2, msg_type = PUBLISH,
      payload = \<lparr>topic = replicate 30 NUL, body = replicate 100 (CHR ''x'')\<rparr>, broker_id = 1\<rparr>
   \<and> sub_count (decode_db_msg (encode_db_msg \<lparr>db_global_id = 4, db_type = DB_OK, db_topic = replicate 30 NUL,
      sub_count = 50, sub_ids = replicate 50 7\<rparr>)) = 50"
  using messages_roundtrip [of "\<lparr>mtype = 5, global_id = -2, msg_type = PUBLISH,
      payload = \<lparr>topic = replicate 30 NUL, body = replicate 100 (CHR ''x'')\<rparr>, broker_id = 1\<rparr>"
    "\<lparr>db_global_id = 4, db_type = DB_OK, db_topic = replicate 30 NUL, sub_count = 50, sub_ids = replicate 50 7\<rparr>"]
  by (simp add: wf_msg_def wf_db_msg_def is_int32_def is_int64_def)

end
