(* ===== verification/Broker_Id.thy ===== *)
theory Broker_Id
  imports Id_Table Message
begin

text \<open>
  The table of the local broker that maps the process identifiers of the clients of one machine to
  their global identifiers (\<^verbatim>\<open>broker/client/broker_id.c\<close>, \<^verbatim>\<open>broker_id.h\<close>).  A row with global
  identifier 0 is a client whose creation the server has not acknowledged yet.
\<close>

section \<open>State and operations\<close>

abbreviation MAX_LOCAL_CLIENTS :: nat where "MAX_LOCAL_CLIENTS \<equiv> 10"
abbreviation BROKER_IDS_SHM :: int where "BROKER_IDS_SHM \<equiv> 6"
abbreviation BROKER_IDS_SEM :: int where "BROKER_IDS_SEM \<equiv> 7"

record broker_id_t =
  local_id :: int
  b_global_id :: int

type_synonym broker_ids_t = "broker_id_t table"
type_synonym 'm client_host = "('m, broker_ids_t) world"

definition no_locals :: broker_ids_t where
  "no_locals = zero_table MAX_LOCAL_CLIENTS \<lparr>local_id = 0, b_global_id = 0\<rparr>"

definition broker_id_create :: "('m client_host, int) prog" where
  "broker_id_create =
     bnd (creasem BROKER_IDS_SEM) (\<lambda>sem.
     if sem < 0 then stop (Exit (-1))
     else thn (inisem sem 1) (
     bnd (creashm BROKER_IDS_SHM no_locals) (\<lambda>ids_shm.
     if ids_shm < 0 then stop (Exit (-1)) else ret ids_shm)))"

definition broker_id_get :: "('m client_host, int) prog" where
  "broker_id_get =
     bnd (getshm BROKER_IDS_SHM) (\<lambda>ids_shm.
     if ids_shm < 0 then stop (Exit (-1)) else ret ids_shm)"

text \<open>The function ends without a \<open>return\<close> when it succeeds.\<close>

definition add_local_id :: "int \<Rightarrow> int \<Rightarrow> ('m client_host, int) prog" where
  "add_local_id broker_ids l =
     bnd (getsem BROKER_IDS_SEM) (\<lambda>sem.
     if sem < 0 then ret (-1)
     else thn (sem_p sem) (
     bnd (shm_map broker_ids) (\<lambda>addr.
     bnd (shm_load addr) (\<lambda>t.
     if count t \<ge> int MAX_LOCAL_CLIENTS then ret (-1)
     else bnd (lift_res (row_push \<lparr>local_id = l, b_global_id = 0\<rparr> t)) (\<lambda>t'.
     thn (shm_store addr t') (
     thn (shm_unmap addr) (
     thn (sem_v sem) indeterminate)))))))"

definition set_global_id :: "int \<Rightarrow> int \<Rightarrow> ('m client_host, int) prog" where
  "set_global_id broker_ids g =
     bnd (getsem BROKER_IDS_SEM) (\<lambda>sem.
     if sem < 0 then ret (-1)
     else thn (sem_p sem) (
     bnd (shm_map broker_ids) (\<lambda>addr.
     bnd (shm_load addr) (\<lambda>t.
     bnd (lift_res (row_find (\<lambda>r. b_global_id r = 0) t)) (\<lambda>pos.
     bnd (case pos of
            None \<Rightarrow> ret (-1)
          | Some i \<Rightarrow> thn (shm_store addr (t\<lparr>ids := (ids t)[i := (ids t ! i)\<lparr>b_global_id := g\<rparr>]\<rparr>))
                        (ret (local_id (ids t ! i)))) (\<lambda>assigned_local_id.
     thn (shm_unmap addr) (
     thn (sem_v sem) (
     if assigned_local_id < 0 then ret (-1) else ret assigned_local_id))))))))"

text \<open>The three lookups share their shape: search under the semaphore, then \<open>-1\<close> or the result.\<close>

definition search_ids :: "int \<Rightarrow> (broker_id_t \<Rightarrow> bool) \<Rightarrow> (broker_id_t \<Rightarrow> int) \<Rightarrow> int \<Rightarrow> (int \<Rightarrow> 'a) \<Rightarrow> 'a \<Rightarrow>
    ('m client_host, 'a) prog" where
  "search_ids broker_ids P field sem result none =
     thn (sem_p sem) (
     bnd (shm_map broker_ids) (\<lambda>addr.
     bnd (shm_load addr) (\<lambda>t.
     bnd (lift_res (row_find P t)) (\<lambda>pos.
     let found = (case pos of None \<Rightarrow> -1 | Some i \<Rightarrow> field (ids t ! i)) in
     thn (shm_unmap addr) (
     thn (sem_v sem) (
     if found < 0 then ret none else ret (result found)))))))"

definition get_global_id :: "int \<Rightarrow> int \<Rightarrow> ('m client_host, int) prog" where
  "get_global_id broker_ids l =
     bnd (getsem BROKER_IDS_SEM) (\<lambda>sem.
     if sem < 0 then ret (-1)
     else search_ids broker_ids (\<lambda>r. local_id r = l) b_global_id sem (\<lambda>x. x) (-1))"

definition get_local_id :: "int \<Rightarrow> int \<Rightarrow> ('m client_host, int) prog" where
  "get_local_id broker_ids g =
     bnd (getsem BROKER_IDS_SEM) (\<lambda>sem.
     if sem < 0 then ret (-1)
     else search_ids broker_ids (\<lambda>r. b_global_id r = g) local_id sem (\<lambda>x. x) (-1))"

text \<open>A failing \<open>getsem\<close> makes the function return -1, which as a \<open>bool\<close> is true.\<close>

definition local_id_exists :: "int \<Rightarrow> int \<Rightarrow> ('m client_host, bool) prog" where
  "local_id_exists broker_ids l =
     bnd (getsem BROKER_IDS_SEM) (\<lambda>sem.
     if sem < 0 then ret True
     else search_ids broker_ids (\<lambda>r. local_id r = l) local_id sem (\<lambda>_. True) False)"

definition remove_id :: "int \<Rightarrow> int \<Rightarrow> ('m client_host, int) prog" where
  "remove_id broker_ids l =
     bnd (getsem BROKER_IDS_SEM) (\<lambda>sem.
     if sem < 0 then ret (-1)
     else thn (sem_p sem) (
     bnd (shm_map broker_ids) (\<lambda>addr.
     bnd (shm_load addr) (\<lambda>t.
     bnd (lift_res (row_find (\<lambda>r. local_id r = l) t)) (\<lambda>pos.
     bnd (case pos of
            None \<Rightarrow> ret (-1)
          | Some i \<Rightarrow> bnd (lift_res (row_del i t)) (\<lambda>t'. thn (shm_store addr t') (ret (int i)))) (\<lambda>pos.
     thn (shm_unmap addr) (
     thn (sem_v sem) (ret pos))))))))"

definition broker_id_destroy :: "int \<Rightarrow> ('m client_host, int) prog" where
  "broker_id_destroy i =
     bnd (getsem BROKER_IDS_SEM) (\<lambda>sem.
     bnd (delsem sem) (\<lambda>r1.
     bnd (delshm i) (\<lambda>r2.
     ret (if r1 < 0 \<or> r2 < 0 then -1 else 0))))"

section \<open>The table is an identifier table\<close>

abbreviation wf_locals :: "broker_ids_t \<Rightarrow> bool" where
  "wf_locals \<equiv> wf_table MAX_LOCAL_CLIENTS"

interpretation ltab: id_table wf_locals rows MAX_LOCAL_CLIENTS row_push row_find row_del
  by (rule table_laws)

definition open_broker :: "'m client_host \<Rightarrow> int \<Rightarrow> int \<Rightarrow> broker_ids_t \<Rightarrow> bool" where
  "open_broker w addr s t \<longleftrightarrow> guard w BROKER_IDS_SEM s 1 \<and> ipc_objs (shms w) addr = Some t
     \<and> wf_locals t \<and> (\<forall>r\<in>set (rows t). 0 < local_id r \<and> 0 \<le> b_global_id r)"

lemma open_brokerD:
  assumes "open_broker w addr s t"
  shows "guard w BROKER_IDS_SEM s 1" "ipc_objs (shms w) addr = Some t" "wf_locals t"
    "\<forall>r\<in>set (rows t). 0 < local_id r \<and> 0 \<le> b_global_id r"
  using assms by (auto simp: open_broker_def)

lemma ids_rows: "i < length (rows t) \<Longrightarrow> ids t ! i = rows t ! i"
  by (simp add: rows_def)

lemma row_of_index:
  "row_of key rs k = (case index_of (\<lambda>r. key r = k) rs of None \<Rightarrow> None | Some i \<Rightarrow> Some (rs ! i))"
  by (simp add: row_of_def map_option_case)

lemma search_ids_run:
  assumes "open_broker w addr s t" "env w = []" "\<And>r. 0 < local_id r \<and> 0 \<le> b_global_id r \<Longrightarrow> 0 \<le> field r"
  shows "search_ids addr (\<lambda>r. key r = k) field s result none w =
    (Ret (case row_of key (rows t) k of None \<Rightarrow> none | Some r \<Rightarrow> result (field r)), w)"
proof -
  note b = open_brokerD [OF assms(1)]
  note g = guardD [OF b(1)]
  show ?thesis
  proof (cases "index_of (\<lambda>r. key r = k) (rows t)")
    case None
    with g b assms(2) show ?thesis
      by (intro wp_eqI) (simp add: search_ids_def wp row_find_ok row_of_index Let_def)
  next
    case (Some i)
    then have i: "i < length (rows t)" using index_of_SomeD by fastforce
    then have "\<not> field (rows t ! i) < 0" using assms(3) b(4) by (meson nth_mem linorder_not_less)
    with Some i g b assms(2) show ?thesis
      by (intro wp_eqI) (simp add: search_ids_def wp row_find_ok row_of_index Let_def ids_rows)
  qed
qed

lemma get_global_id_run:
  assumes "open_broker w addr s t" "env w = []"
  shows "get_global_id addr l w =
    (Ret (case row_of local_id (rows t) l of None \<Rightarrow> -1 | Some r \<Rightarrow> b_global_id r), w)"
  using guardD [OF open_brokerD(1) [OF assms(1)]] assms search_ids_run [OF assms, of b_global_id]
  by (simp add: get_global_id_def getsem_def ftok_def bnd_def syscall_def gets_def)

lemma get_local_id_run:
  assumes "open_broker w addr s t" "env w = []"
  shows "get_local_id addr g w =
    (Ret (case row_of b_global_id (rows t) g of None \<Rightarrow> -1 | Some r \<Rightarrow> local_id r), w)"
  using guardD [OF open_brokerD(1) [OF assms(1)]] assms search_ids_run [OF assms, of local_id]
  by (simp add: get_local_id_def getsem_def ftok_def bnd_def syscall_def gets_def)

lemma local_id_exists_run:
  assumes "open_broker w addr s t" "env w = []"
  shows "local_id_exists addr l w = (Ret (row_of local_id (rows t) l \<noteq> None), w)"
  using guardD [OF open_brokerD(1) [OF assms(1)]] assms
    search_ids_run [OF assms, of local_id local_id l "\<lambda>_. True" False]
  by (cases "row_of local_id (rows t) l")
     (simp_all add: local_id_exists_def getsem_def ftok_def bnd_def syscall_def gets_def)

lemma add_local_id_run:
  assumes "open_broker w addr s t" "env w = []" "count t < int MAX_LOCAL_CLIENTS"
  shows "\<exists>t'. add_local_id addr l w = (Ret 0, w\<lparr>shms := ipc_put addr t' (shms w)\<rparr>)
    \<and> wf_locals t' \<and> rows t' = rows t @ [\<lparr>local_id = l, b_global_id = 0\<rparr>]"
proof -
  note b = open_brokerD [OF assms(1)]
  note g = guardD [OF b(1)]
  obtain t' where "row_push \<lparr>local_id = l, b_global_id = 0\<rparr> t = Ret t'" "wf_locals t'"
    "rows t' = rows t @ [\<lparr>local_id = l, b_global_id = 0\<rparr>]"
    using row_push_ok [OF b(3) assms(3)] by blast
  with g b assms show ?thesis
    by (intro exI [of _ t'] conjI wp_eqI) (simp_all add: add_local_id_def wp)
qed

text \<open>
  At capacity the function returns -1 and keeps the semaphore; every later operation on the table
  waits.
\<close>

lemma add_local_id_full:
  assumes "open_broker w addr s t" "env w = []" "count t = int MAX_LOCAL_CLIENTS"
  shows "add_local_id addr l w = (Ret (-1), w\<lparr>sems := ipc_put s 0 (sems w)\<rparr>)
    \<and> guard (w\<lparr>sems := ipc_put s 0 (sems w)\<rparr>) BROKER_IDS_SEM s 0"
proof -
  note b = open_brokerD [OF assms(1)]
  note g = guardD [OF b(1)]
  show ?thesis
    using g b assms by (intro conjI wp_eqI) (simp_all add: add_local_id_def wp guard_def)
qed

lemma waits:
  assumes "guard w BROKER_IDS_SEM s 0" "env w = []"
  shows "get_global_id addr l w = (Blocked, w)" "get_local_id addr l w = (Blocked, w)"
    "local_id_exists addr l w = (Blocked, w)" "remove_id addr l w = (Blocked, w)"
    "set_global_id addr l w = (Blocked, w)" "add_local_id addr l w = (Blocked, w)"
  using guardD [OF assms(1)] assms(2)
  by (auto intro!: wp_eqI simp: get_global_id_def get_local_id_def local_id_exists_def remove_id_def
      set_global_id_def add_local_id_def search_ids_def wp)

text \<open>An acknowledged creation gives its global identifier to the client that has waited longest.\<close>

lemma set_global_id_run:
  assumes "open_broker w addr s t" "env w = []" "row_of b_global_id (rows t) 0 = Some r"
  shows "\<exists>t' as bs. set_global_id addr g w = (Ret (local_id r), w\<lparr>shms := ipc_put addr t' (shms w)\<rparr>)
    \<and> wf_locals t' \<and> rows t = as @ r # bs \<and> (\<forall>x\<in>set as. b_global_id x \<noteq> 0)
    \<and> rows t' = as @ r\<lparr>b_global_id := g\<rparr> # bs"
proof -
  note b = open_brokerD [OF assms(1)]
  note g = guardD [OF b(1)]
  obtain i where i: "index_of (\<lambda>r. b_global_id r = 0) (rows t) = Some i" "r = rows t ! i"
    using assms(3) by (auto simp: row_of_index split: option.splits)
  then have il: "i < length (rows t)" and nz: "\<forall>j<i. b_global_id (rows t ! j) \<noteq> 0"
    using index_of_SomeD by fastforce+
  let ?t = "t\<lparr>ids := (ids t)[i := r\<lparr>b_global_id := g\<rparr>]\<rparr>"
  have "\<not> local_id r < 0" using b(4) il i(2) by (meson nth_mem less_asym)
  with i il g b assms(2) have "set_global_id addr g w = (Ret (local_id r), w\<lparr>shms := ipc_put addr ?t (shms w)\<rparr>)"
    by (intro wp_eqI) (simp add: set_global_id_def wp row_find_ok ids_rows)
  moreover have "wf_locals ?t" using b(3) by (simp add: wf_table_def)
  moreover have "rows t = take i (rows t) @ r # drop (Suc i) (rows t)"
    using del_at_split [OF il] i(2) by simp
  moreover have "rows ?t = take i (rows t) @ r\<lparr>b_global_id := g\<rparr> # drop (Suc i) (rows t)"
    using upd_conv_take_nth_drop [OF il] by (simp add: rows_def take_update_swap)
  moreover have "\<forall>x\<in>set (take i (rows t)). b_global_id x \<noteq> 0"
    using nz il by (auto simp: in_set_conv_nth)
  ultimately show ?thesis by blast
qed

lemma set_global_id_none:
  assumes "open_broker w addr s t" "env w = []" "row_of b_global_id (rows t) 0 = None"
  shows "set_global_id addr g w = (Ret (-1), w)"
proof -
  note b = open_brokerD [OF assms(1)]
  have "index_of (\<lambda>r. b_global_id r = 0) (rows t) = None" using assms(3) by (simp add: row_of_index split: option.splits)
  with guardD [OF b(1)] b assms(2) show ?thesis
    by (intro wp_eqI) (simp add: set_global_id_def wp row_find_ok)
qed

lemma remove_id_run:
  assumes "open_broker w addr s t" "env w = []"
  shows "\<exists>t'. remove_id addr l w =
      (case index_of (\<lambda>r. local_id r = l) (rows t) of
         None \<Rightarrow> (Ret (-1), w)
       | Some i \<Rightarrow> (Ret (int i), w\<lparr>shms := ipc_put addr t' (shms w)\<rparr>))
    \<and> (\<forall>i. index_of (\<lambda>r. local_id r = l) (rows t) = Some i \<longrightarrow>
          wf_locals t' \<and> rows t' = del_at i (rows t))"
proof -
  note b = open_brokerD [OF assms(1)]
  note g = guardD [OF b(1)]
  show ?thesis
  proof (cases "index_of (\<lambda>r. local_id r = l) (rows t)")
    case None
    with g b assms(2) show ?thesis
      by (intro exI [of _ t] conjI wp_eqI) (simp_all add: remove_id_def wp row_find_ok)
  next
    case (Some i)
    then have "i < length (rows t)" using index_of_SomeD by fastforce
    then obtain t' where "row_del i t = Ret t'" "wf_locals t'" "rows t' = del_at i (rows t)"
      using row_del_ok [OF b(3)] by blast
    with Some g b assms(2) show ?thesis
      by (intro exI [of _ t'] conjI wp_eqI) (simp_all add: remove_id_def wp row_find_ok)
  qed
qed

section \<open>Properties\<close>

lemma broker_id_create_run:
  assumes "env w = []" "wf_base (dirkey w)"
    "free_key (ftok_key (dirkey w) BROKER_IDS_SEM) (sems w)" "free_key (ftok_key (dirkey w) BROKER_IDS_SHM) (shms w)"
  shows "\<exists>a s w'. broker_id_create w = (Ret a, w') \<and> open_broker w' a s no_locals \<and> env w' = []
    \<and> broker_id_get w' = (Ret a, w') \<and> queues w' = queues w"
proof -
  let ?w = "w\<lparr>sems := ipc_put (ipc_next (sems w)) 1 (snd (ipc_create 0 (ftok_key (dirkey w) BROKER_IDS_SEM) (sems w))),
      shms := snd (ipc_create no_locals (ftok_key (dirkey w) BROKER_IDS_SHM) (shms w))\<rparr>"
  have "broker_id_create w = (Ret (ipc_next (shms w)), ?w)"
    using assms by (intro wp_eqI) (simp add: broker_id_create_def wp ipc_create_def free_key_def)
  moreover have "open_broker ?w (ipc_next (shms w)) (ipc_next (sems w)) no_locals"
    using assms by (simp add: open_broker_def guard_def ipc_create_def free_key_def no_locals_def wf_zero_table)
  moreover have "broker_id_get ?w = (Ret (ipc_next (shms w)), ?w)"
    using assms by (intro wp_eqI) (simp add: broker_id_get_def wp ipc_create_def free_key_def ipc_get_def)
  moreover have "env ?w = []" "queues ?w = queues w" using assms(1) by simp_all
  ultimately show ?thesis by blast
qed

text \<open>A host whose table holds the given rows.\<close>

lemma broker_host:
  assumes "length rs \<le> MAX_LOCAL_CLIENTS" "\<forall>r\<in>set rs. 0 < local_id r \<and> 0 \<le> b_global_id r"
  shows "\<exists>(w :: 'm client_host) a s t. open_broker w a s t \<and> env w = [] \<and> rows t = rs \<and> count t = int (length rs)"
proof -
  obtain a s and w :: "'m client_host" where w: "open_broker w a s no_locals" "env w = []"
    using broker_id_create_run [of "idle_host :: 'm client_host"] by auto
  let ?t = "\<lparr>count = int (length rs), ids = rs @ replicate (MAX_LOCAL_CLIENTS - length rs) \<lparr>local_id = 0, b_global_id = 0\<rparr>\<rparr>"
  let ?w = "w\<lparr>shms := ipc_put a ?t (shms w)\<rparr>"
  have "open_broker ?w a s ?t"
    using w assms by (simp add: open_broker_def guard_def wf_table_def rows_def)
  with w show ?thesis by (intro exI [of _ ?w] exI [of _ a] exI [of _ s] exI [of _ ?t]) (simp add: rows_def)
qed

text \<open>
  When the server acknowledges a creation, \<open>set_global_id\<close> gives the new global identifier to
  the client that has waited longest: the first row without one; every other row is as before, and
  the client's process identifier is returned.
\<close>

theorem set_global_id_oldest_waiting:
  "open_broker w addr s t \<Longrightarrow> env w = [] \<Longrightarrow> rows t = as @ r # bs \<Longrightarrow> \<forall>x\<in>set as. b_global_id x \<noteq> 0 \<Longrightarrow>
   b_global_id r = 0 \<Longrightarrow> 0 \<le> g \<Longrightarrow>
   \<exists>w' t'. set_global_id addr g w = (Ret (local_id r), w') \<and> open_broker w' addr s t'
     \<and> rows t' = as @ r\<lparr>b_global_id := g\<rparr> # bs"
proof -
  assume o: "open_broker w addr s t" and env: "env w = []" and r: "rows t = as @ r # bs"
    "\<forall>x\<in>set as. b_global_id x \<noteq> 0" "b_global_id r = 0" and g: "0 \<le> g"
  have "row_of b_global_id (rows t) 0 = Some r"
    using r by (auto simp: row_of_None_iff dest: row_of_SomeD)
  from set_global_id_run [OF o env this, of g] obtain t' cs ds where
    t': "set_global_id addr g w = (Ret (local_id r), w\<lparr>shms := ipc_put addr t' (shms w)\<rparr>)" "wf_locals t'"
    "rows t = cs @ r # ds" "\<forall>x\<in>set cs. b_global_id x \<noteq> 0" "rows t' = cs @ r\<lparr>b_global_id := g\<rparr> # ds"
    by blast
  have "cs = as \<and> ds = bs"
  proof -
    have "takeWhile (\<lambda>x. b_global_id x \<noteq> 0) (as @ r # bs) = as" "takeWhile (\<lambda>x. b_global_id x \<noteq> 0) (cs @ r # ds) = cs"
      using r t'(4) by (auto simp: takeWhile_append2)
    with r(1) t'(3) show ?thesis by auto
  qed
  with t' have rows': "rows t' = as @ r\<lparr>b_global_id := g\<rparr> # bs" by simp
  have "open_broker (w\<lparr>shms := ipc_put addr t' (shms w)\<rparr>) addr s t'"
    using o t'(2) r(1) g by (auto simp: open_broker_def guard_def rows')
  with t'(1) rows' show ?thesis by blast
qed

lemma set_global_id_oldest_waiting_witness:
  "\<exists>(w :: msg_t client_host) a w'. set_global_id a 9 w = (Ret 20, w')"
proof -
  let ?r = "\<lambda>l g. \<lparr>local_id = l, b_global_id = g\<rparr>"
  obtain a s t and w :: "msg_t client_host" where
    w: "open_broker w a s t" "env w = []" "rows t = [?r 10 5, ?r 20 0, ?r 30 0]"
    using broker_host [of "[?r 10 5, ?r 20 0, ?r 30 0]"] by auto
  from set_global_id_oldest_waiting [OF w(1,2), of "[?r 10 5]" "?r 20 0" "[?r 30 0]" 9] w(3) show ?thesis by auto
qed

text \<open>
  For acknowledged clients with different identifiers, the two lookups of the local broker are
  inverse to each other, an identifier is known exactly when it has a row, and after \<open>remove_id\<close> the
  client is unknown while all others are found as before.
\<close>

theorem broker_id_lookups:
  "open_broker w addr s t \<Longrightarrow> env w = [] \<Longrightarrow> distinct (map local_id (rows t)) \<Longrightarrow>
   distinct (map b_global_id (rows t)) \<Longrightarrow> r \<in> set (rows t) \<Longrightarrow>
   get_global_id addr (local_id r) w = (Ret (b_global_id r), w)
   \<and> get_local_id addr (b_global_id r) w = (Ret (local_id r), w)
   \<and> (\<forall>l. local_id_exists addr l w = (Ret (l \<in> local_id ` set (rows t)), w))
   \<and> (\<exists>pos w'. remove_id addr (local_id r) w = (Ret pos, w') \<and> 0 \<le> pos
        \<and> (\<forall>l. get_global_id addr l w' = (if l = local_id r then Ret (-1) else fst (get_global_id addr l w), w')))"
proof (intro conjI allI)
  assume o: "open_broker w addr s t" and env: "env w = []" and dl: "distinct (map local_id (rows t))"
    and dg: "distinct (map b_global_id (rows t))" and r: "r \<in> set (rows t)"
  have uniq: "row_of key (rows t) (key r) = Some r" if "distinct (map key (rows t))" for key :: "broker_id_t \<Rightarrow> int"
  proof -
    obtain r' where r': "row_of key (rows t) (key r) = Some r'"
      using r by (cases "row_of key (rows t) (key r)") (auto simp: row_of_None_iff)
    with that r have "r' = r" by (auto dest!: row_of_SomeD simp: distinct_map inj_on_def)
    with r' show ?thesis by simp
  qed
  show "get_global_id addr (local_id r) w = (Ret (b_global_id r), w)"
    by (simp add: get_global_id_run [OF o env] uniq [OF dl])
  show "get_local_id addr (b_global_id r) w = (Ret (local_id r), w)"
    by (simp add: get_local_id_run [OF o env] uniq [OF dg])
  show "local_id_exists addr l w = (Ret (l \<in> local_id ` set (rows t)), w)" for l
    using row_of_None_iff [of local_id "rows t" l] by (simp add: local_id_exists_run [OF o env])
  obtain i where i: "index_of (\<lambda>x. local_id x = local_id r) (rows t) = Some i" "i < length (rows t)" "rows t ! i = r"
    using uniq [OF dl] index_of_SomeD by (fastforce simp: row_of_index split: option.splits)
  obtain t' where t': "remove_id addr (local_id r) w = (Ret (int i), w\<lparr>shms := ipc_put addr t' (shms w)\<rparr>)"
    "wf_locals t'" "rows t' = del_at i (rows t)"
    using remove_id_run [OF o env, of "local_id r"] i by auto
  let ?w = "w\<lparr>shms := ipc_put addr t' (shms w)\<rparr>"
  have "open_broker ?w addr s t'"
    using o t' set_del_at_subset [of i "rows t"] by (auto simp: open_broker_def guard_def)
  from get_global_id_run [OF this] env row_of_del_at [OF dl i(2)] i(3)
  have "get_global_id addr l ?w = (if l = local_id r then Ret (-1) else fst (get_global_id addr l w), ?w)" for l
    by (simp add: t'(3) get_global_id_run [OF o env])
  with t'(1) show "\<exists>pos w'. remove_id addr (local_id r) w = (Ret pos, w') \<and> 0 \<le> pos
        \<and> (\<forall>l. get_global_id addr l w' = (if l = local_id r then Ret (-1) else fst (get_global_id addr l w), w'))"
    by (intro exI conjI allI; assumption?) auto
qed

lemma broker_id_lookups_witness:
  "\<exists>(w :: msg_t client_host) a (w' :: msg_t client_host). get_global_id a 20 w = (Ret 6, w) \<and> get_local_id a 6 w = (Ret 20, w)
     \<and> local_id_exists a 30 w = (Ret False, w) \<and> get_global_id a 20 w' = (Ret (-1), w')"
proof -
  let ?r = "\<lambda>l g. \<lparr>local_id = l, b_global_id = g\<rparr>"
  obtain a s t and w :: "msg_t client_host" where
    w: "open_broker w a s t" "env w = []" "rows t = [?r 10 5, ?r 20 6]"
    using broker_host [of "[?r 10 5, ?r 20 6]"] by auto
  then have "distinct (map local_id (rows t))" "distinct (map b_global_id (rows t))" "?r 20 6 \<in> set (rows t)" by auto
  note b = broker_id_lookups [OF w(1,2) this, unfolded broker_id_t.simps]
  from b obtain w' :: "msg_t client_host" where "\<forall>l. get_global_id a l w' = (if l = 20 then Ret (-1) else fst (get_global_id a l w), w')"
    by (elim conjE exE)
  then have "get_global_id a 20 w' = (Ret (-1), w')" by simp
  moreover have "local_id_exists a 30 w = (Ret False, w)" using b w(3) by simp
  ultimately show ?thesis using b by blast
qed

text \<open>
  C35: When the table of the local broker is full, \<open>add_local_id\<close> returns -1 without releasing the
  semaphore: from then on every operation on the table waits for ever.
\<close>

theorem full_table_deadlocks:
  "open_broker w addr s t \<Longrightarrow> env w = [] \<Longrightarrow> count t = int MAX_LOCAL_CLIENTS \<Longrightarrow>
   \<exists>w'. add_local_id addr l w = (Ret (-1), w')
     \<and> (\<forall>l'. get_global_id addr l' w' = (Blocked, w') \<and> get_local_id addr l' w' = (Blocked, w')
         \<and> local_id_exists addr l' w' = (Blocked, w') \<and> remove_id addr l' w' = (Blocked, w')
         \<and> set_global_id addr l' w' = (Blocked, w') \<and> add_local_id addr l' w' = (Blocked, w'))"
  using add_local_id_full [of w addr s t l]
    waits [of "w\<lparr>sems := ipc_put s 0 (sems w)\<rparr>" s addr] by auto

lemma full_table_deadlocks_witness:
  "\<exists>(w :: msg_t client_host) a w'. add_local_id a 11 w = (Ret (-1), w') \<and> get_global_id a 3 w' = (Blocked, w')"
proof -
  obtain a s t and w :: "msg_t client_host" where w: "open_broker w a s t" "env w = []" "count t = int MAX_LOCAL_CLIENTS"
    using broker_host [of "replicate 10 \<lparr>local_id = 8, b_global_id = 9\<rparr>"] by auto
  from full_table_deadlocks [OF w, of 11] show ?thesis by blast
qed

end
