(* ===== verification/Socket_IO.thy ===== *)
theory Socket_IO
  imports Ipc Message
begin

text \<open>
  Stream sockets and the loops of \<^verbatim>\<open>broker/common/ipc/socket.c\<close> that move one struct over them.
  A \<open>write\<close> or \<open>read\<close> may move fewer bytes than asked for (\<open>Part k\<close>; \<open>Part 0\<close> is a lost
  connection) or fail; a \<open>read\<close> with nothing to read waits.
\<close>

section \<open>write and read\<close>

definition sock_write :: "int \<Rightarrow> char list \<Rightarrow> (('m, 's) world, int) prog" where
  "sock_write fd bs =
     bnd syscall (\<lambda>x w.
       if x = Fail then (Ret (-1), w)
       else let n = (case x of Part k \<Rightarrow> min k (length bs) | _ \<Rightarrow> length bs)
            in (Ret (int n), w\<lparr>sent := (sent w)(fd := sent w fd @ take n bs)\<rparr>))"

definition available :: "('m, 's) world \<Rightarrow> int \<Rightarrow> char list" where
  "available w fd = drop (got w fd) (peer w fd (sent w fd))"

definition sock_read :: "int \<Rightarrow> nat \<Rightarrow> (('m, 's) world, int \<times> char list) prog" where
  "sock_read fd n =
     bnd syscall (\<lambda>x w.
       if x = Fail then (Ret (-1, []), w)
       else if x = Part 0 then (Ret (0, []), w)
       else if available w fd = [] then (Blocked, w)
       else let bs = take (case x of Part k \<Rightarrow> min k n | _ \<Rightarrow> n) (available w fd)
            in (Ret (int (length bs), bs), w\<lparr>got := (got w)(fd := got w fd + length bs)\<rparr>))"

lemma wp_sock_write [wp]:
  "wp (sock_write fd bs) Q w =
     (case next_outcome (env w) of
        Fail \<Rightarrow> Q (Ret (-1)) (adv w)
      | Ok \<Rightarrow> Q (Ret (int (length bs))) (w\<lparr>env := tl (env w), sent := (sent w)(fd := sent w fd @ bs)\<rparr>)
      | Part k \<Rightarrow> Q (Ret (int (min k (length bs))))
          (w\<lparr>env := tl (env w), sent := (sent w)(fd := sent w fd @ take k bs)\<rparr>))"
  by (simp add: sock_write_def wp_def syscall_def bnd_def Let_def min_def split: outcome.split)

lemma available_env [simp]: "available (w\<lparr>env := e\<rparr>) fd = available w fd"
  by (simp add: available_def)

lemma wp_sock_read [wp]:
  "wp (sock_read fd n) Q w =
     (if failing w then Q (Ret (-1, [])) (adv w)
      else if next_outcome (env w) = Part 0 then Q (Ret (0, [])) (adv w)
      else if available w fd = [] then Q Blocked (adv w)
      else let bs = take (case next_outcome (env w) of Part k \<Rightarrow> min k n | _ \<Rightarrow> n) (available w fd)
           in Q (Ret (int (length bs), bs)) (w\<lparr>env := tl (env w), got := (got w)(fd := got w fd + length bs)\<rparr>))"
  by (simp add: sock_read_def wp_def syscall_def bnd_def Let_def)

section \<open>The loops\<close>

text \<open>\<^verbatim>\<open>while (bytes_sent < sizeof(...))\<close> with \<open>n\<close> for \<^verbatim>\<open>bytes_sent\<close>.\<close>

function send_from :: "int \<Rightarrow> char list \<Rightarrow> int \<Rightarrow> (('m, 's) world, int) prog" where
  "send_from fd buffer n =
     (if n < int (length buffer) then
        bnd (sock_write fd (drop (nat n) buffer)) (\<lambda>bytes.
        if bytes < 0 then ret (-1)
        else if bytes = 0 then ret 0
        else send_from fd buffer (n + bytes))
      else ret n)"
  by pat_completeness auto
termination
  by (relation "measure (\<lambda>(fd, buffer, n). nat (int (length buffer) - n))") auto

text \<open>\<^verbatim>\<open>while (bytes_read < sizeof(...))\<close>; \<open>buffer\<close> holds the bytes read so far.\<close>

function receive_from :: "int \<Rightarrow> nat \<Rightarrow> int \<Rightarrow> char list \<Rightarrow> (('m, 's) world, int \<times> char list) prog" where
  "receive_from fd size_of n buffer =
     (if n < int size_of then
        bnd (sock_read fd (size_of - nat n)) (\<lambda>(bytes, bs).
        if bytes < 0 then ret (-1, buffer)
        else if bytes = 0 then ret (0, buffer)
        else receive_from fd size_of (n + bytes) (buffer @ bs))
      else ret (n, buffer))"
  by pat_completeness auto
termination
  by (relation "measure (\<lambda>(fd, size_of, n, buffer). nat (int size_of - n))") auto

declare send_from.simps [simp del] receive_from.simps [simp del]

definition send_struct :: "('a \<Rightarrow> char list) \<Rightarrow> int \<Rightarrow> 'a \<Rightarrow> (('m, 's) world, int) prog" where
  "send_struct enc fd m = send_from fd (enc m) 0"

definition receive_struct ::
  "(char list \<Rightarrow> 'a) \<Rightarrow> nat \<Rightarrow> int \<Rightarrow> 'a \<Rightarrow> (('m, 's) world, int \<times> 'a) prog" where
  "receive_struct dec size_of fd m =
     bnd (receive_from fd size_of 0 []) (\<lambda>(n, buffer).
     if n \<le> 0 then ret (n, m) else ret (n, dec buffer))"

definition socket_send :: "int \<Rightarrow> msg_t \<Rightarrow> (('m, 's) world, int) prog" where
  "socket_send fd m = send_struct encode_msg fd m"

definition socket_receive :: "int \<Rightarrow> msg_t \<Rightarrow> (('m, 's) world, int \<times> msg_t) prog" where
  "socket_receive fd m = receive_struct decode_msg sizeof_msg fd m"

definition socket_send_db :: "int \<Rightarrow> db_msg_t \<Rightarrow> (('m, 's) world, int) prog" where
  "socket_send_db fd m = send_struct encode_db_msg fd m"

definition socket_receive_db :: "int \<Rightarrow> db_msg_t \<Rightarrow> (('m, 's) world, int \<times> db_msg_t) prog" where
  "socket_receive_db fd m = receive_struct decode_db_msg sizeof_db_msg fd m"

section \<open>What the loops do\<close>

text \<open>
  \<open>pushed fd bs amount w r w'\<close>: from \<open>w\<close>, a prefix of \<open>bs\<close> was written to \<open>fd\<close> and nothing else
  happened; the result is \<open>amount\<close> exactly when the prefix is all of \<open>bs\<close>, and 0 or -1 otherwise.
\<close>

definition pushed ::
  "int \<Rightarrow> char list \<Rightarrow> int \<Rightarrow> ('m, 's) world \<Rightarrow> int res \<Rightarrow> ('m, 's) world \<Rightarrow> bool" where
  "pushed fd bs amount w r w' \<longleftrightarrow>
     (\<exists>k j. k \<le> length bs \<and> w' = w\<lparr>env := drop j (env w), sent := (sent w)(fd := sent w fd @ take k bs)\<rparr>
        \<and> (if k = length bs then r = Ret amount else r = Ret 0 \<or> r = Ret (-1)))"

lemma pushed_none: "bs \<noteq> [] \<Longrightarrow> r = Ret 0 \<or> r = Ret (-1) \<Longrightarrow> pushed fd bs amount w r (adv w)"
  unfolding pushed_def by (intro exI [of _ 0] exI [of _ 1]) (auto simp: drop_Suc)

lemma pushed_all: "pushed fd [] amount w (Ret amount) w"
  unfolding pushed_def by (intro exI [of _ 0]) simp

lemma pushed_step:
  assumes "pushed fd (drop m bs) amount (w\<lparr>env := tl (env w), sent := (sent w)(fd := sent w fd @ take m bs)\<rparr>) r w'"
    and "m \<le> length bs"
  shows "pushed fd bs amount w r w'"
proof -
  obtain k j where k: "k \<le> length bs - m"
    "w' = w\<lparr>env := drop (Suc j) (env w), sent := (sent w)(fd := sent w fd @ take m bs @ take k (drop m bs))\<rparr>"
    "if k = length bs - m then r = Ret amount else r = Ret 0 \<or> r = Ret (-1)"
    using assms by (auto simp: pushed_def drop_Suc)
  then show ?thesis
    using assms(2) unfolding pushed_def
    by (intro exI [of _ "m + k"] exI [of _ "Suc j"]) (auto simp: take_add)
qed

lemma send_from_pushed:
  "n \<le> length buffer \<Longrightarrow>
   wp (send_from fd buffer (int n)) (pushed fd (drop n buffer) (int (length buffer)) w) w"
proof (induction "length buffer - n" arbitrary: n w rule: less_induct)
  case less
  show ?case
  proof (cases "n < length buffer")
    case False
    with less.prems have "n = length buffer" by simp
    then show ?thesis
      using pushed_all [of fd "int (length buffer)" w] by (subst send_from.simps) simp
  next
    case True
    let ?w = "\<lambda>m. w\<lparr>env := tl (env w), sent := (sent w)(fd := sent w fd @ take m (drop n buffer))\<rparr>"
    have again: "wp (send_from fd buffer (int n + int m)) (pushed fd (drop n buffer) (int (length buffer)) w) (?w m)"
      if m: "0 < m" "m \<le> length buffer - n" for m
    proof (rule wp_mono)
      show "wp (send_from fd buffer (int n + int m)) (pushed fd (drop m (drop n buffer)) (int (length buffer)) (?w m)) (?w m)"
        using less.hyps [of "n + m" "?w m"] m True by (simp add: add.commute)
    qed (rule pushed_step [of _ m], assumption, use m in simp)
    have none: "pushed fd (drop n buffer) (int (length buffer)) w r (adv w)" if "r = Ret 0 \<or> r = Ret (-1)" for r
      using that True by (intro pushed_none) auto
    show ?thesis
    proof (cases "next_outcome (env w)")
      case Ok
      with True again [of "length buffer - n"] show ?thesis
        by (subst send_from.simps) (simp add: wp_sock_write)
    next
      case Fail
      with True none show ?thesis by (subst send_from.simps) (simp add: wp_sock_write)
    next
      case (Part j)
      show ?thesis
      proof (cases "j = 0")
        case True
        with Part \<open>n < length buffer\<close> none [of "Ret 0"] show ?thesis
          by (subst send_from.simps) (simp add: wp_sock_write)
      next
        case False
        with Part True again [of "min j (length buffer - n)"] show ?thesis
          by (subst send_from.simps) (auto simp: wp_sock_write min_def)
      qed
    qed
  qed
qed

text \<open>
  \<open>pulled fd k0 size_of buf w r w'\<close>: of the \<open>k0\<close> bytes still missing, \<open>k\<close> were read into the buffer
  after \<open>buf\<close>.  The result is \<open>size_of\<close> exactly when none is missing; the call waits only when
  everything that arrived has been read.
\<close>

definition pulled :: "int \<Rightarrow> nat \<Rightarrow> nat \<Rightarrow> char list \<Rightarrow> ('m, 's) world
    \<Rightarrow> (int \<times> char list) res \<Rightarrow> ('m, 's) world \<Rightarrow> bool" where
  "pulled fd k0 size_of buf w r w' \<longleftrightarrow>
     (\<exists>k j. k \<le> k0 \<and> k \<le> length (available w fd)
        \<and> w' = w\<lparr>env := drop j (env w), got := (got w)(fd := got w fd + k)\<rparr>
        \<and> (if k = k0 then r = Ret (int size_of, buf @ take k (available w fd))
           else r = Ret (0, buf @ take k (available w fd)) \<or> r = Ret (-1, buf @ take k (available w fd))
             \<or> r = Blocked \<and> k = length (available w fd)))"

lemma available_got: "available (w\<lparr>env := e, got := (got w)(fd := got w fd + k)\<rparr>) fd = drop k (available w fd)"
  by (simp add: available_def add.commute)

lemma pulled_none:
  "0 < k0 \<Longrightarrow> r = Ret (0, buf) \<or> r = Ret (-1, buf) \<or> r = Blocked \<and> available w fd = [] \<Longrightarrow>
   pulled fd k0 size_of buf w r (adv w)"
  unfolding pulled_def by (intro exI [of _ 0] exI [of _ 1]) (auto simp: drop_Suc)

lemma pulled_all: "pulled fd 0 size_of buf w (Ret (int size_of, buf)) w"
  unfolding pulled_def by (intro exI [of _ 0]) simp

lemma pulled_step:
  assumes "pulled fd (k0 - m) size_of (buf @ take m (available w fd))
      (w\<lparr>env := tl (env w), got := (got w)(fd := got w fd + m)\<rparr>) r w'"
    and "m \<le> k0" "m \<le> length (available w fd)"
  shows "pulled fd k0 size_of buf w r w'"
proof -
  let ?av = "available w fd"
  let ?w = "w\<lparr>env := tl (env w), got := (got w)(fd := got w fd + m)\<rparr>"
  obtain k j where k: "k \<le> k0 - m" "k \<le> length (drop m ?av)"
    "w' = ?w\<lparr>env := drop j (env ?w), got := (got ?w)(fd := got ?w fd + k)\<rparr>"
    and r: "if k = k0 - m then r = Ret (int size_of, (buf @ take m ?av) @ take k (drop m ?av))
     else r = Ret (0, (buf @ take m ?av) @ take k (drop m ?av)) \<or> r = Ret (-1, (buf @ take m ?av) @ take k (drop m ?av))
       \<or> r = Blocked \<and> k = length (drop m ?av)"
    using assms(1) unfolding pulled_def available_got by blast
  have "(buf @ take m ?av) @ take k (drop m ?av) = buf @ take (m + k) ?av"
    by (simp add: take_add)
  with r have "if m + k = k0 then r = Ret (int size_of, buf @ take (m + k) ?av)
     else r = Ret (0, buf @ take (m + k) ?av) \<or> r = Ret (-1, buf @ take (m + k) ?av)
       \<or> r = Blocked \<and> m + k = length ?av"
    using k(1,2) assms(2,3) by (auto split: if_splits)
  moreover have "w' = w\<lparr>env := drop (Suc j) (env w), got := (got w)(fd := got w fd + (m + k))\<rparr>"
    using k(3) by (simp add: drop_Suc add.assoc)
  moreover have "m + k \<le> k0" "m + k \<le> length ?av" using k(1,2) assms(2,3) by auto
  ultimately show ?thesis unfolding pulled_def by blast
qed

lemma receive_from_pulled:
  "length buf \<le> size_of \<Longrightarrow>
   wp (receive_from fd size_of (int (length buf)) buf) (pulled fd (size_of - length buf) size_of buf w) w"
proof (induction "size_of - length buf" arbitrary: buf w rule: less_induct)
  case less
  let ?P = "pulled fd (size_of - length buf) size_of buf w"
  show ?case
  proof (cases "length buf < size_of")
    case False
    with less.prems have "length buf = size_of" by simp
    then show ?thesis
      using pulled_all [of fd size_of buf w] by (subst receive_from.simps) simp
  next
    case short: True
    let ?av = "available w fd"
    let ?w = "\<lambda>m. w\<lparr>env := tl (env w), got := (got w)(fd := got w fd + m)\<rparr>"
    have again: "wp (receive_from fd size_of (int (length buf) + int m) (buf @ take m ?av)) ?P (?w m)"
      if m: "0 < m" "m \<le> size_of - length buf" "m \<le> length ?av" for m
    proof (rule wp_mono)
      show "wp (receive_from fd size_of (int (length buf) + int m) (buf @ take m ?av))
          (pulled fd (size_of - length buf - m) size_of (buf @ take m ?av) (?w m)) (?w m)"
        using less.hyps [of "buf @ take m ?av" "?w m"] m short by (simp add: min_absorb2)
    qed (rule pulled_step [of _ _ m], assumption, use m in simp_all)
    have none: "?P r (adv w)" if "r = Ret (0, buf) \<or> r = Ret (-1, buf) \<or> r = Blocked \<and> ?av = []" for r
      using that short by (intro pulled_none) auto
    consider "failing w" | "next_outcome (env w) = Part 0" | "\<not> failing w" "next_outcome (env w) \<noteq> Part 0" "?av = []"
      | "\<not> failing w" "next_outcome (env w) \<noteq> Part 0" "?av \<noteq> []" by blast
    then show ?thesis
    proof cases
      case 4
      define l where "l = (case next_outcome (env w) of Part k \<Rightarrow> min k (size_of - length buf) | _ \<Rightarrow> size_of - length buf)"
      have l: "0 < l" "l \<le> size_of - length buf"
        using 4 short by (auto simp: l_def split: outcome.split)
      define m where "m = min l (length ?av)"
      have "0 < m" "m \<le> size_of - length buf" "m \<le> length ?av" "take l ?av = take m ?av" "length (take l ?av) = m"
        using l 4 by (auto simp: m_def min_def)
      with 4 short again [of m] show ?thesis
        by (subst receive_from.simps) (simp add: wp_sock_read l_def [symmetric] Let_def)
    qed (use short none in \<open>subst receive_from.simps; simp add: wp_sock_read\<close>)+
  qed
qed

section \<open>Sending and receiving a struct\<close>

locale codec =
  fixes enc :: "'a \<Rightarrow> char list"
    and dec :: "char list \<Rightarrow> 'a"
    and size_of :: nat
    and valid :: "'a \<Rightarrow> bool"
  assumes length_enc: "valid m \<Longrightarrow> length (enc m) = size_of"
    and dec_enc: "valid m \<Longrightarrow> dec (enc m) = m"
    and size_pos: "0 < size_of"
begin

lemma send_struct_pushed:
  "valid m \<Longrightarrow> wp (send_struct enc fd m) (pushed fd (enc m) (int size_of) w) w"
  using send_from_pushed [of 0 "enc m" fd w] by (simp add: send_struct_def length_enc)

lemma send_struct_ok:
  assumes "valid m"
  shows "wp (send_struct enc fd m) (\<lambda>r w'. r = Ret (int size_of) \<longrightarrow>
    (\<exists>j. w' = w\<lparr>env := drop j (env w), sent := (sent w)(fd := sent w fd @ enc m)\<rparr>)) w"
  using send_struct_pushed [OF assms]
  by (rule wp_mono) (use size_pos length_enc [OF assms] in \<open>auto simp: pushed_def split: if_splits\<close>)

text \<open>
  With \<open>enc m\<close> first among the bytes that arrived, receiving never waits; if it returns the size of
  the struct, the struct is \<open>m\<close> and exactly its bytes are consumed; otherwise it returns 0 or -1 and
  leaves the caller's struct alone.
\<close>

lemma receive_struct_ok:
  assumes "valid m" "available w fd = enc m @ rest"
  shows "wp (receive_struct dec size_of fd old) (\<lambda>r w'.
     (r = Ret (int size_of, m) \<and> got w' fd = got w fd + size_of \<or> r = Ret (0, old) \<or> r = Ret (-1, old))
     \<and> (\<exists>j k. w' = w\<lparr>env := drop j (env w), got := (got w)(fd := got w fd + k)\<rparr>)) w"
proof -
  have "wp (receive_from fd size_of 0 []) (pulled fd size_of size_of [] w) w"
    using receive_from_pulled [of "[]" size_of fd w] by simp
  then show ?thesis
    unfolding receive_struct_def wp_bnd
    by (rule wp_mono)
       (use size_pos length_enc [OF assms(1)] dec_enc [OF assms(1)] in
         \<open>auto 0 4 simp: pulled_def assms(2) split: if_splits\<close>)
qed

text \<open>With no failing call, a struct that arrived is received.\<close>

lemma receive_struct_run:
  assumes "valid m" "available w fd = enc m @ rest" "env w = []"
  shows "receive_struct dec size_of fd old w =
    (Ret (int size_of, m), w\<lparr>got := (got w)(fd := got w fd + size_of)\<rparr>)"
  using assms size_pos length_enc [OF assms(1)] dec_enc [OF assms(1)]
  by (cases "enc m = []"; intro wp_eqI) (simp_all add: receive_struct_def receive_from.simps wp_sock_read Let_def)

lemma send_struct_run:
  assumes "valid m" "env w = []"
  shows "send_struct enc fd m w =
    (Ret (int size_of), w\<lparr>sent := (sent w)(fd := sent w fd @ enc m)\<rparr>)"
  using assms size_pos length_enc [OF assms(1)]
  by (intro wp_eqI) (simp add: send_struct_def send_from.simps wp_sock_write)

end

interpretation msg_codec: codec encode_msg decode_msg sizeof_msg wf_msg
  by unfold_locales (auto simp: length_encode_msg decode_encode_msg sizeof_msg_def)

interpretation db_codec: codec encode_db_msg decode_db_msg sizeof_db_msg wf_db_msg
  by unfold_locales (auto simp: length_encode_db_msg decode_encode_db_msg sizeof_db_msg_def)

section \<open>Properties\<close>

text \<open>
  C36: Whatever short writes and failures the socket shows, \<open>socket_send\<close> writes a prefix of the
  bytes of the message, each byte once and in order; it returns the size of the struct exactly when
  all of it was written, and 0 or -1 otherwise.
\<close>

theorem socket_send_writes_prefix:
  "wf_msg m \<Longrightarrow> \<exists>r w' k. socket_send fd m w = (Ret r, w') \<and> sent w' = (sent w)(fd := sent w fd @ take k (encode_msg m))
     \<and> k \<le> sizeof_msg \<and> (r = int sizeof_msg \<longleftrightarrow> k = sizeof_msg) \<and> (r \<noteq> int sizeof_msg \<longrightarrow> r = 0 \<or> r = -1)
     \<and> got w' = got w \<and> queues w' = queues w \<and> shms w' = shms w"
proof -
  assume wf: "wf_msg m"
  have "pushed fd (encode_msg m) (int sizeof_msg) w (fst (socket_send fd m w)) (snd (socket_send fd m w))"
    using msg_codec.send_struct_pushed [OF wf, of fd w] by (simp add: wp_run socket_send_def)
  then obtain k j where k: "k \<le> sizeof_msg"
    "snd (socket_send fd m w) = w\<lparr>env := drop j (env w), sent := (sent w)(fd := sent w fd @ take k (encode_msg m))\<rparr>"
    "if k = sizeof_msg then fst (socket_send fd m w) = Ret (int sizeof_msg)
     else fst (socket_send fd m w) = Ret 0 \<or> fst (socket_send fd m w) = Ret (-1)"
    by (auto simp: pushed_def length_encode_msg [OF wf])
  then obtain r where "socket_send fd m w = (Ret r, snd (socket_send fd m w))"
    "if k = sizeof_msg then r = int sizeof_msg else r = 0 \<or> r = -1"
    by (cases "socket_send fd m w") (auto split: if_splits)
  with k(1,2) show ?thesis
    by (intro exI [of _ r] exI [of _ "snd (socket_send fd m w)"] exI [of _ k])
       (auto simp: sizeof_msg_def split: if_splits)
qed

lemma socket_send_writes_prefix_witness:
  "\<exists>r w' k. socket_send 3 \<lparr>mtype = 5, global_id = 2, msg_type = PUBLISH,
      payload = \<lparr>topic = replicate 30 NUL, body = replicate 100 NUL\<rparr>, broker_id = 1\<rparr>
      (idle_host\<lparr>env := [Part 10, Part 20, Fail]\<rparr> :: (msg_t, int) world) = (Ret r, w') \<and> k \<le> sizeof_msg
     \<and> (r = int sizeof_msg \<longleftrightarrow> k = sizeof_msg)"
  using socket_send_writes_prefix [of "\<lparr>mtype = 5, global_id = 2, msg_type = PUBLISH,
      payload = \<lparr>topic = replicate 30 NUL, body = replicate 100 NUL\<rparr>, broker_id = 1\<rparr>" 3
      "idle_host\<lparr>env := [Part 10, Part 20, Fail]\<rparr> :: (msg_t, int) world"]
  by (fastforce simp: wf_msg_def is_int32_def is_int64_def)

text \<open>
  When the bytes of a message arrived first on a socket, \<open>socket_receive\<close> never waits, whatever
  short reads happen: either it returns the size of the struct, the message itself and has read
  exactly its bytes, or a read failed or found the connection lost and the caller's struct is as before.
\<close>

theorem socket_receive_reads_message:
  "wf_msg m \<Longrightarrow> available w fd = encode_msg m @ rest \<Longrightarrow>
   \<exists>r w'. socket_receive fd old w = (Ret r, w')
     \<and> (r = (int sizeof_msg, m) \<and> available w' fd = rest \<or> r = (0, old) \<or> r = (-1, old))
     \<and> (env w = [] \<longrightarrow> r = (int sizeof_msg, m))"
proof -
  assume wf: "wf_msg m" and av: "available w fd = encode_msg m @ rest"
  let ?run = "socket_receive fd old w"
  have 1: "fst ?run = Ret (int sizeof_msg, m) \<and> got (snd ?run) fd = got w fd + sizeof_msg \<or> fst ?run = Ret (0, old) \<or> fst ?run = Ret (-1, old)"
    and "\<exists>j k. snd ?run = w\<lparr>env := drop j (env w), got := (got w)(fd := got w fd + k)\<rparr>"
    using msg_codec.receive_struct_ok [OF wf av, of old] by (auto simp: wp_run socket_receive_def)
  then have 2: "available (snd ?run) fd = rest" if "got (snd ?run) fd = got w fd + sizeof_msg"
    using that av length_encode_msg [OF wf] by (auto simp: available_got) 
  have 3: "env w = [] \<longrightarrow> fst ?run = Ret (int sizeof_msg, m)"
    using msg_codec.receive_struct_run [OF wf av, of old] by (simp add: socket_receive_def)
  obtain r w' where "?run = (r, w')" by (cases ?run)
  with 1 2 3 show ?thesis by auto
qed

lemma socket_receive_reads_message_witness:
  "\<exists>r w'. socket_receive 3 \<lparr>mtype = 0, global_id = 0, msg_type = 0,
      payload = \<lparr>topic = [], body = []\<rparr>, broker_id = 0\<rparr>
      (idle_host\<lparr>peer := (\<lambda>_ _. encode_msg \<lparr>mtype = 5, global_id = 2, msg_type = PUBLISH,
      payload = \<lparr>topic = replicate 30 NUL, body = replicate 100 NUL\<rparr>, broker_id = 1\<rparr>)\<rparr> :: (msg_t, int) world)
     = (Ret r, w') \<and> fst r = 152 \<and> mtype (snd r) = 5"
proof -
  let ?m = "\<lparr>mtype = 5, global_id = 2, msg_type = PUBLISH,
      payload = \<lparr>topic = replicate 30 NUL, body = replicate 100 NUL\<rparr>, broker_id = 1\<rparr>"
  let ?w = "idle_host\<lparr>peer := (\<lambda>_ _. encode_msg ?m)\<rparr> :: (msg_t, int) world"
  have "wf_msg ?m" by (simp add: wf_msg_def is_int32_def is_int64_def)
  moreover have "available ?w 3 = encode_msg ?m @ []" "env ?w = []" by (simp_all add: available_def idle_host_def)
  ultimately show ?thesis
    using socket_receive_reads_message [of ?m ?w 3 "[]"] by (fastforce simp: sizeof_msg_def)
qed

end
