(* ===== verification/Local_Broker.thy ===== *)
theory Local_Broker
  imports Broker_Id Socket_IO
begin

text \<open>
  The local broker of a client machine: the request handler (\<^verbatim>\<open>broker/client/broker_req_handler.c\<close>),
  which takes the requests of the clients to the server, and the response handler
  (\<^verbatim>\<open>broker/client/broker_resp_handler.c\<close>), which takes what the server sends to the clients.  They
  share the table of client identifiers and three message queues.  \<open>stk\<close> is what an uninitialised
  message struct on the stack held before.
\<close>

section \<open>Operations\<close>

abbreviation BROKER_REQ_MSG :: int where "BROKER_REQ_MSG \<equiv> 3"
abbreviation BROKER_RESP_MSG :: int where "BROKER_RESP_MSG \<equiv> 4"
abbreviation INCOMING_MSG_QUEUE :: int where "INCOMING_MSG_QUEUE \<equiv> 5"

type_synonym machine = "(msg_t, broker_ids_t) world"

definition init_msg_req_queue :: "(machine, int) prog" where
  "init_msg_req_queue = bnd (creamsg BROKER_REQ_MSG) (\<lambda>q. if q < 0 then stop (Exit (-1)) else ret q)"

definition init_msg_resp_queue :: "(machine, int) prog" where
  "init_msg_resp_queue = bnd (creamsg BROKER_RESP_MSG) (\<lambda>q. if q < 0 then stop (Exit (-1)) else ret q)"

definition init_incoming_msg_queue :: "(machine, int) prog" where
  "init_incoming_msg_queue = bnd (creamsg INCOMING_MSG_QUEUE) (\<lambda>q. if q < 0 then stop (Exit (-1)) else ret q)"

definition get_msg_resp_queue :: "(machine, int) prog" where
  "get_msg_resp_queue = bnd (getmsg BROKER_RESP_MSG) (\<lambda>q. if q < 0 then stop (Exit (-1)) else ret q)"

definition get_incoming_msg_queue :: "(machine, int) prog" where
  "get_incoming_msg_queue = bnd (getmsg INCOMING_MSG_QUEUE) (\<lambda>q. if q < 0 then stop (Exit (-1)) else ret q)"

text \<open>
  What the two main functions do before and after their loops; connecting to the server, starting and
  stopping the other process are left out.
\<close>

definition broker_req_start :: "(machine, int \<times> int \<times> int \<times> int) prog" where
  "broker_req_start =
     bnd init_msg_req_queue (\<lambda>req_queue.
     bnd init_msg_resp_queue (\<lambda>resp_queue.
     bnd init_incoming_msg_queue (\<lambda>incoming_msg_queue.
     bnd broker_id_create (\<lambda>broker_ids. ret (req_queue, resp_queue, incoming_msg_queue, broker_ids)))))"

definition broker_resp_start :: "(machine, int \<times> int \<times> int) prog" where
  "broker_resp_start =
     bnd get_msg_resp_queue (\<lambda>resp_queue.
     bnd get_incoming_msg_queue (\<lambda>incoming_msg_queue.
     bnd broker_id_get (\<lambda>broker_ids. ret (resp_queue, incoming_msg_queue, broker_ids))))"

definition broker_req_stop :: "int \<Rightarrow> int \<Rightarrow> int \<Rightarrow> int \<Rightarrow> (machine, unit) prog" where
  "broker_req_stop req_queue resp_queue incoming_msg_queue broker_ids =
     thn (delmsg req_queue) (
     thn (delmsg resp_queue) (
     thn (delmsg incoming_msg_queue) (
     thn (broker_id_destroy broker_ids) (ret ()))))"

text \<open>
  After a failed receive the code sets only the type of the struct it sends: its \<open>mtype\<close> is what the
  stack held.
\<close>

definition process_receive :: "msg_t \<Rightarrow> int \<Rightarrow> int \<Rightarrow> msg_t \<Rightarrow> (machine, unit) prog" where
  "process_receive stk resp_queue incoming_msg_queue msg =
     bnd (rcvmsg_no_wait mtype incoming_msg_queue stk (mtype msg)) (\<lambda>(res, incoming_msg).
     let incoming_msg =
       (if res < 0 then incoming_msg\<lparr>msg_type := ACK_ERROR\<rparr>
        else if res = 0 then incoming_msg\<lparr>mtype := mtype msg, msg_type := ACK_NO_MSG\<rparr>
        else incoming_msg\<lparr>msg_type := ACK_OK\<rparr>) in
     bnd (sendmsg mtype resp_queue incoming_msg) (\<lambda>_. ret ()))"

definition process_msg_br :: "msg_t \<Rightarrow> int \<Rightarrow> int \<Rightarrow> int \<Rightarrow> int \<Rightarrow> msg_t \<Rightarrow> (machine, unit) prog" where
  "process_msg_br stk broker_ids resp_queue socket incoming_msg_queue msg =
     bnd (if msg_type msg \<noteq> CREATE then
            bnd (local_id_exists broker_ids (int_of_long (mtype msg))) (\<lambda>exists. ret (\<not> exists))
          else ret False) (\<lambda>invalid.
     if invalid then ret ()
     else if msg_type msg \<in> {ACK_OK, ACK_ERROR, ACK_CREATE, ACK_DESTROY, ACK_NO_MSG} then ret ()
     else if msg_type msg = RECEIVE then process_receive stk resp_queue incoming_msg_queue msg
     else bnd (if msg_type msg = CREATE then
                 bnd (add_local_id broker_ids (int_of_long (mtype msg))) (\<lambda>r. ret (if r < 0 then None else Some msg))
               else
                 bnd (get_global_id broker_ids (int_of_long (mtype msg))) (\<lambda>g. ret (Some (msg\<lparr>mtype := g\<rparr>)))) (\<lambda>m.
       case m of None \<Rightarrow> ret () | Some msg \<Rightarrow> bnd (socket_send socket msg) (\<lambda>_. ret ())))"

text \<open>
  One iteration of the main loop, without a signal; the result of \<open>rcvmsg\<close> is ignored.  The loops
  below run one iteration for each element of their list, the content of the stack.
\<close>

definition broker_req_step :: "msg_t \<Rightarrow> msg_t \<Rightarrow> int \<Rightarrow> int \<Rightarrow> int \<Rightarrow> int \<Rightarrow> int \<Rightarrow> (machine, unit) prog" where
  "broker_req_step stk stk_msg req_queue broker_ids resp_queue server_socket incoming_msg_queue =
     bnd (rcvmsg mtype req_queue stk_msg 0) (\<lambda>(_, msg).
     process_msg_br stk broker_ids resp_queue server_socket incoming_msg_queue msg)"

text \<open>
  The other handler's \<^verbatim>\<open>process_publish\<close> and \<^verbatim>\<open>process_message\<close>.
\<close>

definition process_publish_br :: "int \<Rightarrow> int \<Rightarrow> msg_t \<Rightarrow> (machine, unit) prog" where
  "process_publish_br broker_ids incoming_msg_queue msg =
     bnd (get_local_id broker_ids (int_of_long (mtype msg))) (\<lambda>local_id.
     bnd (sendmsg mtype incoming_msg_queue (msg\<lparr>mtype := local_id\<rparr>)) (\<lambda>_. ret ()))"

definition process_message_br :: "int \<Rightarrow> int \<Rightarrow> int \<Rightarrow> msg_t \<Rightarrow> (machine, unit) prog" where
  "process_message_br broker_ids resp_queue incoming_msg_queue msg =
     (if msg_type msg = PUBLISH then process_publish_br broker_ids incoming_msg_queue msg
      else
        bnd (if msg_type msg = ACK_CREATE then set_global_id broker_ids (int_of_long (mtype msg))
             else bnd (get_local_id broker_ids (int_of_long (mtype msg))) (\<lambda>local_id.
               if msg_type msg = ACK_DESTROY then thn (remove_id broker_ids local_id) (ret local_id)
               else ret local_id)) (\<lambda>local_id.
        bnd (sendmsg mtype resp_queue (msg\<lparr>mtype := local_id\<rparr>)) (\<lambda>_. ret ())))"

text \<open>One iteration of the main loop; \<open>False\<close> leaves it.\<close>

definition broker_resp_step :: "msg_t \<Rightarrow> int \<Rightarrow> int \<Rightarrow> int \<Rightarrow> int \<Rightarrow> (machine, bool) prog" where
  "broker_resp_step stk_msg socket_fd broker_ids resp_queue incoming_msg_queue =
     bnd (socket_receive socket_fd stk_msg) (\<lambda>(res, msg).
     if res < 0 then ret False
     else if res = 0 then ret False
     else thn (process_message_br broker_ids resp_queue incoming_msg_queue msg) (ret True))"

primrec broker_req_loop :: "(msg_t \<times> msg_t) list \<Rightarrow> int \<Rightarrow> int \<Rightarrow> int \<Rightarrow> int \<Rightarrow> int \<Rightarrow> (machine, unit) prog" where
  "broker_req_loop [] req_queue broker_ids resp_queue server_socket incoming_msg_queue = ret ()"
| "broker_req_loop (s # ss) req_queue broker_ids resp_queue server_socket incoming_msg_queue =
     thn (broker_req_step (fst s) (snd s) req_queue broker_ids resp_queue server_socket incoming_msg_queue)
       (broker_req_loop ss req_queue broker_ids resp_queue server_socket incoming_msg_queue)"

primrec broker_resp_loop :: "msg_t list \<Rightarrow> int \<Rightarrow> int \<Rightarrow> int \<Rightarrow> int \<Rightarrow> (machine, unit) prog" where
  "broker_resp_loop [] socket_fd broker_ids resp_queue incoming_msg_queue = ret ()"
| "broker_resp_loop (s # ss) socket_fd broker_ids resp_queue incoming_msg_queue =
     bnd (broker_resp_step s socket_fd broker_ids resp_queue incoming_msg_queue) (\<lambda>on.
     if on then broker_resp_loop ss socket_fd broker_ids resp_queue incoming_msg_queue else ret ())"

section \<open>A machine in service\<close>

text \<open>
  \<open>local w a rs rq resp iq inc\<close>: on the machine \<open>w\<close>, where no call fails, the table of clients at \<open>a\<close>
  is in service with the rows \<open>rs\<close>, and the queues for responses and for incoming messages hold
  \<open>resp\<close> and \<open>inc\<close>.
\<close>

definition at_work :: "machine \<Rightarrow> int \<Rightarrow> broker_id_t list \<Rightarrow> int \<Rightarrow> msg_t list \<Rightarrow> int \<Rightarrow> msg_t list \<Rightarrow> bool" where
  "at_work w a rs rq resp iq inc \<longleftrightarrow> (\<exists>s t. open_broker w a s t \<and> rows t = rs) \<and> env w = []
     \<and> ipc_objs (queues w) rq = Some resp \<and> ipc_objs (queues w) iq = Some inc"

definition global_of :: "broker_id_t list \<Rightarrow> int \<rightharpoonup> int" where
  "global_of rs l = map_option b_global_id (row_of local_id rs l)"

definition local_of :: "broker_id_t list \<Rightarrow> int \<rightharpoonup> int" where
  "local_of rs g = map_option local_id (row_of b_global_id rs g)"

lemma at_workE:
  assumes "at_work w a rs rq resp iq inc"
  obtains s t where "open_broker w a s t" "rows t = rs" "count t = int (length rs)" "env w = []"
    "ipc_objs (queues w) rq = Some resp" "ipc_objs (queues w) iq = Some inc"
proof -
  obtain s t where "open_broker w a s t" "rows t = rs" "env w = []"
    "ipc_objs (queues w) rq = Some resp" "ipc_objs (queues w) iq = Some inc"
    using assms by (auto simp: at_work_def)
  moreover from this have "count t = int (length rs)" using length_rows [of MAX_LOCAL_CLIENTS t] by (auto simp: open_broker_def)
  ultimately show thesis by (intro that)
qed

lemma open_broker_updates [simp]:
  fixes w :: machine
  shows "open_broker (w\<lparr>queues := x\<rparr>) = open_broker w" "open_broker (w\<lparr>sent := y\<rparr>) = open_broker w"
    "open_broker (w\<lparr>got := z\<rparr>) = open_broker w" "open_broker (w\<lparr>env := e\<rparr>) = open_broker w"
  by (simp_all add: fun_eq_iff open_broker_def guard_def)

lemma at_work_positive:
  assumes "at_work w a rs rq resp iq inc"
  shows "global_of rs l = Some g \<Longrightarrow> 0 \<le> g" "local_of rs g' = Some l' \<Longrightarrow> 0 < l'"
  using assms by (auto elim!: at_workE simp: open_broker_def global_of_def local_of_def dest!: row_of_SomeD)

lemma at_work_lookups:
  assumes "at_work w a rs rq resp iq inc"
  shows "local_id_exists a l w = (Ret (global_of rs l \<noteq> None), w)"
    "get_global_id a l w = (Ret (case global_of rs l of None \<Rightarrow> -1 | Some g \<Rightarrow> g), w)"
    "get_local_id a g w = (Ret (case local_of rs g of None \<Rightarrow> -1 | Some l \<Rightarrow> l), w)"
proof -
  obtain s t where b: "open_broker w a s t" "rows t = rs" "env w = []" using assms by (rule at_workE)
  show "local_id_exists a l w = (Ret (global_of rs l \<noteq> None), w)"
    "get_global_id a l w = (Ret (case global_of rs l of None \<Rightarrow> -1 | Some g \<Rightarrow> g), w)"
    "get_local_id a g w = (Ret (case local_of rs g of None \<Rightarrow> -1 | Some l \<Rightarrow> l), w)"
    using local_id_exists_run [OF b(1,3)] get_global_id_run [OF b(1,3)] get_local_id_run [OF b(1,3)] b(2)
    by (simp_all add: global_of_def local_of_def split: option.split)
qed

lemma at_work_send:
  assumes "at_work w a rs rq resp iq inc"
  shows "sendmsg mtype rq m w = (if 0 < mtype m then (Ret 0, w\<lparr>queues := ipc_put rq (resp @ [m]) (queues w)\<rparr>) else (Ret (-1), w))"
    "sendmsg mtype iq m w = (if 0 < mtype m then (Ret 0, w\<lparr>queues := ipc_put iq (inc @ [m]) (queues w)\<rparr>) else (Ret (-1), w))"
  using assms by (elim at_workE, intro wp_eqI, simp add: wp)+

section \<open>The abstract local broker\<close>

text \<open>
  The rows of the table, the responses and the incoming messages.  A request changes them and sends
  messages to the server; a response of the server changes them.
\<close>

type_synonym local_state = "broker_id_t list \<times> msg_t list \<times> msg_t list"

definition abs_receive :: "msg_t \<Rightarrow> msg_t \<Rightarrow> local_state \<Rightarrow> local_state" where
  "abs_receive stk m = (\<lambda>(rs, resp, inc). case take_msg mtype (mtype m) inc of
     None \<Rightarrow> (rs, resp @ [stk\<lparr>mtype := mtype m, msg_type := ACK_NO_MSG\<rparr>], inc)
   | Some (x, inc') \<Rightarrow> (rs, resp @ [x\<lparr>msg_type := ACK_OK\<rparr>], inc'))"

definition abs_request :: "msg_t \<Rightarrow> msg_t \<Rightarrow> local_state \<Rightarrow> local_state \<times> msg_t list" where
  "abs_request stk m = (\<lambda>(rs, resp, inc).
     if msg_type m = CREATE then ((rs @ [\<lparr>local_id = mtype m, b_global_id = 0\<rparr>], resp, inc), [m])
     else if msg_type m = RECEIVE \<and> global_of rs (mtype m) \<noteq> None then (abs_receive stk m (rs, resp, inc), [])
     else if msg_type m \<in> {ACK_OK, ACK_ERROR, ACK_CREATE, ACK_DESTROY, ACK_NO_MSG} then ((rs, resp, inc), [])
     else ((rs, resp, inc), case global_of rs (mtype m) of None \<Rightarrow> [] | Some g \<Rightarrow> [m\<lparr>mtype := g\<rparr>]))"

fun set_first :: "('a \<Rightarrow> bool) \<Rightarrow> ('a \<Rightarrow> 'a) \<Rightarrow> 'a list \<Rightarrow> 'a list" where
  "set_first P f [] = []"
| "set_first P f (x # xs) = (if P x then f x # xs else x # set_first P f xs)"

definition abs_response :: "msg_t \<Rightarrow> local_state \<Rightarrow> local_state" where
  "abs_response m = (\<lambda>(rs, resp, inc).
     case local_of rs (if msg_type m = ACK_CREATE then 0 else mtype m) of
       None \<Rightarrow> (rs, resp, inc)
     | Some l \<Rightarrow>
         if msg_type m = PUBLISH then (rs, resp, inc @ [m\<lparr>mtype := l\<rparr>])
         else (if msg_type m = ACK_CREATE then set_first (\<lambda>r. b_global_id r = 0) (\<lambda>r. r\<lparr>b_global_id := mtype m\<rparr>) rs
               else if msg_type m = ACK_DESTROY then
                 (case index_of (\<lambda>r. local_id r = l) rs of None \<Rightarrow> rs | Some i \<Rightarrow> del_at i rs)
               else rs,
               resp @ [m\<lparr>mtype := l\<rparr>], inc))"

section \<open>The handlers implement it\<close>

text \<open>\<open>handles p w \<dots> S' out\<close>: \<open>p\<close> returns in state \<open>S'\<close> and has written \<open>out\<close> to the server.\<close>

definition at_state :: "machine \<Rightarrow> int \<Rightarrow> int \<Rightarrow> int \<Rightarrow> local_state \<Rightarrow> bool" where
  "at_state w a rq iq S \<longleftrightarrow> at_work w a (fst S) rq (fst (snd S)) iq (snd (snd S))"

definition handles :: "(machine, unit) prog \<Rightarrow> machine \<Rightarrow> int \<Rightarrow> int \<Rightarrow> int \<Rightarrow> int \<Rightarrow> local_state \<Rightarrow> msg_t list \<Rightarrow> bool" where
  "handles p w a rq iq fd S' out \<longleftrightarrow> (\<exists>w'. p w = (Ret (), w') \<and> at_state w' a rq iq S'
     \<and> sent w' = (sent w)(fd := sent w fd @ concat (map encode_msg out)) \<and> got w' = got w \<and> peer w' = peer w
     \<and> (\<forall>q. q \<noteq> rq \<and> q \<noteq> iq \<longrightarrow> ipc_objs (queues w') q = ipc_objs (queues w) q))"

lemma at_work_put:
  assumes "at_work w a rs rq resp iq inc" "rq \<noteq> iq"
  shows "at_work (w\<lparr>queues := ipc_put rq resp' (queues w)\<rparr>) a rs rq resp' iq inc"
    "at_work (w\<lparr>queues := ipc_put iq inc' (queues w)\<rparr>) a rs rq resp iq inc'"
  using assms by (auto simp: at_work_def)

lemma handles_reply:
  assumes "at_work w a rs rq resp iq inc" "rq \<noteq> iq"
  shows "handles (thn (sendmsg mtype rq m) (ret ())) w a rq iq fd (rs, if 0 < mtype m then resp @ [m] else resp, inc) []"
    "handles (thn (sendmsg mtype iq m) (ret ())) w a rq iq fd (rs, resp, if 0 < mtype m then inc @ [m] else inc) []"
  using assms at_work_put [OF assms]
  by (auto simp: handles_def at_state_def bnd_def ret_def at_work_send)

lemma handles_forward:
  assumes "at_work w a rs rq resp iq inc" "wf_msg m"
  shows "handles (thn (socket_send fd m) (ret ())) w a rq iq fd (rs, resp, inc) [m]"
proof -
  have e: "env w = []" using assms(1) by (rule at_workE)
  have "socket_send fd m w = (Ret (int sizeof_msg), w\<lparr>sent := (sent w)(fd := sent w fd @ encode_msg m)\<rparr>)"
    using msg_codec.send_struct_run [OF assms(2) e] by (simp add: socket_send_def)
  moreover have "at_work (w\<lparr>sent := x\<rparr>) a rs rq resp iq inc" for x using assms(1) by (simp add: at_work_def)
  ultimately show ?thesis by (simp add: handles_def at_state_def bnd_def ret_def)
qed

lemma handles_bnd: "p w = (Ret x, w) \<Longrightarrow> handles (f x) w a rq iq fd S out \<Longrightarrow> handles (bnd p f) w a rq iq fd S out"
  by (simp add: handles_def bnd_def)

lemma handles_nothing: "at_state w a rq iq S \<Longrightarrow> handles (ret ()) w a rq iq fd S []"
  by (simp add: handles_def ret_def)

lemma process_receive_run:
  assumes "at_work w a rs rq resp iq inc" "rq \<noteq> iq" "0 < mtype m"
  shows "handles (process_receive stk rq iq m) w a rq iq fd (abs_receive stk m (rs, resp, inc)) []"
proof -
  have e: "env w = []" "ipc_objs (queues w) iq = Some inc" using assms(1) by (auto elim: at_workE)
  show ?thesis
  proof (cases "take_msg mtype (mtype m) inc")
    case None
    then have "rcvmsg_no_wait mtype iq stk (mtype m) w = (Ret (0, stk), w)"
      using e by (intro wp_eqI) (simp add: wp)
    with handles_reply(1) [OF assms(1,2), of "stk\<lparr>mtype := mtype m, msg_type := ACK_NO_MSG\<rparr>" fd] assms(3) None show ?thesis
      by (auto simp: handles_def process_receive_def bnd_def abs_receive_def Let_def)
  next
    case (Some y)
    then obtain x inc' where y: "take_msg mtype (mtype m) inc = Some (x, inc')" by (cases y) auto
    let ?w = "w\<lparr>queues := ipc_put iq inc' (queues w)\<rparr>"
    have r: "rcvmsg_no_wait mtype iq stk (mtype m) w = (Ret (1, x), ?w)"
      using e y by (intro wp_eqI) (simp add: wp)
    have "0 < mtype x" using take_msg_type [OF y] assms(3) by simp
    with handles_reply(1) [OF at_work_put(2) [OF assms(1,2), of inc'] assms(2), of "x\<lparr>msg_type := ACK_OK\<rparr>" fd] r y show ?thesis
      by (auto simp: handles_def process_receive_def bnd_def abs_receive_def Let_def)
  qed
qed

text \<open>What a request needs: a free row for a creation, and a message that fits its struct.\<close>

definition local_request_ok :: "msg_t \<Rightarrow> local_state \<Rightarrow> bool" where
  "local_request_ok m S \<longleftrightarrow> wf_msg m \<and> 0 < mtype m \<and> is_int32 (mtype m)
     \<and> (msg_type m = CREATE \<longrightarrow> length (fst S) < MAX_LOCAL_CLIENTS)
     \<and> (\<forall>g. global_of (fst S) (mtype m) = Some g \<longrightarrow> is_int64 g)"

lemma process_msg_br_run:
  assumes "at_work w a rs rq resp iq inc" "rq \<noteq> iq" "local_request_ok m (rs, resp, inc)"
    "abs_request stk m (rs, resp, inc) = (S', out)"
  shows "handles (process_msg_br stk a rq fd iq m) w a rq iq fd S' out"
proof -
  have m: "wf_msg m" "0 < mtype m" "is_int32 (mtype m)" using assms(3) by (simp_all add: local_request_ok_def)
  have st: "at_state w a rq iq (rs, resp, inc)" using assms(1) by (simp add: at_state_def)
  note look = at_work_lookups [OF assms(1)]
  consider "msg_type m = CREATE" | "msg_type m \<noteq> CREATE" "global_of rs (mtype m) = None"
    | g where "msg_type m \<notin> {CREATE, RECEIVE, ACK_OK, ACK_ERROR, ACK_CREATE, ACK_DESTROY, ACK_NO_MSG}" "global_of rs (mtype m) = Some g"
    | g where "msg_type m = RECEIVE" "global_of rs (mtype m) = Some g"
    | g where "msg_type m \<in> {ACK_OK, ACK_ERROR, ACK_CREATE, ACK_DESTROY, ACK_NO_MSG}" "global_of rs (mtype m) = Some g"
    by blast
  then show ?thesis
  proof cases
    case 1
    obtain s t where b: "open_broker w a s t" "rows t = rs" "count t = int (length rs)" "env w = []"
      "ipc_objs (queues w) rq = Some resp" "ipc_objs (queues w) iq = Some inc" using assms(1) by (rule at_workE)
    have "count t < int MAX_LOCAL_CLIENTS" using assms(3) 1 b(3) by (simp add: local_request_ok_def)
    from add_local_id_run [OF b(1,4) this, of "mtype m"] b(2) obtain t' where
      t': "add_local_id a (mtype m) w = (Ret 0, w\<lparr>shms := ipc_put a t' (shms w)\<rparr>)" "wf_locals t'"
      "rows t' = rs @ [\<lparr>local_id = mtype m, b_global_id = 0\<rparr>]" by auto
    let ?w = "w\<lparr>shms := ipc_put a t' (shms w)\<rparr>"
    have "open_broker ?w a s t'" using b(1,2) t'(2,3) m(2) by (auto simp: open_broker_def guard_def)
    then have "at_work ?w a (rs @ [\<lparr>local_id = mtype m, b_global_id = 0\<rparr>]) rq resp iq inc"
      using b(4-6) t'(3) by (auto simp: at_work_def)
    from handles_forward [OF this m(1), of fd] 1 t'(1) m(3) assms(4) show ?thesis
      by (auto simp: handles_def process_msg_br_def bnd_def ret_def abs_request_def)
  next
    case 2
    with assms(4) st m(3) look show ?thesis
      by (auto simp: handles_def process_msg_br_def bnd_def ret_def abs_request_def split: if_splits)
  next
    case (3 g)
    then have "wf_msg (m\<lparr>mtype := g\<rparr>)" using assms(3) by (simp add: local_request_ok_def wf_msg_def)
    from handles_forward [OF assms(1) this, of fd] 3 assms(4) m(3) look show ?thesis
      by (auto simp: handles_def process_msg_br_def bnd_def ret_def abs_request_def)
  next
    case (4 g)
    with process_receive_run [OF assms(1,2) m(2), of stk fd] assms(4) m(3) look show ?thesis
      by (auto simp: handles_def process_msg_br_def bnd_def ret_def abs_request_def)
  next
    case (5 g)
    with assms(4) st m(3) look show ?thesis
      by (auto simp: handles_def process_msg_br_def bnd_def ret_def abs_request_def split: if_splits)
  qed
qed

lemma remove_row:
  assumes "at_work w a rs rq resp iq inc"
  shows "\<exists>k w'. remove_id a l w = (Ret k, w')
    \<and> at_work w' a (case index_of (\<lambda>r. local_id r = l) rs of None \<Rightarrow> rs | Some i \<Rightarrow> del_at i rs) rq resp iq inc
    \<and> sent w' = sent w \<and> got w' = got w \<and> peer w' = peer w \<and> queues w' = queues w"
proof -
  obtain s t where b: "open_broker w a s t" "rows t = rs" "count t = int (length rs)" "env w = []"
    "ipc_objs (queues w) rq = Some resp" "ipc_objs (queues w) iq = Some inc" using assms(1) by (rule at_workE)
  from remove_id_run [OF b(1,4), of l] b(2) obtain t' where
    rm: "remove_id a l w = (case index_of (\<lambda>r. local_id r = l) rs of None \<Rightarrow> (Ret (-1), w)
       | Some i \<Rightarrow> (Ret (int i), w\<lparr>shms := ipc_put a t' (shms w)\<rparr>))"
    "\<forall>i. index_of (\<lambda>r. local_id r = l) rs = Some i \<longrightarrow> wf_locals t' \<and> rows t' = del_at i rs" by auto
  show ?thesis
  proof (cases "index_of (\<lambda>r. local_id r = l) rs")
    case None
    with rm(1) assms show ?thesis by simp
  next
    case (Some i)
    have "open_broker (w\<lparr>shms := ipc_put a t' (shms w)\<rparr>) a s t'"
      using b(1,2) rm(2) Some set_del_at_subset [of i rs] by (auto simp: open_broker_def guard_def)
    then have "at_work (w\<lparr>shms := ipc_put a t' (shms w)\<rparr>) a (del_at i rs) rq resp iq inc"
      using b(4-6) rm(2) Some by (auto simp: at_work_def)
    with Some rm(1) show ?thesis by simp
  qed
qed

lemma set_first_split: "\<forall>x\<in>set as. \<not> P x \<Longrightarrow> P r \<Longrightarrow> set_first P f (as @ r # bs) = as @ f r # bs"
  by (induction as) auto

lemma process_message_br_run:
  assumes "at_work w a rs rq resp iq inc" "rq \<noteq> iq" "is_int32 (mtype m)" "msg_type m = ACK_CREATE \<longrightarrow> 0 \<le> mtype m"
  shows "handles (process_message_br a rq iq m) w a rq iq fd (abs_response m (rs, resp, inc)) []"
proof -
  note look = at_work_lookups [OF assms(1)]
  note pos = at_work_positive(2) [OF assms(1)]
  note reply = handles_reply [OF _ assms(2)]
  consider "msg_type m = PUBLISH" | "msg_type m = ACK_CREATE" | "msg_type m = ACK_DESTROY"
    | "msg_type m \<notin> {PUBLISH, ACK_CREATE, ACK_DESTROY}" by blast
  then show ?thesis
  proof cases
    case 1
    define l where "l = (case local_of rs (mtype m) of None \<Rightarrow> -1 | Some l \<Rightarrow> l)"
    have "abs_response m (rs, resp, inc) = (rs, resp, if 0 < l then inc @ [m\<lparr>mtype := l\<rparr>] else inc)"
      using 1 pos by (auto simp: abs_response_def l_def split: option.split)
    with 1 reply(2) [OF assms(1), of "m\<lparr>mtype := l\<rparr>" fd] look(3) assms(3) show ?thesis
      by (simp add: process_message_br_def process_publish_br_def l_def handles_bnd)
  next
    case 2
    obtain s t where b: "open_broker w a s t" "rows t = rs" "count t = int (length rs)" "env w = []"
      "ipc_objs (queues w) rq = Some resp" "ipc_objs (queues w) iq = Some inc" using assms(1) by (rule at_workE)
    show ?thesis
    proof (cases "row_of b_global_id rs 0")
      case None
      have "set_global_id a (mtype m) w = (Ret (-1), w)" using set_global_id_none [OF b(1,4)] None b(2) by simp
      with reply(1) [OF assms(1), of "m\<lparr>mtype := -1\<rparr>" fd] 2 assms(3) None show ?thesis
        by (simp add: process_message_br_def handles_bnd abs_response_def local_of_def)
    next
      case (Some r)
      from set_global_id_run [OF b(1,4), of r "mtype m"] Some b(2) obtain t' as bs where
        t': "set_global_id a (mtype m) w = (Ret (local_id r), w\<lparr>shms := ipc_put a t' (shms w)\<rparr>)" "wf_locals t'"
        "rs = as @ r # bs" "\<forall>x\<in>set as. b_global_id x \<noteq> 0" "rows t' = as @ r\<lparr>b_global_id := mtype m\<rparr> # bs"
        by auto
      let ?w = "w\<lparr>shms := ipc_put a t' (shms w)\<rparr>"
      have r0: "b_global_id r = 0" using row_of_SomeD [OF Some] by simp
      have rs': "rows t' = set_first (\<lambda>r. b_global_id r = 0) (\<lambda>r. r\<lparr>b_global_id := mtype m\<rparr>) rs"
        using t'(3-5) r0 by (simp add: set_first_split)
      have "open_broker ?w a s t'"
        using b(1,2) t'(2,3,5) 2 assms(4) by (auto simp: open_broker_def guard_def)
      then have u: "at_work ?w a (rows t') rq resp iq inc" using b(4-6) by (auto simp: at_work_def)
      have l: "local_of rs 0 = Some (local_id r)" using Some by (simp add: local_of_def)
      from reply(1) [OF u, of "m\<lparr>mtype := local_id r\<rparr>" fd] pos [OF l] l rs' t'(1) 2 assms(3) show ?thesis
        by (auto simp: handles_def process_message_br_def bnd_def abs_response_def)
    qed
  next
    case 3
    obtain s t where b: "open_broker w a s t" "rows t = rs" "count t = int (length rs)" "env w = []"
      "ipc_objs (queues w) rq = Some resp" "ipc_objs (queues w) iq = Some inc" using assms(1) by (rule at_workE)
    define l where "l = (case local_of rs (mtype m) of None \<Rightarrow> -1 | Some l \<Rightarrow> l)"
    let ?rs = "case index_of (\<lambda>r. local_id r = l) rs of None \<Rightarrow> rs | Some i \<Rightarrow> del_at i rs"
    obtain k w1 where w1: "remove_id a l w = (Ret k, w1)" "at_work w1 a ?rs rq resp iq inc"
      "sent w1 = sent w" "got w1 = got w" "peer w1 = peer w" "queues w1 = queues w"
      using remove_row [OF assms(1), of l] by blast
    have none: "index_of (\<lambda>r. local_id r = -1) rs = None"
      using b(1,2) by (auto simp: index_of_None_iff open_broker_def)
    have "abs_response m (rs, resp, inc) = (?rs, if 0 < l then resp @ [m\<lparr>mtype := l\<rparr>] else resp, inc)"
      using 3 pos none by (auto simp: abs_response_def l_def split: option.split)
    moreover have "process_message_br a rq iq m w = thn (sendmsg mtype rq (m\<lparr>mtype := l\<rparr>)) (ret ()) w1"
      using 3 look(3) assms(3) w1(1) by (simp add: process_message_br_def bnd_def ret_def l_def)
    ultimately show ?thesis
      using reply(1) [OF w1(2), of "m\<lparr>mtype := l\<rparr>" fd] w1(3-6) by (simp add: handles_def)
  next
    case 4
    define l where "l = (case local_of rs (mtype m) of None \<Rightarrow> -1 | Some l \<Rightarrow> l)"
    have "abs_response m (rs, resp, inc) = (rs, if 0 < l then resp @ [m\<lparr>mtype := l\<rparr>] else resp, inc)"
      using 4 pos by (auto simp: abs_response_def l_def split: option.split)
    with 4 reply(1) [OF assms(1), of "m\<lparr>mtype := l\<rparr>" fd] look(3) assms(3) show ?thesis
      by (simp add: process_message_br_def l_def handles_bnd bnd_def ret_def)
  qed
qed

section \<open>Interleaved requests and responses\<close>

text \<open>
  The two handlers run side by side; their critical sections are those of the table and the queues,
  so that a run is a sequence of whole requests and responses in some order.
\<close>

datatype local_event = Request msg_t msg_t | Response msg_t

fun do_event :: "int \<Rightarrow> int \<Rightarrow> int \<Rightarrow> int \<Rightarrow> local_event \<Rightarrow> (machine, unit) prog" where
  "do_event a rq iq fd (Request stk m) = process_msg_br stk a rq fd iq m"
| "do_event a rq iq fd (Response m) = process_message_br a rq iq m"

primrec do_events :: "int \<Rightarrow> int \<Rightarrow> int \<Rightarrow> int \<Rightarrow> local_event list \<Rightarrow> (machine, unit) prog" where
  "do_events a rq iq fd [] = ret ()"
| "do_events a rq iq fd (e # es) = thn (do_event a rq iq fd e) (do_events a rq iq fd es)"

fun abs_event :: "local_event \<Rightarrow> local_state \<Rightarrow> local_state \<times> msg_t list" where
  "abs_event (Request stk m) S = abs_request stk m S"
| "abs_event (Response m) S = (abs_response m S, [])"

fun abs_events :: "local_event list \<Rightarrow> local_state \<Rightarrow> local_state \<times> msg_t list" where
  "abs_events [] S = (S, [])"
| "abs_events (e # es) S = (case abs_event e S of (S1, out1) \<Rightarrow> case abs_events es S1 of (S2, out2) \<Rightarrow> (S2, out1 @ out2))"

fun event_ok :: "local_event \<Rightarrow> local_state \<Rightarrow> bool" where
  "event_ok (Request stk m) S = local_request_ok m S"
| "event_ok (Response m) S = (is_int32 (mtype m) \<and> (msg_type m = ACK_CREATE \<longrightarrow> 0 \<le> mtype m))"

fun events_ok :: "local_event list \<Rightarrow> local_state \<Rightarrow> bool" where
  "events_ok [] S = True"
| "events_ok (e # es) S = (event_ok e S \<and> events_ok es (fst (abs_event e S)))"

lemma do_event_run:
  assumes "at_state w a rq iq S" "rq \<noteq> iq" "event_ok e S" "abs_event e S = (S', out)"
  shows "handles (do_event a rq iq fd e) w a rq iq fd S' out"
proof -
  obtain rs resp inc where S: "S = (rs, resp, inc)" by (metis prod_cases3)
  with assms(1) have w: "at_work w a rs rq resp iq inc" by (simp add: at_state_def)
  show ?thesis
  proof (cases e)
    case (Request stk m)
    with process_msg_br_run [OF w assms(2), of m stk S' out fd] assms(3,4) S show ?thesis by simp
  next
    case (Response m)
    with process_message_br_run [OF w assms(2), of m fd] assms(3,4) S show ?thesis by auto
  qed
qed

lemma do_events_run:
  assumes "at_state w a rq iq S" "rq \<noteq> iq" "events_ok es S" "abs_events es S = (S', out)"
  shows "handles (do_events a rq iq fd es) w a rq iq fd S' out"
  using assms
proof (induction es arbitrary: w S out)
  case Nil
  then show ?case by (simp add: handles_nothing)
next
  case (Cons e es)
  obtain S1 out1 where one: "abs_event e S = (S1, out1)" by fastforce
  with Cons.prems(4) obtain out2 where two: "abs_events es S1 = (S', out2)" "out = out1 @ out2" by (auto split: prod.splits)
  obtain w1 where w1: "do_event a rq iq fd e w = (Ret (), w1)" "at_state w1 a rq iq S1"
    "sent w1 = (sent w)(fd := sent w fd @ concat (map encode_msg out1))" "got w1 = got w" "peer w1 = peer w"
    "\<forall>q. q \<noteq> rq \<and> q \<noteq> iq \<longrightarrow> ipc_objs (queues w1) q = ipc_objs (queues w) q"
    using do_event_run [OF Cons.prems(1,2) _ one, of fd] Cons.prems(3) by (auto simp: handles_def)
  have "handles (do_events a rq iq fd es) w1 a rq iq fd S' out2"
    using Cons.IH [OF w1(2) Cons.prems(2) _ two(1)] Cons.prems(3) one by simp
  with w1 two(2) show ?case by (auto simp: handles_def bnd_def)
qed

section \<open>Mailboxes\<close>




definition mailbox :: "int \<Rightarrow> local_state \<Rightarrow> msg_t list" where
  "mailbox l S = filter (\<lambda>m. mtype m = l) (snd (snd S))"










text \<open>A \<open>receive\<close> takes the oldest message of one mailbox and leaves the others alone.\<close>

lemma abs_receive_oldest:
  assumes "0 < mtype m"
  shows "\<exists>x inc'. abs_receive stk m (rs, resp, inc) = (rs, resp @ [x], inc') \<and> mtype x = mtype m
    \<and> msg_type x = (if mailbox (mtype m) (rs, resp, inc) = [] then ACK_NO_MSG else ACK_OK)
    \<and> (mailbox (mtype m) (rs, resp, inc) \<noteq> [] \<longrightarrow> payload x = payload (hd (mailbox (mtype m) (rs, resp, inc))))
    \<and> mailbox (mtype m) (rs, resp, inc') = tl (mailbox (mtype m) (rs, resp, inc))
    \<and> (\<forall>j. j \<noteq> mtype m \<longrightarrow> mailbox j (rs, resp, inc') = mailbox j (rs, resp, inc))"
proof (cases "take_msg mtype (mtype m) inc")
  case None
  then have "filter (\<lambda>x. mtype x = mtype m) inc = []"
    using assms by (auto simp: take_msg_def take_first_None_iff filter_empty_conv)
  with None show ?thesis by (simp add: abs_receive_def mailbox_def)
next
  case (Some y)
  then obtain x inc' where y: "take_msg mtype (mtype m) inc = Some (x, inc')" by (cases y) auto
  note t = take_msg_type [OF y assms]
  have "mailbox j (rs, resp, inc') = mailbox j (rs, resp, inc)" if "j \<noteq> mtype m" for j
  proof -
    have "filter (\<lambda>x. mtype x = j) zs = filter (\<lambda>x. mtype x = j) (filter (\<lambda>x. mtype x \<noteq> mtype m) zs)" for zs :: "msg_t list"
      using that by (auto intro: filter_cong)
    from this [of inc] this [of inc'] t show ?thesis by (simp add: mailbox_def del: filter_filter)
  qed
  with t y show ?thesis by (simp add: abs_receive_def mailbox_def)
qed

section \<open>The loops\<close>

lemma broker_req_loop_run:
  assumes "at_state w a rq iq S" "rq \<noteq> iq" "reqq \<noteq> rq" "reqq \<noteq> iq" "ipc_objs (queues w) reqq = Some (ms @ rest)"
    "length ss = length ms" "events_ok (map2 (\<lambda>s m. Request (fst s) m) ss ms) S"
    "abs_events (map2 (\<lambda>s m. Request (fst s) m) ss ms) S = (S', out)"
  shows "\<exists>w'. broker_req_loop ss reqq a rq fd iq w = (Ret (), w') \<and> at_state w' a rq iq S'
    \<and> sent w' = (sent w)(fd := sent w fd @ concat (map encode_msg out)) \<and> ipc_objs (queues w') reqq = Some rest
    \<and> got w' = got w \<and> peer w' = peer w"
  using assms
proof (induction ms arbitrary: w S ss out)
  case Nil
  then show ?case by (simp add: ret_def)
next
  case (Cons m ms)
  obtain s ss' where ss: "ss = s # ss'" using Cons.prems(6) by (cases ss) auto
  obtain S1 out1 where one: "abs_event (Request (fst s) m) S = (S1, out1)" by fastforce
  with Cons.prems(8) ss obtain out2 where two: "abs_events (map2 (\<lambda>s m. Request (fst s) m) ss' ms) S1 = (S', out2)" "out = out1 @ out2"
    by (auto split: prod.splits)
  have ok: "event_ok (Request (fst s) m) S" "events_ok (map2 (\<lambda>s m. Request (fst s) m) ss' ms) S1"
    using Cons.prems(7) ss one by simp_all
  let ?w = "w\<lparr>queues := ipc_put reqq (ms @ rest) (queues w)\<rparr>"
  have "env w = []" using Cons.prems(1) by (auto simp: at_state_def elim: at_workE)
  then have rcv: "rcvmsg mtype reqq (snd s) 0 w = (Ret (0, m), ?w)"
    using Cons.prems(5) by (intro wp_eqI) (simp add: wp take_msg_any)
  have "at_state ?w a rq iq S" using Cons.prems(1,3,4) by (auto simp: at_state_def at_work_def)
  from do_event_run [OF this Cons.prems(2) ok(1) one, of fd] obtain w1 where w1:
    "process_msg_br (fst s) a rq fd iq m ?w = (Ret (), w1)" "at_state w1 a rq iq S1"
    "sent w1 = (sent w)(fd := sent w fd @ concat (map encode_msg out1))" "ipc_objs (queues w1) reqq = Some (ms @ rest)"
    "got w1 = got w" "peer w1 = peer w"
    using Cons.prems(3,4) by (auto simp: handles_def)
  have l: "length ss' = length ms" using Cons.prems(6) ss by simp
  from Cons.IH [OF w1(2) Cons.prems(2-4) w1(4) l ok(2) two(1)] obtain w2 where
    "broker_req_loop ss' reqq a rq fd iq w1 = (Ret (), w2)" "at_state w2 a rq iq S'"
    "sent w2 = (sent w1)(fd := sent w1 fd @ concat (map encode_msg out2))" "ipc_objs (queues w2) reqq = Some rest"
    "got w2 = got w1" "peer w2 = peer w1"
    by blast
  with rcv w1 ss two(2) show ?case by (simp add: broker_req_step_def bnd_def fun_eq_iff)
qed

lemma broker_resp_loop_run:
  assumes "at_state w a rq iq S" "rq \<noteq> iq" "available w fd = concat (map encode_msg ms) @ rest" "length ss = length ms"
    "\<forall>m\<in>set ms. wf_msg m" "events_ok (map Response ms) S" "abs_events (map Response ms) S = (S', out)"
  shows "\<exists>w'. broker_resp_loop ss fd a rq iq w = (Ret (), w') \<and> at_state w' a rq iq S' \<and> available w' fd = rest \<and> sent w' = sent w"
  using assms
proof (induction ms arbitrary: w S ss out)
  case Nil
  then show ?case by (simp add: ret_def)
next
  case (Cons m ms)
  obtain s ss' where ss: "ss = s # ss'" using Cons.prems(4) by (cases ss) auto
  define S1 where "S1 = abs_response m S"
  obtain out2 where two: "abs_events (map Response ms) S1 = (S', out2)"
    using Cons.prems(7) by (auto simp: S1_def split: prod.splits)
  have ok: "event_ok (Response m) S" "events_ok (map Response ms) S1" using Cons.prems(6) by (simp_all add: S1_def)
  let ?w = "w\<lparr>got := (got w)(fd := got w fd + sizeof_msg)\<rparr>"
  have wf: "wf_msg m" using Cons.prems(5) by simp
  have e: "env w = []" using Cons.prems(1) by (auto simp: at_state_def elim: at_workE)
  have av: "available w fd = encode_msg m @ (concat (map encode_msg ms) @ rest)" using Cons.prems(3) by simp
  have rcv: "socket_receive fd s w = (Ret (int sizeof_msg, m), ?w)"
    using msg_codec.receive_struct_run [OF wf av e, of s] by (simp add: socket_receive_def)
  have av1: "available ?w fd = concat (map encode_msg ms) @ rest"
  proof -
    have "available ?w fd = drop sizeof_msg (available w fd)" by (simp add: available_def add.commute)
    then show ?thesis using av length_encode_msg [OF wf] by simp
  qed
  have "at_state ?w a rq iq S" using Cons.prems(1) by (simp add: at_state_def at_work_def)
  from do_event_run [OF this Cons.prems(2) ok(1), of S1 "[]" fd] obtain w1 where w1:
    "process_message_br a rq iq m ?w = (Ret (), w1)" "at_state w1 a rq iq S1" "sent w1 = sent w" "got w1 = got ?w" "peer w1 = peer w"
    by (auto simp: handles_def S1_def)
  have "available w1 fd = concat (map encode_msg ms) @ rest" using av1 w1(3-5) by (simp add: available_def)
  from Cons.IH [OF w1(2) Cons.prems(2) this _ _ ok(2) two, of ss'] Cons.prems(4,5) ss obtain w2 where
    "broker_resp_loop ss' fd a rq iq w1 = (Ret (), w2)" "at_state w2 a rq iq S'" "available w2 fd = rest" "sent w2 = sent w"
    using w1(3) by auto
  with rcv w1(1) ss show ?case by (simp add: broker_resp_step_def bnd_def ret_def sizeof_msg_def)
qed

section \<open>Properties\<close>

definition blank_msg :: msg_t where
  "blank_msg = \<lparr>mtype = 0, global_id = 0, msg_type = 0,
     payload = \<lparr>topic = replicate MAX_TOPIC_LENGTH NUL, body = replicate MAX_MSG_LENGTH NUL\<rparr>, broker_id = 0\<rparr>"

definition note_of :: "int \<Rightarrow> int \<Rightarrow> msg_t" where
  "note_of ty i = blank_msg\<lparr>mtype := i, msg_type := ty\<rparr>"

lemma note_of_simps [simp]: "mtype (note_of ty i) = i" "msg_type (note_of ty i) = ty"
  by (simp_all add: note_of_def)

lemma wf_note_of [simp]: "is_int32 i \<Longrightarrow> is_int32 ty \<Longrightarrow> wf_msg (note_of ty i)"
  by (simp add: note_of_def blank_msg_def wf_msg_def is_int32_def is_int64_def)

lemma machine_host:
  assumes "length rs \<le> MAX_LOCAL_CLIENTS" "\<forall>r\<in>set rs. 0 < local_id r \<and> 0 \<le> b_global_id r"
  shows "\<exists>w a. at_state w a 0 1 (rs, [], [])"
proof -
  obtain a s t and w :: machine where w: "open_broker w a s t" "env w = []" "rows t = rs"
    using broker_host [OF assms] by blast
  let ?w = "w\<lparr>queues := \<lparr>ipc_keys = [ftok_key 1 BROKER_RESP_MSG \<mapsto> 0, ftok_key 1 INCOMING_MSG_QUEUE \<mapsto> 1],
      ipc_objs = [0 \<mapsto> [], 1 \<mapsto> []], ipc_next = 2\<rparr>\<rparr>"
  have "at_state ?w a 0 1 (rs, [], [])" using w by (auto simp: at_state_def at_work_def)
  then show ?thesis by blast
qed

text \<open>
  C2: The two handlers of the local broker implement the abstract local broker: any interleaving of
  client requests and server responses ends in the specified table, response queue and mailboxes, and
  what was written to the server is the specified sequence of messages.
\<close>

theorem local_broker_refines_abstract:
  "at_state w a rq iq S \<Longrightarrow> rq \<noteq> iq \<Longrightarrow> events_ok es S \<Longrightarrow> abs_events es S = (S', out) \<Longrightarrow>
   \<exists>w'. do_events a rq iq fd es w = (Ret (), w') \<and> at_state w' a rq iq S'
     \<and> sent w' = (sent w)(fd := sent w fd @ concat (map encode_msg out))"
  using do_events_run [of w a rq iq S es S' out fd] by (auto simp: handles_def)

lemma local_broker_refines_abstract_witness:
  "\<exists>w w' a rs resp inc. do_events a 0 1 3 [Request blank_msg (note_of CREATE 70), Response (note_of ACK_CREATE 5),
      Response (note_of PUBLISH 5), Request blank_msg (note_of RECEIVE 70), Request blank_msg (note_of SUBSCRIBE 70)] w = (Ret (), w')
    \<and> at_state w' a 0 1 (rs, resp, inc) \<and> rs = [\<lparr>local_id = 70, b_global_id = 5\<rparr>]
    \<and> map (\<lambda>m. (mtype m, msg_type m)) resp = [(70, ACK_CREATE), (70, ACK_OK)]
    \<and> sent w' 3 = sent w 3 @ encode_msg (note_of CREATE 70) @ encode_msg (note_of SUBSCRIBE 5)"
proof -
  let ?es = "[Request blank_msg (note_of CREATE 70), Response (note_of ACK_CREATE 5), Response (note_of PUBLISH 5),
      Request blank_msg (note_of RECEIVE 70), Request blank_msg (note_of SUBSCRIBE 70)]"
  obtain w a where w: "at_state w a 0 1 ([], [], [])" using machine_host [of "[]"] by auto
  note d = abs_request_def abs_response_def abs_receive_def local_of_def global_of_def local_request_ok_def is_int32_def
    take_msg_def is_int64_def
  have ok: "events_ok ?es ([], [], [])" using wf_note_of by (simp add: d)
  obtain rs resp inc out where a: "abs_events ?es ([], [], []) = ((rs, resp, inc), out)" by (metis prod_cases3 surj_pair)
  then have o: "rs = [\<lparr>local_id = 70, b_global_id = 5\<rparr>]" "map (\<lambda>m. (mtype m, msg_type m)) resp = [(70, ACK_CREATE), (70, ACK_OK)]"
    "out = [note_of CREATE 70, note_of SUBSCRIBE 5]"
    by (auto simp: d note_of_def)
  from local_broker_refines_abstract [OF w _ ok a, of 3] o(3) obtain w' where
    "do_events a 0 1 3 ?es w = (Ret (), w')" "at_state w' a 0 1 (rs, resp, inc)"
    "sent w' 3 = sent w 3 @ encode_msg (note_of CREATE 70) @ encode_msg (note_of SUBSCRIBE 5)"
    by auto
  with o(1,2) show ?thesis
    by (intro exI [of _ w] exI [of _ w'] exI [of _ a] exI [of _ rs] exI [of _ resp] exI [of _ inc] conjI)
qed



text \<open>
  C19: The refusal of a creation carries an identifier that no client of the machine has, so that it
  reaches nobody; the client keeps its row without identifier, and the next acknowledged creation, of
  another client, is taken for its own: it gets the other's identifier and the other is not answered.
\<close>

theorem refused_creation_shifts_identifiers:
  "at_state w a rq iq (as @ \<lparr>local_id = p, b_global_id = 0\<rparr> # bs, resp, inc) \<Longrightarrow> rq \<noteq> iq \<Longrightarrow> \<forall>x\<in>set as. b_global_id x \<noteq> 0 \<Longrightarrow>
   msg_type no = ACK_ERROR \<Longrightarrow> is_int32 (mtype no) \<Longrightarrow> local_of (as @ \<lparr>local_id = p, b_global_id = 0\<rparr> # bs) (mtype no) = None \<Longrightarrow>
   msg_type yes = ACK_CREATE \<Longrightarrow> is_int32 (mtype yes) \<Longrightarrow> 0 < mtype yes \<Longrightarrow>
   \<exists>w'. do_events a rq iq fd [Response no, Response yes] w = (Ret (), w')
     \<and> at_state w' a rq iq (as @ \<lparr>local_id = p, b_global_id = mtype yes\<rparr> # bs, resp @ [yes\<lparr>mtype := p\<rparr>], inc)"
proof -
  let ?rs = "as @ \<lparr>local_id = p, b_global_id = 0\<rparr> # bs"
  assume a: "at_state w a rq iq (?rs, resp, inc)" "rq \<noteq> iq" and z: "\<forall>x\<in>set as. b_global_id x \<noteq> 0"
  assume no: "msg_type no = ACK_ERROR" "is_int32 (mtype no)" "local_of ?rs (mtype no) = None"
  assume yes: "msg_type yes = ACK_CREATE" "is_int32 (mtype yes)" "0 < mtype yes"
  have "row_of b_global_id as 0 = None" using z by (auto simp: row_of_None_iff)
  then have p: "local_of ?rs 0 = Some p" by (simp add: local_of_def)
  have ok: "events_ok [Response no, Response yes] (?rs, resp, inc)" using no yes by simp
  have "abs_events [Response no, Response yes] (?rs, resp, inc)
      = ((as @ \<lparr>local_id = p, b_global_id = mtype yes\<rparr> # bs, resp @ [yes\<lparr>mtype := p\<rparr>], inc), [])"
    using no yes p z set_first_split [of as "\<lambda>r. b_global_id r = 0" "\<lparr>local_id = p, b_global_id = 0\<rparr>" "\<lambda>r. r\<lparr>b_global_id := mtype yes\<rparr>" bs]
    by (simp add: abs_response_def)
  from do_events_run [OF a ok this, of fd] show ?thesis by (auto simp: handles_def)
qed

lemma refused_creation_shifts_identifiers_witness:
  "\<exists>w a w'. do_events a 0 1 3 [Response (note_of ACK_ERROR 9), Response (note_of ACK_CREATE 5)] w = (Ret (), w')
     \<and> at_state w' a 0 1 ([\<lparr>local_id = 70, b_global_id = 5\<rparr>, \<lparr>local_id = 71, b_global_id = 0\<rparr>], [note_of ACK_CREATE 70], [])"
proof -
  obtain w a where w: "at_state w a 0 1 ([] @ \<lparr>local_id = 70, b_global_id = 0\<rparr> # [\<lparr>local_id = 71, b_global_id = 0\<rparr>], [], [])"
    using machine_host [of "[\<lparr>local_id = 70, b_global_id = 0\<rparr>, \<lparr>local_id = 71, b_global_id = 0\<rparr>]"] by auto
  have "(note_of ACK_CREATE 5)\<lparr>mtype := 70\<rparr> = note_of ACK_CREATE 70" by (simp add: note_of_def)
  with refused_creation_shifts_identifiers [OF w, of "note_of ACK_ERROR 9" "note_of ACK_CREATE 5" 3] show ?thesis
    by (auto simp: local_of_def is_int32_def)
qed

definition broker_started :: "machine \<Rightarrow> machine" where
  "broker_started w = (let k = ftok_key (dirkey w) in w\<lparr>
     queues := with_objs [(k INCOMING_MSG_QUEUE, [])] (with_objs [(k BROKER_RESP_MSG, [])] (with_objs [(k BROKER_REQ_MSG, [])] (queues w))),
     sems := ipc_put (ipc_next (sems w)) 1 (with_objs [(k BROKER_IDS_SEM, 0)] (sems w)),
     shms := with_objs [(k BROKER_IDS_SHM, no_locals)] (shms w)\<rparr>)"

definition broker_absent :: "machine \<Rightarrow> bool" where
  "broker_absent w \<longleftrightarrow> env w = [] \<and> wf_base (dirkey w) \<and> wf_ipc (queues w) \<and> wf_ipc (sems w) \<and> wf_ipc (shms w)
     \<and> (\<forall>k\<in>{BROKER_REQ_MSG, BROKER_RESP_MSG, INCOMING_MSG_QUEUE}. ipc_keys (queues w) (ftok_key (dirkey w) k) = None)
     \<and> ipc_keys (sems w) (ftok_key (dirkey w) BROKER_IDS_SEM) = None \<and> ipc_keys (shms w) (ftok_key (dirkey w) BROKER_IDS_SHM) = None"

lemma broker_absentD:
  assumes "broker_absent w"
  shows "env w = []" "wf_base (dirkey w)" "0 \<le> ipc_next (queues w)" "0 \<le> ipc_next (sems w)" "0 \<le> ipc_next (shms w)"
    "\<forall>k\<in>{BROKER_REQ_MSG, BROKER_RESP_MSG, INCOMING_MSG_QUEUE}. ipc_keys (queues w) (ftok_key (dirkey w) k) = None"
    "ipc_keys (sems w) (ftok_key (dirkey w) BROKER_IDS_SEM) = None" "ipc_keys (shms w) (ftok_key (dirkey w) BROKER_IDS_SHM) = None"
  using assms by (simp_all add: broker_absent_def wf_ipc_old(3))

lemma broker_req_start_run:
  assumes "broker_absent w"
  shows "broker_req_start w = (Ret (ipc_next (queues w), ipc_next (queues w) + 1, ipc_next (queues w) + 2, ipc_next (shms w)), broker_started w)"
  using broker_absentD [OF assms]
  by (intro wp_eqI) (simp add: broker_started_def Let_def broker_req_start_def init_msg_req_queue_def
      init_msg_resp_queue_def init_incoming_msg_queue_def broker_id_create_def wp ipc_create_fresh with_objs_simps)

lemma broker_resp_start_run:
  assumes "broker_absent w"
  shows "broker_resp_start (broker_started w) = (Ret (ipc_next (queues w) + 1, ipc_next (queues w) + 2, ipc_next (shms w)), broker_started w)"
  using broker_absentD [OF assms]
  by (intro wp_eqI) (simp add: broker_started_def Let_def broker_resp_start_def get_msg_resp_queue_def
      get_incoming_msg_queue_def broker_id_get_def wp ipc_get_def with_objs_simps)

lemma broker_started_state:
  assumes "broker_absent w"
  shows "at_state (broker_started w) (ipc_next (shms w)) (ipc_next (queues w) + 1) (ipc_next (queues w) + 2) ([], [], [])"
  using broker_absentD [OF assms]
  by (auto simp: broker_started_def Let_def at_state_def at_work_def open_broker_def guard_def with_objs_simps
      no_locals_def wf_zero_table)

lemma broker_req_stop_run:
  assumes "broker_absent w"
  shows "\<exists>w''. broker_req_stop (ipc_next (queues w)) (ipc_next (queues w) + 1) (ipc_next (queues w) + 2) (ipc_next (shms w)) (broker_started w)
      = (Ret (), w'')
    \<and> ipc_keys (queues w'') = ipc_keys (queues w) \<and> ipc_objs (queues w'') = ipc_objs (queues w)
    \<and> ipc_keys (sems w'') = ipc_keys (sems w) \<and> ipc_objs (sems w'') = ipc_objs (sems w)
    \<and> ipc_keys (shms w'') = ipc_keys (shms w) \<and> ipc_objs (shms w'') = ipc_objs (shms w) \<and> dirkey w'' = dirkey w"
proof -
  note a = assms [unfolded broker_absent_def]
  note old = wf_ipc_old(1,2) [of "queues w"] wf_ipc_old(1,2) [of "sems w"] wf_ipc_old(1,2) [of "shms w"]
  have "wp (broker_req_stop (ipc_next (queues w)) (ipc_next (queues w) + 1) (ipc_next (queues w) + 2) (ipc_next (shms w)))
    (\<lambda>r w''. r = Ret () \<and> ipc_keys (queues w'') = ipc_keys (queues w) \<and> ipc_objs (queues w'') = ipc_objs (queues w)
    \<and> ipc_keys (sems w'') = ipc_keys (sems w) \<and> ipc_objs (sems w'') = ipc_objs (sems w)
    \<and> ipc_keys (shms w'') = ipc_keys (shms w) \<and> ipc_objs (shms w'') = ipc_objs (shms w) \<and> dirkey w'' = dirkey w) (broker_started w)"
    using a broker_absentD [OF assms] old
    by (simp add: broker_req_stop_def broker_id_destroy_def wp broker_started_def Let_def ipc_remove_def ipc_get_def with_objs_simps)
       (auto simp: fun_eq_iff with_objs_simps; fastforce)
  then show ?thesis by (cases "broker_req_stop (ipc_next (queues w)) (ipc_next (queues w) + 1) (ipc_next (queues w) + 2) (ipc_next (shms w)) (broker_started w)")
     (auto simp: wp_def)
qed

text \<open>
  Starting the request handler on a machine without a local broker puts an empty table and empty
  queues in service, the response handler then attaches to the same table and queues, and stopping
  removes the queues, the table and the semaphore: all keys and objects are as before the start.
\<close>

theorem local_broker_starts_and_stops:
  "broker_absent w \<Longrightarrow>
   \<exists>w' reqq rq iq a w''. broker_req_start w = (Ret (reqq, rq, iq, a), w') \<and> distinct [reqq, rq, iq]
     \<and> at_state w' a rq iq ([], [], []) \<and> broker_resp_start w' = (Ret (rq, iq, a), w')
     \<and> broker_req_stop reqq rq iq a w' = (Ret (), w'')
     \<and> ipc_keys (queues w'') = ipc_keys (queues w) \<and> ipc_objs (queues w'') = ipc_objs (queues w)
     \<and> ipc_keys (sems w'') = ipc_keys (sems w) \<and> ipc_objs (sems w'') = ipc_objs (sems w)
     \<and> ipc_keys (shms w'') = ipc_keys (shms w) \<and> ipc_objs (shms w'') = ipc_objs (shms w)"
proof -
  assume a: "broker_absent w"
  have "distinct [ipc_next (queues w), ipc_next (queues w) + 1, ipc_next (queues w) + 2]" by simp
  with broker_req_start_run [OF a] broker_started_state [OF a] broker_resp_start_run [OF a] broker_req_stop_run [OF a]
  show ?thesis by blast
qed

lemma local_broker_starts_and_stops_witness:
  "\<exists>w' reqq rq iq a w''. broker_req_start (idle_host :: machine) = (Ret (reqq, rq, iq, a), w')
     \<and> broker_req_stop reqq rq iq a w' = (Ret (), w'') \<and> ipc_keys (queues w'') = ipc_keys (queues (idle_host :: machine))"
proof -
  have "broker_absent (idle_host :: machine)"
    by (simp add: broker_absent_def idle_host_def wf_ipc_def wf_base_def)
  from local_broker_starts_and_stops [OF this] show ?thesis by blast
qed

end
