(* ===== verification/File_Store.thy ===== *)
theory File_Store
  imports Ipc Message "HOL-Library.AList"
begin

text \<open>
  What the database uses of the C library: paths and files, lines of text, and decimal numbers.
  A file is named by the list of the components of its path from the working directory, after
  \<open>.\<close> and \<open>..\<close> are resolved (the working directory is assumed not to be named again below its
  parent).  Files hold no NUL; a failed write shows at the call, not at \<open>fclose\<close>.
\<close>

section \<open>Paths\<close>

definition NL :: char where "NL = CHR 0x0A"

datatype errno = ENOENT | ENOTDIR | EOTHER

fun split_slash :: "string \<Rightarrow> string list" where
  "split_slash [] = [[]]"
| "split_slash (c # cs) =
     (if c = CHR ''/'' then [] # split_slash cs
      else case split_slash cs of [] \<Rightarrow> [[c]] | w # ws \<Rightarrow> (c # w) # ws)"

definition go_up :: "string list \<Rightarrow> string list" where
  "go_up cur = (if cur = [] \<or> last cur = ''..'' then cur @ [''..''] else butlast cur)"

definition is_dir :: "('m, 's) world \<Rightarrow> string list \<Rightarrow> bool" where
  "is_dir w k \<longleftrightarrow> k \<in> set (dirs w)"

definition file_at :: "('m, 's) world \<Rightarrow> string list \<Rightarrow> string option" where
  "file_at w k = map_of (files w) k"

fun walk :: "('m, 's) world \<Rightarrow> string list \<Rightarrow> string list \<Rightarrow> errno + string list" where
  "walk w cur [] = Inr cur"
| "walk w cur (c # cs) =
     (if \<not> is_dir w cur then Inl (if file_at w cur = None then ENOENT else ENOTDIR)
      else if c = '''' \<or> c = ''.'' then walk w cur cs
      else if c = ''..'' then walk w (go_up cur) cs
      else walk w (cur @ [c]) cs)"

definition resolve :: "('m, 's) world \<Rightarrow> string \<Rightarrow> errno + string list" where
  "resolve w path = (if path = [] then Inl ENOENT else walk w [] (split_slash path))"

section \<open>Files and directories\<close>

text \<open>\<^verbatim>\<open>access(path, F_OK) != -1\<close>\<close>

definition access_ok :: "string \<Rightarrow> (('m, 's) world, bool) prog" where
  "access_ok path =
     bnd syscall (\<lambda>x. gets (\<lambda>w. x \<noteq> Fail \<and>
       (case resolve w path of Inl e \<Rightarrow> False | Inr k \<Rightarrow> is_dir w k \<or> file_at w k \<noteq> None)))"

definition put_file :: "string list \<Rightarrow> string \<Rightarrow> ('m, 's) world \<Rightarrow> ('m, 's) world" where
  "put_file k str w = w\<lparr>files := AList.update k str (files w)\<rparr>"

text \<open>\<open>fopen\<close> with modes \<open>a\<close>, \<open>r\<close> and \<open>w+\<close>: the file, or \<open>None\<close> for the null pointer.\<close>

definition fopen_a :: "string \<Rightarrow> (('m, 's) world, string list option) prog" where
  "fopen_a path =
     bnd syscall (\<lambda>x w. case resolve w path of
         Inl e \<Rightarrow> (Ret None, w)
       | Inr k \<Rightarrow> if x = Fail \<or> is_dir w k then (Ret None, w)
                 else (Ret (Some k), if file_at w k = None then put_file k [] w else w))"

definition fopen_r :: "string \<Rightarrow> (('m, 's) world, string list option) prog" where
  "fopen_r path =
     bnd syscall (\<lambda>x. gets (\<lambda>w. case resolve w path of
         Inl e \<Rightarrow> None
       | Inr k \<Rightarrow> if x = Fail \<or> file_at w k = None then None else Some k))"

definition fopen_w :: "string \<Rightarrow> (('m, 's) world, string list option) prog" where
  "fopen_w path =
     bnd syscall (\<lambda>x w. case resolve w path of
         Inl e \<Rightarrow> (Ret None, w)
       | Inr k \<Rightarrow> if x = Fail \<or> is_dir w k then (Ret None, w) else (Ret (Some k), put_file k [] w))"

text \<open>\<open>fputs\<close> and \<open>fputc\<close> at the end of an open file; a negative result is an error.\<close>

definition text_of :: "('m, 's) world \<Rightarrow> string list \<Rightarrow> string" where
  "text_of w k = (case file_at w k of None \<Rightarrow> [] | Some c \<Rightarrow> c)"

definition fputs :: "string \<Rightarrow> string list \<Rightarrow> (('m, 's) world, int) prog" where
  "fputs str k =
     bnd syscall (\<lambda>x w. if x = Fail then (Ret (-1), w) else (Ret 1, put_file k (text_of w k @ str) w))"

definition unlink :: "string \<Rightarrow> (('m, 's) world, int) prog" where
  "unlink path =
     bnd syscall (\<lambda>x w. case resolve w path of
         Inl e \<Rightarrow> (Ret (-1), w)
       | Inr k \<Rightarrow> if x = Fail \<or> file_at w k = None then (Ret (-1), w)
                 else (Ret 0, w\<lparr>files := AList.delete k (files w)\<rparr>))"

definition rename :: "string \<Rightarrow> string \<Rightarrow> (('m, 's) world, int) prog" where
  "rename old new =
     bnd syscall (\<lambda>x w. case (resolve w old, resolve w new) of
         (Inr k, Inr l) \<Rightarrow>
           (case file_at w k of
              None \<Rightarrow> (Ret (-1), w)
            | Some c \<Rightarrow> if x = Fail \<or> is_dir w l then (Ret (-1), w)
                        else if k = l then (Ret 0, w)
                        else (Ret 0, put_file l c (w\<lparr>files := AList.delete k (files w)\<rparr>)))
       | _ \<Rightarrow> (Ret (-1), w))"

definition opendir :: "string \<Rightarrow> (('m, 's) world, errno + string list) prog" where
  "opendir path =
     bnd syscall (\<lambda>x. gets (\<lambda>w. if x = Fail then Inl EOTHER
       else case resolve w path of
         Inl e \<Rightarrow> Inl e
       | Inr k \<Rightarrow> if is_dir w k then Inr k else Inl (if file_at w k = None then ENOENT else ENOTDIR)))"

definition mkdir :: "string \<Rightarrow> (('m, 's) world, int) prog" where
  "mkdir path =
     bnd syscall (\<lambda>x w. case resolve w (rev (dropWhile (\<lambda>c. c = CHR ''/'') (rev path))) of
         Inl e \<Rightarrow> (Ret (-1), w)
       | Inr k \<Rightarrow> if x = Fail \<or> is_dir w k \<or> file_at w k \<noteq> None then (Ret (-1), w)
                 else (Ret 0, w\<lparr>dirs := k # dirs w\<rparr>))"

text \<open>The entries that \<open>readdir\<close> goes through; the order is that of creation.\<close>

definition entries :: "('m, 's) world \<Rightarrow> string list \<Rightarrow> string list" where
  "entries w k = ''.'' # ''..'' #
     map last (filter (\<lambda>p. p \<noteq> [] \<and> butlast p = k) (dirs w @ map fst (files w)))"

section \<open>Lines\<close>

text \<open>The successive results of \<open>getline\<close>: each line with its newline, if it has one.\<close>

fun lines_of :: "string \<Rightarrow> string list" where
  "lines_of [] = []"
| "lines_of (c # cs) =
     (if c = NL then [NL] # lines_of cs
      else case lines_of cs of [] \<Rightarrow> [[c]] | l # ls \<Rightarrow> (c # l) # ls)"

text \<open>\<^verbatim>\<open>if (line[n - 1] == '\n') line[n - 1] = '\0';\<close>\<close>

definition chomp :: "string \<Rightarrow> string" where
  "chomp l = (if l \<noteq> [] \<and> last l = NL then butlast l else l)"

text \<open>
  \<^verbatim>\<open>while ((n = getline(&line, &len, file)) != -1)\<close> and \<^verbatim>\<open>while ((ent = readdir(dir)) != NULL)\<close>
  over the items left to read; \<open>stopped\<close> says that the body left the loop.  A failing read ends the
  loop like the end of the data.
\<close>

fun for_reads :: "(string \<Rightarrow> 'a \<Rightarrow> (('m, 's) world, 'a) prog) \<Rightarrow> ('a \<Rightarrow> bool) \<Rightarrow> string list \<Rightarrow> 'a \<Rightarrow>
    (('m, 's) world, 'a) prog" where
  "for_reads f stopped [] a = bnd syscall (\<lambda>x. ret a)"
| "for_reads f stopped (l # ls) a =
     bnd syscall (\<lambda>x. if x = Fail then ret a
       else bnd (f l a) (\<lambda>a. if stopped a then ret a else for_reads f stopped ls a))"

definition unlines :: "string list \<Rightarrow> string" where
  "unlines ls = concat (map (\<lambda>l. l @ [NL]) ls)"

lemma lines_of_line: "NL \<notin> set l \<Longrightarrow> lines_of (l @ NL # s) = (l @ [NL]) # lines_of s"
  by (induction l) auto

lemma lines_of_unlines:
  "\<forall>l\<in>set ls. NL \<notin> set l \<Longrightarrow> lines_of (unlines ls) = map (\<lambda>l. l @ [NL]) ls"
  by (induction ls) (auto simp: unlines_def lines_of_line)

lemma chomp_line [simp]: "chomp (l @ [NL]) = l"
  by (simp add: chomp_def)

lemma unlines_append [simp]: "unlines (a @ b) = unlines a @ unlines b" "unlines [] = []"
  "unlines [l] = l @ [NL]"
  by (simp_all add: unlines_def)

lemma concat_lines_of: "concat (lines_of s) = s"
  by (induction s) (auto split: list.splits)

section \<open>Decimal numbers\<close>

definition is_digit :: "char \<Rightarrow> bool" where
  "is_digit c \<longleftrightarrow> 48 \<le> (of_char c :: int) \<and> (of_char c :: int) \<le> 57"

definition is_space :: "char \<Rightarrow> bool" where
  "is_space c \<longleftrightarrow> (of_char c :: int) = 32 \<or> 9 \<le> (of_char c :: int) \<and> (of_char c :: int) \<le> 13"

fun digits_val :: "string \<Rightarrow> int \<Rightarrow> int" where
  "digits_val [] a = a"
| "digits_val (c # cs) a = (if is_digit c then digits_val cs (10 * a + (of_char c - 48)) else a)"

text \<open>\<open>strtol(s, NULL, 10)\<close>: out of range, the nearest bound of \<open>long\<close>.\<close>

definition strtol10 :: "string \<Rightarrow> int" where
  "strtol10 s =
     (case dropWhile is_space s of
        [] \<Rightarrow> 0
      | c # cs \<Rightarrow>
          if c = CHR ''-'' then max (- (2 ^ 63)) (- digits_val cs 0)
          else if c = CHR ''+'' then min (2 ^ 63 - 1) (digits_val cs 0)
          else min (2 ^ 63 - 1) (digits_val (c # cs) 0))"

definition digit :: "nat \<Rightarrow> char" where
  "digit n = char_of (48 + n)"

fun show_nat :: "nat \<Rightarrow> string" where
  "show_nat n = (if n < 10 then [digit n] else show_nat (n div 10) @ [digit (n mod 10)])"

declare show_nat.simps [simp del]

definition show_int :: "int \<Rightarrow> string" where
  "show_int n = (if n < 0 then CHR ''-'' # show_nat (nat (- n)) else show_nat (nat n))"

lemma of_char_digit [simp]: "n < 10 \<Longrightarrow> (of_char (digit n) :: int) = 48 + int n"
proof -
  assume "n < 10"
  then have "(48 + n) mod 256 = 48 + n" by simp
  then have "(of_char (digit n) :: nat) = 48 + n" by (simp only: digit_def of_char_of)
  then have "int (of_char (digit n)) = 48 + int n" by simp
  then show ?thesis by (simp only: of_nat_of_char)
qed

lemma is_digit_digit [simp]: "n < 10 \<Longrightarrow> is_digit (digit n)"
  by (simp add: is_digit_def)

lemma digits_show_nat: "\<forall>c\<in>set (show_nat n). is_digit c"
  by (induction n rule: show_nat.induct) (subst show_nat.simps, auto)

lemma show_nat_not_Nil [simp]: "show_nat n \<noteq> []"
  by (subst show_nat.simps) simp

lemma digits_val_append:
  "\<forall>c\<in>set s. is_digit c \<Longrightarrow> digits_val (s @ r) a = digits_val r (digits_val s a)"
  by (induction s arbitrary: a) auto

lemma digits_val_stop: "r = [] \<or> \<not> is_digit (hd r) \<Longrightarrow> digits_val r a = a"
  by (cases r) auto

lemma digits_val_show_nat: "digits_val (show_nat n) a = a * 10 ^ length (show_nat n) + int n"
proof (induction n arbitrary: a rule: show_nat.induct)
  case (1 n)
  show ?case
  proof (cases "n < 10")
    case True
    then show ?thesis by (simp add: show_nat.simps)
  next
    case False
    have "10 * int (n div 10) + int (n mod 10) = int n"
      by (simp add: zdiv_int zmod_int)
    with False 1 show ?thesis
      by (subst (1 2) show_nat.simps) (simp add: digits_val_append digits_show_nat algebra_simps)
  qed
qed

lemma digit_not_space: "is_digit c \<Longrightarrow> \<not> is_space c \<and> c \<noteq> CHR ''-'' \<and> c \<noteq> CHR ''+'' \<and> c \<noteq> NL
    \<and> c \<noteq> CHR ''/'' \<and> c \<noteq> CHR ''.'' \<and> c \<noteq> NUL"
  by (auto simp: is_digit_def is_space_def NL_def NUL_def)

lemma show_nat_Cons: obtains c cs where "show_nat n = c # cs" "is_digit c"
  using digits_show_nat [of n] show_nat_not_Nil [of n] by (cases "show_nat n") auto

lemma strtol10_show_int:
  assumes "is_int32 n" "r = [] \<or> \<not> is_digit (hd r)"
  shows "strtol10 (show_int n @ r) = n"
proof (cases "n < 0")
  case True
  have "digits_val (show_nat (nat (- n)) @ r) 0 = - n"
    using True assms(2) by (simp add: digits_val_append digits_show_nat digits_val_show_nat digits_val_stop)
  then show ?thesis
    using True assms(1) by (simp add: strtol10_def show_int_def is_space_def is_int32_def)
next
  case False
  obtain c cs where c: "show_nat (nat n) = c # cs" "is_digit c" by (rule show_nat_Cons)
  have "digits_val (show_nat (nat n) @ r) 0 = n"
    using False assms(2) by (simp add: digits_val_append digits_show_nat digits_val_show_nat digits_val_stop)
  with c False assms(1) digit_not_space [OF c(2)] show ?thesis
    by (simp add: strtol10_def show_int_def is_int32_def)
qed

lemma not_digit_NL [simp]: "\<not> is_digit NL"
  by (simp add: is_digit_def NL_def)

lemma strtol10_line: "is_int32 n \<Longrightarrow> strtol10 (show_int n @ [NL]) = n" "is_int32 n \<Longrightarrow> strtol10 (show_int n) = n"
  using strtol10_show_int [of n "[NL]"] strtol10_show_int [of n "[]"] by simp_all

lemma show_int_chars: "c \<in> set (show_int n) \<Longrightarrow> c \<noteq> NL \<and> c \<noteq> CHR ''/'' \<and> c \<noteq> CHR ''.'' \<and> c \<noteq> NUL"
  using digits_show_nat digit_not_space
  by (auto simp: show_int_def NL_def NUL_def split: if_splits dest: bspec)

lemma show_int_not_Nil [simp]: "show_int n \<noteq> []"
  by (simp add: show_int_def)

lemma show_int_inj: "is_int32 m \<Longrightarrow> is_int32 n \<Longrightarrow> show_int m = show_int n \<longleftrightarrow> m = n"
  using strtol10_line(2) by metis

lemma length_show_nat: "n < 10 ^ k \<Longrightarrow> 0 < k \<Longrightarrow> length (show_nat n) \<le> k"
proof (induction n arbitrary: k rule: show_nat.induct)
  case (1 n)
  show ?case
  proof (cases "n < 10")
    case True
    with 1 show ?thesis by (simp add: show_nat.simps)
  next
    case False
    obtain j where j: "k = Suc j" using 1 by (cases k) auto
    have "0 < j" using False 1(2) j by (cases j) auto
    moreover have "n div 10 < 10 ^ j" using 1(2) j by (simp add: div_less_iff_less_mult mult.commute)
    ultimately have "length (show_nat (n div 10)) \<le> j" using 1(1) False by simp
    with False j show ?thesis by (subst show_nat.simps) simp
  qed
qed

text \<open>\<^verbatim>\<open>snprintf(id_str, 12, "%d", id)\<close> never truncates.\<close>

lemma length_show_int: "is_int32 n \<Longrightarrow> length (show_int n) \<le> 11"
proof -
  assume "is_int32 n"
  then have "nat n < 10 ^ 10" "nat (- n) < 10 ^ 10"
    by (simp_all add: is_int32_def) linarith+
  then show ?thesis
    using length_show_nat [of "nat n" 10] length_show_nat [of "nat (- n)" 10]
    by (auto simp: show_int_def simp del: power_numeral)
qed

section \<open>Running the calls\<close>

lemma is_dir_simps [simp]:
  "is_dir (w\<lparr>env := e\<rparr>) = is_dir w" "is_dir (w\<lparr>sems := t\<rparr>) = is_dir w" "is_dir (put_file k c w) = is_dir w"
  "is_dir (w\<lparr>files := fs\<rparr>) = is_dir w"
  by (simp_all add: is_dir_def put_file_def fun_eq_iff)

lemma file_at_simps [simp]:
  "file_at (w\<lparr>env := e\<rparr>) = file_at w" "file_at (w\<lparr>sems := t\<rparr>) = file_at w"
  "file_at (w\<lparr>dirs := ds\<rparr>) = file_at w"
  "file_at (put_file k c w) = (file_at w)(k \<mapsto> c)"
  "file_at (w\<lparr>files := AList.delete k (files w)\<rparr>) = (file_at w)(k := None)"
  by (simp_all add: file_at_def put_file_def fun_eq_iff update_conv' delete_conv')

lemma put_file_simps [simp]:
  "env (put_file k c w) = env w" "sems (put_file k c w) = sems w" "shms (put_file k c w) = shms w"
  "dirkey (put_file k c w) = dirkey w" "dirs (put_file k c w) = dirs w" "queues (put_file k c w) = queues w"
  "sent (put_file k c w) = sent w" "got (put_file k c w) = got w" "peer (put_file k c w) = peer w"
  by (simp_all add: put_file_def)

lemma set_fst_files: "p \<in> fst ` set (files w) \<longleftrightarrow> file_at w p \<noteq> None"
  by (simp add: file_at_def map_of_eq_None_iff)

lemma walk_cong:
  "is_dir w' = is_dir w \<Longrightarrow> (\<forall>k. file_at w' k = None \<longleftrightarrow> file_at w k = None) \<Longrightarrow> walk w' cur cs = walk w cur cs"
  by (induction w cur cs rule: walk.induct) auto

lemma resolve_env [simp]: "resolve (w\<lparr>env := e\<rparr>) path = resolve w path"
  "resolve (w\<lparr>sems := t\<rparr>) path = resolve w path"
  using walk_cong [of "w\<lparr>env := e\<rparr>" w] walk_cong [of "w\<lparr>sems := t\<rparr>" w] by (simp_all add: resolve_def)

lemma wp_access_ok [wp]:
  "wp (access_ok path) Q w =
     Q (Ret (\<not> failing w \<and> (case resolve w path of Inl e \<Rightarrow> False | Inr k \<Rightarrow> is_dir w k \<or> file_at w k \<noteq> None))) (adv w)"
  by (auto simp: access_ok_def split: sum.split)

lemma wp_fopen_a [wp]:
  "wp (fopen_a path) Q w =
     (case resolve w path of
        Inl e \<Rightarrow> Q (Ret None) (adv w)
      | Inr k \<Rightarrow> if failing w \<or> is_dir w k then Q (Ret None) (adv w)
                else Q (Ret (Some k)) (if file_at w k = None then put_file k [] (adv w) else adv w))"
  by (auto simp: fopen_a_def wp_def syscall_def bnd_def split: sum.split)

lemma wp_fopen_r [wp]:
  "wp (fopen_r path) Q w =
     (case resolve w path of
        Inl e \<Rightarrow> Q (Ret None) (adv w)
      | Inr k \<Rightarrow> if failing w \<or> file_at w k = None then Q (Ret None) (adv w) else Q (Ret (Some k)) (adv w))"
  by (auto simp: fopen_r_def split: sum.split)

lemma wp_fopen_w [wp]:
  "wp (fopen_w path) Q w =
     (case resolve w path of
        Inl e \<Rightarrow> Q (Ret None) (adv w)
      | Inr k \<Rightarrow> if failing w \<or> is_dir w k then Q (Ret None) (adv w) else Q (Ret (Some k)) (put_file k [] (adv w)))"
  by (auto simp: fopen_w_def wp_def syscall_def bnd_def split: sum.split)

lemma wp_fputs [wp]:
  "wp (fputs str k) Q w =
     (if failing w then Q (Ret (-1)) (adv w) else Q (Ret 1) (put_file k (text_of w k @ str) (adv w)))"
  by (simp add: fputs_def wp_def syscall_def bnd_def text_of_def)

lemma wp_unlink [wp]:
  "wp (unlink path) Q w =
     (case resolve w path of
        Inl e \<Rightarrow> Q (Ret (-1)) (adv w)
      | Inr k \<Rightarrow> if failing w \<or> file_at w k = None then Q (Ret (-1)) (adv w)
                else Q (Ret 0) (w\<lparr>env := tl (env w), files := AList.delete k (files w)\<rparr>))"
  by (auto simp: unlink_def wp_def syscall_def bnd_def split: sum.split)

lemma wp_rename [wp]:
  "wp (rename old new) Q w =
     (case (resolve w old, resolve w new) of
        (Inr k, Inr l) \<Rightarrow>
          (case file_at w k of
             None \<Rightarrow> Q (Ret (-1)) (adv w)
           | Some c \<Rightarrow> if failing w \<or> is_dir w l then Q (Ret (-1)) (adv w)
                       else if k = l then Q (Ret 0) (adv w)
                       else Q (Ret 0) (put_file l c (w\<lparr>env := tl (env w), files := AList.delete k (files w)\<rparr>)))
      | _ \<Rightarrow> Q (Ret (-1)) (adv w))"
  by (auto simp: rename_def wp_def syscall_def bnd_def split: sum.split option.split)

lemma wp_opendir [wp]:
  "wp (opendir path) Q w =
     Q (Ret (if failing w then Inl EOTHER
             else case resolve w path of
               Inl e \<Rightarrow> Inl e
             | Inr k \<Rightarrow> if is_dir w k then Inr k else Inl (if file_at w k = None then ENOENT else ENOTDIR))) (adv w)"
  by (auto simp: opendir_def split: sum.split)

lemma wp_mkdir [wp]:
  "wp (mkdir path) Q w =
     (case resolve w (rev (dropWhile (\<lambda>c. c = CHR ''/'') (rev path))) of
        Inl e \<Rightarrow> Q (Ret (-1)) (adv w)
      | Inr k \<Rightarrow> if failing w \<or> is_dir w k \<or> file_at w k \<noteq> None then Q (Ret (-1)) (adv w)
                else Q (Ret 0) (w\<lparr>env := tl (env w), dirs := k # dirs w\<rparr>))"
  by (auto simp: mkdir_def wp_def syscall_def bnd_def split: sum.split)

text \<open>A loop whose body returns and leaves the state alone.\<close>

lemma for_reads_fold:
  "env w = [] \<Longrightarrow> \<forall>l\<in>set ls. \<forall>a. f l a w = (Ret (g l a), w) \<Longrightarrow> \<forall>a. \<not> stopped a \<Longrightarrow>
   for_reads f stopped ls a w = (Ret (fold g ls a), w)"
  by (induction ls arbitrary: a) (simp_all add: bnd_def syscall_def ret_def)

lemma for_reads_Nil_run: "env w = [] \<Longrightarrow> for_reads f stopped [] a w = (Ret a, w)"
  by (simp add: bnd_def syscall_def ret_def)

lemma for_reads_Cons_run:
  "env w = [] \<Longrightarrow> f l a w = (Ret b, w') \<Longrightarrow> \<not> stopped b \<Longrightarrow>
   for_reads f stopped (l # ls) a w = for_reads f stopped ls b w'"
  by (simp add: bnd_def syscall_def)

section \<open>Calm programs\<close>

text \<open>
  A program that, whatever calls fail, neither waits nor ends the process and leaves the semaphores
  alone.  All file operations are calm, and sequences of calm programs are.
\<close>

named_theorems calm "programs that leave the semaphores alone"

definition calm :: "(('m, 's) world, 'a) prog \<Rightarrow> bool" where
  "calm m \<longleftrightarrow> (\<forall>w. wp m (\<lambda>r w'. (r = Undef \<or> (\<exists>x. r = Ret x)) \<and> sems w' = sems w \<and> dirkey w' = dirkey w) w)"

lemma calm_ret [calm]: "calm (ret x)" and calm_gets [calm]: "calm (gets f)" and calm_syscall [calm]: "calm syscall"
  by (simp_all add: calm_def)

lemma calm_bnd [calm]:
  fixes m :: "(('m, 's) world, 'a) prog"
  assumes "calm m" "\<And>x. calm (f x)"
  shows "calm (bnd m f)"
  unfolding calm_def wp_bnd
proof (rule allI, rule wp_mono)
  fix w :: "('m, 's) world"
  show "wp m (\<lambda>r w'. (r = Undef \<or> (\<exists>x. r = Ret x)) \<and> sems w' = sems w \<and> dirkey w' = dirkey w) w"
    using assms(1) by (simp add: calm_def)
  fix r :: "'a res" and w' :: "('m, 's) world"
  let ?Q = "\<lambda>r (w' :: ('m, 's) world). (r = Undef \<or> (\<exists>x. r = Ret x)) \<and> sems w' = sems w \<and> dirkey w' = dirkey w"
  assume a: "(r = Undef \<or> (\<exists>x. r = Ret x)) \<and> sems w' = sems w \<and> dirkey w' = dirkey w"
  have "wp (f x) ?Q w'" for x
    using assms(2) [of x, unfolded calm_def, rule_format, of w'] a by simp
  with a show "and_then (\<lambda>x. wp (f x) ?Q) ?Q r w'" by auto
qed

lemma calm_if [calm]: "calm m \<Longrightarrow> calm n \<Longrightarrow> calm (if b then m else n)"
  by simp

lemma calm_case_option [calm]: "calm m \<Longrightarrow> (\<And>x. calm (f x)) \<Longrightarrow> calm (case z of None \<Rightarrow> m | Some x \<Rightarrow> f x)"
  by (cases z) auto

lemma calm_case_sum [calm]: "(\<And>x. calm (f x)) \<Longrightarrow> (\<And>x. calm (g x)) \<Longrightarrow> calm (case z of Inl x \<Rightarrow> f x | Inr x \<Rightarrow> g x)"
  by (cases z) auto

lemma calm_case_prod [calm]: "(\<And>x y. calm (f x y)) \<Longrightarrow> calm (case z of (x, y) \<Rightarrow> f x y)"
  by (cases z) auto

lemma calm_indeterminate [calm]: "calm indeterminate"
  by (simp add: calm_def wp_indeterminate)

lemma calm_files [calm]:
  "calm (access_ok path)" "calm (fopen_a path)" "calm (fopen_r path)" "calm (fopen_w path)" "calm (fputs str k)"
  "calm (unlink path)" "calm (rename path path')" "calm (opendir path)" "calm (mkdir path)"
  by (simp_all add: calm_def wp put_file_def split: sum.split option.split)

lemma calm_for_reads [calm]: "(\<And>l a. calm (f l a)) \<Longrightarrow> calm (for_reads f stopped ls a)"
  by (induction ls arbitrary: a) (auto intro!: calm)

lemma wp_calm:
  assumes "calm m" "\<And>x w'. sems w' = sems w \<Longrightarrow> dirkey w' = dirkey w \<Longrightarrow> Q (Ret x) w'" "\<And>w'. Q Undef w'"
  shows "wp m Q w"
proof (rule wp_mono)
  show "wp m (\<lambda>r w'. (r = Undef \<or> (\<exists>x. r = Ret x)) \<and> sems w' = sems w \<and> dirkey w' = dirkey w) w"
    using assms(1) by (simp add: calm_def)
qed (use assms(2,3) in auto)

end
