(* ===== verification/Client_Api.thy ===== *)
theory Client_Api
  imports Local_Broker File_Store
begin

text \<open>
  The library of the clients (\<^verbatim>\<open>broker/client/broker.c\<close>) and the interactive client
  (\<^verbatim>\<open>broker/client/client.c\<close>).  A call puts a request into the queue of the local broker and waits for
  the response: while it waits the other processes run, which is the program \<open>others\<close>.  \<open>stk\<close> is what
  the message struct on the stack held before.
\<close>

section \<open>The library\<close>

definition send :: "msg_t \<Rightarrow> (machine, int) prog" where
  "send msg =
     bnd (getmsg BROKER_REQ_MSG) (\<lambda>req_queue.
     if req_queue < 0 then ret (-1) else sendmsg mtype req_queue msg)"

definition recv :: "(machine, unit) prog \<Rightarrow> int \<Rightarrow> msg_t \<Rightarrow> (machine, int \<times> msg_t) prog" where
  "recv others i msg =
     bnd (getmsg BROKER_RESP_MSG) (\<lambda>resp_queue.
     if resp_queue < 0 then ret (-1, msg)
     else thn others (rcvmsg mtype resp_queue msg i))"

definition creabrk :: "(machine, unit) prog \<Rightarrow> int \<Rightarrow> msg_t \<Rightarrow> (machine, int) prog" where
  "creabrk others pid stk =
     (let msg = stk\<lparr>mtype := pid, msg_type := CREATE\<rparr> in
      bnd (send msg) (\<lambda>r.
      if r < 0 then ret (-1)
      else bnd (recv others pid msg) (\<lambda>(r, msg).
      if r < 0 then ret (-1)
      else if msg_type msg = ACK_CREATE then ret (int_of_long (mtype msg))
      else if msg_type msg = ACK_ERROR then ret (-1)
      else ret (-1))))"

definition publish :: "(machine, unit) prog \<Rightarrow> msg_t \<Rightarrow> int \<Rightarrow> string \<Rightarrow> string \<Rightarrow> (machine, int) prog" where
  "publish others stk i message tp =
     (let msg = stk\<lparr>mtype := i, msg_type := PUBLISH, broker_id := 0,
            payload := \<lparr>topic = put_field MAX_TOPIC_LENGTH (topic (payload stk)) tp,
                        body = put_field MAX_MSG_LENGTH (body (payload stk)) message\<rparr>\<rparr> in
      bnd (send msg) (\<lambda>r.
      if r < 0 then ret (-1)
      else bnd (recv others i msg) (\<lambda>(r, msg).
      if r < 0 then ret (-1)
      else if msg_type msg = ACK_OK then ret 0
      else if msg_type msg = ACK_ERROR then ret (-1)
      else ret (-1))))"

definition subscribe :: "(machine, unit) prog \<Rightarrow> msg_t \<Rightarrow> int \<Rightarrow> string \<Rightarrow> (machine, int) prog" where
  "subscribe others stk i tp =
     (let msg = stk\<lparr>mtype := i, msg_type := SUBSCRIBE,
            payload := (payload stk)\<lparr>topic := put_field MAX_TOPIC_LENGTH (topic (payload stk)) tp\<rparr>\<rparr> in
      bnd (send msg) (\<lambda>r.
      if r < 0 then ret (-1)
      else bnd (recv others i msg) (\<lambda>(r, msg).
      if r < 0 then ret (-1)
      else if msg_type msg = ACK_OK then ret 0
      else if msg_type msg = ACK_ERROR then ret (-1)
      else ret (-1))))"

text \<open>The result and the payload of the caller.\<close>

definition receive :: "(machine, unit) prog \<Rightarrow> msg_t \<Rightarrow> int \<Rightarrow> payload_t \<Rightarrow> (machine, int \<times> payload_t) prog" where
  "receive others stk i pl =
     (let msg = stk\<lparr>mtype := i, msg_type := RECEIVE\<rparr> in
      bnd (send msg) (\<lambda>r.
      if r < 0 then ret (-1, pl)
      else bnd (recv others i msg) (\<lambda>(r, msg).
      if r < 0 then ret (-1, pl)
      else if msg_type msg = ACK_OK then ret (1, payload msg)
      else if msg_type msg = ACK_NO_MSG then ret (0, pl)
      else if msg_type msg = ACK_ERROR then ret (-1, pl)
      else ret (-1, pl))))"

definition delbrk :: "(machine, unit) prog \<Rightarrow> msg_t \<Rightarrow> int \<Rightarrow> (machine, int) prog" where
  "delbrk others stk i =
     (let msg = stk\<lparr>mtype := i, msg_type := DESTROY\<rparr> in
      bnd (send msg) (\<lambda>r.
      if r < 0 then ret (-1)
      else bnd (recv others i msg) (\<lambda>(r, msg).
      if r < 0 then ret (-1)
      else if msg_type msg = ACK_DESTROY then ret 0
      else if msg_type msg = ACK_ERROR then ret (-1)
      else ret (-1))))"

section \<open>The interactive client\<close>

text \<open>
  \<open>fgets\<close> reads up to a newline, the end of the input or the size of the buffer; at the end of the
  input it leaves the buffer alone.
\<close>

definition fgets :: "char list \<Rightarrow> nat \<Rightarrow> string \<Rightarrow> char list \<times> string" where
  "fgets buffer max_size stdin =
     (if stdin = [] then (buffer, [])
      else let line = take (max_size - 1) (takeWhile (\<lambda>c. c \<noteq> CHR 0x0A) stdin
                        @ (if CHR 0x0A \<in> set stdin then [CHR 0x0A] else []))
           in (line @ NUL # drop (Suc (length line)) buffer, drop (length line) stdin))"

definition read_input :: "char list \<Rightarrow> nat \<Rightarrow> string \<Rightarrow> (char list \<times> string) res" where
  "read_input buffer max_size stdin =
     (case fgets buffer max_size stdin of (buffer, stdin) \<Rightarrow>
      rbind (field_str buffer) (\<lambda>s.
      Ret (if length s > 0 \<and> s ! (length s - 1) = CHR 0x0A then buffer[length s - 1 := NUL] else buffer, stdin)))"

definition read_option :: "char list \<Rightarrow> string \<Rightarrow> (int \<times> string) res" where
  "read_option buffer stdin =
     rbind (read_input buffer 10 stdin) (\<lambda>(buffer, stdin).
     rbind (field_str buffer) (\<lambda>s. Ret (int_of_long (strtol10 s), stdin)))"

text \<open>What the local variables of one turn of the menu held before.\<close>

record menu_stack =
  option_buffer :: "char list"
  topic_buffer :: "char list"
  message_buffer :: "char list"
  api_msg :: msg_t
  api_payload :: payload_t

definition client_subscribe :: "(machine, unit) prog \<Rightarrow> menu_stack \<Rightarrow> int \<Rightarrow> string \<Rightarrow> (machine, string) prog" where
  "client_subscribe others stk mom stdin =
     bnd (lift_res (read_input (topic_buffer stk) MAX_TOPIC_LENGTH stdin)) (\<lambda>(tp, stdin).
     bnd (lift_res (field_str tp)) (\<lambda>tp.
     thn (subscribe others (api_msg stk) mom tp) (ret stdin)))"

definition client_send :: "(machine, unit) prog \<Rightarrow> menu_stack \<Rightarrow> int \<Rightarrow> string \<Rightarrow> (machine, string) prog" where
  "client_send others stk mom stdin =
     bnd (lift_res (read_input (topic_buffer stk) MAX_TOPIC_LENGTH stdin)) (\<lambda>(tp, stdin).
     bnd (lift_res (read_input (message_buffer stk) MAX_MSG_LENGTH stdin)) (\<lambda>(message, stdin).
     bnd (lift_res (field_str message)) (\<lambda>message.
     bnd (lift_res (field_str tp)) (\<lambda>tp.
     thn (publish others (api_msg stk) mom message tp) (ret stdin)))))"

text \<open>Printing has no effect on the state.\<close>

definition client_receive :: "(machine, unit) prog \<Rightarrow> menu_stack \<Rightarrow> int \<Rightarrow> (machine, unit) prog" where
  "client_receive others stk mom =
     bnd (receive others (api_msg stk) mom (api_payload stk)) (\<lambda>(res, pl). ret ())"

text \<open>The turns of the menu until option 4; \<open>None\<close> means that the list of turns was too short.\<close>

primrec menu :: "(machine, unit) prog \<Rightarrow> menu_stack list \<Rightarrow> int \<Rightarrow> string \<Rightarrow> (machine, string option) prog" where
  "menu others [] mom stdin = ret None"
| "menu others (stk # stks) mom stdin =
     bnd (lift_res (read_option (option_buffer stk) stdin)) (\<lambda>(opt, stdin).
     if opt = 1 then bnd (client_subscribe others stk mom stdin) (menu others stks mom)
     else if opt = 2 then bnd (client_send others stk mom stdin) (menu others stks mom)
     else if opt = 3 then thn (client_receive others stk mom) (menu others stks mom stdin)
     else if opt = 4 then ret (Some stdin)
     else menu others stks mom stdin)"

definition client_main :: "(machine, unit) prog \<Rightarrow> int \<Rightarrow> msg_t \<Rightarrow> msg_t \<Rightarrow> menu_stack list \<Rightarrow> string \<Rightarrow> (machine, string option) prog" where
  "client_main others pid stk stk' stks stdin =
     bnd (creabrk others pid stk) (\<lambda>mom.
     bnd (menu others stks mom stdin) (\<lambda>r. case r of
       None \<Rightarrow> ret None
     | Some stdin \<Rightarrow> thn (delbrk others stk' mom) (ret (Some stdin))))"

section \<open>A call and its response\<close>

text \<open>
  \<open>ready w a reqq rq iq S\<close>: the local broker of the machine is in state \<open>S\<close>, its queues are found
  under their keys, and no request is waiting.
\<close>

definition ready :: "machine \<Rightarrow> int \<Rightarrow> int \<Rightarrow> int \<Rightarrow> int \<Rightarrow> local_state \<Rightarrow> bool" where
  "ready w a reqq rq iq S \<longleftrightarrow> at_state w a rq iq S \<and> distinct [reqq, rq, iq] \<and> 0 \<le> reqq \<and> 0 \<le> rq \<and> wf_base (dirkey w)
     \<and> ipc_keys (queues w) (ftok_key (dirkey w) BROKER_REQ_MSG) = Some reqq
     \<and> ipc_keys (queues w) (ftok_key (dirkey w) BROKER_RESP_MSG) = Some rq \<and> ipc_objs (queues w) reqq = Some []"

lemma readyD:
  assumes "ready w a reqq rq iq S"
  shows "at_state w a rq iq S" "rq \<noteq> iq" "reqq \<noteq> rq" "reqq \<noteq> iq" "env w = []" "wf_base (dirkey w)" "ipc_objs (queues w) reqq = Some []"
  using assms by (auto simp: ready_def at_state_def elim: at_workE)

definition asked :: "machine \<Rightarrow> int \<Rightarrow> msg_t \<Rightarrow> machine" where
  "asked w reqq msg = w\<lparr>queues := ipc_put reqq [msg] (queues w)\<rparr>"

lemma send_run:
  assumes "ready w a reqq rq iq S" "0 < mtype msg"
  shows "send msg w = (Ret 0, asked w reqq msg)"
  using readyD [OF assms(1)] assms
  by (intro wp_eqI) (simp add: send_def wp ready_def ipc_get_def asked_def)

lemma asked_state:
  assumes "ready w a reqq rq iq S"
  shows "at_state (asked w reqq msg) a rq iq S" "ipc_objs (queues (asked w reqq msg)) reqq = Some [msg]"
    "sent (asked w reqq msg) = sent w" "got (asked w reqq msg) = got w" "peer (asked w reqq msg) = peer w"
  using assms by (auto simp: ready_def asked_def at_state_def at_work_def)

lemma recv_run:
  assumes "ready w a reqq rq iq S" "others (asked w reqq msg) = (Ret (), w2)" "at_state w2 a rq iq (rs, resp @ [x], inc)"
    "mtype x = i" "0 < i" "\<forall>m\<in>set resp. mtype m \<noteq> i"
  shows "\<exists>w'. recv others i msg (asked w reqq msg) = (Ret (0, x), w') \<and> at_state w' a rq iq (rs, resp, inc)
    \<and> sent w' = sent w2"
proof -
  have "getmsg BROKER_RESP_MSG (asked w reqq msg) = (Ret rq, asked w reqq msg)"
    using readyD [OF assms(1)] assms(1) by (intro wp_eqI) (simp add: wp asked_def ready_def ipc_get_def)
  moreover have "0 \<le> rq" using assms(1) by (simp add: ready_def)
  moreover have "take_msg mtype i (resp @ [x]) = Some (x, resp)"
    using take_first_skip [of resp "\<lambda>m. mtype m = i" x "[]"] assms(4-6) by (simp add: take_msg_def)
  then have "rcvmsg mtype rq msg i w2 = (Ret (0, x), w2\<lparr>queues := ipc_put rq resp (queues w2)\<rparr>)"
    using assms(3) by (intro wp_eqI) (auto simp: wp at_state_def elim!: at_workE)
  moreover have "at_state (w2\<lparr>queues := ipc_put rq resp (queues w2)\<rparr>) a rq iq (rs, resp, inc)"
    using at_work_put(1) [of w2 a rs rq "resp @ [x]" iq inc resp] assms(3) readyD(2) [OF assms(1)] by (simp add: at_state_def)
  ultimately show ?thesis using assms(2) by (simp add: recv_def bnd_def)
qed

text \<open>The request handler takes the request that was just sent.\<close>

lemma handled_once:
  assumes "ready w a reqq rq iq S" "local_request_ok msg S" "abs_request (fst s) msg S = (S', out)"
  shows "\<exists>w'. broker_req_loop [s] reqq a rq fd iq (asked w reqq msg) = (Ret (), w') \<and> at_state w' a rq iq S'
    \<and> sent w' = (sent w)(fd := sent w fd @ concat (map encode_msg out)) \<and> got w' = got w \<and> peer w' = peer w"
  using broker_req_loop_run [OF asked_state(1) [OF assms(1)] readyD(2-4) [OF assms(1)], of msg "[msg]" "[]" "[s]" S' out fd]
    asked_state [OF assms(1), of msg] assms(2,3) by auto

section \<open>Properties\<close>

text \<open>
  C12: \<open>receive\<close> hands the client the payload of the oldest publication in its mailbox and removes
  exactly that one; with an empty mailbox it returns 0 and leaves the payload of the caller alone.
\<close>

theorem receive_returns_oldest:
  "ready w a reqq rq iq (rs, resp, inc) \<Longrightarrow> local_request_ok (stk\<lparr>mtype := i, msg_type := RECEIVE\<rparr>) (rs, resp, inc) \<Longrightarrow>
   global_of rs i \<noteq> None \<Longrightarrow> \<forall>m\<in>set resp. mtype m \<noteq> i \<Longrightarrow>
   \<exists>w' inc'. receive (broker_req_loop [s] reqq a rq fd iq) stk i pl w =
       (Ret (case mailbox i (rs, resp, inc) of [] \<Rightarrow> (0, pl) | x # xs \<Rightarrow> (1, payload x)), w')
     \<and> at_state w' a rq iq (rs, resp, inc') \<and> mailbox i (rs, resp, inc') = tl (mailbox i (rs, resp, inc))
     \<and> (\<forall>j. j \<noteq> i \<longrightarrow> mailbox j (rs, resp, inc') = mailbox j (rs, resp, inc))"
proof -
  assume r: "ready w a reqq rq iq (rs, resp, inc)" and ok: "local_request_ok (stk\<lparr>mtype := i, msg_type := RECEIVE\<rparr>) (rs, resp, inc)"
    and g: "global_of rs i \<noteq> None" and free: "\<forall>m\<in>set resp. mtype m \<noteq> i"
  let ?m = "stk\<lparr>mtype := i, msg_type := RECEIVE\<rparr>" and ?S = "(rs, resp, inc)"
  have i: "0 < i" using ok by (simp add: local_request_ok_def)
  have abs: "abs_request (fst s) ?m ?S = (abs_receive (fst s) ?m ?S, [])" using g by (simp add: abs_request_def)
  have snd: "send ?m w = (Ret 0, asked w reqq ?m)" using send_run [OF r] i by simp
  obtain x inc' where x: "abs_receive (fst s) ?m ?S = (rs, resp @ [x], inc')" "mtype x = i"
    "msg_type x = (if mailbox i ?S = [] then ACK_NO_MSG else ACK_OK)"
    "mailbox i ?S \<noteq> [] \<longrightarrow> payload x = payload (hd (mailbox i ?S))"
    "mailbox i (rs, resp, inc') = tl (mailbox i ?S)" "\<forall>j. j \<noteq> i \<longrightarrow> mailbox j (rs, resp, inc') = mailbox j ?S"
    using abs_receive_oldest [of ?m "fst s" rs resp inc] i by auto
  from handled_once [OF r ok abs, of fd] obtain w2 where
    "broker_req_loop [s] reqq a rq fd iq (asked w reqq ?m) = (Ret (), w2)" "at_state w2 a rq iq (rs, resp @ [x], inc')"
    by (auto simp: x(1))
  from recv_run [where others = "broker_req_loop [s] reqq a rq fd iq" and msg = ?m, OF r this x(2) i free] obtain w' where
    "recv (broker_req_loop [s] reqq a rq fd iq) i ?m (asked w reqq ?m) = (Ret (0, x), w')" "at_state w' a rq iq (rs, resp, inc')"
    by blast
  with snd x(3-6) show ?thesis
    by (intro exI [of _ w'] exI [of _ inc']) (auto simp: receive_def Let_def bnd_def ret_def split: list.split)
qed

text \<open>A machine on which the local broker has started and has the clients \<open>rs\<close>.\<close>

lemma ready_host0:
  assumes "length rs \<le> MAX_LOCAL_CLIENTS" "\<forall>r\<in>set rs. 0 < local_id r \<and> 0 \<le> b_global_id r"
  shows "\<exists>w. ready w 0 0 1 2 (rs, [], inc) \<and> sent w = (\<lambda>_. []) \<and> got w = (\<lambda>_. 0)"
proof -
  let ?t = "\<lparr>count = int (length rs), ids = rs @ replicate (MAX_LOCAL_CLIENTS - length rs) \<lparr>local_id = 0, b_global_id = 0\<rparr>\<rparr>"
  let ?w = "(idle_host :: machine)\<lparr>
     sems := \<lparr>ipc_keys = [ftok_key 1 BROKER_IDS_SEM \<mapsto> 0], ipc_objs = [0 \<mapsto> 1], ipc_next = 1\<rparr>,
     shms := \<lparr>ipc_keys = [ftok_key 1 BROKER_IDS_SHM \<mapsto> 0], ipc_objs = [0 \<mapsto> ?t], ipc_next = 1\<rparr>,
     queues := \<lparr>ipc_keys = [ftok_key 1 BROKER_REQ_MSG \<mapsto> 0, ftok_key 1 BROKER_RESP_MSG \<mapsto> 1, ftok_key 1 INCOMING_MSG_QUEUE \<mapsto> 2],
       ipc_objs = [0 \<mapsto> [], 1 \<mapsto> [], 2 \<mapsto> inc], ipc_next = 3\<rparr>\<rparr>"
  have b: "open_broker ?w 0 0 ?t"
    using assms by (simp add: open_broker_def guard_def wf_table_def rows_def idle_host_def)
  have "at_state ?w 0 1 2 (rs, [], inc)"
    unfolding at_state_def at_work_def using b by (intro conjI exI [of _ 0] exI [of _ ?t]) (simp_all add: rows_def idle_host_def)
  then have "ready ?w 0 0 1 2 (rs, [], inc)" by (simp add: ready_def idle_host_def wf_base_def)
  moreover have "sent ?w = (\<lambda>_. [])" "got ?w = (\<lambda>_. 0)" by (simp_all add: idle_host_def)
  ultimately show ?thesis by blast
qed

lemma ready_host:
  assumes "length rs \<le> MAX_LOCAL_CLIENTS" "\<forall>r\<in>set rs. 0 < local_id r \<and> 0 \<le> b_global_id r"
  shows "\<exists>w a. ready w a 0 1 2 (rs, [], inc) \<and> sent w = (\<lambda>_. []) \<and> got w = (\<lambda>_. 0)"
  using ready_host0 [OF assms] by blast

lemma receive_returns_oldest_witness:
  "\<exists>w w' a. receive (broker_req_loop [(blank_msg, blank_msg)] 0 a 1 3 2) blank_msg 70 (payload blank_msg) w
    = (Ret (1, payload (note_of PUBLISH 70)), w')"
proof -
  obtain w a where w: "ready w a 0 1 2 ([\<lparr>local_id = 70, b_global_id = 5\<rparr>], [], [note_of PUBLISH 70])"
    using ready_host [of "[\<lparr>local_id = 70, b_global_id = 5\<rparr>]" "[note_of PUBLISH 70]"] by auto
  have "local_request_ok (blank_msg\<lparr>mtype := 70, msg_type := RECEIVE\<rparr>) ([\<lparr>local_id = 70, b_global_id = 5\<rparr>], [], [note_of PUBLISH 70])"
    by (simp add: local_request_ok_def global_of_def blank_msg_def wf_msg_def is_int32_def is_int64_def)
  from receive_returns_oldest [OF w this, of "(blank_msg, blank_msg)" 3 "payload blank_msg"] show ?thesis
    by (auto simp: mailbox_def global_of_def)
qed

text \<open>Both handlers while a client waits: one request goes out, one response comes in.\<close>

abbreviation both :: "msg_t \<times> msg_t \<Rightarrow> msg_t \<Rightarrow> int \<Rightarrow> int \<Rightarrow> int \<Rightarrow> int \<Rightarrow> int \<Rightarrow> (machine, unit) prog" where
  "both s s' reqq a rq fd iq \<equiv> thn (broker_req_loop [s] reqq a rq fd iq) (broker_resp_loop [s'] fd a rq iq)"

lemma both_run:
  assumes "ready w a reqq rq iq S" "local_request_ok msg S" "abs_request (fst s) msg S = (S1, [m])"
    "drop (got w fd) (peer w fd (sent w fd @ encode_msg m)) = encode_msg ack @ later" "wf_msg ack"
    "event_ok (Response ack) S1"
  shows "\<exists>w'. both s s' reqq a rq fd iq (asked w reqq msg) = (Ret (), w') \<and> at_state w' a rq iq (abs_response ack S1)
    \<and> available w' fd = later \<and> sent w' = (sent w)(fd := sent w fd @ encode_msg m)"
proof -
  from handled_once [OF assms(1-3), of fd] obtain w1 where
    w1: "broker_req_loop [s] reqq a rq fd iq (asked w reqq msg) = (Ret (), w1)" "at_state w1 a rq iq S1"
    "sent w1 = (sent w)(fd := sent w fd @ encode_msg m)" "got w1 = got w" "peer w1 = peer w"
    by auto
  have "available w1 fd = concat (map encode_msg [ack]) @ later" using w1(3-5) assms(4) by (simp add: available_def)
  from broker_resp_loop_run [OF w1(2) readyD(2) [OF assms(1)] this, of "[s']" "abs_response ack S1" "[]"] assms(5,6)
  obtain w2 where "broker_resp_loop [s'] fd a rq iq w1 = (Ret (), w2)" "at_state w2 a rq iq (abs_response ack S1)"
    "available w2 fd = later" "sent w2 = sent w1"
    by auto
  with w1 show ?thesis by (simp add: bnd_def)
qed

text \<open>
  C11: When no other creation is pending on the machine, \<open>creabrk\<close> sends one CREATE request, and the
  server's acknowledgement registers the client under the global identifier it carries: the call
  returns the client's process identifier, and the response queue and the mailboxes are as before.
\<close>

theorem creabrk_registers_client:
  "ready w a reqq rq iq (rs, resp, inc) \<Longrightarrow> \<forall>r\<in>set rs. b_global_id r \<noteq> 0 \<Longrightarrow>
   req = stk\<lparr>mtype := pid, msg_type := CREATE\<rparr> \<Longrightarrow> local_request_ok req (rs, resp, inc) \<Longrightarrow> \<forall>m\<in>set resp. mtype m \<noteq> pid \<Longrightarrow>
   wf_msg ack \<Longrightarrow> msg_type ack = ACK_CREATE \<Longrightarrow> is_int32 (mtype ack) \<Longrightarrow> 0 < mtype ack \<Longrightarrow>
   drop (got w fd) (peer w fd (sent w fd @ encode_msg req)) = encode_msg ack @ later \<Longrightarrow>
   \<exists>w'. creabrk (both s s' reqq a rq fd iq) pid stk w = (Ret pid, w')
     \<and> at_state w' a rq iq (rs @ [\<lparr>local_id = pid, b_global_id = mtype ack\<rparr>], resp, inc)
     \<and> sent w' = (sent w)(fd := sent w fd @ encode_msg req)"
proof -
  assume r: "ready w a reqq rq iq (rs, resp, inc)" and nz: "\<forall>r\<in>set rs. b_global_id r \<noteq> 0"
    and req: "req = stk\<lparr>mtype := pid, msg_type := CREATE\<rparr>" "local_request_ok req (rs, resp, inc)"
    and free: "\<forall>m\<in>set resp. mtype m \<noteq> pid"
    and ack: "wf_msg ack" "msg_type ack = ACK_CREATE" "is_int32 (mtype ack)" "0 < mtype ack"
    and peer: "drop (got w fd) (peer w fd (sent w fd @ encode_msg req)) = encode_msg ack @ later"
  let ?new = "\<lparr>local_id = pid, b_global_id = 0\<rparr>"
  have pid: "0 < pid" "is_int32 pid" "mtype req = pid" using req by (simp_all add: local_request_ok_def)
  have abs: "abs_request (fst s) req (rs, resp, inc) = ((rs @ [?new], resp, inc), [req])"
    using req(1) by (simp add: abs_request_def)
  have "row_of b_global_id rs 0 = None" using nz by (auto simp: row_of_None_iff)
  then have "local_of (rs @ [?new]) 0 = Some pid" by (simp add: local_of_def)
  then have resp: "abs_response ack (rs @ [?new], resp, inc)
      = (rs @ [\<lparr>local_id = pid, b_global_id = mtype ack\<rparr>], resp @ [ack\<lparr>mtype := pid\<rparr>], inc)"
    using ack(2) nz set_first_split [of rs "\<lambda>r. b_global_id r = 0" ?new "\<lambda>r. r\<lparr>b_global_id := mtype ack\<rparr>" "[]"]
    by (simp add: abs_response_def)
  from both_run [OF r req(2) abs peer ack(1)] ack(2-4) obtain w2 where
    w2: "both s s' reqq a rq fd iq (asked w reqq req) = (Ret (), w2)"
    "at_state w2 a rq iq (rs @ [\<lparr>local_id = pid, b_global_id = mtype ack\<rparr>], resp @ [ack\<lparr>mtype := pid\<rparr>], inc)"
    "sent w2 = (sent w)(fd := sent w fd @ encode_msg req)"
    unfolding resp by (simp del: broker_req_loop.simps broker_resp_loop.simps) blast
  from recv_run [where others = "both s s' reqq a rq fd iq" and msg = req, OF r w2(1,2) _ pid(1) free] obtain w' where
    "recv (both s s' reqq a rq fd iq) pid req (asked w reqq req) = (Ret (0, ack\<lparr>mtype := pid\<rparr>), w')"
    "at_state w' a rq iq (rs @ [\<lparr>local_id = pid, b_global_id = mtype ack\<rparr>], resp, inc)" "sent w' = sent w2"
    by auto
  with send_run [OF r, of req] pid w2(3) ack(2) req(1) show ?thesis
    by (intro exI [of _ w']) (simp add: creabrk_def Let_def bnd_def ret_def)
qed

lemma creabrk_registers_client_witness:
  "\<exists>w w' a. creabrk (both (blank_msg, blank_msg) blank_msg 0 a 1 3 2) 70 blank_msg w = (Ret 70, w')
     \<and> at_state w' a 1 2 ([\<lparr>local_id = 70, b_global_id = 5\<rparr>], [], [])"
proof -
  obtain w a where w: "ready w a 0 1 2 ([], [], [])" "got w = (\<lambda>_. 0)" using ready_host [of "[]" "[]"] by auto
  let ?w = "w\<lparr>peer := (\<lambda>_ _. encode_msg (note_of ACK_CREATE 5))\<rparr>" and ?req = "blank_msg\<lparr>mtype := 70, msg_type := CREATE\<rparr>"
  have r: "ready ?w a 0 1 2 ([], [], [])"
    using w(1) by (auto simp: ready_def at_state_def at_work_def open_broker_def guard_def)
  have "local_request_ok ?req ([], [], [])"
    by (simp add: local_request_ok_def global_of_def blank_msg_def wf_msg_def is_int32_def is_int64_def)
  moreover have "drop (got ?w 3) (peer ?w 3 (sent ?w 3 @ encode_msg ?req)) = encode_msg (note_of ACK_CREATE 5) @ []"
    using w(2) by simp
  ultimately show ?thesis
    using creabrk_registers_client [OF r, of ?req 70 blank_msg "note_of ACK_CREATE 5" 3 "[]" "(blank_msg, blank_msg)" blank_msg]
    by (simp add: is_int32_def) blast
qed

lemma newline_not_NUL: "NUL \<noteq> CHR 0x0A"
  by (simp add: NUL_def)

lemma fgets_line:
  assumes "CHR 0x0A \<notin> set line" "0 < n"
  shows "fgets buffer n (line @ CHR 0x0A # rest) =
    (if Suc (length line) < n then ((line @ [CHR 0x0A]) @ NUL # drop (length line + 2) buffer, rest)
     else (take (n - 1) line @ NUL # drop n buffer, drop (n - 1) (line @ CHR 0x0A # rest)))"
proof -
  have "takeWhile (\<lambda>c. c \<noteq> CHR 0x0A) (line @ CHR 0x0A # rest) = line" using assms(1) by (subst takeWhile_append2) auto
  moreover have "drop (Suc (length line)) buffer = drop n buffer" if "length line \<le> n - 1" "\<not> Suc (length line) < n"
    using that assms(2) by (intro arg_cong [of _ _ "\<lambda>k. drop k buffer"]) linarith
  ultimately show ?thesis using assms(2) by (auto simp: fgets_def Let_def min_def)
qed

text \<open>
  The client reads its input by lines: with a line that fits, \<open>read_input\<close> leaves the line without
  its newline in the buffer and the rest for the next read; of a longer line it takes what fits and
  leaves the remainder to be read as if it were the next line.
\<close>

theorem read_input_reads_line:
  "NUL \<notin> set line \<Longrightarrow> CHR 0x0A \<notin> set line \<Longrightarrow> 0 < n \<Longrightarrow> length buffer = n \<Longrightarrow>
   \<exists>buffer'. (if Suc (length line) < n
     then read_input buffer n (line @ CHR 0x0A # rest) = Ret (buffer', rest) \<and> cstr buffer' = line
     else read_input buffer n (line @ CHR 0x0A # rest) = Ret (buffer', drop (n - 1) (line @ CHR 0x0A # rest))
       \<and> cstr buffer' = take (n - 1) line)
     \<and> length buffer' = n"
proof -
  assume a: "NUL \<notin> set line" "CHR 0x0A \<notin> set line" "0 < n" "length buffer = n"
  show ?thesis
  proof (cases "Suc (length line) < n")
    case True
    let ?b = "line @ NUL # NUL # drop (length line + 2) buffer"
    have "cstr ((line @ [CHR 0x0A]) @ NUL # drop (length line + 2) buffer) = line @ [CHR 0x0A]"
      using a(1) newline_not_NUL by (intro cstr_append_NUL) auto
    with True a have "read_input buffer n (line @ CHR 0x0A # rest) = Ret (?b, rest)"
      by (simp add: read_input_def fgets_line field_str_def nth_append list_update_append)
    moreover have "cstr ?b = line" using a(1) by (rule cstr_append_NUL)
    moreover have "length ?b = n" using True a(4) by simp
    ultimately show ?thesis using True by auto
  next
    case False
    let ?b = "take (n - 1) line @ NUL # drop n buffer"
    have c: "cstr ?b = take (n - 1) line" using a(1) by (intro cstr_append_NUL) (auto dest: in_set_takeD)
    have "take (n - 1) line ! (length (take (n - 1) line) - 1) \<noteq> CHR 0x0A" if "take (n - 1) line \<noteq> []"
      using that a(2) nth_mem [of "length (take (n - 1) line) - 1" "take (n - 1) line"] in_set_takeD [of _ "n - 1" line]
      by (metis diff_less length_greater_0_conv less_one)
    with False a c have "read_input buffer n (line @ CHR 0x0A # rest) = Ret (?b, drop (n - 1) (line @ CHR 0x0A # rest))"
      by (auto simp: read_input_def fgets_line field_str_def)
    moreover have "length ?b = n" using False a(3,4) by simp
    ultimately show ?thesis using False c by auto
  qed
qed

lemma read_input_reads_line_witness:
  "\<exists>b. read_input (replicate 10 NUL) 10 (''4'' @ CHR 0x0A # ''x'') = Ret (b, ''x'') \<and> cstr b = ''4''"
proof -
  have "NUL \<notin> set ''4'' \<and> CHR 0x0A \<notin> set ''4''" by (simp add: NUL_def)
  then show ?thesis using read_input_reads_line [of "''4''" 10 "replicate 10 NUL" "''x''"] by auto
qed

end
