(* ===== verification/Global_Id.thy ===== *)
theory Global_Id
  imports Id_Table Message
begin

text \<open>
  The table of the server that maps global client identifiers to the process identifier of the
  response handler of their connection (\<^verbatim>\<open>broker/server/global_id.c\<close>, \<^verbatim>\<open>global_id.h\<close>).  The shared
  memory of a server host holds this table.
\<close>

section \<open>State and operations\<close>

abbreviation NO_MTYPE_FOUND_CODE :: int where "NO_MTYPE_FOUND_CODE \<equiv> -2"
abbreviation GLOBAL_IDS_SHM :: int where "GLOBAL_IDS_SHM \<equiv> 8"
abbreviation GLOBAL_IDS_SEM :: int where "GLOBAL_IDS_SEM \<equiv> 10"
abbreviation NEXT_SERVER_GLOBAL_ID :: int where "NEXT_SERVER_GLOBAL_ID \<equiv> 0"

record global_id_t =
  g_mtype :: int
  g_global_id :: int

type_synonym global_ids_t = "global_id_t table"
type_synonym 'm server = "('m, global_ids_t) world"

definition no_globals :: global_ids_t where
  "no_globals = zero_table MAX_CLIENTS \<lparr>g_mtype = 0, g_global_id = 0\<rparr>"

definition global_ids_create :: "('m server, int) prog" where
  "global_ids_create =
     bnd (creasem GLOBAL_IDS_SEM) (\<lambda>sem.
     if sem < 0 then stop (Exit (-1))
     else thn (inisem sem 1) (
     bnd (creashm GLOBAL_IDS_SHM no_globals) (\<lambda>ids_shm.
     if ids_shm < 0 then stop (Exit (-1)) else ret ids_shm)))"

definition global_ids_get :: "('m server, int) prog" where
  "global_ids_get =
     bnd (getshm GLOBAL_IDS_SHM) (\<lambda>ids_shm.
     if ids_shm < 0 then stop (Exit (-1)) else ret ids_shm)"

definition add_global_id :: "int \<Rightarrow> int \<Rightarrow> int \<Rightarrow> ('m server, int) prog" where
  "add_global_id global_ids g m =
     bnd (getsem GLOBAL_IDS_SEM) (\<lambda>sem.
     if sem < 0 then ret (-1)
     else bnd (shm_map global_ids) (\<lambda>addr.
     thn (sem_p sem) (
     bnd (shm_load addr) (\<lambda>ids.
     if count ids \<ge> int MAX_CLIENTS then thn (sem_v sem) (ret (-1))
     else bnd (lift_res (row_push \<lparr>g_mtype = m, g_global_id = g\<rparr> ids)) (\<lambda>ids'.
     thn (shm_store addr ids') (
     thn (sem_v sem) (
     thn (shm_unmap addr) (ret g))))))))"

definition get_mtype :: "int \<Rightarrow> int \<Rightarrow> ('m server, int) prog" where
  "get_mtype global_ids g =
     bnd (getsem GLOBAL_IDS_SEM) (\<lambda>sem.
     if sem < 0 then ret (-1)
     else bnd (shm_map global_ids) (\<lambda>addr.
     thn (sem_p sem) (
     bnd (shm_load addr) (\<lambda>t.
     bnd (lift_res (row_find (\<lambda>r. g_global_id r = g) t)) (\<lambda>pos.
     let found_mtype = (case pos of None \<Rightarrow> -1 | Some i \<Rightarrow> g_mtype (ids t ! i)) in
     thn (sem_v sem) (
     thn (shm_unmap addr) (
     if found_mtype < 0 then ret NO_MTYPE_FOUND_CODE else ret found_mtype)))))))"

definition remove_global_id :: "int \<Rightarrow> int \<Rightarrow> ('m server, int) prog" where
  "remove_global_id global_ids g =
     bnd (getsem GLOBAL_IDS_SEM) (\<lambda>sem.
     if sem < 0 then ret (-1)
     else bnd (shm_map global_ids) (\<lambda>addr.
     thn (sem_p sem) (
     bnd (shm_load addr) (\<lambda>t.
     bnd (lift_res (row_find (\<lambda>r. g_global_id r = g) t)) (\<lambda>pos.
     bnd (case pos of
            None \<Rightarrow> ret (-1)
          | Some i \<Rightarrow> bnd (lift_res (row_del i t)) (\<lambda>t'. thn (shm_store addr t') (ret (int i)))) (\<lambda>pos.
     thn (sem_v sem) (
     thn (shm_unmap addr) (ret pos))))))))"

definition global_ids_destroy :: "int \<Rightarrow> ('m server, int) prog" where
  "global_ids_destroy i =
     bnd (getsem GLOBAL_IDS_SEM) (\<lambda>sem.
     bnd (delsem sem) (\<lambda>r1.
     bnd (delshm i) (\<lambda>r2.
     ret (if r1 < 0 \<or> r2 < 0 then -1 else 0))))"

section \<open>The table is an identifier table\<close>

abbreviation wf_globals :: "global_ids_t \<Rightarrow> bool" where
  "wf_globals \<equiv> wf_table MAX_CLIENTS"

interpretation gtab: id_table wf_globals rows MAX_CLIENTS row_push row_find row_del
  by (rule table_laws)

text \<open>The handler of a client: the type under which its responses are queued.\<close>

definition mtype_of :: "global_ids_t \<Rightarrow> int \<rightharpoonup> int" where
  "mtype_of t g = map_option g_mtype (row_of g_global_id (rows t) g)"

text \<open>
  A server host in service: the semaphore guards the table, nobody is inside, the table is at
  \<open>addr\<close> and well formed; response handlers have positive process identifiers.
\<close>

definition serving :: "'m server \<Rightarrow> int \<Rightarrow> global_ids_t \<Rightarrow> bool" where
  "serving w addr t \<longleftrightarrow> (\<exists>s. guard w GLOBAL_IDS_SEM s 1) \<and> ipc_objs (shms w) addr = Some t
     \<and> wf_globals t \<and> (\<forall>r\<in>set (rows t). 0 < g_mtype r)"

lemma nth_rows: "i < length (rows t) \<Longrightarrow> ids t ! i = rows t ! i"
  by (simp add: rows_def)

lemma index_of_row_of:
  "row_of key rs k = (case index_of (\<lambda>r. key r = k) rs of None \<Rightarrow> None | Some i \<Rightarrow> Some (rs ! i))"
  by (simp add: row_of_def map_option_case)

lemma get_mtype_run:
  assumes "serving w addr t" "env w = []"
  shows "get_mtype addr g w = (Ret (case mtype_of t g of None \<Rightarrow> NO_MTYPE_FOUND_CODE | Some m \<Rightarrow> m), w)"
proof -
  obtain s where s: "guard w GLOBAL_IDS_SEM s 1" and t: "ipc_objs (shms w) addr = Some t" "wf_globals t"
    and pos: "\<forall>r\<in>set (rows t). 0 < g_mtype r"
    using assms(1) by (auto simp: serving_def)
  note g = guardD [OF s]
  show ?thesis
  proof (cases "index_of (\<lambda>r. g_global_id r = g) (rows t)")
    case None
    with g t assms(2) show ?thesis
      by (intro wp_eqI) (simp add: get_mtype_def wp row_find_ok mtype_of_def index_of_row_of Let_def)
  next
    case (Some i)
    then have i: "i < length (rows t)" using index_of_SomeD by fastforce
    then have "\<not> g_mtype (rows t ! i) < 0" using pos by (meson nth_mem less_asym)
    with Some i g t assms(2) show ?thesis
      by (intro wp_eqI) (simp add: get_mtype_def wp row_find_ok mtype_of_def index_of_row_of Let_def nth_rows)
  qed
qed

lemma add_global_id_run:
  assumes "serving w addr t" "env w = []"
  shows "\<exists>t'. add_global_id addr g m w =
      (if count t \<ge> int MAX_CLIENTS then (Ret (-1), w)
       else (Ret g, w\<lparr>shms := ipc_put addr t' (shms w)\<rparr>))
    \<and> (count t < int MAX_CLIENTS \<longrightarrow> wf_globals t' \<and> rows t' = rows t @ [\<lparr>g_mtype = m, g_global_id = g\<rparr>])"
proof -
  obtain s where s: "guard w GLOBAL_IDS_SEM s 1" and t: "ipc_objs (shms w) addr = Some t" "wf_globals t"
    using assms(1) by (auto simp: serving_def)
  note g = guardD [OF s]
  show ?thesis
  proof (cases "count t < int MAX_CLIENTS")
    case True
    then obtain t' where "row_push \<lparr>g_mtype = m, g_global_id = g\<rparr> t = Ret t'" "wf_globals t'"
      "rows t' = rows t @ [\<lparr>g_mtype = m, g_global_id = g\<rparr>]"
      using row_push_ok [OF t(2)] by blast
    with True g t assms(2) show ?thesis
      by (intro exI [of _ t'] conjI wp_eqI) (simp_all add: add_global_id_def wp)
  next
    case False
    with g t assms(2) show ?thesis
      by (intro exI [of _ t] conjI wp_eqI) (simp_all add: add_global_id_def wp)
  qed
qed

lemma remove_global_id_run:
  assumes "serving w addr t" "env w = []"
  shows "\<exists>t'. remove_global_id addr g w =
      (case index_of (\<lambda>r. g_global_id r = g) (rows t) of
         None \<Rightarrow> (Ret (-1), w)
       | Some i \<Rightarrow> (Ret (int i), w\<lparr>shms := ipc_put addr t' (shms w)\<rparr>))
    \<and> (\<forall>i. index_of (\<lambda>r. g_global_id r = g) (rows t) = Some i \<longrightarrow>
          wf_globals t' \<and> rows t' = del_at i (rows t))"
proof -
  obtain s where s: "guard w GLOBAL_IDS_SEM s 1" and t: "ipc_objs (shms w) addr = Some t" "wf_globals t"
    using assms(1) by (auto simp: serving_def)
  note g = guardD [OF s]
  show ?thesis
  proof (cases "index_of (\<lambda>r. g_global_id r = g) (rows t)")
    case None
    with g t assms(2) show ?thesis
      by (intro exI [of _ t] conjI wp_eqI) (simp_all add: remove_global_id_def wp row_find_ok)
  next
    case (Some i)
    then have "i < length (rows t)" using index_of_SomeD by fastforce
    then obtain t' where "row_del i t = Ret t'" "wf_globals t'" "rows t' = del_at i (rows t)"
      using row_del_ok [OF t(2)] by blast
    with Some g t assms(2) show ?thesis
      by (intro exI [of _ t'] conjI wp_eqI) (simp_all add: remove_global_id_def wp row_find_ok)
  qed
qed

section \<open>Under every outcome of the system calls\<close>

text \<open>
  Whatever calls fail, an operation on a table in service is never stuck and never undefined, and
  when it returns to its caller the table is in service again: each return path releases the
  semaphore.
\<close>

definition in_service :: "'m server \<Rightarrow> int \<Rightarrow> bool" where
  "in_service w addr \<longleftrightarrow> (\<exists>t. serving w addr t)"

definition back_in_service :: "'m server \<Rightarrow> int \<Rightarrow> int res \<Rightarrow> 'm server \<Rightarrow> bool" where
  "back_in_service w addr r w' \<longleftrightarrow> r \<noteq> Undef \<and> r \<noteq> Blocked \<and> r \<noteq> Abort
     \<and> ((\<exists>x. r = Ret x) \<longrightarrow> in_service w' addr) \<and> queues w' = queues w \<and> sent w' = sent w"

lemma serving_same:
  "serving w addr t \<Longrightarrow> sems w' = sems w \<Longrightarrow> shms w' = shms w \<Longrightarrow> dirkey w' = dirkey w \<Longrightarrow> in_service w' addr"
  by (auto simp: serving_def guard_def in_service_def)

lemma serving_put:
  "serving w addr t \<Longrightarrow> wf_globals t' \<Longrightarrow> \<forall>r\<in>set (rows t'). 0 < g_mtype r \<Longrightarrow> sems w' = sems w \<Longrightarrow>
   shms w' = ipc_put addr t' (shms w) \<Longrightarrow> dirkey w' = dirkey w \<Longrightarrow> in_service w' addr"
  by (auto simp: serving_def guard_def in_service_def)

lemma get_mtype_safe:
  assumes "serving w addr t"
  shows "wp (get_mtype addr g) (\<lambda>r w'. back_in_service w addr r w'
    \<and> (\<forall>x. r = Ret x \<longrightarrow> x = -1 \<or> x = (case mtype_of t g of None \<Rightarrow> NO_MTYPE_FOUND_CODE | Some m \<Rightarrow> m))) w"
proof -
  obtain s where s: "guard w GLOBAL_IDS_SEM s 1" and t: "ipc_objs (shms w) addr = Some t" "wf_globals t"
    and pos: "\<forall>r\<in>set (rows t). 0 < g_mtype r"
    using assms by (auto simp: serving_def)
  note g = guardD [OF s]
  have res: "(case index_of (\<lambda>r. g_global_id r = g) (rows t) of None \<Rightarrow> -1 | Some i \<Rightarrow> g_mtype (ids t ! i))
      = (case mtype_of t g of None \<Rightarrow> -1 | Some m \<Rightarrow> m)"
    using index_of_SomeD [of "\<lambda>r. g_global_id r = g" "rows t"]
    by (auto simp: mtype_of_def index_of_row_of nth_rows split: option.split)
  have "0 < m" if "mtype_of t g = Some m" for m
    using that pos by (auto simp: mtype_of_def dest: row_of_SomeD)
  then show ?thesis
    using g t
    by (auto intro: serving_same [OF assms] simp: get_mtype_def wp row_find_ok Let_def res back_in_service_def fun_upd_idem split: option.split)
qed

lemma add_global_id_safe:
  assumes "serving w addr t" "0 < m"
  shows "wp (add_global_id addr g m) (back_in_service w addr) w"
proof -
  obtain s where s: "guard w GLOBAL_IDS_SEM s 1" and t: "ipc_objs (shms w) addr = Some t" "wf_globals t"
    and pos: "\<forall>r\<in>set (rows t). 0 < g_mtype r"
    using assms(1) by (auto simp: serving_def)
  note g = guardD [OF s]
  show ?thesis
  proof (cases "count t < int MAX_CLIENTS")
    case True
    then obtain t' where t': "row_push \<lparr>g_mtype = m, g_global_id = g\<rparr> t = Ret t'" "wf_globals t'"
      "rows t' = rows t @ [\<lparr>g_mtype = m, g_global_id = g\<rparr>]"
      using row_push_ok [OF t(2)] by blast
    then have p: "\<forall>r\<in>set (rows t'). 0 < g_mtype r" using pos assms(2) by auto
    show ?thesis
      using True g t t'
      by (auto intro: serving_same [OF assms(1)] serving_put [OF assms(1) t'(2) p] simp: add_global_id_def wp back_in_service_def)
  next
    case False
    then show ?thesis
      using g t by (auto intro: serving_same [OF assms(1)] simp: add_global_id_def wp back_in_service_def)
  qed
qed

lemma remove_global_id_safe:
  assumes "serving w addr t"
  shows "wp (remove_global_id addr g) (back_in_service w addr) w"
proof -
  obtain s where s: "guard w GLOBAL_IDS_SEM s 1" and t: "ipc_objs (shms w) addr = Some t" "wf_globals t"
    and pos: "\<forall>r\<in>set (rows t). 0 < g_mtype r"
    using assms(1) by (auto simp: serving_def)
  note g = guardD [OF s]
  show ?thesis
  proof (cases "index_of (\<lambda>r. g_global_id r = g) (rows t)")
    case None
    then show ?thesis
      using g t by (auto intro: serving_same [OF assms] simp: remove_global_id_def wp row_find_ok back_in_service_def)
  next
    case (Some i)
    then have "i < length (rows t)" using index_of_SomeD by fastforce
    then obtain t' where t': "row_del i t = Ret t'" "wf_globals t'" "rows t' = del_at i (rows t)"
      using row_del_ok [OF t(2)] by blast
    then have p: "\<forall>r\<in>set (rows t'). 0 < g_mtype r" using pos set_del_at_subset by fastforce
    show ?thesis
      using Some g t t'
      by (auto intro: serving_same [OF assms] serving_put [OF assms t'(2) p] simp: remove_global_id_def wp row_find_ok back_in_service_def)
  qed
qed

section \<open>Properties\<close>

lemma global_ids_create_run:
  assumes "env w = []" "wf_base (dirkey w)"
    "free_key (ftok_key (dirkey w) GLOBAL_IDS_SEM) (sems w)" "free_key (ftok_key (dirkey w) GLOBAL_IDS_SHM) (shms w)"
  shows "\<exists>a w'. global_ids_create w = (Ret a, w') \<and> serving w' a no_globals \<and> env w' = []
    \<and> global_ids_get w' = (Ret a, w') \<and> queues w' = queues w"
proof -
  let ?w = "w\<lparr>sems := ipc_put (ipc_next (sems w)) 1 (snd (ipc_create 0 (ftok_key (dirkey w) GLOBAL_IDS_SEM) (sems w))),
      shms := snd (ipc_create no_globals (ftok_key (dirkey w) GLOBAL_IDS_SHM) (shms w))\<rparr>"
  have "global_ids_create w = (Ret (ipc_next (shms w)), ?w)"
    using assms by (intro wp_eqI) (simp add: global_ids_create_def wp ipc_create_def free_key_def)
  moreover have "serving ?w (ipc_next (shms w)) no_globals"
    using assms by (simp add: serving_def guard_def ipc_create_def free_key_def no_globals_def wf_zero_table)
  moreover have "global_ids_get ?w = (Ret (ipc_next (shms w)), ?w)"
    using assms by (intro wp_eqI) (simp add: global_ids_get_def wp ipc_create_def free_key_def ipc_get_def)
  moreover have "env ?w = []" "queues ?w = queues w" using assms(1) by simp_all
  ultimately show ?thesis by blast
qed

lemma started_server: "\<exists>a w. serving (w :: 'm server) a no_globals \<and> env w = []"
  using global_ids_create_run [of "idle_host :: 'm server"] by auto

text \<open>
  Creating the table on a host without one succeeds and puts an empty table in service, which
  every other process finds with \<open>global_ids_get\<close>; a second creation ends the process with -1.
\<close>

theorem global_ids_created_once:
  "env w = [] \<Longrightarrow> wf_base (dirkey w) \<Longrightarrow> free_key (ftok_key (dirkey w) GLOBAL_IDS_SEM) (sems w) \<Longrightarrow>
   free_key (ftok_key (dirkey w) GLOBAL_IDS_SHM) (shms w) \<Longrightarrow>
   \<exists>a w'. global_ids_create w = (Ret a, w') \<and> serving w' a no_globals \<and> global_ids_get w' = (Ret a, w')
     \<and> get_mtype a g w' = (Ret NO_MTYPE_FOUND_CODE, w') \<and> global_ids_create w' = (Exit (-1), w')"
proof -
  assume a: "env w = []" "wf_base (dirkey w)" "free_key (ftok_key (dirkey w) GLOBAL_IDS_SEM) (sems w)"
    "free_key (ftok_key (dirkey w) GLOBAL_IDS_SHM) (shms w)"
  obtain a w' where w': "global_ids_create w = (Ret a, w')" "serving w' a no_globals" "env w' = []"
    "global_ids_get w' = (Ret a, w')"
    using global_ids_create_run [OF a] by blast
  obtain s where s: "guard w' GLOBAL_IDS_SEM s 1" using w'(2) by (auto simp: serving_def)
  have "global_ids_create w' = (Exit (-1), w')"
    using s w'(3) by (intro wp_eqI) (simp add: global_ids_create_def wp guard_def ipc_create_def)
  moreover have "get_mtype a g w' = (Ret NO_MTYPE_FOUND_CODE, w')"
    using get_mtype_run [OF w'(2,3)] by (simp add: mtype_of_def no_globals_def wf_zero_table)
  ultimately show ?thesis using w' by blast
qed

lemma global_ids_created_once_witness:
  "\<exists>a w'. global_ids_create (idle_host :: msg_t server) = (Ret a, w') \<and> global_ids_create w' = (Exit (-1), w')"
  using global_ids_created_once [of "idle_host :: msg_t server" 0] by (simp, blast)

text \<open>
  After \<open>add_global_id\<close> the new client is found under its handler and every other client as
  before; after \<open>remove_global_id\<close> all lookups are as they were before the client came.
\<close>

theorem global_id_added_found_removed:
  "serving w addr t \<Longrightarrow> env w = [] \<Longrightarrow> count t < int MAX_CLIENTS \<Longrightarrow> distinct (map g_global_id (rows t)) \<Longrightarrow>
   g \<notin> g_global_id ` set (rows t) \<Longrightarrow> 0 < m \<Longrightarrow>
   \<exists>w1 w2 pos. add_global_id addr g m w = (Ret g, w1) \<and> in_service w1 addr
     \<and> (\<forall>g'. get_mtype addr g' w1 = (if g' = g then Ret m else fst (get_mtype addr g' w), w1))
     \<and> remove_global_id addr g w1 = (Ret pos, w2) \<and> 0 \<le> pos \<and> in_service w2 addr
     \<and> (\<forall>g'. get_mtype addr g' w2 = (fst (get_mtype addr g' w), w2))"
proof -
  assume s: "serving w addr t" and env: "env w = []" and c: "count t < int MAX_CLIENTS"
    and d: "distinct (map g_global_id (rows t))" and g: "g \<notin> g_global_id ` set (rows t)" and m: "0 < m"
  have pos: "\<forall>r\<in>set (rows t). 0 < g_mtype r" using s by (auto simp: serving_def)
  obtain t1 where t1: "add_global_id addr g m w = (Ret g, w\<lparr>shms := ipc_put addr t1 (shms w)\<rparr>)"
    "wf_globals t1" "rows t1 = rows t @ [\<lparr>g_mtype = m, g_global_id = g\<rparr>]"
    using add_global_id_run [OF s env, of g m] c by auto
  let ?w1 = "w\<lparr>shms := ipc_put addr t1 (shms w)\<rparr>"
  have s1: "serving ?w1 addr t1" using s t1 pos m by (auto simp: serving_def guard_def)
  have v1: "mtype_of t1 = (mtype_of t)(g \<mapsto> m)"
    using g by (auto simp: mtype_of_def t1(3) fun_eq_iff row_of_None_iff dest: row_of_SomeD)
  have i: "index_of (\<lambda>r. g_global_id r = g) (rows t1) = Some (length (rows t))"
    using g by (auto simp: t1(3) index_of_append index_of_None_iff split: option.split dest!: index_of_SomeD)
  obtain t2 where t2: "remove_global_id addr g ?w1 = (Ret (int (length (rows t))), ?w1\<lparr>shms := ipc_put addr t2 (shms ?w1)\<rparr>)"
    "wf_globals t2" "rows t2 = rows t"
    using remove_global_id_run [OF s1, of g] env i by (auto simp: t1(3) del_at_def)
  let ?w2 = "?w1\<lparr>shms := ipc_put addr t2 (shms ?w1)\<rparr>"
  have s2: "serving ?w2 addr t2" using s t2 pos by (auto simp: serving_def guard_def)
  have v2: "mtype_of t2 = mtype_of t" by (simp add: mtype_of_def t2(3) fun_eq_iff)
  have "get_mtype addr g' ?w1 = (if g' = g then Ret m else fst (get_mtype addr g' w), ?w1)" for g'
    using env by (simp add: get_mtype_run [OF s1] get_mtype_run [OF s env] v1)
  moreover have "get_mtype addr g' ?w2 = (fst (get_mtype addr g' w), ?w2)" for g'
    using env get_mtype_run [OF s2, of g'] get_mtype_run [OF s env, of g'] v2 by simp
  ultimately show ?thesis
    using t1(1) t2(1) s1 s2 by (intro exI conjI allI; assumption?) (auto simp: in_service_def)
qed

lemma global_id_added_found_removed_witness:
  "\<exists>(w :: msg_t server) a w1. add_global_id a 4711 123 w = (Ret 4711, w1) \<and> get_mtype a 4711 w1 = (Ret 123, w1)"
proof -
  obtain a and w :: "msg_t server" where w: "serving w a no_globals" "env w = []"
    using started_server by blast
  have r: "rows no_globals = []" "count no_globals < 50" by (simp_all add: no_globals_def rows_def zero_table_def)
  from global_id_added_found_removed [OF w, of 4711 123] r obtain w1 where
    "add_global_id a 4711 123 w = (Ret 4711, w1)"
    "\<forall>g'. get_mtype a g' w1 = (if g' = 4711 then Ret 123 else fst (get_mtype a g' w), w1)"
    by (simp, blast)
  then have "add_global_id a 4711 123 w = (Ret 4711, w1) \<and> get_mtype a 4711 w1 = (Ret 123, w1)" by simp
  then show ?thesis by blast
qed

text \<open>
  C34: Whatever system calls fail, an operation on a table in service neither waits nor has undefined
  behaviour, and when it returns to its caller the semaphore is free and the table well formed again.
\<close>

theorem global_ids_always_released:
  "in_service w addr \<Longrightarrow> 0 < m \<Longrightarrow>
   op \<in> {add_global_id addr g m, get_mtype addr g, remove_global_id addr g} \<Longrightarrow>
   \<exists>r w'. op w = (r, w') \<and> back_in_service w addr r w'"
proof -
  assume "in_service w addr" and m: "0 < m" and op: "op \<in> {add_global_id addr g m, get_mtype addr g, remove_global_id addr g}"
  then obtain t where s: "serving w addr t" by (auto simp: in_service_def)
  have "wp op (back_in_service w addr) w"
    using op add_global_id_safe [OF s m, of g] get_mtype_safe [OF s, of g] remove_global_id_safe [OF s, of g]
    by (auto simp: wp_and)
  then show ?thesis by (cases "op w") (auto simp: wp_def)
qed

lemma global_ids_always_released_witness:
  "\<exists>(w :: msg_t server) a r w'. env w = [Ok, Ok, Ok, Ok, Fail] \<and> remove_global_id a 7 w = (r, w') \<and> back_in_service w a r w'"
proof -
  obtain a and w :: "msg_t server" where "serving w a no_globals"
    using started_server by blast
  then have "in_service (w\<lparr>env := [Ok, Ok, Ok, Ok, Fail]\<rparr>) a" by (auto simp: in_service_def serving_def guard_def)
  from global_ids_always_released [OF this, of 1 "remove_global_id a 7" 7] show ?thesis
    by (intro exI [of _ "w\<lparr>env := [Ok, Ok, Ok, Ok, Fail]\<rparr>"]) auto
qed

end
