(* ===== verification/Vector_DS.thy ===== *)
theory Vector_DS
  imports Prelude
begin

text \<open>
  The growing array of \<^verbatim>\<open>broker/common/ds/implementation/vector.c\<close>.  A cell holds one element;
  \<open>None\<close> is a cell that was allocated and never written.  \<open>malloc\<close> and \<open>realloc\<close> succeed.
  Where the code calls \<open>freeFn\<close>, the model returns the elements it is called on, in order.
\<close>

section \<open>State and operations\<close>

record 'a vector =
  elements :: "'a option list"
  elementSize :: int
  allocatedLength :: int
  logicalLength :: int
  freeFn :: bool

definition vector_grow :: "'a vector \<Rightarrow> 'a vector res" where
  "vector_grow v =
     (let n = allocatedLength v * 2 in
      if n > INT_MAX \<or> elementSize v * n > INT_MAX then Undef
      else Ret (v\<lparr>allocatedLength := n,
                  elements := take (nat n) (elements v) @ replicate (nat n - length (elements v)) None\<rparr>))"

text \<open>Storing into and loading from the cell at an index, as \<open>memcpy\<close> on \<open>vector_address\<close> does.\<close>

definition vector_put :: "'a vector \<Rightarrow> int \<Rightarrow> 'a option \<Rightarrow> 'a vector res" where
  "vector_put v index x =
     (if 0 \<le> index \<and> nat index < length (elements v)
      then Ret (v\<lparr>elements := (elements v)[nat index := x]\<rparr>) else Undef)"

definition vector_cell :: "'a vector \<Rightarrow> int \<Rightarrow> 'a option res" where
  "vector_cell v index =
     (if 0 \<le> index \<and> nat index < length (elements v) then Ret (elements v ! nat index) else Undef)"

definition vector_copy_item :: "'a vector \<Rightarrow> int \<Rightarrow> int \<Rightarrow> 'a vector res" where
  "vector_copy_item v sourceIndex destIndex =
     rbind (vector_cell v sourceIndex) (\<lambda>x. vector_put v destIndex x)"

definition vector_new :: "int \<Rightarrow> bool \<Rightarrow> 'a vector res" where
  "vector_new esize free =
     (if \<not> esize > 0 then Abort
      else vector_grow \<lparr>elements = [], elementSize = esize, allocatedLength = 2,
                        logicalLength = 0, freeFn = free\<rparr>)"

definition vector_size :: "'a vector \<Rightarrow> int" where
  "vector_size v = logicalLength v"

definition vector_destroy :: "'a vector \<Rightarrow> 'a option list" where
  "vector_destroy v = (if freeFn v then take (nat (vector_size v)) (elements v) else [])"

definition vector_add :: "'a vector \<Rightarrow> 'a \<Rightarrow> 'a vector res" where
  "vector_add v x =
     rbind (if allocatedLength v = logicalLength v then vector_grow v else Ret v) (\<lambda>v.
     rbind (vector_put v (logicalLength v) (Some x)) (\<lambda>v.
     Ret (v\<lparr>logicalLength := logicalLength v + 1\<rparr>)))"

definition vector_item_at :: "'a vector \<Rightarrow> int \<Rightarrow> 'a res" where
  "vector_item_at v index =
     (if \<not> (index \<ge> 0 \<and> index < logicalLength v) then Abort
      else rbind (vector_cell v index) (\<lambda>c. case c of None \<Rightarrow> Undef | Some x \<Rightarrow> Ret x))"

text \<open>\<^verbatim>\<open>for (i = logicalLength - 2; i > index; i--)\<close>: returns the vector and the last \<open>i\<close>.\<close>

function vector_open_gap :: "'a vector \<Rightarrow> int \<Rightarrow> int \<Rightarrow> ('a vector \<times> int) res" where
  "vector_open_gap v index i =
     (if i > index then
        rbind (vector_copy_item v i (i + 1)) (\<lambda>v. vector_open_gap v index (i - 1))
      else Ret (v, i))"
  by pat_completeness auto
termination
  by (relation "measure (\<lambda>(v, index, i). nat (i - index))") auto

declare vector_open_gap.simps [simp del]

definition vector_insert_at :: "'a vector \<Rightarrow> int \<Rightarrow> 'a \<Rightarrow> 'a vector res" where
  "vector_insert_at v index target =
     (if \<not> (index \<ge> 0 \<and> index \<le> logicalLength v) then Abort
      else rbind (vector_add v target) (\<lambda>v.
        if index < logicalLength v then
          rbind (vector_open_gap v index (logicalLength v - 2)) (\<lambda>(v, i).
          vector_put v i (Some target))
        else Ret v))"

definition vector_remove_at :: "'a vector \<Rightarrow> int \<Rightarrow> ('a option list \<times> 'a vector) res" where
  "vector_remove_at v index =
     (if \<not> (index \<ge> 0 \<and> index < logicalLength v) then Abort
      else rbind (vector_cell v index) (\<lambda>item.
        rbind (shift (elements v) (logicalLength v) (Suc (nat index))) (\<lambda>es.
        Ret (if freeFn v then [item] else [],
             v\<lparr>elements := es, logicalLength := logicalLength v - 1\<rparr>))))"

section \<open>Representation\<close>

definition vec_holds :: "'a vector \<Rightarrow> 'a list \<Rightarrow> bool" where
  "vec_holds v xs \<longleftrightarrow>
     int (length (elements v)) = allocatedLength v \<and> 0 < allocatedLength v \<and> 0 < elementSize v \<and>
     logicalLength v = int (length xs) \<and> length xs \<le> length (elements v) \<and>
     take (length xs) (elements v) = map Some xs"

text \<open>A vector that only grows never allocates more than twice what it holds.\<close>

definition vec_tight :: "'a vector \<Rightarrow> bool" where
  "vec_tight v \<longleftrightarrow> allocatedLength v \<le> max 4 (2 * logicalLength v)"

definition vec_ints :: "'a vector \<Rightarrow> 'a list \<Rightarrow> bool" where
  "vec_ints v xs \<longleftrightarrow> vec_holds v xs \<and> vec_tight v \<and> elementSize v = 4"

lemma vec_size [simp]: "vec_holds v xs \<Longrightarrow> vector_size v = int (length xs)"
  by (simp add: vec_holds_def vector_size_def)

lemma vec_holds_nth: "vec_holds v xs \<Longrightarrow> i < length xs \<Longrightarrow> elements v ! i = Some (xs ! i)"
  unfolding vec_holds_def by (metis nth_map nth_take)

lemma vector_new_holds:
  assumes "0 < esize" "esize * 4 \<le> INT_MAX"
  shows "\<exists>v. vector_new esize free = Ret v \<and> vec_holds v [] \<and> vec_tight v \<and> elementSize v = esize \<and> freeFn v = free"
  using assms by (simp add: vector_new_def vector_grow_def vec_holds_def vec_tight_def INT_MAX_def)

lemma vector_item_at_holds:
  assumes "vec_holds v xs"
  shows "vector_item_at v i = (if 0 \<le> i \<and> i < int (length xs) then Ret (xs ! nat i) else Abort)"
proof (cases "0 \<le> i \<and> i < int (length xs)")
  case True
  then have "nat i < length xs" by auto
  with assms True show ?thesis
    by (auto simp: vector_item_at_def vector_cell_def vec_holds_def vec_holds_nth [OF assms])
next
  case False
  with assms show ?thesis by (auto simp: vector_item_at_def vec_holds_def)
qed

lemma vector_put_append:
  assumes "vec_holds v xs" "length xs < length (elements v)"
  shows "vec_holds (v\<lparr>elements := (elements v)[length xs := Some x], logicalLength := logicalLength v + 1\<rparr>) (xs @ [x])"
  using assms by (simp add: vec_holds_def take_Suc_conv_app_nth list_update_append)

lemma vector_add_holds:
  assumes "vec_holds v xs" and "elementSize v * (2 * allocatedLength v) \<le> INT_MAX"
  shows "\<exists>v'. vector_add v x = Ret v' \<and> vec_holds v' (xs @ [x]) \<and>
    elementSize v' = elementSize v \<and> freeFn v' = freeFn v \<and>
    allocatedLength v' = (if allocatedLength v = logicalLength v then 2 * allocatedLength v else allocatedLength v)"
proof (cases "allocatedLength v = logicalLength v")
  case True
  have le: "2 * allocatedLength v \<le> elementSize v * (2 * allocatedLength v)"
    using assms(1) mult_right_mono [of 1 "elementSize v" "2 * allocatedLength v"]
    by (auto simp: vec_holds_def)
  obtain v1 where v1: "vector_grow v = Ret v1" "vec_holds v1 xs" "length xs < length (elements v1)"
    "elementSize v1 = elementSize v" "freeFn v1 = freeFn v" "allocatedLength v1 = 2 * allocatedLength v"
    using assms True le by (auto simp: vector_grow_def vec_holds_def Let_def mult.commute)
  with True vector_put_append [OF v1(2,3), of x] show ?thesis
    by (auto simp: vector_add_def vector_put_def vec_holds_def)
next
  case False
  with assms(1) have "length xs < length (elements v)" by (auto simp: vec_holds_def)
  with False vector_put_append [OF assms(1) this, of x] assms(1) show ?thesis
    by (auto simp: vector_add_def vector_put_def vec_holds_def)
qed

lemma vector_add_ints:
  assumes "vec_ints v xs" and "length xs < 134217727"
  shows "\<exists>v'. vector_add v x = Ret v' \<and> vec_ints v' (xs @ [x])"
proof -
  have "elementSize v * (2 * allocatedLength v) \<le> INT_MAX"
    using assms by (auto simp: vec_ints_def vec_tight_def vec_holds_def INT_MAX_def)
  from vector_add_holds [OF _ this, of xs x] assms(1) obtain v' where
    "vector_add v x = Ret v'" "vec_holds v' (xs @ [x])" "elementSize v' = elementSize v"
    "allocatedLength v' = (if allocatedLength v = logicalLength v then 2 * allocatedLength v else allocatedLength v)"
    by (auto simp: vec_ints_def)
  with assms(1) show ?thesis
    by (auto simp: vec_ints_def vec_tight_def vec_holds_def)
qed

lemma vector_remove_at_holds:
  assumes "vec_holds v xs" "0 \<le> i" "i < int (length xs)"
  shows "\<exists>v'. vector_remove_at v i = Ret (if freeFn v then [Some (xs ! nat i)] else [], v')
    \<and> vec_holds v' (del_at (nat i) xs) \<and> freeFn v' = freeFn v"
proof -
  let ?n = "logicalLength v"
  have n: "nat ?n \<le> length (elements v)" "nat i < nat ?n" "nat ?n = length xs"
    using assms by (auto simp: vec_holds_def)
  obtain es where es: "shift (elements v) ?n (Suc (nat i)) = Ret es" "length es = length (elements v)"
    "take (nat ?n - 1) es = del_at (nat i) (take (nat ?n) (elements v))"
    using shift_del_at [OF n(1,2)] by blast
  have "take (length xs - 1) es = map Some (del_at (nat i) xs)"
    using es(3) n assms(1) by (simp add: vec_holds_def map_del_at)
  moreover have "vector_cell v i = Ret (Some (xs ! nat i))"
    using assms n vec_holds_nth [OF assms(1)] by (simp add: vector_cell_def vec_holds_def)
  ultimately show ?thesis
    using assms es n by (auto simp: vector_remove_at_def vec_holds_def)
qed

section \<open>Insertion in the middle\<close>

lemma vector_open_gap_run:
  assumes "int (length (elements v)) = allocatedLength v"
    and "Suc (Suc (k + j)) \<le> length (elements v)"
  shows "vector_open_gap v (int j) (int (k + j)) =
    Ret (v\<lparr>elements := take (j + 2) (elements v) @ take k (drop (Suc j) (elements v)) @ drop (k + j + 2) (elements v)\<rparr>, int j)"
  using assms
proof (induction k arbitrary: v)
  case 0
  then show ?case by (simp add: vector_open_gap.simps)
next
  case (Suc k)
  let ?es = "elements v"
  let ?v1 = "v\<lparr>elements := ?es[k + j + 2 := ?es ! (Suc k + j)]\<rparr>"
  have "vector_copy_item v (int (Suc k + j)) (int (Suc k + j) + 1) = Ret ?v1"
    using Suc.prems by (simp add: vector_copy_item_def vector_cell_def vector_put_def nat_add_distrib)
  then have "vector_open_gap v (int j) (int (Suc k + j)) = vector_open_gap ?v1 (int j) (int (k + j))"
    by (simp add: vector_open_gap.simps [of v])
  also have "\<dots> = Ret (?v1\<lparr>elements := take (j + 2) (elements ?v1) @ take k (drop (Suc j) (elements ?v1))
      @ drop (k + j + 2) (elements ?v1)\<rparr>, int j)"
    using Suc.prems by (intro Suc.IH) auto
  also have "take k (drop (Suc j) (elements ?v1)) @ drop (k + j + 2) (elements ?v1)
      = take (Suc k) (drop (Suc j) ?es) @ drop (Suc k + j + 2) ?es"
  proof -
    have "drop (k + j + 2) (elements ?v1) = ?es ! (Suc k + j) # drop (Suc k + j + 2) ?es"
      using Suc.prems by (subst Cons_nth_drop_Suc [symmetric]) (auto simp: drop_update_cancel)
    moreover have "take k (drop (Suc j) (elements ?v1)) = take k (drop (Suc j) ?es)"
      by (simp add: drop_update_swap take_update_cancel)
    moreover have "take (Suc k) (drop (Suc j) ?es) = take k (drop (Suc j) ?es) @ [?es ! (Suc k + j)]"
      using Suc.prems by (subst take_Suc_conv_app_nth) (auto simp: add.commute)
    ultimately show ?thesis by simp
  qed
  finally show ?case by simp
qed

text \<open>
  What \<open>vector_insert_at\<close> really leaves behind below the end: the loop stops one element early, so
  the element at the index is overwritten and its right neighbour is stored twice.
\<close>

lemma vector_insert_at_inside:
  assumes "vec_holds v xs" "i < length xs" "elementSize v * (2 * allocatedLength v) \<le> INT_MAX"
  shows "\<exists>v'. vector_insert_at v (int i) x = Ret v' \<and>
    vec_holds v' (take i xs @ x # (xs @ [x]) ! Suc i # drop (Suc i) xs)"
proof -
  obtain v1 where add: "vector_add v x = Ret v1" "vec_holds v1 (xs @ [x])"
    using vector_add_holds [OF assms(1,3), of x] by blast
  define k where "k = length xs - Suc i"
  have k: "length xs = Suc (k + i)" using assms(2) by (simp add: k_def)
  have len: "Suc (Suc (k + i)) \<le> length (elements v1)" "int (length (elements v1)) = allocatedLength v1"
    "logicalLength v1 = int (length xs) + 1"
    using add(2) k by (auto simp: vec_holds_def)
  let ?es = "elements v1"
  let ?gap = "take (i + 2) ?es @ take k (drop (Suc i) ?es) @ drop (k + i + 2) ?es"
  have "vector_open_gap v1 (int i) (int (k + i)) = Ret (v1\<lparr>elements := ?gap\<rparr>, int i)"
    using vector_open_gap_run [OF len(2,1)] by simp
  moreover have "logicalLength v1 - 2 = int (k + i)" using len(3) k by simp
  moreover have "int i \<le> logicalLength v" using assms(1,2) by (auto simp: vec_holds_def)
  ultimately have ins: "vector_insert_at v (int i) x = Ret (v1\<lparr>elements := ?gap[i := Some x]\<rparr>)"
    using add(1) len k by (auto simp: vector_insert_at_def vector_put_def)
  have es: "take (length xs + 1) ?es = map Some (xs @ [x])"
    using add(2) by (simp add: vec_holds_def)
  have "take (i + 2) ?es = map Some (take (i + 2) (xs @ [x]))"
    using arg_cong [OF es, of "take (i + 2)"] k by (simp add: take_map [symmetric] min_def del: map_append take_append)
  moreover have "take k (drop (Suc i) ?es) = map Some (drop (Suc i) xs)"
  proof -
    have "take k (drop (Suc i) ?es) = take k (drop (Suc i) (take (length xs + 1) ?es))"
      using k by (simp add: drop_take min_def)
    also have "\<dots> = map Some (drop (Suc i) xs)"
      using k unfolding es by (simp add: drop_map)
    finally show ?thesis .
  qed
  moreover have "take i (xs @ [x]) = take i xs" using k by simp
  then have "take (i + 2) (xs @ [x]) = take i xs @ xs ! i # [(xs @ [x]) ! Suc i]"
    using k by (simp add: take_Suc_conv_app_nth nth_append numeral_2_eq_2 del: take_append)
  ultimately have gap: "?gap = (map Some (take i xs) @ Some (xs ! i) # Some ((xs @ [x]) ! Suc i)
      # map Some (drop (Suc i) xs)) @ drop (k + i + 2) ?es"
    by (simp only: map_append list.map append_assoc append_Cons append_Nil)
  have "take (length xs + 1) (?gap[i := Some x])
      = map Some (take i xs @ x # (xs @ [x]) ! Suc i # drop (Suc i) xs)"
    unfolding gap using k by (simp add: list_update_append)
  with ins add(2) k show ?thesis
    by (intro exI [of _ "v1\<lparr>elements := ?gap[i := Some x]\<rparr>"]) (auto simp: vec_holds_def add.commute)
qed

section \<open>The interface the callers use\<close>

text \<open>
  Callers fill a vector element by element and read it back by index.  \<open>cap\<close> bounds what can be
  stored before the size in bytes leaves \<open>int\<close>.
\<close>

locale seq_buffer =
  fixes add :: "'v \<Rightarrow> 'a \<Rightarrow> 'v res"
    and item_at :: "'v \<Rightarrow> int \<Rightarrow> 'a res"
    and count :: "'v \<Rightarrow> int"
    and holds :: "'v \<Rightarrow> 'a list \<Rightarrow> bool"
    and cap :: nat
  assumes add_holds: "holds v xs \<Longrightarrow> length xs < cap \<Longrightarrow> \<exists>v'. add v x = Ret v' \<and> holds v' (xs @ [x])"
    and item_at_holds: "holds v xs \<Longrightarrow> i < length xs \<Longrightarrow> item_at v (int i) = Ret (xs ! i)"
    and count_holds: "holds v xs \<Longrightarrow> count v = int (length xs)"
begin

lemma add_all_holds:
  "holds v xs \<Longrightarrow> length xs + length ys \<le> cap \<Longrightarrow> \<exists>v'. add_all add ys v = Ret v' \<and> holds v' (xs @ ys)"
proof (induction ys arbitrary: v xs)
  case (Cons y ys)
  then obtain v1 where "add v y = Ret v1" "holds v1 (xs @ [y])"
    using add_holds [of v xs y] by auto
  with Cons.IH [of v1 "xs @ [y]"] Cons.prems(2) show ?case by auto
qed simp

lemma add_all_count:
  assumes "holds v []" "length ys \<le> cap" "add_all add ys v = Ret v'"
  shows "count v' = int (length ys) \<and> (\<forall>i<length ys. item_at v' (int i) = Ret (ys ! i))"
  using add_all_holds [of v "[]" ys] assms count_holds item_at_holds by fastforce

end

interpretation vec: seq_buffer vector_add vector_item_at vector_size vec_ints 134217727
proof unfold_locales
  fix v :: "'a vector" and xs x
  assume "vec_ints v xs" "length xs < 134217727"
  then show "\<exists>v'. vector_add v x = Ret v' \<and> vec_ints v' (xs @ [x])" by (rule vector_add_ints)
next
  fix v :: "'a vector" and xs i
  assume "vec_ints v xs" "i < length xs"
  then show "vector_item_at v (int i) = Ret (xs ! i)"
    using vector_item_at_holds [of v xs "int i"] by (simp add: vec_ints_def)
qed (simp add: vec_ints_def)

lemma vector_new_ints: "\<exists>v. vector_new 4 False = Ret v \<and> vec_ints v []"
  using vector_new_holds [of 4 False] by (auto simp: vec_ints_def INT_MAX_def)

section \<open>Properties\<close>

text \<open>
  A vector of integers that is filled with \<open>vector_add\<close> holds exactly the elements added, in
  order, whatever reallocations happen on the way; every other index is caught by the assertion.
\<close>

theorem vector_collects:
  "length xs \<le> 134217727 \<Longrightarrow>
   \<exists>v0 v. vector_new 4 False = Ret v0 \<and> add_all vector_add xs v0 = Ret v \<and> vector_size v = int (length xs)
     \<and> (\<forall>i. vector_item_at v i = (if 0 \<le> i \<and> i < int (length xs) then Ret (xs ! nat i) else Abort))"
proof -
  assume len: "length xs \<le> 134217727"
  obtain v0 :: "'a vector" where v0: "vector_new 4 False = Ret v0" "vec_ints v0 []"
    using vector_new_ints by blast
  from vec.add_all_holds [OF v0(2), of xs] len
  obtain v where v: "add_all vector_add xs v0 = Ret v" "vec_ints v xs" by auto
  then have "vec_holds v xs" by (simp add: vec_ints_def)
  with v0 v(1) vector_item_at_holds [of v xs] show ?thesis by auto
qed

lemma vector_collects_witness:
  "\<exists>v0 v. vector_new 4 False = Ret v0 \<and> add_all vector_add [7, 8, 9, 10, 11 :: int] v0 = Ret v
     \<and> vector_size v = 5 \<and> vector_item_at v 4 = Ret 11 \<and> vector_item_at v 5 = Abort"
proof -
  from vector_collects [of "[7, 8, 9, 10, 11 :: int]"] obtain v0 v where
    "vector_new 4 False = Ret v0" "add_all vector_add [7, 8, 9, 10, 11 :: int] v0 = Ret v" "vector_size v = 5"
    and at: "\<And>i. vector_item_at v i =
      (if 0 \<le> i \<and> i < int (length [7, 8, 9, 10, 11 :: int]) then Ret ([7, 8, 9, 10, 11] ! nat i) else Abort)"
    by auto
  moreover have "vector_item_at v 4 = Ret 11" "vector_item_at v 5 = Abort"
    using at [of 4] at [of 5] by (simp_all add: eval_nat_numeral)
  ultimately show ?thesis by blast
qed

text \<open>
  Removing the element at a valid index of a vector frees that element once (when the vector
  owns its elements), closes the gap and keeps the order of the others.
\<close>

theorem vector_remove_closes_gap:
  "vec_holds v xs \<Longrightarrow> i < length xs \<Longrightarrow>
   \<exists>v'. vector_remove_at v (int i) = Ret (if freeFn v then [Some (xs ! i)] else [], v')
     \<and> vector_size v' = vector_size v - 1
     \<and> (\<forall>j. vector_item_at v' (int j) =
          (if j < i then Ret (xs ! j) else if Suc j < length xs then Ret (xs ! Suc j) else Abort))"
proof -
  assume h: "vec_holds v xs" and i: "i < length xs"
  obtain v' where v': "vector_remove_at v (int i) = Ret (if freeFn v then [Some (xs ! i)] else [], v')"
    "vec_holds v' (del_at i xs)"
    using vector_remove_at_holds [OF h, of "int i"] i by auto
  have "vector_item_at v' (int j) =
      (if j < i then Ret (xs ! j) else if Suc j < length xs then Ret (xs ! Suc j) else Abort)" for j
    using i by (simp add: vector_item_at_holds [OF v'(2)] del_at_def nth_append min_def)
  with h i v' show ?thesis by (auto simp: of_nat_diff)
qed

lemma vector_remove_closes_gap_witness:
  "\<exists>v'. vector_remove_at \<lparr>elements = [Some 1, Some 2, Some (3::int), None], elementSize = 4,
      allocatedLength = 4, logicalLength = 3, freeFn = True\<rparr> 1 = Ret ([Some 2], v') \<and> vector_size v' = 2
    \<and> vector_item_at v' 0 = Ret 1 \<and> vector_item_at v' 1 = Ret 3 \<and> vector_item_at v' 2 = Abort"
proof -
  let ?v = "\<lparr>elements = [Some 1, Some 2, Some (3::int), None], elementSize = 4,
      allocatedLength = 4, logicalLength = 3, freeFn = True\<rparr>"
  have "vec_holds ?v [1, 2, 3]" by (simp add: vec_holds_def)
  from vector_remove_closes_gap [OF this, of 1] obtain v' where
    v': "vector_remove_at ?v 1 = Ret ([Some 2], v')" "vector_size v' = 2" and
    at: "\<And>j. vector_item_at v' (int j) = (if j < 1 then Ret ([1, 2, 3] ! j)
      else if Suc j < 3 then Ret ([1, 2, 3] ! Suc j) else Abort)"
    by (auto simp: vector_size_def)
  from at [of 0] at [of 1] at [of 2] v' show ?thesis by auto
qed

text \<open>
  \<open>vector_insert_at\<close> below the end of a vector does not shift the element at the index: it is
  overwritten by the new one, and the element after it is stored twice.
\<close>

theorem vector_insert_at_loses_element:
  "vec_holds v (as @ x # y # bs) \<Longrightarrow> elementSize v * (2 * allocatedLength v) \<le> INT_MAX \<Longrightarrow>
   \<exists>v'. vector_insert_at v (int (length as)) z = Ret v' \<and> vec_holds v' (as @ z # y # y # bs)"
  using vector_insert_at_inside [of v "as @ x # y # bs" "length as" z] by (simp add: nth_append)

lemma vector_insert_at_loses_element_witness:
  "\<exists>v'. vector_insert_at \<lparr>elements = [Some 1, Some 2, Some (3::int), None], elementSize = 4,
      allocatedLength = 4, logicalLength = 3, freeFn = False\<rparr> 1 9 = Ret v' \<and> vec_holds v' [1, 9, 3, 3]"
  using vector_insert_at_loses_element [of "\<lparr>elements = [Some 1, Some 2, Some (3::int), None], elementSize = 4,
      allocatedLength = 4, logicalLength = 3, freeFn = False\<rparr>" "[1]" 2 3 "[]" 9]
  by (simp add: vec_holds_def INT_MAX_def)

end
