(* ===== verification/Db.thy ===== *)
theory Db
  imports File_Store Vector_DS Id_Table
begin

text \<open>
  The database (\<^verbatim>\<open>broker/db-server/db.c\<close>): one file per user with the topics the user subscribed
  to, one file per topic with the identifiers of its subscribers, and one semaphore around every
  operation.  The abstract state is a map from users to their topics and one from topics to their
  subscribers, which the operations keep consistent.
\<close>

section \<open>Operations\<close>

abbreviation BASE_DB_DIR :: string where "BASE_DB_DIR \<equiv> ''../db/''"
abbreviation USERS_DIR :: string where "USERS_DIR \<equiv> ''../db/users/''"
abbreviation TOPICS_DIR :: string where "TOPICS_DIR \<equiv> ''../db/topics/''"
abbreviation TMP_FILE :: string where "TMP_FILE \<equiv> ''../db/topics/topic_tmp''"
abbreviation INT_MAX_LENGTH :: nat where "INT_MAX_LENGTH \<equiv> 12"
abbreviation DB_SEM :: int where "DB_SEM \<equiv> 42"

definition create_file :: "string \<Rightarrow> (('m, 's) world, int) prog" where
  "create_file path = bnd (fopen_a path) (\<lambda>file. if file = None then ret (-1) else ret 0)"

definition create_file_if_not_exists :: "string \<Rightarrow> (('m, 's) world, int) prog" where
  "create_file_if_not_exists path =
     bnd (access_ok path) (\<lambda>file_exists. if \<not> file_exists then create_file path else ret 0)"

definition create_dir_if_not_exists :: "string \<Rightarrow> (('m, 's) world, int) prog" where
  "create_dir_if_not_exists dir_path =
     bnd (opendir dir_path) (\<lambda>dir. case dir of
       Inr _ \<Rightarrow> ret 0
     | Inl errno \<Rightarrow>
         if errno = ENOENT then bnd (mkdir dir_path) (\<lambda>r. if r < 0 then ret (-1) else ret 0)
         else ret (-1))"

text \<open>Both functions end without a \<open>return\<close> when they succeed.\<close>

definition create_users_dir_if_not_exists :: "(('m, 's) world, int) prog" where
  "create_users_dir_if_not_exists =
     bnd (create_dir_if_not_exists BASE_DB_DIR) (\<lambda>r. if r < 0 then ret (-1)
     else bnd (create_dir_if_not_exists USERS_DIR) (\<lambda>r. if r < 0 then ret (-1)
     else indeterminate))"

definition create_topics_dir_if_not_exists :: "(('m, 's) world, int) prog" where
  "create_topics_dir_if_not_exists =
     bnd (create_dir_if_not_exists BASE_DB_DIR) (\<lambda>r. if r < 0 then ret (-1)
     else bnd (create_dir_if_not_exists TOPICS_DIR) (\<lambda>r. if r < 0 then ret (-1)
     else indeterminate))"

text \<open>\<^verbatim>\<open>snprintf(id_str, INT_MAX_LENGTH, "%d", id)\<close>\<close>

definition id_str :: "int \<Rightarrow> string" where
  "id_str i = take (INT_MAX_LENGTH - 1) (show_int i)"

definition get_topic_path :: "string \<Rightarrow> string" where
  "get_topic_path tp = TOPICS_DIR @ tp"

definition get_user_path :: "int \<Rightarrow> string" where
  "get_user_path i = USERS_DIR @ id_str i"

definition append_to_fd :: "string list \<Rightarrow> string \<Rightarrow> (('m, 's) world, int) prog" where
  "append_to_fd file str =
     bnd (fputs str file) (\<lambda>r. if r < 0 then ret (-1)
     else bnd (fputs [NL] file) (\<lambda>r. if r < 0 then ret (-1) else ret 0))"

definition append_to_file :: "string \<Rightarrow> string \<Rightarrow> (('m, 's) world, int) prog" where
  "append_to_file path str =
     bnd (fopen_a path) (\<lambda>file. case file of
       None \<Rightarrow> ret (-1)
     | Some file \<Rightarrow> bnd (append_to_fd file str) (\<lambda>r. if r < 0 then ret (-1) else ret 0))"

definition get_next_id :: "(('m, 's) world, int) prog" where
  "get_next_id =
     bnd (opendir USERS_DIR) (\<lambda>dir. case dir of
       Inl _ \<Rightarrow> ret (-1)
     | Inr k \<Rightarrow>
         bnd (gets (\<lambda>w. entries w k)) (\<lambda>es.
         bnd (for_reads (\<lambda>d_name max_id.
                let sub_id = int_of_long (strtol10 d_name) in
                ret (if sub_id > max_id then sub_id else max_id)) (\<lambda>_. False) es 0) (\<lambda>max_id.
         if max_id = INT_MAX then stop Undef else ret (max_id + 1))))"

definition db_add_user :: "(('m, 's) world, int) prog" where
  "db_add_user =
     bnd (getsem DB_SEM) (\<lambda>sem.
     if sem < 0 then ret (-1)
     else thn (sem_p sem) (
     bnd create_users_dir_if_not_exists (\<lambda>r.
     if r < 0 then thn (sem_v sem) (ret (-1))
     else bnd get_next_id (\<lambda>i.
     if i < 0 then thn (sem_v sem) (ret (-1))
     else bnd (create_file (get_user_path i)) (\<lambda>r.
     if r < 0 then thn (sem_v sem) (ret (-1))
     else thn (sem_v sem) (ret i))))))"

definition db_subscribe :: "int \<Rightarrow> string \<Rightarrow> (('m, 's) world, int) prog" where
  "db_subscribe i tp =
     bnd (getsem DB_SEM) (\<lambda>sem.
     if sem < 0 then ret (-1)
     else thn (sem_p sem) (
     bnd create_topics_dir_if_not_exists (\<lambda>r.
     if r < 0 then thn (sem_v sem) (ret (-1))
     else bnd (access_ok (get_user_path i)) (\<lambda>user_exists.
     if \<not> user_exists then thn (sem_v sem) (ret (-1))
     else bnd (create_file_if_not_exists (get_topic_path tp)) (\<lambda>r.
     if r < 0 then thn (sem_v sem) (ret (-1))
     else bnd (append_to_file (get_user_path i) tp) (\<lambda>r.
     if r < 0 then thn (sem_v sem) (ret (-1))
     else bnd (append_to_file (get_topic_path tp) (id_str i)) (\<lambda>r.
     if r < 0 then thn (sem_v sem) (ret (-1))
     else thn (sem_v sem) (ret 0))))))))"

definition db_get_subscribed :: "string \<Rightarrow> int vector \<Rightarrow> (('m, 's) world, int \<times> int vector) prog" where
  "db_get_subscribed tp subscribed =
     bnd (getsem DB_SEM) (\<lambda>sem.
     if sem < 0 then ret (-1, subscribed)
     else thn (sem_p sem) (
     bnd (access_ok (get_topic_path tp)) (\<lambda>topic_exists.
     if \<not> topic_exists then thn (sem_v sem) (ret (0, subscribed))
     else bnd (fopen_r (get_topic_path tp)) (\<lambda>file. case file of
       None \<Rightarrow> thn (sem_v sem) (ret (-1, subscribed))
     | Some k \<Rightarrow>
         bnd (gets (\<lambda>w. lines_of (text_of w k))) (\<lambda>ls.
         bnd (for_reads (\<lambda>line v. lift_res (vector_add v (int_of_long (strtol10 line)))) (\<lambda>_. False)
                ls subscribed) (\<lambda>subscribed.
         thn (sem_v sem) (ret (0, subscribed))))))))"

definition unsubscribe :: "int \<Rightarrow> string \<Rightarrow> (('m, 's) world, int) prog" where
  "unsubscribe i tp =
     bnd (access_ok (get_topic_path tp)) (\<lambda>topic_exists.
     if \<not> topic_exists then ret (-1)
     else bnd (fopen_r (get_topic_path tp)) (\<lambda>file.
     bnd (fopen_w TMP_FILE) (\<lambda>out_file.
     case (file, out_file) of
       (Some k, Some out) \<Rightarrow>
         bnd (gets (\<lambda>w. lines_of (text_of w k))) (\<lambda>ls.
         bnd (for_reads (\<lambda>line failed.
                if int_of_long (strtol10 line) \<noteq> i
                then bnd (append_to_fd out (chomp line)) (\<lambda>r. ret (r < 0))
                else ret False) (\<lambda>failed. failed) ls False) (\<lambda>failed.
         if failed then ret (-1)
         else bnd (rename TMP_FILE (get_topic_path tp)) (\<lambda>r. if r < 0 then ret (-1) else ret 0)))
     | _ \<Rightarrow> ret (-1))))"

definition db_delete :: "int \<Rightarrow> (('m, 's) world, int) prog" where
  "db_delete i =
     bnd (getsem DB_SEM) (\<lambda>sem.
     if sem < 0 then ret (-1)
     else thn (sem_p sem) (
     bnd (access_ok (get_user_path i)) (\<lambda>user_exists.
     if \<not> user_exists then thn (sem_v sem) (ret (-1))
     else bnd (fopen_r (get_user_path i)) (\<lambda>file. case file of
       None \<Rightarrow> thn (sem_v sem) (ret (-1))
     | Some k \<Rightarrow>
         bnd (gets (\<lambda>w. lines_of (text_of w k))) (\<lambda>ls.
         bnd (for_reads (\<lambda>tp failed. bnd (unsubscribe i (chomp tp)) (\<lambda>r. ret (r < 0))) (\<lambda>failed. failed)
                ls False) (\<lambda>failed.
         if failed then thn (sem_v sem) (ret (-1))
         else bnd (unlink (get_user_path i)) (\<lambda>r.
         if r < 0 then thn (sem_v sem) (ret (-1))
         else thn (sem_v sem) (ret 0))))))))"

section \<open>Paths of the database\<close>

abbreviation base_key :: "string list" where "base_key \<equiv> [''..'', ''db'']"
abbreviation users_key :: "string list" where "users_key \<equiv> [''..'', ''db'', ''users'']"
abbreviation topics_key :: "string list" where "topics_key \<equiv> [''..'', ''db'', ''topics'']"

definition user_key :: "int \<Rightarrow> string list" where
  "user_key i = [''..'', ''db'', ''users'', show_int i]"

definition topic_key :: "string \<Rightarrow> string list" where
  "topic_key tp = [''..'', ''db'', ''topics'', tp]"

definition plain :: "string \<Rightarrow> bool" where
  "plain s \<longleftrightarrow> s \<noteq> '''' \<and> s \<noteq> ''.'' \<and> s \<noteq> ''..'' \<and> CHR ''/'' \<notin> set s"

text \<open>The names the database was written for: one line, one component, not the temporary file.\<close>

definition topic_ok :: "string \<Rightarrow> bool" where
  "topic_ok tp \<longleftrightarrow> plain tp \<and> NL \<notin> set tp \<and> NUL \<notin> set tp \<and> tp \<noteq> ''topic_tmp''"

lemma split_slash_plain: "CHR ''/'' \<notin> set s \<Longrightarrow> split_slash s = [s]"
  by (induction s) auto

lemma id_str_show [simp]: "is_int32 i \<Longrightarrow> id_str i = show_int i"
  using length_show_int [of i] by (simp add: id_str_def)

lemma plain_show_int [simp]: "plain (show_int i)"
proof -
  have "CHR ''.'' \<notin> set (show_int i)" "CHR ''/'' \<notin> set (show_int i)"
    using show_int_chars by blast+
  then show ?thesis by (auto simp: plain_def)
qed

definition home :: "('m, 's) world \<Rightarrow> bool" where
  "home w \<longleftrightarrow> is_dir w [] \<and> is_dir w [''..'']"

lemma resolve_base:
  "home w \<Longrightarrow> resolve w BASE_DB_DIR =
     (if is_dir w base_key then Inr base_key else Inl (if file_at w base_key = None then ENOENT else ENOTDIR))"
  by (simp add: resolve_def home_def go_up_def)

lemma resolve_users:
  "home w \<Longrightarrow> is_dir w base_key \<Longrightarrow> resolve w USERS_DIR =
     (if is_dir w users_key then Inr users_key else Inl (if file_at w users_key = None then ENOENT else ENOTDIR))"
  by (simp add: resolve_def home_def go_up_def)

lemma resolve_topics:
  "home w \<Longrightarrow> is_dir w base_key \<Longrightarrow> resolve w TOPICS_DIR =
     (if is_dir w topics_key then Inr topics_key else Inl (if file_at w topics_key = None then ENOENT else ENOTDIR))"
  by (simp add: resolve_def home_def go_up_def)

lemma resolve_user:
  "home w \<Longrightarrow> is_dir w base_key \<Longrightarrow> is_dir w users_key \<Longrightarrow> is_int32 i \<Longrightarrow>
   resolve w (get_user_path i) = Inr (user_key i)"
  using plain_show_int [of i]
  by (simp add: resolve_def home_def go_up_def get_user_path_def user_key_def plain_def split_slash_plain)

lemma resolve_topic:
  "home w \<Longrightarrow> is_dir w base_key \<Longrightarrow> is_dir w topics_key \<Longrightarrow> plain tp \<Longrightarrow>
   resolve w (get_topic_path tp) = Inr (topic_key tp)"
  by (simp add: resolve_def home_def go_up_def get_topic_path_def topic_key_def plain_def split_slash_plain)

lemma resolve_tmp:
  "home w \<Longrightarrow> is_dir w base_key \<Longrightarrow> is_dir w topics_key \<Longrightarrow> resolve w TMP_FILE = Inr (topic_key ''topic_tmp'')"
  by (simp add: resolve_def home_def go_up_def topic_key_def)

lemma key_eqs [simp]:
  "is_int32 i \<Longrightarrow> is_int32 j \<Longrightarrow> user_key i = user_key j \<longleftrightarrow> i = j"
  "topic_key a = topic_key b \<longleftrightarrow> a = b" "user_key i \<noteq> topic_key a" "topic_key a \<noteq> user_key i"
  by (simp_all add: user_key_def topic_key_def show_int_inj)

section \<open>The abstract database\<close>

text \<open>
  \<open>db_ok w U T\<close>: the files of \<open>w\<close> store the users \<open>U\<close> (the topics of each, one line per
  subscription) and the topics \<open>T\<close> (the subscribers of each, in the order of subscription).
\<close>

type_synonym users = "int \<rightharpoonup> string list"
type_synonym topics = "string \<rightharpoonup> int list"

definition db_dirs :: "('m, 's) world \<Rightarrow> topics \<Rightarrow> bool" where
  "db_dirs w T \<longleftrightarrow> home w \<and> is_dir w base_key \<and> is_dir w users_key \<and> (is_dir w topics_key \<or> T = Map.empty)
     \<and> file_at w topics_key = None \<and> (\<forall>k. is_dir w k \<longrightarrow> butlast k \<noteq> users_key \<and> butlast k \<noteq> topics_key)"

definition db_files :: "('m, 's) world \<Rightarrow> users \<Rightarrow> topics \<Rightarrow> bool" where
  "db_files w U T \<longleftrightarrow>
     (\<forall>s. file_at w (users_key @ [s]) \<noteq> None \<longrightarrow> (\<exists>i. U i \<noteq> None \<and> s = show_int i))
     \<and> (\<forall>i. is_int32 i \<longrightarrow> file_at w (user_key i) = map_option unlines (U i))
     \<and> (\<forall>tp. topic_ok tp \<longrightarrow> file_at w (topic_key tp) = map_option (\<lambda>l. unlines (map show_int l)) (T tp))"

definition db_values :: "users \<Rightarrow> topics \<Rightarrow> bool" where
  "db_values U T \<longleftrightarrow>
     (\<forall>i ts. U i = Some ts \<longrightarrow> 0 < i \<and> is_int32 i \<and> (\<forall>tp\<in>set ts. topic_ok tp \<and> T tp \<noteq> None))
     \<and> (\<forall>tp l. T tp = Some l \<longrightarrow> topic_ok tp \<and> (\<forall>i\<in>set l. is_int32 i))"

definition db_ok :: "('m, 's) world \<Rightarrow> users \<Rightarrow> topics \<Rightarrow> bool" where
  "db_ok w U T \<longleftrightarrow> db_dirs w T \<and> db_files w U T \<and> db_values U T"

text \<open>Users and topics agree on who is subscribed to what.\<close>

definition subscriptions :: "users \<Rightarrow> int \<Rightarrow> string list" where
  "subscriptions U i = (case U i of None \<Rightarrow> [] | Some ts \<Rightarrow> ts)"

definition subscribers :: "topics \<Rightarrow> string \<Rightarrow> int list" where
  "subscribers T tp = (case T tp of None \<Rightarrow> [] | Some l \<Rightarrow> l)"

definition db_linked :: "users \<Rightarrow> topics \<Rightarrow> bool" where
  "db_linked U T \<longleftrightarrow> (\<forall>i tp. i \<in> set (subscribers T tp) \<longleftrightarrow> tp \<in> set (subscriptions U i))"

definition same_but_fs :: "('m, 's) world \<Rightarrow> ('m, 's) world \<Rightarrow> bool" where
  "same_but_fs w w' \<longleftrightarrow> (\<exists>fs ds. w' = w\<lparr>files := fs, dirs := ds\<rparr>)"

lemma subscribers_simps [simp]:
  "subscribers (T(tp \<mapsto> l)) tp' = (if tp' = tp then l else subscribers T tp')"
  "subscriptions (U(i \<mapsto> ts)) j = (if j = i then ts else subscriptions U j)"
  "subscriptions (U(i := None)) j = (if j = i then [] else subscriptions U j)"
  "T tp = Some l \<Longrightarrow> subscribers T tp = l" "T tp = None \<Longrightarrow> subscribers T tp = []"
  "U i = Some ts \<Longrightarrow> subscriptions U i = ts" "U i = None \<Longrightarrow> subscriptions U i = []"
  by (auto simp: subscribers_def subscriptions_def)

lemma db_ok_sems [simp]: "db_ok (w\<lparr>sems := t\<rparr>) = db_ok w"
  by (simp add: fun_eq_iff db_ok_def db_dirs_def db_files_def home_def)

lemma db_ok_env [simp]: "db_ok (w\<lparr>env := e\<rparr>) = db_ok w"
  by (simp add: fun_eq_iff db_ok_def db_dirs_def db_files_def home_def)

lemma same_but_fs_refl [simp]: "same_but_fs w w"
  unfolding same_but_fs_def by (intro exI [of _ "files w"] exI [of _ "dirs w"]) simp

lemma same_but_fs_trans: "same_but_fs a b \<Longrightarrow> same_but_fs b c \<Longrightarrow> same_but_fs a c"
  unfolding same_but_fs_def by (elim exE, hypsubst) (auto intro: exI)

lemma same_but_fs_put_file [simp]: "same_but_fs w (put_file k c w)"
  unfolding same_but_fs_def put_file_def by (intro exI [of _ "AList.update k c (files w)"] exI [of _ "dirs w"]) simp

lemma same_but_fs_put_file2 [simp]: "same_but_fs w w' \<Longrightarrow> same_but_fs w (put_file k c w')"
  using same_but_fs_trans same_but_fs_put_file by blast

lemma same_but_fsD:
  assumes "same_but_fs w w'"
  shows "env w' = env w" "sems w' = sems w" "shms w' = shms w" "queues w' = queues w" "dirkey w' = dirkey w"
    "sent w' = sent w" "got w' = got w" "peer w' = peer w"
  using assms by (auto simp: same_but_fs_def)

lemma bnd_run: "m w = (Ret x, w') \<Longrightarrow> bnd m f w = f x w'"
  by (simp add: bnd_def)

section \<open>What each step does when no call fails\<close>

lemma create_dir_there:
  "env w = [] \<Longrightarrow> resolve w path = Inr k \<Longrightarrow> is_dir w k \<Longrightarrow> wp (create_dir_if_not_exists path) Q w = Q (Ret 0) w"
  by (simp add: create_dir_if_not_exists_def wp)

lemma create_dir_new:
  "env w = [] \<Longrightarrow> resolve w path = Inl ENOENT \<Longrightarrow> resolve w (rev (dropWhile (\<lambda>c. c = CHR ''/'') (rev path))) = Inr k \<Longrightarrow>
   \<not> is_dir w k \<Longrightarrow> file_at w k = None \<Longrightarrow>
   wp (create_dir_if_not_exists path) Q w = Q (Ret 0) (w\<lparr>dirs := k # dirs w\<rparr>)"
  by (simp add: create_dir_if_not_exists_def wp)

lemma create_users_dir_run:
  assumes "env w = []" "db_dirs w T"
  shows "create_users_dir_if_not_exists w = (Ret 0, w)"
proof -
  have "home w" "is_dir w base_key" "is_dir w users_key" using assms(2) by (simp_all add: db_dirs_def)
  then have "wp (create_dir_if_not_exists BASE_DB_DIR) Q w = Q (Ret 0) w"
      "wp (create_dir_if_not_exists USERS_DIR) Q w = Q (Ret 0) w" for Q
    using create_dir_there [OF assms(1), of BASE_DB_DIR base_key Q] create_dir_there [OF assms(1), of USERS_DIR users_key Q]
    by (simp_all add: resolve_base resolve_users)
  then show ?thesis
    using assms(1) by (intro wp_eqI) (simp add: create_users_dir_if_not_exists_def wp_indeterminate)
qed

lemma create_topics_dir_run:
  assumes "env w = []" "db_ok w U T"
  shows "\<exists>w'. create_topics_dir_if_not_exists w = (Ret 0, w') \<and> db_ok w' U T \<and> is_dir w' topics_key
    \<and> same_but_fs w w'"
proof -
  have d: "home w" "is_dir w base_key" "file_at w topics_key = None" using assms(2) by (simp_all add: db_ok_def db_dirs_def)
  have base: "wp (create_dir_if_not_exists BASE_DB_DIR) Q w = Q (Ret 0) w" for Q
    using create_dir_there [OF assms(1), of BASE_DB_DIR base_key Q] d by (simp add: resolve_base)
  show ?thesis
  proof (cases "is_dir w topics_key")
    case True
    then have "wp (create_dir_if_not_exists TOPICS_DIR) Q w = Q (Ret 0) w" for Q
      using create_dir_there [OF assms(1), of TOPICS_DIR topics_key Q] d by (simp add: resolve_topics)
    with assms base have "create_topics_dir_if_not_exists w = (Ret 0, w)"
      by (intro wp_eqI) (simp add: create_topics_dir_if_not_exists_def wp_indeterminate)
    with assms True show ?thesis by (intro exI [of _ w]) simp
  next
    case False
    let ?w = "w\<lparr>dirs := topics_key # dirs w\<rparr>"
    have "resolve w ''../db/topics'' = Inr topics_key"
      using d by (simp add: resolve_def home_def go_up_def)
    then have "wp (create_dir_if_not_exists TOPICS_DIR) Q w = Q (Ret 0) ?w" for Q
      using create_dir_new [OF assms(1), of TOPICS_DIR topics_key Q] d False by (simp add: resolve_topics)
    with assms base have run: "create_topics_dir_if_not_exists w = (Ret 0, ?w)"
      by (intro wp_eqI) (simp add: create_topics_dir_if_not_exists_def wp_indeterminate)
    have dir: "is_dir ?w k \<longleftrightarrow> k = topics_key \<or> is_dir w k" for k by (simp add: is_dir_def)
    then have "db_ok ?w U T"
      using assms(2) by (auto simp: db_ok_def db_dirs_def db_files_def home_def)
    moreover have "same_but_fs w ?w"
      unfolding same_but_fs_def by (intro exI [of _ "files w"] exI [of _ "topics_key # dirs w"]) simp
    ultimately show ?thesis using run dir by blast
  qed
qed

lemma key_butlast [simp]: "butlast (user_key i) = users_key" "butlast (topic_key tp) = topics_key"
  by (simp_all add: user_key_def topic_key_def)

lemma no_dir:
  assumes "db_ok w U T"
  shows "\<not> is_dir w (user_key i)" "\<not> is_dir w (topic_key tp)"
  using assms key_butlast unfolding db_ok_def db_dirs_def by metis+

lemma db_files_user:
  "db_ok w U T \<Longrightarrow> is_int32 i \<Longrightarrow> resolve w (get_user_path i) = Inr (user_key i)
    \<and> \<not> is_dir w (user_key i) \<and> file_at w (user_key i) = map_option unlines (U i)"
  using no_dir [of w U T] by (simp add: db_ok_def db_dirs_def db_files_def resolve_user)

lemma db_files_topic:
  "db_ok w U T \<Longrightarrow> topic_ok tp \<Longrightarrow> is_dir w topics_key \<Longrightarrow> resolve w (get_topic_path tp) = Inr (topic_key tp)
    \<and> \<not> is_dir w (topic_key tp) \<and> file_at w (topic_key tp) = map_option (\<lambda>l. unlines (map show_int l)) (T tp)"
  using no_dir [of w U T] by (simp add: db_ok_def db_dirs_def db_files_def resolve_topic topic_ok_def)

lemma fold_max: "fold (\<lambda>e m :: int. if f e > m then f e else m) es a = Max (insert a (f ` set es))"
proof (induction es arbitrary: a)
  case (Cons e es)
  have "Max (insert (if f e > a then f e else a) (f ` set es)) = Max (insert a (insert (f e) (f ` set es)))"
    by (cases "f ` set es = {}") (auto simp: max_def)
  with Cons show ?case by simp
qed simp

lemma finite_users: "db_ok w U T \<Longrightarrow> finite (dom U)"
proof -
  assume ok: "db_ok w U T"
  have "user_key ` dom U \<subseteq> fst ` set (files w)"
  proof
    fix k
    assume "k \<in> user_key ` dom U"
    then obtain i ts where i: "k = user_key i" "U i = Some ts" by auto
    with ok have "is_int32 i" by (simp add: db_ok_def db_values_def)
    with ok i show "k \<in> fst ` set (files w)" by (simp add: set_fst_files db_files_user)
  qed
  then have "finite (user_key ` dom U)" using finite_subset by blast
  moreover have "inj_on user_key (dom U)"
    using ok by (auto simp: inj_on_def db_ok_def db_values_def)
  ultimately show ?thesis using finite_imageD by blast
qed

lemma entries_users:
  assumes "db_ok w U T"
  shows "set (entries w users_key) = {''.'', ''..''} \<union> show_int ` dom U"
proof -
  have "k \<in> set (dirs w) \<Longrightarrow> k = [] \<or> butlast k \<noteq> users_key" for k
    using assms by (auto simp: db_ok_def db_dirs_def is_dir_def)
  then have "set (entries w users_key) = {''.'', ''..''} \<union> last ` {p \<in> fst ` set (files w). p \<noteq> [] \<and> butlast p = users_key}"
    by (auto simp: entries_def)
  also have "last ` {p \<in> fst ` set (files w). p \<noteq> [] \<and> butlast p = users_key} = {s. file_at w (users_key @ [s]) \<noteq> None}"
  proof (intro equalityI subsetI)
    fix s
    assume "s \<in> last ` {p \<in> fst ` set (files w). p \<noteq> [] \<and> butlast p = users_key}"
    then obtain p where "p \<in> fst ` set (files w)" "p \<noteq> []" "butlast p = users_key" "s = last p" by blast
    then show "s \<in> {s. file_at w (users_key @ [s]) \<noteq> None}"
      using append_butlast_last_id [of p] set_fst_files [of p w] by simp
  next
    fix s
    assume "s \<in> {s. file_at w (users_key @ [s]) \<noteq> None}"
    then have "users_key @ [s] \<in> {p \<in> fst ` set (files w). p \<noteq> [] \<and> butlast p = users_key}"
      by (simp add: set_fst_files)
    then show "s \<in> last ` {p \<in> fst ` set (files w). p \<noteq> [] \<and> butlast p = users_key}"
      by (rule rev_image_eqI) simp
  qed
  also have "{s. file_at w (users_key @ [s]) \<noteq> None} = show_int ` dom U"
  proof (intro equalityI subsetI)
    fix s
    assume "s \<in> show_int ` dom U"
    then obtain i ts where "s = show_int i" "U i = Some ts" by auto
    moreover from this assms have "is_int32 i" by (simp add: db_ok_def db_values_def)
    ultimately show "s \<in> {s. file_at w (users_key @ [s]) \<noteq> None}"
      using db_files_user [OF assms, of i] by (simp add: user_key_def)
  qed (use assms in \<open>auto simp: db_ok_def db_files_def image_iff dom_def\<close>)
  finally show ?thesis .
qed

definition next_id :: "users \<Rightarrow> int" where
  "next_id U = 1 + Max (insert 0 (dom U))"

lemma get_next_id_run:
  assumes "env w = []" "db_ok w U T" "U INT_MAX = None"
  shows "get_next_id w = (Ret (next_id U), w)"
proof -
  let ?f = "\<lambda>e. int_of_long (strtol10 e)"
  let ?es = "entries w users_key"
  have "for_reads (\<lambda>d_name max_id. let sub_id = int_of_long (strtol10 d_name) in
       ret (if sub_id > max_id then sub_id else max_id)) (\<lambda>_. False) ?es 0 w
     = (Ret (fold (\<lambda>e m. if ?f e > m then ?f e else m) ?es 0), w)"
    using assms(1) by (intro for_reads_fold) (simp_all add: ret_def Let_def)
  moreover have "?f ` set ?es = insert 0 (dom U)"
  proof -
    have "?f ''.'' = 0" "?f ''..'' = 0" by (simp_all add: strtol10_def is_space_def is_digit_def int_of_long_def)
    moreover have "?f (show_int i) = i" if "i \<in> dom U" for i
      using that assms(2) by (auto simp: strtol10_line db_ok_def db_values_def)
    ultimately show ?thesis by (simp add: entries_users [OF assms(2)] image_Un image_image)
  qed
  ultimately have "for_reads (\<lambda>d_name max_id. let sub_id = int_of_long (strtol10 d_name) in
       ret (if sub_id > max_id then sub_id else max_id)) (\<lambda>_. False) ?es 0 w = (Ret (Max (insert 0 (dom U))), w)"
    by (simp add: fold_max)
  then have loop: "wp (for_reads (\<lambda>d_name max_id. let sub_id = int_of_long (strtol10 d_name) in
       ret (if sub_id > max_id then sub_id else max_id)) (\<lambda>_. False) ?es 0) Q w = Q (Ret (Max (insert 0 (dom U)))) w" for Q
    by (simp add: wp_def)
  have "Max (insert 0 (dom U)) \<in> insert 0 (dom U)" using finite_users [OF assms(2)] by (intro Max_in) auto
  then have "Max (insert 0 (dom U)) \<noteq> INT_MAX" using assms(3) by (auto simp: INT_MAX_def)
  moreover have "resolve w USERS_DIR = Inr users_key" "is_dir w users_key"
    using assms(2) by (simp_all add: db_ok_def db_dirs_def resolve_users)
  ultimately show ?thesis
    using assms(1) by (intro wp_eqI) (simp add: get_next_id_def wp loop next_id_def)
qed

section \<open>Changing one file\<close>

lemma put_file_twice [simp]: "put_file k c (put_file k c' w) = put_file k c w"
  by (simp add: put_file_def update_last)

lemma db_ok_put_user:
  assumes "db_ok w U T" "0 < i" "is_int32 i" "\<forall>tp\<in>set ts. topic_ok tp \<and> T tp \<noteq> None"
  shows "db_ok (put_file (user_key i) (unlines ts) w) (U(i \<mapsto> ts)) T"
proof -
  have k: "user_key i \<noteq> topics_key" "users_key @ [s] = user_key i \<longleftrightarrow> s = show_int i" for s
    by (auto simp: user_key_def)
  have "\<exists>j. (U(i \<mapsto> ts)) j \<noteq> None \<and> x = show_int j" if "file_at (put_file (user_key i) (unlines ts) w) (users_key @ [x]) \<noteq> None" for x
  proof (cases "x = show_int i")
    case False
    with that k(2) have "file_at w (users_key @ [x]) \<noteq> None" by simp
    then obtain j where "U j \<noteq> None" "x = show_int j"
      using assms(1) unfolding db_ok_def db_files_def by blast
    then show ?thesis by (intro exI [of _ j]) simp
  qed auto
  then have "db_files (put_file (user_key i) (unlines ts) w) (U(i \<mapsto> ts)) T"
    using assms by (auto simp: db_ok_def db_files_def)
  moreover have "db_dirs (put_file (user_key i) (unlines ts) w) T" "db_values (U(i \<mapsto> ts)) T"
    using assms k(1) by (auto simp: db_ok_def db_dirs_def db_values_def home_def)
  ultimately show ?thesis by (simp add: db_ok_def)
qed

lemma db_ok_put_topic:
  assumes "db_ok w U T" "is_dir w topics_key" "topic_ok tp" "\<forall>i\<in>set l. is_int32 i"
  shows "db_ok (put_file (topic_key tp) (unlines (map show_int l)) w) U (T(tp \<mapsto> l))"
proof -
  have k: "topic_key tp \<noteq> topics_key" "users_key @ [s] \<noteq> topic_key tp" for s
    by (auto simp: topic_key_def)
  show ?thesis
    using assms k by (auto simp: db_ok_def db_dirs_def db_files_def db_values_def home_def)
qed

lemma create_file_new_run:
  "env w = [] \<Longrightarrow> resolve w path = Inr k \<Longrightarrow> \<not> is_dir w k \<Longrightarrow> file_at w k = None \<Longrightarrow>
   create_file path w = (Ret 0, put_file k [] w)"
  by (intro wp_eqI) (simp add: create_file_def wp)

lemma create_file_if_not_exists_run:
  "env w = [] \<Longrightarrow> resolve w path = Inr k \<Longrightarrow> \<not> is_dir w k \<Longrightarrow>
   create_file_if_not_exists path w = (Ret 0, if file_at w k = None then put_file k [] w else w)"
  by (intro wp_eqI) (auto simp: create_file_if_not_exists_def create_file_def wp)

lemma append_to_fd_run:
  "env w = [] \<Longrightarrow> file_at w k = Some c \<Longrightarrow> append_to_fd k str w = (Ret 0, put_file k (c @ str @ [NL]) w)"
  by (intro wp_eqI) (simp add: append_to_fd_def wp text_of_def)

lemma append_to_file_run:
  "env w = [] \<Longrightarrow> resolve w path = Inr k \<Longrightarrow> \<not> is_dir w k \<Longrightarrow> file_at w k = Some c \<Longrightarrow>
   append_to_file path str w = (Ret 0, put_file k (c @ str @ [NL]) w)"
  by (intro wp_eqI) (simp add: append_to_file_def append_to_fd_def wp text_of_def)

section \<open>The semaphore around an operation\<close>

abbreviation locked :: "int \<Rightarrow> ('m, 's) world \<Rightarrow> ('m, 's) world" where
  "locked s w \<equiv> w\<lparr>sems := ipc_put s 0 (sems w)\<rparr>"

lemma db_enter:
  assumes "guard w DB_SEM s 1" "env w = []"
  shows "bnd (getsem DB_SEM) (\<lambda>sem. if sem < 0 then e else thn (sem_p sem) (B sem)) w = B s (locked s w)"
proof -
  note g = guardD [OF assms(1)]
  have "getsem DB_SEM w = (Ret s, w)" using g assms(2) by (intro wp_eqI) (simp add: wp)
  moreover have "sem_p s w = (Ret 1, locked s w)" using g assms(2) by (intro wp_eqI) (simp add: wp)
  ultimately show ?thesis using g by (simp add: bnd_def)
qed

lemma db_leave:
  assumes "guard w DB_SEM s 1" "env w = []" "same_but_fs (locked s w) w'"
  shows "thn (sem_v s) (ret x) w' = (Ret x, w'\<lparr>sems := sems w\<rparr>)"
    and "same_but_fs w (w'\<lparr>sems := sems w\<rparr>)"
proof -
  note g = guardD [OF assms(1)]
  note m = same_but_fsD [OF assms(3)]
  have "ipc_put s 1 (sems w) = sems w" using g by simp
  with g m assms(2) show "thn (sem_v s) (ret x) w' = (Ret x, w'\<lparr>sems := sems w\<rparr>)"
    by (intro wp_eqI) (simp add: wp)
  obtain fs ds where "w' = (locked s w)\<lparr>files := fs, dirs := ds\<rparr>" using assms(3) by (auto simp: same_but_fs_def)
  then show "same_but_fs w (w'\<lparr>sems := sems w\<rparr>)"
    unfolding same_but_fs_def by (intro exI [of _ fs] exI [of _ ds]) simp
qed

section \<open>The operations when no call fails\<close>

lemma next_id_fresh:
  assumes "db_ok w U T" "U INT_MAX = None"
  shows "0 < next_id U" "is_int32 (next_id U)" "U (next_id U) = None" "\<forall>i\<in>dom U. i < next_id U"
proof -
  have fin: "finite (insert 0 (dom U))" using finite_users [OF assms(1)] by simp
  have le: "\<forall>i\<in>insert 0 (dom U). i < next_id U"
  proof
    fix i
    assume "i \<in> insert 0 (dom U)"
    from Max_ge [OF fin this] show "i < next_id U" by (simp add: next_id_def)
  qed
  then show "0 < next_id U" "\<forall>i\<in>dom U. i < next_id U" by auto
  from le show "U (next_id U) = None" by (cases "U (next_id U)") auto
  have "Max (insert 0 (dom U)) \<in> insert 0 (dom U)" using fin by (intro Max_in) auto
  then have "is_int32 (Max (insert 0 (dom U))) \<and> Max (insert 0 (dom U)) \<noteq> INT_MAX"
    using assms by (auto simp: db_ok_def db_values_def INT_MAX_def is_int32_def)
  with \<open>0 < next_id U\<close> show "is_int32 (next_id U)"
    by (auto simp: is_int32_def INT_MAX_def next_id_def)
qed

lemma db_add_user_run:
  assumes "guard w DB_SEM s 1" "env w = []" "db_ok w U T" "U INT_MAX = None"
  shows "\<exists>w'. db_add_user w = (Ret (next_id U), w') \<and> db_ok w' (U(next_id U \<mapsto> [])) T \<and> same_but_fs w w'"
proof -
  let ?w = "locked s w" let ?i = "next_id U"
  have l: "env ?w = []" "db_ok ?w U T" "db_dirs ?w T" using assms(2,3) by (simp_all add: db_ok_def db_dirs_def home_def)
  note i = next_id_fresh [OF assms(3,4)]
  note u = db_files_user [OF l(2) i(2)]
  let ?w1 = "put_file (user_key ?i) [] ?w"
  have ok: "db_ok ?w1 (U(?i \<mapsto> [])) T"
    using db_ok_put_user [OF l(2) i(1,2), of "[]"] by simp
  have "create_file (get_user_path ?i) ?w = (Ret 0, ?w1)"
    using l(1) u i(3) by (intro create_file_new_run) auto
  then have "db_add_user w = thn (sem_v s) (ret ?i) ?w1"
    using i(1) by (simp add: db_add_user_def db_enter [OF assms(1,2)] create_users_dir_run [OF l(1,3)] bnd_run
        get_next_id_run [OF l(1,2) assms(4)])
  moreover have "same_but_fs ?w ?w1" by simp
  note db_leave [OF assms(1,2) this]
  ultimately show ?thesis using ok by (metis db_ok_sems)
qed

lemma db_subscribe_run:
  assumes "guard w DB_SEM s 1" "env w = []" "db_ok w U T" "topic_ok tp" "is_int32 i"
  shows "\<exists>w'. db_subscribe i tp w = (Ret (if U i = None then -1 else 0), w') \<and> same_but_fs w w'
    \<and> db_ok w' (case U i of None \<Rightarrow> U | Some ts \<Rightarrow> U(i \<mapsto> ts @ [tp]))
        (if U i = None then T else T(tp \<mapsto> subscribers T tp @ [i]))"
proof -
  let ?w = "locked s w"
  have l: "env ?w = []" "db_ok ?w U T" using assms(2,3) by simp_all
  obtain w1 where w1: "create_topics_dir_if_not_exists ?w = (Ret 0, w1)" "db_ok w1 U T" "is_dir w1 topics_key"
    "same_but_fs ?w w1"
    using create_topics_dir_run [OF l] by blast
  then have e1: "env w1 = []" using l(1) by (simp add: same_but_fsD)
  note u = db_files_user [OF w1(2) assms(5)]
  note t = db_files_topic [OF w1(2) assms(4) w1(3)]
  have acc: "access_ok (get_user_path i) w1 = (Ret (U i \<noteq> None), w1)"
    using e1 u by (intro wp_eqI) (simp add: wp)
  show ?thesis
  proof (cases "U i")
    case None
    then have "db_subscribe i tp w = thn (sem_v s) (ret (-1)) w1"
      unfolding db_subscribe_def db_enter [OF assms(1,2)] by (simp add: bnd_def w1(1) acc)
    with None w1 db_leave [OF assms(1,2) w1(4)] show ?thesis
      by (intro exI [of _ "w1\<lparr>sems := sems w\<rparr>"]) simp
  next
    case (Some ts)
    define l where "l = subscribers T tp"
    define w2 where "w2 = (if file_at w1 (topic_key tp) = None then put_file (topic_key tp) [] w1 else w1)"
    have c: "create_file_if_not_exists (get_topic_path tp) w1 = (Ret 0, w2)"
      unfolding w2_def using e1 t by (intro create_file_if_not_exists_run) auto
    have tvals: "\<forall>j\<in>set l. is_int32 j"
      using w1(2) unfolding l_def by (cases "T tp") (auto simp: db_ok_def db_values_def)
    have ok2: "db_ok w2 U (T(tp \<mapsto> l))"
    proof (cases "T tp")
      case None
      with t db_ok_put_topic [OF w1(2,3) assms(4), of "[]"] show ?thesis by (simp add: w2_def l_def)
    next
      case (Some l')
      with t w1(2) show ?thesis by (simp add: w2_def l_def fun_upd_idem)
    qed
    have e2: "env w2 = []" and d2: "is_dir w2 topics_key" using e1 w1(3) by (simp_all add: w2_def)
    note u2 = db_files_user [OF ok2 assms(5)]
    define w3 where "w3 = put_file (user_key i) (unlines (ts @ [tp])) w2"
    have a: "append_to_file (get_user_path i) tp w2 = (Ret 0, w3)"
      using append_to_file_run [OF e2, of "get_user_path i" "user_key i" "unlines ts" tp] u2 Some by (simp add: w3_def)
    have "0 < i" "\<forall>x\<in>set (ts @ [tp]). topic_ok x \<and> (T(tp \<mapsto> l)) x \<noteq> None"
      using w1(2) Some assms(4) by (auto simp: db_ok_def db_values_def)
    then have ok3: "db_ok w3 (U(i \<mapsto> ts @ [tp])) (T(tp \<mapsto> l))"
      unfolding w3_def using ok2 assms(5) by (intro db_ok_put_user) auto
    have e3: "env w3 = []" and d3: "is_dir w3 topics_key" using e2 d2 by (simp_all add: w3_def)
    note t3 = db_files_topic [OF ok3 assms(4) d3]
    define w4 where "w4 = put_file (topic_key tp) (unlines (map show_int (l @ [i]))) w3"
    have b: "append_to_file (get_topic_path tp) (id_str i) w3 = (Ret 0, w4)"
      using append_to_file_run [OF e3, of "get_topic_path tp" "topic_key tp" "unlines (map show_int l)" "id_str i"]
        t3 assms(5) by (simp add: w4_def)
    have ok4: "db_ok w4 (U(i \<mapsto> ts @ [tp])) ((T(tp \<mapsto> l))(tp \<mapsto> l @ [i]))"
      unfolding w4_def using ok3 d3 assms(4,5) tvals by (intro db_ok_put_topic) auto
    have "db_subscribe i tp w = thn (sem_v s) (ret 0) w4"
      unfolding db_subscribe_def db_enter [OF assms(1,2)] using Some by (simp add: bnd_def w1(1) acc a b c)
    moreover have "same_but_fs ?w w4" using w1(4) by (simp add: w4_def w3_def w2_def)
    note db_leave [OF assms(1,2) this]
    ultimately show ?thesis using ok4 Some unfolding l_def
      by (intro exI [of _ "w4\<lparr>sems := sems w\<rparr>"]) simp
  qed
qed

lemma for_reads_add_all:
  "env w = [] \<Longrightarrow> for_reads (\<lambda>line v. lift_res (add v (f line))) (\<lambda>_. False) ls v w = (add_all add (map f ls) v, w)"
proof (induction ls arbitrary: v)
  case (Cons l ls)
  then show ?case by (cases "add v (f l)") (simp_all add: bnd_def syscall_def lift_res_def)
qed (simp add: for_reads_Nil_run del: for_reads.simps)

lemma lines_of_ids: "lines_of (unlines (map show_int l)) = map (\<lambda>i. show_int i @ [NL]) l"
  using show_int_chars by (subst lines_of_unlines) (auto simp: comp_def)

lemma ids_of_lines: "\<forall>i\<in>set l. is_int32 i \<Longrightarrow> map (\<lambda>line. int_of_long (strtol10 line)) (map (\<lambda>i. show_int i @ [NL]) l) = l"
  by (induction l) (simp_all add: strtol10_line)

lemma topics_dir: "db_ok w U T \<Longrightarrow> T tp \<noteq> None \<Longrightarrow> is_dir w topics_key"
  by (auto simp: db_ok_def db_dirs_def)

lemma access_topic:
  assumes "env w = []" "db_ok w U T" "topic_ok tp"
  shows "access_ok (get_topic_path tp) w = (Ret (T tp \<noteq> None), w)"
proof (cases "is_dir w topics_key")
  case True
  with db_files_topic [OF assms(2,3)] assms(1) show ?thesis by (intro wp_eqI) (simp add: wp)
next
  case False
  with assms(2) have "T = Map.empty" "home w" "is_dir w base_key" by (auto simp: db_ok_def db_dirs_def)
  moreover from this False assms(3) have "\<exists>e. resolve w (get_topic_path tp) = Inl e"
    by (simp add: resolve_def home_def go_up_def get_topic_path_def topic_ok_def plain_def split_slash_plain)
  ultimately show ?thesis using assms(1) by (intro wp_eqI) (auto simp: wp)
qed

lemma db_get_subscribed_run:
  assumes "guard w DB_SEM s 1" "env w = []" "db_ok w U T" "topic_ok tp" "vec_ints v xs"
    and "length xs + length (subscribers T tp) \<le> 134217727"
  shows "\<exists>v'. db_get_subscribed tp v w = (Ret (0, v'), w) \<and> vec_ints v' (xs @ subscribers T tp)"
proof -
  let ?w = "locked s w"
  have l: "env ?w = []" "db_ok ?w U T" using assms(2,3) by simp_all
  note acc = access_topic [OF l assms(4)]
  have leave: "thn (sem_v s) (ret x) ?w = (Ret x, w)" for x :: "int \<times> int vector"
    using db_leave(1) [OF assms(1,2), of ?w x] by simp
  show ?thesis
  proof (cases "T tp")
    case None
    then have "db_get_subscribed tp v w = (Ret (0, v), w)"
      unfolding db_get_subscribed_def db_enter [OF assms(1,2)] bnd_run [of "access_ok (get_topic_path tp)", OF acc]
      using leave by simp
    with None assms(5) show ?thesis by auto
  next
    case (Some l')
    have dir: "is_dir ?w topics_key" using topics_dir [OF l(2), of tp] Some by simp
    note t = db_files_topic [OF l(2) assms(4) dir]
    have opn: "fopen_r (get_topic_path tp) ?w = (Ret (Some (topic_key tp)), ?w)"
      using l(1) t Some by (intro wp_eqI) (simp add: wp)
    have ids: "\<forall>i\<in>set l'. is_int32 i" using l(2) Some by (auto simp: db_ok_def db_values_def)
    have stored: "lines_of (text_of ?w (topic_key tp)) = map (\<lambda>i. show_int i @ [NL]) l'"
      using t Some by (simp add: text_of_def lines_of_ids)
    obtain v' where v': "add_all vector_add l' v = Ret v'" "vec_ints v' (xs @ l')"
      using vec.add_all_holds [OF assms(5), of l'] assms(6) Some by auto
    have loop: "for_reads (\<lambda>line v. lift_res (vector_add v (int_of_long (strtol10 line)))) (\<lambda>_. False)
        (map (\<lambda>i. show_int i @ [NL]) l') v ?w = (Ret v', ?w)"
      using for_reads_add_all [OF l(1), of vector_add "\<lambda>line. int_of_long (strtol10 line)"
        "map (\<lambda>i. show_int i @ [NL]) l'" v] v'(1) unfolding ids_of_lines [OF ids] by simp
    have "db_get_subscribed tp v w = thn (sem_v s) (ret (0, v')) ?w"
      unfolding db_get_subscribed_def db_enter [OF assms(1,2)] using Some
      by (simp add: bnd_def acc opn gets_def stored loop)
    with leave v'(2) Some show ?thesis by auto
  qed
qed

lemma db_ok_cong:
  assumes "db_ok w U T" "is_dir w' = is_dir w" "\<forall>k. k \<noteq> topic_key ''topic_tmp'' \<longrightarrow> file_at w' k = file_at w k"
  shows "db_ok w' U T"
proof -
  have k: "topics_key \<noteq> topic_key ''topic_tmp''" "users_key @ [s] \<noteq> topic_key ''topic_tmp''" for s
    by (simp_all add: topic_key_def)
  with assms(3) have "file_at w' topics_key = file_at w topics_key"
    "file_at w' (users_key @ [s]) = file_at w (users_key @ [s])" for s by blast+
  with assms show ?thesis by (auto simp: db_ok_def db_dirs_def db_files_def home_def topic_ok_def)
qed

lemma copy_others_run:
  assumes "env w = []" "file_at w out = Some c" "\<forall>j\<in>set l. is_int32 j"
  shows "for_reads (\<lambda>line failed.
           if int_of_long (strtol10 line) \<noteq> i
           then bnd (append_to_fd out (chomp line)) (\<lambda>r. ret (r < 0))
           else ret False) (\<lambda>failed. failed) (map (\<lambda>i. show_int i @ [NL]) l) False w
    = (Ret False, if filter (\<lambda>j. j \<noteq> i) l = [] then w
        else put_file out (c @ unlines (map show_int (filter (\<lambda>j. j \<noteq> i) l))) w)"
  using assms
proof (induction l arbitrary: w c)
  case Nil
  then show ?case by (simp add: bnd_def syscall_def ret_def)
next
  case (Cons j l)
  let ?f = "\<lambda>line failed. if int_of_long (strtol10 line) \<noteq> i
           then bnd (append_to_fd out (chomp line)) (\<lambda>r. ret (r < 0)) else ret False"
  show ?case
  proof (cases "j = i")
    case True
    with Cons.prems have "?f (show_int j @ [NL]) False w = (Ret False, w)"
      by (simp add: strtol10_line ret_def)
    from for_reads_Cons_run [of w ?f "show_int j @ [NL]" False False w "\<lambda>failed. failed" "map (\<lambda>i. show_int i @ [NL]) l", OF Cons.prems(1) this]
    show ?thesis using Cons.IH [OF Cons.prems(1,2)] Cons.prems(3) True by (simp del: for_reads.simps)
  next
    case False
    let ?w = "put_file out (c @ show_int j @ [NL]) w"
    have "?f (show_int j @ [NL]) False w = (Ret False, ?w)"
      using Cons.prems False by (simp add: strtol10_line bnd_def append_to_fd_run ret_def)
    from for_reads_Cons_run [of w ?f "show_int j @ [NL]" False False ?w "\<lambda>failed. failed" "map (\<lambda>i. show_int i @ [NL]) l", OF Cons.prems(1) this]
    show ?thesis using Cons.IH [of ?w "c @ show_int j @ [NL]"] Cons.prems False
      by (simp add: unlines_def del: for_reads.simps)
  qed
qed

lemma unsubscribe_run:
  assumes "env w = []" "db_ok w U T" "T tp = Some l"
  shows "\<exists>w'. unsubscribe i tp w = (Ret 0, w') \<and> db_ok w' U (T(tp \<mapsto> filter (\<lambda>j. j \<noteq> i) l)) \<and> same_but_fs w w'"
proof -
  have ok: "topic_ok tp" "\<forall>j\<in>set l. is_int32 j" using assms(2,3) by (auto simp: db_ok_def db_values_def)
  have dir: "is_dir w topics_key" using topics_dir [OF assms(2), of tp] assms(3) by simp
  note t = db_files_topic [OF assms(2) ok(1) dir]
  define tmp where "tmp = topic_key ''topic_tmp''"
  have ne: "topic_key tp \<noteq> tmp" using ok(1) by (simp add: tmp_def topic_ok_def)
  have path: "resolve x TMP_FILE = Inr tmp" "resolve x (get_topic_path tp) = Inr (topic_key tp)"
    "\<not> is_dir x tmp" "\<not> is_dir x (topic_key tp)" if "is_dir x = is_dir w" for x :: "('a, 'b) world"
  proof -
    have "home x" "is_dir x base_key" "is_dir x topics_key"
      using that assms(2) dir by (simp_all add: db_ok_def db_dirs_def home_def)
    with ok(1) show "resolve x TMP_FILE = Inr tmp" "resolve x (get_topic_path tp) = Inr (topic_key tp)"
      by (simp_all add: resolve_tmp resolve_topic topic_ok_def tmp_def)
    show "\<not> is_dir x tmp" "\<not> is_dir x (topic_key tp)"
      using that no_dir(2) [OF assms(2)] by (simp_all add: tmp_def)
  qed
  define w1 where "w1 = put_file tmp [] w"
  define c where "c = unlines (map show_int (filter (\<lambda>j. j \<noteq> i) l))"
  define w2 where "w2 = put_file tmp c w"
  have acc: "access_ok (get_topic_path tp) w = (Ret True, w)"
    using access_topic [OF assms(1,2) ok(1)] assms(3) by simp
  have rd: "fopen_r (get_topic_path tp) w = (Ret (Some (topic_key tp)), w)"
    using assms(1,3) t by (intro wp_eqI) (simp add: wp)
  have wr: "fopen_w TMP_FILE w = (Ret (Some tmp), w1)"
    using assms(1) path [of w] by (intro wp_eqI) (simp add: wp w1_def)
  have stored: "lines_of (text_of w1 (topic_key tp)) = map (\<lambda>i. show_int i @ [NL]) l"
    using t assms(3) ne by (simp add: text_of_def w1_def lines_of_ids)
  have loop: "for_reads (\<lambda>line failed.
           if int_of_long (strtol10 line) \<noteq> i
           then bnd (append_to_fd tmp (chomp line)) (\<lambda>r. ret (r < 0))
           else ret False) (\<lambda>failed. failed) (map (\<lambda>i. show_int i @ [NL]) l) False w1 = (Ret False, w2)"
    using copy_others_run [of w1 tmp "[]" l i] assms(1) ok(2) by (auto simp: w1_def w2_def c_def)
  define w3 where "w3 = put_file (topic_key tp) c (w2\<lparr>files := AList.delete tmp (files w2)\<rparr>)"
  have mv: "rename TMP_FILE (get_topic_path tp) w2 = (Ret 0, w3)"
    using assms(1) path [of w2] ne by (intro wp_eqI) (simp add: wp w2_def w3_def)
  have "unsubscribe i tp w = (Ret 0, w3)"
    unfolding unsubscribe_def by (simp add: bnd_def acc rd wr gets_def stored loop mv ret_def)
  moreover have "db_ok (w2\<lparr>files := AList.delete tmp (files w2)\<rparr>) U T"
    by (rule db_ok_cong [OF assms(2)]) (simp_all add: w2_def tmp_def)
  then have "db_ok w3 U (T(tp \<mapsto> filter (\<lambda>j. j \<noteq> i) l))"
    unfolding w3_def c_def using dir ok by (intro db_ok_put_topic) (simp_all add: w2_def)
  moreover have "same_but_fs w2 (w2\<lparr>files := AList.delete tmp (files w2)\<rparr>)"
    unfolding same_but_fs_def by (intro exI [of _ "AList.delete tmp (files w2)"] exI [of _ "dirs w2"]) simp
  then have "same_but_fs w w3"
    unfolding w3_def using same_but_fs_trans [of w w2] by (simp add: w2_def)
  ultimately show ?thesis by blast
qed

text \<open>What is left of the topics when \<open>i\<close> is taken out of the topics \<open>ts\<close>.\<close>

definition without :: "int \<Rightarrow> string list \<Rightarrow> topics \<Rightarrow> topics" where
  "without i ts T = (\<lambda>tp. if tp \<in> set ts then map_option (filter (\<lambda>j. j \<noteq> i)) (T tp) else T tp)"

lemma subscribers_without [simp]:
  "subscribers (without i ts T) tp = (if tp \<in> set ts then filter (\<lambda>j. j \<noteq> i) (subscribers T tp) else subscribers T tp)"
  by (auto simp: subscribers_def without_def split: option.split)

lemma without_Cons: "T tp = Some l \<Longrightarrow> without i ts (T(tp \<mapsto> filter (\<lambda>j. j \<noteq> i) l)) = without i (tp # ts) T"
  by (auto simp: without_def fun_eq_iff)

lemma unsubscribe_all_run:
  assumes "env w = []" "db_ok w U T" "\<forall>tp\<in>set ts. T tp \<noteq> None"
  shows "\<exists>w'. for_reads (\<lambda>tp failed. bnd (unsubscribe i (chomp tp)) (\<lambda>r. ret (r < 0))) (\<lambda>failed. failed)
      (map (\<lambda>tp. tp @ [NL]) ts) False w = (Ret False, w') \<and> db_ok w' U (without i ts T) \<and> same_but_fs w w'"
  using assms
proof (induction ts arbitrary: w T)
  case Nil
  then show ?case by (intro exI [of _ w]) (simp add: bnd_def syscall_def ret_def without_def)
next
  case (Cons tp ts)
  let ?f = "\<lambda>tp failed. bnd (unsubscribe i (chomp tp)) (\<lambda>r. ret (r < 0))"
  from Cons.prems obtain l where l: "T tp = Some l" by auto
  obtain w1 where w1: "unsubscribe i tp w = (Ret 0, w1)" "db_ok w1 U (T(tp \<mapsto> filter (\<lambda>j. j \<noteq> i) l))" "same_but_fs w w1"
    using unsubscribe_run [OF Cons.prems(1,2) l] by blast
  have e1: "env w1 = []" using w1(3) Cons.prems(1) by (simp add: same_but_fsD)
  have "?f (tp @ [NL]) False w = (Ret False, w1)" using w1(1) by (simp add: bnd_def ret_def)
  then have "for_reads ?f (\<lambda>failed. failed) (map (\<lambda>tp. tp @ [NL]) (tp # ts)) False w
      = for_reads ?f (\<lambda>failed. failed) (map (\<lambda>tp. tp @ [NL]) ts) False w1"
    using for_reads_Cons_run [OF Cons.prems(1), of ?f "tp @ [NL]" False False w1 "\<lambda>failed. failed"
      "map (\<lambda>tp. tp @ [NL]) ts"] by (simp del: for_reads.simps)
  moreover have rest: "\<forall>x\<in>set ts. (T(tp \<mapsto> filter (\<lambda>j. j \<noteq> i) l)) x \<noteq> None" using Cons.prems(3) by auto
  obtain w2 where "for_reads ?f (\<lambda>failed. failed) (map (\<lambda>tp. tp @ [NL]) ts) False w1 = (Ret False, w2)"
    "db_ok w2 U (without i ts (T(tp \<mapsto> filter (\<lambda>j. j \<noteq> i) l)))" "same_but_fs w1 w2"
    using Cons.IH [OF e1 w1(2) rest] by blast
  ultimately show ?case
    using w1(3) same_but_fs_trans without_Cons [of T tp l i ts] l by (intro exI [of _ w2]) auto
qed

lemma db_ok_drop_user:
  assumes "db_ok w U T" "is_int32 i" "U i \<noteq> None"
  shows "db_ok (w\<lparr>files := AList.delete (user_key i) (files w)\<rparr>) (U(i := None)) T"
proof -
  let ?w = "w\<lparr>files := AList.delete (user_key i) (files w)\<rparr>"
  have k: "user_key i \<noteq> topics_key" "users_key @ [s] = user_key i \<longleftrightarrow> s = show_int i" for s
    by (auto simp: user_key_def)
  have "\<exists>j. (U(i := None)) j \<noteq> None \<and> x = show_int j" if "file_at ?w (users_key @ [x]) \<noteq> None" for x
  proof -
    have "x \<noteq> show_int i" "file_at w (users_key @ [x]) \<noteq> None" using that k(2) [of x] by (auto split: if_splits)
    then obtain j where "U j \<noteq> None" "x = show_int j"
      using assms(1) unfolding db_ok_def db_files_def by blast
    with \<open>x \<noteq> show_int i\<close> show ?thesis by (intro exI [of _ j]) auto
  qed
  then have "db_files ?w (U(i := None)) T"
    using assms by (auto simp: db_ok_def db_files_def)
  moreover have "db_dirs ?w T" "db_values (U(i := None)) T"
    using assms k(1) by (auto simp: db_ok_def db_dirs_def db_values_def home_def)
  ultimately show ?thesis by (simp add: db_ok_def)
qed

lemma db_delete_run:
  assumes "guard w DB_SEM s 1" "env w = []" "db_ok w U T" "is_int32 i"
  shows "\<exists>w'. db_delete i w = (Ret (if U i = None then -1 else 0), w') \<and> same_but_fs w w'
    \<and> db_ok w' (U(i := None)) (case U i of None \<Rightarrow> T | Some ts \<Rightarrow> without i ts T)"
proof -
  let ?w = "locked s w"
  have l: "env ?w = []" "db_ok ?w U T" using assms(2,3) by simp_all
  note u = db_files_user [OF l(2) assms(4)]
  have acc: "access_ok (get_user_path i) ?w = (Ret (U i \<noteq> None), ?w)"
    using l(1) u by (intro wp_eqI) (simp add: wp)
  show ?thesis
  proof (cases "U i")
    case None
    then have "db_delete i w = thn (sem_v s) (ret (-1)) ?w"
      unfolding db_delete_def db_enter [OF assms(1,2)] by (simp add: bnd_def acc)
    with None assms(3) db_leave [OF assms(1,2), of ?w] show ?thesis
      by (intro exI [of _ w]) (simp add: fun_upd_idem)
  next
    case (Some ts)
    have opn: "fopen_r (get_user_path i) ?w = (Ret (Some (user_key i)), ?w)"
      using l(1) u Some by (intro wp_eqI) (simp add: wp)
    have ts: "\<forall>tp\<in>set ts. T tp \<noteq> None" "\<forall>tp\<in>set ts. NL \<notin> set tp"
      using l(2) Some by (auto simp: db_ok_def db_values_def topic_ok_def)
    have stored: "lines_of (text_of ?w (user_key i)) = map (\<lambda>tp. tp @ [NL]) ts"
      using u Some ts(2) by (simp add: text_of_def lines_of_unlines)
    obtain w1 where w1: "for_reads (\<lambda>tp failed. bnd (unsubscribe i (chomp tp)) (\<lambda>r. ret (r < 0))) (\<lambda>failed. failed)
      (map (\<lambda>tp. tp @ [NL]) ts) False ?w = (Ret False, w1)" "db_ok w1 U (without i ts T)" "same_but_fs ?w w1"
      using unsubscribe_all_run [OF l ts(1)] by blast
    have e1: "env w1 = []" using w1(3) l(1) by (simp add: same_but_fsD)
    note u1 = db_files_user [OF w1(2) assms(4)]
    define w2 where "w2 = w1\<lparr>files := AList.delete (user_key i) (files w1)\<rparr>"
    have del: "unlink (get_user_path i) w1 = (Ret 0, w2)"
      using e1 u1 Some by (intro wp_eqI) (simp add: wp w2_def)
    have ok2: "db_ok w2 (U(i := None)) (without i ts T)"
      unfolding w2_def using w1(2) assms(4) Some by (intro db_ok_drop_user) auto
    have "same_but_fs w1 w2"
      unfolding w2_def same_but_fs_def by (intro exI [of _ "AList.delete (user_key i) (files w1)"] exI [of _ "dirs w1"]) simp
    with w1(3) have s2: "same_but_fs ?w w2" by (rule same_but_fs_trans)
    have "db_delete i w = thn (sem_v s) (ret 0) w2"
      unfolding db_delete_def db_enter [OF assms(1,2)] using Some by (simp add: bnd_def acc opn gets_def stored w1(1) del)
    with db_leave [OF assms(1,2) s2] ok2 Some show ?thesis
      by (intro exI [of _ "w2\<lparr>sems := sems w\<rparr>"]) simp
  qed
qed

section \<open>Whatever calls fail\<close>

lemma calm_steps [calm]:
  "calm (create_file path)" "calm (create_file_if_not_exists path)" "calm (create_dir_if_not_exists path)"
  "calm (append_to_fd k str)" "calm (append_to_file path str)"
  by (auto simp: create_file_def create_file_if_not_exists_def create_dir_if_not_exists_def
      append_to_fd_def append_to_file_def intro!: calm)

lemma calm_undef [calm]: "calm (stop Undef)"
  by (simp add: calm_def)

lemma calm_vector_add [calm]: "calm (lift_res (vector_add v x))"
  by (auto simp: calm_def vector_add_def vector_grow_def vector_put_def Let_def)

lemma calm_bodies [calm]:
  "calm create_users_dir_if_not_exists" "calm create_topics_dir_if_not_exists" "calm get_next_id" "calm (unsubscribe i tp)"
  by (auto simp: create_users_dir_if_not_exists_def create_topics_dir_if_not_exists_def get_next_id_def
      unsubscribe_def Let_def intro!: calm)

text \<open>\<open>released\<close>: if the operation returns, the semaphore is free; it does not wait for itself.\<close>

definition released :: "int \<Rightarrow> ('m, 's) world \<Rightarrow> 'a res \<Rightarrow> ('m, 's) world \<Rightarrow> bool" where
  "released s w r w' \<longleftrightarrow> r \<noteq> Blocked \<and> ((\<exists>x. r = Ret x) \<longrightarrow> guard w' DB_SEM s 1)"

lemma released_enter:
  assumes "guard w DB_SEM s 1"
    and "\<And>e. wp (B s) (released s w) (w\<lparr>env := e, sems := ipc_put s 0 (sems w)\<rparr>)"
  shows "wp (bnd (getsem DB_SEM) (\<lambda>sem. if sem < 0 then ret e0 else thn (sem_p sem) (B sem))) (released s w) w"
  using guardD [OF assms(1)] assms by (auto simp: wp released_def guard_def)

lemma released_leave:
  assumes "guard w DB_SEM s 1" "sems w' = ipc_put s 0 (sems w)" "dirkey w' = dirkey w"
  shows "wp (thn (sem_v s) (ret x)) (released s w) w'"
  using guardD [OF assms(1)] assms by (auto simp: wp released_def guard_def)

lemma released_step:
  assumes "calm m" "sems w' = ipc_put s 0 (sems w)" "dirkey w' = dirkey w"
    and "\<And>x w''. sems w'' = ipc_put s 0 (sems w) \<Longrightarrow> dirkey w'' = dirkey w \<Longrightarrow> wp (f x) (released s w) w''"
  shows "wp (bnd m f) (released s w) w'"
  unfolding wp_bnd using assms(2-4) by (intro wp_calm [OF assms(1)]) (auto simp: released_def)

lemma db_released:
  assumes "guard w DB_SEM s 1"
  shows "wp db_add_user (released s w) w" "wp (db_subscribe i tp) (released s w) w"
    "wp (db_get_subscribed tp v) (released s w) w" "wp (db_delete i) (released s w) w"
proof -
  note step = released_step [where s = s and w = w] and leave = released_leave [OF assms]
  show "wp db_add_user (released s w) w"
    unfolding db_add_user_def
    by (rule released_enter [OF assms]) (auto intro!: step leave calm simp del: wp_bnd)
  show "wp (db_subscribe i tp) (released s w) w"
    unfolding db_subscribe_def
    by (rule released_enter [OF assms]) (auto intro!: step leave calm simp del: wp_bnd)
  show "wp (db_get_subscribed tp v) (released s w) w"
    unfolding db_get_subscribed_def
    by (rule released_enter [OF assms]) (auto intro!: step leave calm simp del: wp_bnd split: option.split)
  show "wp (db_delete i) (released s w) w"
    unfolding db_delete_def
    by (rule released_enter [OF assms]) (auto intro!: step leave calm simp del: wp_bnd split: option.split)
qed

section \<open>The contract of the database\<close>

datatype db_req = AddUser | Subscribe int string | Delete int

text \<open>What a request answers and does to the abstract database.\<close>

fun abs_req :: "db_req \<Rightarrow> users \<times> topics \<Rightarrow> int \<times> users \<times> topics" where
  "abs_req AddUser (U, T) = (next_id U, U(next_id U \<mapsto> []), T)"
| "abs_req (Subscribe i tp) (U, T) =
     (case U i of
        None \<Rightarrow> (-1, U, T)
      | Some ts \<Rightarrow> (0, U(i \<mapsto> ts @ [tp]), T(tp \<mapsto> subscribers T tp @ [i])))"
| "abs_req (Delete i) (U, T) =
     (case U i of None \<Rightarrow> (-1, U, T) | Some ts \<Rightarrow> (0, U(i := None), without i ts T))"

fun abs_reqs :: "db_req list \<Rightarrow> users \<times> topics \<Rightarrow> int list \<times> users \<times> topics" where
  "abs_reqs [] D = ([], D)"
| "abs_reqs (q # qs) D = (case abs_req q D of (r, D1) \<Rightarrow> case abs_reqs qs D1 of (rs, D2) \<Rightarrow> (r # rs, D2))"

fun do_req :: "('w, int) prog \<Rightarrow> (int \<Rightarrow> string \<Rightarrow> ('w, int) prog) \<Rightarrow> (int \<Rightarrow> ('w, int) prog) \<Rightarrow> db_req \<Rightarrow> ('w, int) prog" where
  "do_req add sub del AddUser = add"
| "do_req add sub del (Subscribe i tp) = sub i tp"
| "do_req add sub del (Delete i) = del i"

fun do_reqs :: "(db_req \<Rightarrow> ('w, int) prog) \<Rightarrow> db_req list \<Rightarrow> ('w, int list) prog" where
  "do_reqs f [] = ret []"
| "do_reqs f (q # qs) = bnd (f q) (\<lambda>r. bnd (do_reqs f qs) (\<lambda>rs. ret (r # rs)))"

text \<open>Identifiers fit in an \<open>int\<close>, and topics satisfy \<open>ok\<close>.\<close>

fun req_ok :: "(string \<Rightarrow> bool) \<Rightarrow> db_req \<Rightarrow> bool" where
  "req_ok ok AddUser \<longleftrightarrow> True"
| "req_ok ok (Subscribe i tp) \<longleftrightarrow> is_int32 i \<and> ok tp"
| "req_ok ok (Delete i) \<longleftrightarrow> is_int32 i"

definition ids_below :: "int \<Rightarrow> users \<Rightarrow> bool" where
  "ids_below n U \<longleftrightarrow> 0 \<le> n \<and> (\<forall>i. U i \<noteq> None \<longrightarrow> 0 < i \<and> i \<le> n)"

lemma next_id_below:
  assumes "ids_below n U"
  shows "0 < next_id U" "next_id U \<le> n + 1" "U (next_id U) = None"
proof -
  have "dom U \<subseteq> {0..n}" using assms by (force simp: ids_below_def)
  then have fin: "finite (dom U)" by (rule finite_subset) simp
  have "Max (insert 0 (dom U)) \<in> insert 0 (dom U)" using fin by (intro Max_in) auto
  then show "next_id U \<le> n + 1" using assms by (auto simp: next_id_def ids_below_def)
  have "x \<le> Max (insert 0 (dom U))" if "x \<in> insert 0 (dom U)" for x using fin that by (intro Max_ge) auto
  from this [of 0] this [of "next_id U"] show "0 < next_id U" "U (next_id U) = None"
    by (auto simp: next_id_def)
qed

lemma ids_below_abs_req: "ids_below n U \<Longrightarrow> abs_req q (U, T) = (r, U', T') \<Longrightarrow> ids_below (n + 1) U'"
  using next_id_below [of n U]
  by (cases q) (fastforce simp: ids_below_def split: option.splits if_splits)+

lemma linked_abs_req:
  assumes "db_linked U T" "abs_req q (U, T) = (r, U', T')" "ids_below n U"
  shows "db_linked U' T'"
proof (cases q)
  case AddUser
  with assms next_id_below(3) [OF assms(3)] show ?thesis
    by (auto simp: db_linked_def split: if_splits)
next
  case (Subscribe i tp)
  with assms(1,2) show ?thesis
    unfolding Subscribe by (cases "U i") (auto simp: db_linked_def split: if_splits)
next
  case (Delete i)
  with assms(1,2) show ?thesis
    by (cases "U i") (auto simp: db_linked_def split: if_splits)
qed

locale topic_store =
  fixes add :: "('w, int) prog"
    and sub :: "int \<Rightarrow> string \<Rightarrow> ('w, int) prog"
    and del :: "int \<Rightarrow> ('w, int) prog"
    and ok :: "string \<Rightarrow> bool"
    and holds :: "'w \<Rightarrow> users \<Rightarrow> topics \<Rightarrow> bool"
  assumes add_holds: "holds w U T \<Longrightarrow> U INT_MAX = None \<Longrightarrow>
      \<exists>w'. add w = (Ret (next_id U), w') \<and> holds w' (U(next_id U \<mapsto> [])) T"
    and sub_holds: "holds w U T \<Longrightarrow> is_int32 i \<Longrightarrow> ok tp \<Longrightarrow> abs_req (Subscribe i tp) (U, T) = (r, U', T') \<Longrightarrow>
      \<exists>w'. sub i tp w = (Ret r, w') \<and> holds w' U' T'"
    and del_holds: "holds w U T \<Longrightarrow> is_int32 i \<Longrightarrow> abs_req (Delete i) (U, T) = (r, U', T') \<Longrightarrow>
      \<exists>w'. del i w = (Ret r, w') \<and> holds w' U' T'"
begin

lemma req_step:
  assumes "holds w U T" "req_ok ok q" "ids_below n U" "n < INT_MAX" "abs_req q (U, T) = (r, U', T')"
  shows "\<exists>w'. do_req add sub del q w = (Ret r, w') \<and> holds w' U' T'"
proof (cases q)
  case AddUser
  have "U INT_MAX = None" using assms(3,4) by (force simp: ids_below_def)
  from add_holds [OF assms(1) this] AddUser assms(5) show ?thesis by auto
next
  case (Subscribe i tp)
  with sub_holds [OF assms(1), of i tp r U' T'] assms(2,5) show ?thesis by simp
next
  case (Delete i)
  with del_holds [OF assms(1), of i r U' T'] assms(2,5) show ?thesis by simp
qed

text \<open>Any sequence of requests answers as the abstract database does and ends in its state.\<close>

lemma reqs_simulate:
  assumes "holds w U T" "\<forall>q\<in>set qs. req_ok ok q" "ids_below n U" "n + int (length qs) \<le> INT_MAX" "db_linked U T"
    "abs_reqs qs (U, T) = (rs, U', T')"
  shows "\<exists>w'. do_reqs (do_req add sub del) qs w = (Ret rs, w') \<and> holds w' U' T' \<and> db_linked U' T'"
  using assms
proof (induction qs arbitrary: w U T n rs)
  case Nil
  then show ?case by (simp add: ret_def)
next
  case (Cons q qs)
  obtain r U1 T1 where q: "abs_req q (U, T) = (r, U1, T1)" by (metis prod_cases3)
  with Cons.prems(6) obtain rs1 where qs: "abs_reqs qs (U1, T1) = (rs1, U', T')" "rs = r # rs1"
    by (auto split: prod.splits)
  obtain w1 where w1: "do_req add sub del q w = (Ret r, w1)" "holds w1 U1 T1"
    using req_step [OF Cons.prems(1) _ Cons.prems(3) _ q] Cons.prems(2,4) by auto
  obtain w2 where "do_reqs (do_req add sub del) qs w1 = (Ret rs1, w2)" "holds w2 U' T'" "db_linked U' T'"
    using Cons.IH [OF w1(2) _ ids_below_abs_req [OF Cons.prems(3) q] _ linked_abs_req [OF Cons.prems(5) q Cons.prems(3)] qs(1)]
      Cons.prems(2,4) by auto
  with w1 qs show ?case by (simp add: bnd_def ret_def)
qed

end

text \<open>A host whose database is open: nobody holds the semaphore and the files store \<open>U\<close> and \<open>T\<close>.\<close>

definition db_open :: "('m, 's) world \<Rightarrow> users \<Rightarrow> topics \<Rightarrow> bool" where
  "db_open w U T \<longleftrightarrow> (\<exists>s. guard w DB_SEM s 1) \<and> env w = [] \<and> db_ok w U T"

lemma db_open_step:
  assumes "guard w DB_SEM s 1" "env w = []" "same_but_fs w w'" "db_ok w' U T"
  shows "db_open w' U T"
  using assms same_but_fsD [OF assms(3)] by (auto simp: db_open_def guard_def)

lemma db_open_got [simp]: "db_open (w\<lparr>got := g\<rparr>) = db_open w" "db_open (w\<lparr>sent := h\<rparr>) = db_open w"
  "db_open (w\<lparr>peer := p\<rparr>) = db_open w"
  by (simp_all add: fun_eq_iff db_open_def db_ok_def db_dirs_def db_files_def home_def guard_def is_dir_def file_at_def)

interpretation db: topic_store db_add_user db_subscribe db_delete topic_ok db_open
proof unfold_locales
  fix w :: "('m, 's) world" and U T
  assume "db_open w U T" "U INT_MAX = None"
  then obtain s where s: "guard w DB_SEM s 1" "env w = []" "db_ok w U T" by (auto simp: db_open_def)
  from db_add_user_run [OF this \<open>U INT_MAX = None\<close>] db_open_step [OF s(1,2)]
  show "\<exists>w'. db_add_user w = (Ret (next_id U), w') \<and> db_open w' (U(next_id U \<mapsto> [])) T" by blast
next
  fix w :: "('m, 's) world" and U T i tp r U' T'
  assume a: "db_open w U T" "is_int32 i" "topic_ok tp" "abs_req (Subscribe i tp) (U, T) = (r, U', T')"
  then obtain s where s: "guard w DB_SEM s 1" "env w = []" "db_ok w U T" by (auto simp: db_open_def)
  from db_subscribe_run [OF s a(3,2)] db_open_step [OF s(1,2)] a(4)
  show "\<exists>w'. db_subscribe i tp w = (Ret r, w') \<and> db_open w' U' T'"
    by (cases "U i") fastforce+
next
  fix w :: "('m, 's) world" and U T i r U' T'
  assume a: "db_open w U T" "is_int32 i" "abs_req (Delete i) (U, T) = (r, U', T')"
  then obtain s where s: "guard w DB_SEM s 1" "env w = []" "db_ok w U T" by (auto simp: db_open_def)
  from db_delete_run [OF s a(2)] db_open_step [OF s(1,2)] a(3)
  show "\<exists>w'. db_delete i w = (Ret r, w') \<and> db_open w' U' T'"
    by (cases "U i") (auto simp: fun_upd_idem)
qed

text \<open>A database in which nobody has registered yet.\<close>

definition new_db :: "('m, 's) world" where
  "new_db = idle_host\<lparr>dirs := [[], [''..''], base_key, users_key],
     sems := \<lparr>ipc_keys = [ftok_key 1 DB_SEM \<mapsto> 0], ipc_objs = [0 \<mapsto> 1], ipc_next = 1\<rparr>\<rparr>"

lemma new_db_open: "db_open (new_db :: ('m, 's) world) Map.empty Map.empty" "db_linked Map.empty Map.empty"
  "ids_below 0 Map.empty"
proof -
  have "guard (new_db :: ('m, 's) world) DB_SEM 0 1" by (simp add: new_db_def guard_def)
  moreover have "db_ok (new_db :: ('m, 's) world) Map.empty Map.empty"
    by (auto simp: db_ok_def db_dirs_def db_files_def db_values_def home_def is_dir_def file_at_def new_db_def idle_host_def)
  moreover have "env new_db = []" by (simp add: new_db_def)
  ultimately show "db_open (new_db :: ('m, 's) world) Map.empty Map.empty" by (auto simp: db_open_def)
qed (simp_all add: db_linked_def ids_below_def)

section \<open>Properties\<close>

text \<open>
  C30: The file database refines the abstract one: from an open, consistent database, any sequence of
  requests to add, subscribe and delete users (with identifiers that fit in an \<open>int\<close> and proper topic
  names) answers what the abstract database answers, leaves the semaphore free and the files storing
  the abstract state, in which users and topics agree on who is subscribed to what.
\<close>

theorem db_refines_abstract:
  "db_open w U T \<Longrightarrow> \<forall>q\<in>set qs. req_ok topic_ok q \<Longrightarrow> ids_below n U \<Longrightarrow> n + int (length qs) \<le> INT_MAX \<Longrightarrow> db_linked U T \<Longrightarrow>
   abs_reqs qs (U, T) = (rs, U', T') \<Longrightarrow>
   \<exists>w'. do_reqs (do_req db_add_user db_subscribe db_delete) qs w = (Ret rs, w') \<and> db_open w' U' T' \<and> db_linked U' T'"
  by (rule db.reqs_simulate)

lemma db_refines_abstract_witness:
  "\<exists>w'. do_reqs (do_req db_add_user db_subscribe db_delete)
      [AddUser, AddUser, Subscribe 1 ''rain'', Subscribe 2 ''rain'', Subscribe 7 ''rain'', Delete 1]
      (new_db :: (msg_t, int) world) = (Ret [1, 2, 0, 0, -1, 0], w')"
proof -
  have r: "abs_reqs [AddUser, AddUser, Subscribe 1 ''rain'', Subscribe 2 ''rain'', Subscribe 7 ''rain'', Delete 1]
      (Map.empty, Map.empty) = ([1, 2, 0, 0, -1, 0], [2 \<mapsto> [''rain'']], without 1 [''rain''] [''rain'' \<mapsto> [1, 2]])"
    by (auto simp: next_id_def fun_eq_iff)
  have ok: "\<forall>q\<in>set [AddUser, AddUser, Subscribe 1 ''rain'', Subscribe 2 ''rain'', Subscribe 7 ''rain'', Delete 1]. req_ok topic_ok q"
    by (auto simp: is_int32_def topic_ok_def plain_def NL_def NUL_def)
  from db_refines_abstract [OF new_db_open(1) ok new_db_open(3) _ new_db_open(2) r] show ?thesis
    by (fastforce simp: INT_MAX_def)
qed

text \<open>
  After \<open>db_delete\<close> of a user the list of subscribers of every topic is the former one without
  that user: no notification goes to a deleted user, and no other subscriber is lost or reordered.
\<close>

theorem deleted_user_not_subscribed:
  "db_open w U T \<Longrightarrow> db_linked U T \<Longrightarrow> is_int32 i \<Longrightarrow> U i \<noteq> None \<Longrightarrow> topic_ok tp \<Longrightarrow>
   length (subscribers T tp) \<le> 134217727 \<Longrightarrow>
   \<exists>w' v v'. db_delete i w = (Ret 0, w') \<and> vector_new 4 False = Ret v \<and> db_get_subscribed tp v w' = (Ret (0, v'), w')
     \<and> vec_ints v' (filter (\<lambda>j. j \<noteq> i) (subscribers T tp))"
proof -
  assume a: "db_open w U T" "db_linked U T" "is_int32 i" "U i \<noteq> None" "topic_ok tp" "length (subscribers T tp) \<le> 134217727"
  then obtain s ts where s: "guard w DB_SEM s 1" "env w = []" "db_ok w U T" "U i = Some ts"
    by (auto simp: db_open_def)
  obtain w' where w': "db_delete i w = (Ret 0, w')" "same_but_fs w w'" "db_ok w' (U(i := None)) (without i ts T)"
    using db_delete_run [OF s(1-3) a(3)] s(4) by auto
  have s': "guard w' DB_SEM s 1" "env w' = []"
    using s same_but_fsD [OF w'(2)] by (auto simp: guard_def)
  have "subscribers (without i ts T) tp = filter (\<lambda>j. j \<noteq> i) (subscribers T tp)"
  proof (cases "tp \<in> set ts")
    case False
    with a(2) s(4) have "i \<notin> set (subscribers T tp)" by (simp add: db_linked_def)
    with False show ?thesis by (auto intro!: filter_True [symmetric])
  qed simp
  moreover obtain v :: "int vector" where v: "vector_new 4 False = Ret v" "vec_ints v []"
    using vector_new_ints by blast
  moreover have "length (filter (\<lambda>j. j \<noteq> i) (subscribers T tp)) \<le> 134217727"
    using a(6) length_filter_le le_trans by blast
  ultimately obtain v' where "db_get_subscribed tp v w' = (Ret (0, v'), w')"
    "vec_ints v' (filter (\<lambda>j. j \<noteq> i) (subscribers T tp))"
    using db_get_subscribed_run [OF s' w'(3) a(5) v(2)] by auto
  with w'(1) v(1) show ?thesis by blast
qed

text \<open>
  A successful \<open>db_subscribe\<close> puts the user at the end of the subscribers of the topic, and the
  subscribers of all other topics stay the same; an unknown user is refused.
\<close>

theorem subscribed_user_is_listed:
  "db_open w U T \<Longrightarrow> is_int32 i \<Longrightarrow> topic_ok tp \<Longrightarrow> topic_ok tp' \<Longrightarrow> length (subscribers T tp') < 134217727 \<Longrightarrow>
   \<exists>w' v v'. db_subscribe i tp w = (Ret (if U i = None then -1 else 0), w') \<and> vector_new 4 False = Ret v
     \<and> db_get_subscribed tp' v w' = (Ret (0, v'), w')
     \<and> vec_ints v' (subscribers T tp' @ (if U i \<noteq> None \<and> tp' = tp then [i] else []))"
proof -
  assume a: "db_open w U T" "is_int32 i" "topic_ok tp" "topic_ok tp'" "length (subscribers T tp') < 134217727"
  then obtain s where s: "guard w DB_SEM s 1" "env w = []" "db_ok w U T"
    by (auto simp: db_open_def)
  define T' where "T' = (if U i = None then T else T(tp \<mapsto> subscribers T tp @ [i]))"
  obtain w' where w': "db_subscribe i tp w = (Ret (if U i = None then -1 else 0), w')" "same_but_fs w w'"
    "db_ok w' (case U i of None \<Rightarrow> U | Some ts \<Rightarrow> U(i \<mapsto> ts @ [tp])) T'"
    using db_subscribe_run [OF s a(3,2)] by (auto simp: T'_def)
  have s': "guard w' DB_SEM s 1" "env w' = []"
    using s same_but_fsD [OF w'(2)] by (auto simp: guard_def)
  have T': "subscribers T' tp' = subscribers T tp' @ (if U i \<noteq> None \<and> tp' = tp then [i] else [])"
    by (simp add: T'_def)
  obtain v :: "int vector" where v: "vector_new 4 False = Ret v" "vec_ints v []"
    using vector_new_ints by blast
  have "length ([] :: int list) + length (subscribers T' tp') \<le> 134217727" using a(5) unfolding T' by auto
  from db_get_subscribed_run [OF s' w'(3) a(4) v(2) this] w'(1) v(1) T' show ?thesis by auto
qed

lemma one_user_db: "\<exists>w. db_open (w :: (msg_t, int) world) [1 \<mapsto> [''rain'']] [''rain'' \<mapsto> [1]] \<and> db_linked [1 \<mapsto> [''rain'']] [''rain'' \<mapsto> [1]]"
proof -
  have r: "abs_reqs [AddUser, Subscribe 1 ''rain''] (Map.empty, Map.empty) = ([1, 0], [1 \<mapsto> [''rain'']], [''rain'' \<mapsto> [1]])"
    by (auto simp: next_id_def)
  have ok: "\<forall>q\<in>set [AddUser, Subscribe 1 ''rain'']. req_ok topic_ok q"
    by (auto simp: is_int32_def topic_ok_def plain_def NL_def NUL_def)
  from db.reqs_simulate [OF new_db_open(1) ok new_db_open(3) _ new_db_open(2) r] show ?thesis
    by (fastforce simp: INT_MAX_def)
qed

lemma rain_ok: "topic_ok ''rain''"
  by (simp add: topic_ok_def plain_def NL_def NUL_def)

lemma deleted_user_not_subscribed_witness:
  "\<exists>(w :: (msg_t, int) world) w' v v'. db_delete 1 w = (Ret 0, w') \<and> db_get_subscribed ''rain'' v w' = (Ret (0, v'), w')
     \<and> vec_ints v' []"
proof -
  obtain w :: "(msg_t, int) world" where "db_open w [1 \<mapsto> [''rain'']] [''rain'' \<mapsto> [1]]" "db_linked [1 \<mapsto> [''rain'']] [''rain'' \<mapsto> [1]]"
    using one_user_db by blast
  from deleted_user_not_subscribed [OF this, of 1 "''rain''"] rain_ok show ?thesis
    by (simp add: is_int32_def) blast
qed

lemma subscribed_user_is_listed_witness:
  "\<exists>(w :: (msg_t, int) world) w' v v'. db_subscribe 1 ''rain'' w = (Ret 0, w') \<and> db_get_subscribed ''rain'' v w' = (Ret (0, v'), w')
     \<and> vec_ints v' [1, 1]"
proof -
  obtain w :: "(msg_t, int) world" where "db_open w [1 \<mapsto> [''rain'']] [''rain'' \<mapsto> [1]]" using one_user_db by blast
  from subscribed_user_is_listed [OF this, of 1 "''rain''" "''rain''"] rain_ok show ?thesis
    by (simp add: is_int32_def) blast
qed

text \<open>
  \<open>db_add_user\<close> never reuses the identifier of a user that exists: it returns a positive number
  above all of them, one more than the largest, and creates the user without subscriptions.
\<close>

theorem new_user_id_is_fresh:
  "db_open w U T \<Longrightarrow> U INT_MAX = None \<Longrightarrow>
   \<exists>i w'. db_add_user w = (Ret i, w') \<and> db_open w' (U(i \<mapsto> [])) T \<and> 0 < i \<and> U i = None \<and> (\<forall>j\<in>dom U. j < i)
     \<and> (i = 1 \<or> i - 1 \<in> dom U)"
proof -
  assume a: "db_open w U T" "U INT_MAX = None"
  then have ok: "db_ok w U T" by (auto simp: db_open_def)
  have "Max (insert 0 (dom U)) \<in> insert 0 (dom U)" using finite_users [OF ok] by (intro Max_in) auto
  then have "next_id U = 1 \<or> next_id U - 1 \<in> dom U" by (auto simp: next_id_def)
  with db.add_holds [OF a] next_id_fresh [OF ok a(2)] show ?thesis by blast
qed

lemma new_user_id_is_fresh_witness: "\<exists>w'. db_add_user (new_db :: (msg_t, int) world) = (Ret 1, w')"
  using new_user_id_is_fresh [OF new_db_open(1), where ?'a = msg_t and ?'b = int] by auto

text \<open>
  C31: Whatever system calls fail on the way, no operation of the database waits for a semaphore it
  holds itself, and each one that returns has released it.
\<close>

theorem db_semaphore_released:
  "guard w DB_SEM s 1 \<Longrightarrow>
   (\<forall>r w'. db_add_user w = (r, w') \<longrightarrow> released s w r w') \<and> (\<forall>r w'. db_subscribe i tp w = (r, w') \<longrightarrow> released s w r w')
   \<and> (\<forall>r w'. db_get_subscribed tp v w = (r, w') \<longrightarrow> released s w r w') \<and> (\<forall>r w'. db_delete i w = (r, w') \<longrightarrow> released s w r w')"
proof -
  assume g: "guard w DB_SEM s 1"
  from db_released(1) [OF g] db_released(2) [OF g, of i tp] db_released(3) [OF g, of tp v] db_released(4) [OF g, of i]
  show ?thesis by (auto simp: wp_def)
qed

lemma db_semaphore_released_witness:
  "\<exists>r w'. db_delete 5 (new_db\<lparr>env := [Ok, Ok, Ok, Fail]\<rparr> :: (msg_t, int) world) = (r, w')
     \<and> released 0 (new_db\<lparr>env := [Ok, Ok, Ok, Fail]\<rparr>) r w'"
proof -
  have "guard (new_db\<lparr>env := [Ok, Ok, Ok, Fail]\<rparr> :: (msg_t, int) world) DB_SEM 0 1" by (simp add: new_db_def guard_def)
  from db_semaphore_released [OF this, of 5] show ?thesis
    by (cases "db_delete 5 (new_db\<lparr>env := [Ok, Ok, Ok, Fail]\<rparr> :: (msg_t, int) world)") auto
qed

text \<open>
  C33: \<open>unsubscribe\<close> takes a read error for the end of the file: when the first \<open>getline\<close> fails, it
  renames the still empty copy over the topic, reports success, and every subscriber is lost.
\<close>

theorem unsubscribe_read_error_loses_subscribers:
  "db_ok w U T \<Longrightarrow> T tp = Some l \<Longrightarrow> env w = [Ok, Ok, Ok, Fail] \<Longrightarrow>
   \<exists>w'. unsubscribe i tp w = (Ret 0, w') \<and> file_at w' (topic_key tp) = Some []"
proof -
  assume ok: "db_ok w U T" and T: "T tp = Some l" and env: "env w = [Ok, Ok, Ok, Fail]"
  have tok: "topic_ok tp" using ok T by (auto simp: db_ok_def db_values_def)
  have dirs: "home w" "is_dir w base_key" "is_dir w topics_key"
    using ok topics_dir [OF ok, of tp] T by (auto simp: db_ok_def db_dirs_def)
  have nt: "topic_key tp \<noteq> topic_key ''topic_tmp''" "\<not> is_dir w (topic_key ''topic_tmp'')" "\<not> is_dir w (topic_key tp)"
    using tok no_dir [OF ok] by (auto simp: topic_ok_def)
  have path: "resolve x TMP_FILE = Inr (topic_key ''topic_tmp'')" "resolve x (get_topic_path tp) = Inr (topic_key tp)"
    if "is_dir x = is_dir w" for x :: "('a, 'b) world"
    using that dirs tok by (simp_all add: resolve_tmp resolve_topic topic_ok_def home_def)
  have f: "\<exists>c. file_at w (topic_key tp) = Some c" using db_files_topic [OF ok tok dirs(3)] T by simp
  show ?thesis
  proof (cases "lines_of (text_of (put_file (topic_key ''topic_tmp'') [] (w\<lparr>env := [Fail]\<rparr>)) (topic_key tp))")
    case Nil
    with f nt path env show ?thesis
      by (intro exI conjI, intro wp_eqI) (auto simp: unsubscribe_def wp text_of_def)
  next
    case (Cons a as)
    with f nt path env show ?thesis
      by (intro exI conjI, intro wp_eqI) (auto simp: unsubscribe_def wp text_of_def)
  qed
qed

lemma unsubscribe_read_error_loses_subscribers_witness:
  "\<exists>(w :: (msg_t, int) world) w'. file_at w (topic_key ''rain'') = Some (unlines [show_int 1]) \<and>
     unsubscribe 9 ''rain'' w = (Ret 0, w') \<and> file_at w' (topic_key ''rain'') = Some []"
proof -
  obtain w0 :: "(msg_t, int) world" where "db_open w0 [1 \<mapsto> [''rain'']] [''rain'' \<mapsto> [1]]" using one_user_db by blast
  then have ok: "db_ok (w0\<lparr>env := [Ok, Ok, Ok, Fail]\<rparr>) [1 \<mapsto> [''rain'']] [''rain'' \<mapsto> [1]]" by (auto simp: db_open_def)
  then have "file_at (w0\<lparr>env := [Ok, Ok, Ok, Fail]\<rparr>) (topic_key ''rain'') = Some (unlines [show_int 1])"
    using db_files_topic [OF ok rain_ok topics_dir [OF ok, of "''rain''"]] by simp
  with unsubscribe_read_error_loses_subscribers [OF ok, of "''rain''" "[1]" 9] show ?thesis
    by (simp del: file_at_simps unlines_append) blast
qed

text \<open>
  The scratch file of \<open>unsubscribe\<close> lies among the topics: taking a user out of a topic named
  \<open>topic_tmp\<close> truncates the topic before it is read, so that it loses all its subscribers.
\<close>

theorem unsubscribe_topic_tmp_erases:
  "home w \<Longrightarrow> is_dir w base_key \<Longrightarrow> is_dir w topics_key \<Longrightarrow> \<not> is_dir w (topic_key ''topic_tmp'') \<Longrightarrow>
   file_at w (topic_key ''topic_tmp'') = Some c \<Longrightarrow> env w = [] \<Longrightarrow>
   \<exists>w'. unsubscribe i ''topic_tmp'' w = (Ret 0, w') \<and> file_at w' (topic_key ''topic_tmp'') = Some []"
proof -
  assume a: "home w" "is_dir w base_key" "is_dir w topics_key" "\<not> is_dir w (topic_key ''topic_tmp'')"
    "file_at w (topic_key ''topic_tmp'') = Some c" "env w = []"
  have path: "resolve x TMP_FILE = Inr (topic_key ''topic_tmp'')"
      "resolve x (get_topic_path ''topic_tmp'') = Inr (topic_key ''topic_tmp'')"
    if "is_dir x = is_dir w" for x :: "('a, 'b) world"
    using that a by (simp_all add: resolve_tmp resolve_topic plain_def home_def)
  show ?thesis
    by (intro exI conjI, intro wp_eqI) (use path a in \<open>auto simp: unsubscribe_def wp text_of_def\<close>)
qed

lemma unsubscribe_topic_tmp_erases_witness:
  "\<exists>w'. unsubscribe 1 ''topic_tmp'' (put_file (topic_key ''topic_tmp'') (unlines [''1'', ''2'', ''3''])
       (idle_host\<lparr>dirs := [[], [''..''], base_key, topics_key]\<rparr> :: (msg_t, int) world)) = (Ret 0, w')
     \<and> file_at w' (topic_key ''topic_tmp'') = Some []"
  using unsubscribe_topic_tmp_erases [of "put_file (topic_key ''topic_tmp'') (unlines [''1'', ''2'', ''3''])
       (idle_host\<lparr>dirs := [[], [''..''], base_key, topics_key]\<rparr> :: (msg_t, int) world)" "unlines [''1'', ''2'', ''3'']" 1]
  by (simp add: home_def is_dir_def topic_key_def)

end
