(* ===== verification/Db_Handler.thy ===== *)
theory Db_Handler
  imports Db Socket_IO
begin

text \<open>
  The process that serves one connection of the database (\<^verbatim>\<open>broker/db-server/db_handler.c\<close>): it
  reads a request, performs it and sends the request struct back as the answer.
\<close>

section \<open>Handlers\<close>

definition process_create_db :: "db_msg_t \<Rightarrow> (('m, 's) world, db_msg_t) prog" where
  "process_create_db msg =
     bnd db_add_user (\<lambda>global_id.
     if global_id < 0 then ret (msg\<lparr>db_type := DB_ERROR\<rparr>)
     else ret (msg\<lparr>db_type := DB_OK, db_global_id := global_id\<rparr>))"

definition process_subscribe_db :: "db_msg_t \<Rightarrow> (('m, 's) world, db_msg_t) prog" where
  "process_subscribe_db msg =
     bnd (lift_res (field_str (db_topic msg))) (\<lambda>tp.
     bnd (db_subscribe (db_global_id msg) tp) (\<lambda>r.
     if r < 0 then ret (msg\<lparr>db_type := DB_ERROR\<rparr>) else ret (msg\<lparr>db_type := DB_OK\<rparr>)))"

text \<open>\<^verbatim>\<open>for (int i = 0; i < vector_size(&subscribed) && i < MAX_CLIENTS; i++)\<close>\<close>

function fill_subs :: "int vector \<Rightarrow> nat \<Rightarrow> db_msg_t \<Rightarrow> db_msg_t res" where
  "fill_subs v i msg =
     (if int i < vector_size v \<and> i < MAX_CLIENTS then
        rbind (vector_item_at v (int i)) (\<lambda>sub_id.
        fill_subs v (Suc i) (msg\<lparr>sub_ids := (sub_ids msg)[i := sub_id], sub_count := int i + 1\<rparr>))
      else Ret msg)"
  by pat_completeness auto
termination
  by (relation "measure (\<lambda>(v, i, msg). MAX_CLIENTS - i)") auto

declare fill_subs.simps [simp del]

definition process_get_subscribed :: "db_msg_t \<Rightarrow> (('m, 's) world, db_msg_t) prog" where
  "process_get_subscribed msg =
     bnd (lift_res (vector_new 4 False)) (\<lambda>subscribed.
     bnd (lift_res (field_str (db_topic msg))) (\<lambda>tp.
     bnd (db_get_subscribed tp subscribed) (\<lambda>(r, subscribed).
     if r < 0 then ret (msg\<lparr>db_type := DB_ERROR\<rparr>)
     else bnd (lift_res (fill_subs subscribed 0 msg)) (\<lambda>msg. ret (msg\<lparr>db_type := DB_OK\<rparr>)))))"

definition process_delete :: "db_msg_t \<Rightarrow> (('m, 's) world, db_msg_t) prog" where
  "process_delete msg =
     bnd (db_delete (db_global_id msg)) (\<lambda>r.
     if r < 0 then ret (msg\<lparr>db_type := DB_ERROR\<rparr>) else ret (msg\<lparr>db_type := DB_OK\<rparr>))"

text \<open>The dispatch on the type of the request.\<close>

definition perform :: "db_msg_t \<Rightarrow> (('m, 's) world, db_msg_t) prog" where
  "perform msg =
     (if db_type msg = DB_CREATE then process_create_db msg
      else if db_type msg = DB_SUBSCRIBE then process_subscribe_db msg
      else if db_type msg = DB_GET_SUBSCRIBED then process_get_subscribed msg
      else if db_type msg = DB_DELETE then process_delete msg
      else ret (msg\<lparr>db_type := DB_ERROR\<rparr>))"

definition process_message_db :: "int \<Rightarrow> db_msg_t \<Rightarrow> (('m, 's) world, db_msg_t) prog" where
  "process_message_db client_socket msg =
     bnd (perform msg) (\<lambda>msg.
     thn (socket_send_db client_socket msg) (ret msg))"

text \<open>
  \<open>n\<close> iterations of the main loop, without a signal: the loop ends only with the process, when the
  connection fails or is closed.
\<close>

primrec db_handler_loop :: "nat \<Rightarrow> int \<Rightarrow> db_msg_t \<Rightarrow> (('m, 's) world, db_msg_t) prog" where
  "db_handler_loop 0 client_socket msg = ret msg"
| "db_handler_loop (Suc n) client_socket msg =
     bnd (socket_receive_db client_socket msg) (\<lambda>(res, msg).
     if res < 0 then stop (Exit (-1))
     else if res = 0 then stop (Exit (-1))
     else bnd (process_message_db client_socket msg) (\<lambda>msg. db_handler_loop n client_socket msg))"

section \<open>What a request does\<close>

lemma fill_subs_run:
  "vec_ints v xs \<Longrightarrow> length (sub_ids msg) = MAX_CLIENTS \<Longrightarrow> i \<le> length xs \<Longrightarrow> take i (sub_ids msg) = take i xs \<Longrightarrow>
   i \<le> MAX_CLIENTS \<Longrightarrow> (0 < i \<longrightarrow> sub_count msg = int i) \<Longrightarrow>
   fill_subs v i msg = Ret (msg\<lparr>sub_ids := take MAX_CLIENTS xs @ drop (length xs) (sub_ids msg),
      sub_count := (if xs = [] then sub_count msg else int (min MAX_CLIENTS (length xs)))\<rparr>)"
proof (induction v i msg rule: fill_subs.induct)
  case (1 v i msg)
  have len: "vector_size v = int (length xs)" using "1.prems"(1) by (simp add: vec.count_holds)
  show ?case
  proof (cases "i < length xs \<and> i < MAX_CLIENTS")
    case True
    let ?m = "msg\<lparr>sub_ids := (sub_ids msg)[i := xs ! i], sub_count := int i + 1\<rparr>"
    have it: "vector_item_at v (int i) = Ret (xs ! i)" using vec.item_at_holds [OF "1.prems"(1)] True by simp
    have "take (Suc i) ((sub_ids msg)[i := xs ! i]) = take (Suc i) xs"
      using "1.prems"(2,4) True by (simp add: take_Suc_conv_app_nth)
    with True len "1.prems" it "1.IH" [of "xs ! i"]
    have "fill_subs v (Suc i) ?m = Ret (?m\<lparr>sub_ids := take MAX_CLIENTS xs @ drop (length xs) (sub_ids ?m),
      sub_count := (if xs = [] then sub_count ?m else int (min MAX_CLIENTS (length xs)))\<rparr>)"
      by (simp add: Suc_le_eq)
    with True len it show ?thesis by (subst fill_subs.simps) auto
  next
    case False
    with len have stop: "fill_subs v i msg = Ret msg" by (subst fill_subs.simps) auto
    have "take i xs = take MAX_CLIENTS xs" "i = min MAX_CLIENTS (length xs)"
      using False "1.prems"(3,5) by auto
    moreover have "sub_ids msg = take i (sub_ids msg) @ drop (length xs) (sub_ids msg)"
      using False "1.prems"(2,3,5) by (cases "i = length xs") auto
    ultimately have "sub_ids msg = take MAX_CLIENTS xs @ drop (length xs) (sub_ids msg)"
      "sub_count msg = (if xs = [] then sub_count msg else int (min MAX_CLIENTS (length xs)))"
      using "1.prems"(4,6) by auto
    then show ?thesis unfolding stop by simp
  qed
qed

text \<open>The answer to a request and the abstract database after it.\<close>

definition db_status :: "int \<Rightarrow> int" where
  "db_status r = (if r < 0 then DB_ERROR else DB_OK)"

definition db_answer :: "db_msg_t \<Rightarrow> users \<times> topics \<Rightarrow> db_msg_t \<times> users \<times> topics" where
  "db_answer m = (\<lambda>(U, T).
     let tp = cstr (db_topic m); l = subscribers T tp in
     if db_type m = DB_CREATE then
       (m\<lparr>db_type := DB_OK, db_global_id := next_id U\<rparr>, U(next_id U \<mapsto> []), T)
     else if db_type m = DB_SUBSCRIBE then
       (case abs_req (Subscribe (db_global_id m) tp) (U, T) of (r, D) \<Rightarrow> (m\<lparr>db_type := db_status r\<rparr>, D))
     else if db_type m = DB_GET_SUBSCRIBED then
       (m\<lparr>db_type := DB_OK, sub_ids := take MAX_CLIENTS l @ drop (length l) (sub_ids m),
          sub_count := (if l = [] then sub_count m else int (min MAX_CLIENTS (length l)))\<rparr>, U, T)
     else if db_type m = DB_DELETE then
       (case abs_req (Delete (db_global_id m)) (U, T) of (r, D) \<Rightarrow> (m\<lparr>db_type := db_status r\<rparr>, D))
     else (m\<lparr>db_type := DB_ERROR\<rparr>, U, T))"

text \<open>Requests the database is meant for: a terminated field with a proper topic where it is used.\<close>

definition db_request_ok :: "db_msg_t \<Rightarrow> bool" where
  "db_request_ok m \<longleftrightarrow> wf_db_msg m
     \<and> (db_type m \<in> {DB_SUBSCRIBE, DB_GET_SUBSCRIBED} \<longrightarrow> NUL \<in> set (db_topic m) \<and> topic_ok (cstr (db_topic m)))"

text \<open>
  Room for the request: an identifier is left for a new user, and the subscribers of the topic fit
  in a vector.
\<close>

definition db_room :: "db_msg_t \<Rightarrow> users \<times> topics \<Rightarrow> bool" where
  "db_room m = (\<lambda>(U, T).
     (db_type m = DB_CREATE \<longrightarrow> U INT_MAX = None)
     \<and> (db_type m = DB_GET_SUBSCRIBED \<longrightarrow> length (subscribers T (cstr (db_topic m))) \<le> 134217727))"

lemma wf_db_msg_type [simp]: "is_int32 t \<Longrightarrow> wf_db_msg m \<Longrightarrow> wf_db_msg (m\<lparr>db_type := t\<rparr>)"
  by (simp add: wf_db_msg_def)

lemma is_int32_codes [simp]: "is_int32 DB_OK" "is_int32 DB_ERROR" "is_int32 (db_status r)"
  by (simp_all add: is_int32_def db_status_def)

lemma db_openE:
  assumes "db_open w U T"
  obtains s where "guard w DB_SEM s 1" "env w = []" "db_ok w U T"
    "\<And>w' U' T'. same_but_fs w w' \<Longrightarrow> db_ok w' U' T' \<Longrightarrow> db_open w' U' T'"
  using assms db_open_step unfolding db_open_def by blast

lemma perform_run:
  assumes "db_open w U T" "db_request_ok m" "db_room m (U, T)"
    "db_answer m (U, T) = (m', U', T')"
  shows "\<exists>w'. perform m w = (Ret m', w') \<and> db_open w' U' T' \<and> wf_db_msg m' \<and> same_but_fs w w'"
proof -
  obtain s where s: "guard w DB_SEM s 1" "env w = []" "db_ok w U T"
    and opn: "\<And>w' U' T'. same_but_fs w w' \<Longrightarrow> db_ok w' U' T' \<Longrightarrow> db_open w' U' T'"
    using assms(1) by (rule db_openE) blast
  have wf: "wf_db_msg m" using assms(2) by (simp add: db_request_ok_def)
  then have g: "is_int32 (db_global_id m)" and n: "length (sub_ids m) = MAX_CLIENTS" by (simp_all add: wf_db_msg_def)
  let ?tp = "cstr (db_topic m)"
  have str: "field_str (db_topic m) = Ret ?tp" "topic_ok ?tp" if "db_type m \<in> {DB_SUBSCRIBE, DB_GET_SUBSCRIBED}"
    using assms(2) that by (auto simp: db_request_ok_def field_str_def)
  consider "db_type m = DB_CREATE" | "db_type m = DB_SUBSCRIBE" | "db_type m = DB_GET_SUBSCRIBED"
    | "db_type m = DB_DELETE" | "db_type m \<notin> {DB_CREATE, DB_SUBSCRIBE, DB_GET_SUBSCRIBED, DB_DELETE}" by blast
  then show ?thesis
  proof cases
    case 1
    then have max: "U INT_MAX = None" using assms(3) by (simp add: db_room_def)
    obtain w' where "db_add_user w = (Ret (next_id U), w')" "db_ok w' (U(next_id U \<mapsto> [])) T" "same_but_fs w w'"
      using db_add_user_run [OF s max] by blast
    with 1 assms(4) next_id_fresh [OF s(3) max] opn wf show ?thesis
      by (auto simp: perform_def process_create_db_def db_answer_def Let_def bnd_def ret_def wf_db_msg_def)
  next
    case 2
    with db_subscribe_run [OF s str(2) g] assms(4) opn wf str show ?thesis
      by (cases "U (db_global_id m)")
         (auto simp: perform_def process_subscribe_db_def db_answer_def Let_def bnd_def ret_def lift_res_def db_status_def)
  next
    case 3
    obtain v :: "int vector" where v: "vector_new 4 False = Ret v" "vec_ints v []" using vector_new_ints by blast
    let ?l = "subscribers T ?tp"
    obtain v' where v': "db_get_subscribed ?tp v w = (Ret (0, v'), w)" "vec_ints v' ?l"
      using db_get_subscribed_run [OF s str(2) v(2)] 3 assms(3) by (auto simp: db_room_def)
    have "fill_subs v' 0 m = Ret (m\<lparr>sub_ids := take MAX_CLIENTS ?l @ drop (length ?l) (sub_ids m),
      sub_count := (if ?l = [] then sub_count m else int (min MAX_CLIENTS (length ?l)))\<rparr>)"
      using v'(2) n by (intro fill_subs_run) auto
    with 3 v(1) v'(1) str(1) have "perform m w = (Ret (fst (db_answer m (U, T))), w)"
      by (simp add: perform_def process_get_subscribed_def db_answer_def Let_def bnd_def ret_def lift_res_def Let_def)
    moreover have "\<forall>x\<in>set ?l. is_int32 x"
      using s(3) by (cases "T ?tp") (auto simp: db_ok_def db_values_def)
    then have "wf_db_msg (fst (db_answer m (U, T)))"
      using 3 wf by (auto simp: db_answer_def Let_def wf_db_msg_def is_int32_def min_def dest: in_set_takeD in_set_dropD)
    moreover have "(U', T') = (U, T)" using 3 assms(4) by (auto simp: db_answer_def Let_def)
    ultimately show ?thesis using assms(1,4) by (intro exI [of _ w]) simp
  next
    case 4
    with db_delete_run [OF s g] assms(4) opn wf show ?thesis
      by (cases "U (db_global_id m)")
         (auto simp: perform_def process_delete_def db_answer_def Let_def bnd_def ret_def db_status_def fun_upd_idem)
  next
    case 5
    with assms(1,4) wf show ?thesis
      by (intro exI [of _ w]) (auto simp: perform_def db_answer_def Let_def ret_def)
  qed
qed

lemma process_message_db_run:
  assumes "db_open w U T" "db_request_ok m" "db_room m (U, T)"
    "db_answer m (U, T) = (m', U', T')"
  shows "\<exists>w'. process_message_db fd m w = (Ret m', w'\<lparr>sent := (sent w')(fd := sent w' fd @ encode_db_msg m')\<rparr>)
    \<and> db_open w' U' T' \<and> wf_db_msg m' \<and> same_but_fs w w'"
proof -
  obtain w' where w': "perform m w = (Ret m', w')" "db_open w' U' T'" "wf_db_msg m'" "same_but_fs w w'"
    using perform_run [OF assms] by blast
  have "env w' = []" using w'(2) by (auto simp: db_open_def)
  from db_codec.send_struct_run [OF w'(3) this, of fd] w'(1)
  have "process_message_db fd m w = (Ret m', w'\<lparr>sent := (sent w')(fd := sent w' fd @ encode_db_msg m')\<rparr>)"
    unfolding process_message_db_def socket_send_db_def
    by (simp add: bnd_def ret_def)
  with w' show ?thesis by blast
qed


section \<open>A whole connection\<close>

text \<open>
  \<open>served D ms rs D'\<close>: from the abstract database \<open>D\<close>, the proper requests \<open>ms\<close> are answered by
  \<open>rs\<close> and lead to \<open>D'\<close>.
\<close>

inductive served :: "users \<times> topics \<Rightarrow> db_msg_t list \<Rightarrow> db_msg_t list \<Rightarrow> users \<times> topics \<Rightarrow> bool" where
  nothing: "served D [] [] D"
| next_one: "served D ms rs D1 \<Longrightarrow> db_request_ok m \<Longrightarrow> db_room m D1 \<Longrightarrow> db_answer m D1 = (m', D2) \<Longrightarrow>
    served D (ms @ [m]) (rs @ [m']) D2"

definition wire :: "db_msg_t list \<Rightarrow> char list" where
  "wire ms = concat (map encode_db_msg ms)"

lemma wire_simps [simp]: "wire [] = []" "wire (a @ b) = wire a @ wire b" "wire [m] = encode_db_msg m"
  by (simp_all add: wire_def)

lemma served_length: "served D ms rs D' \<Longrightarrow> length rs = length ms"
  by (induction rule: served.induct) auto

lemma length_wire: "\<forall>m\<in>set ms. wf_db_msg m \<Longrightarrow> length (wire ms) = sizeof_db_msg * length ms"
  by (induction ms) (auto simp: wire_def length_encode_db_msg)

lemma served_requests_wf: "served D ms rs D' \<Longrightarrow> \<forall>m\<in>set ms. wf_db_msg m"
  by (induction rule: served.induct) (auto simp: db_request_ok_def)

lemma db_handler_loop_add:
  "db_handler_loop (n + k) fd msg w = bnd (db_handler_loop n fd msg) (\<lambda>msg. db_handler_loop k fd msg) w"
proof (induction n arbitrary: msg w)
  case (Suc n)
  show ?case
    by (auto simp: bnd_def stop_def Suc split: prod.splits res.splits)
qed (simp add: bnd_def ret_def)

text \<open>A connection to the process: what arrives on it is \<open>bytes\<close>.\<close>

definition fed :: "('m, 's) world \<Rightarrow> char list \<Rightarrow> bool" where
  "fed w bytes \<longleftrightarrow> peer w = (\<lambda>_ _. bytes)"

lemma db_handler_loop_serves:
  assumes "served D ms rs D'" "db_open w (fst D) (snd D)" "fed w (wire ms @ rest)" "got w fd = 0"
  shows "\<exists>w' msg. db_handler_loop (length ms) fd old w = (Ret msg, w') \<and> db_open w' (fst D') (snd D')
    \<and> sent w' fd = sent w fd @ wire rs \<and> got w' fd = length (wire ms) \<and> peer w' = peer w
    \<and> (\<forall>m\<in>set rs. wf_db_msg m)"
  using assms
proof (induction arbitrary: rest rule: served.induct)
  case (nothing D)
  then show ?case by (intro exI [of _ w] exI [of _ old]) (simp add: ret_def)
next
  case (next_one D ms rs D1 m m' D2)
  have "fed w (wire ms @ (encode_db_msg m @ rest))" using next_one.prems by simp
  from next_one.IH [OF next_one.prems(1) this next_one.prems(3)] obtain w1 msg where
    w1: "db_handler_loop (length ms) fd old w = (Ret msg, w1)" "db_open w1 (fst D1) (snd D1)"
      "sent w1 fd = sent w fd @ wire rs" "got w1 fd = length (wire ms)" "peer w1 = peer w" "\<forall>m\<in>set rs. wf_db_msg m"
    by blast
  have wf: "wf_db_msg m" using next_one.hyps(2) by (simp add: db_request_ok_def)
  have av: "available w1 fd = encode_db_msg m @ rest"
    using next_one.prems(2) w1(4,5) by (simp add: available_def fed_def)
  have e1: "env w1 = []" using w1(2) by (auto simp: db_open_def)
  define w2 where "w2 = w1\<lparr>got := (got w1)(fd := got w1 fd + sizeof_db_msg)\<rparr>"
  have rcv: "socket_receive_db fd msg w1 = (Ret (int sizeof_db_msg, m), w2)"
    using db_codec.receive_struct_run [OF wf av e1, of msg] by (simp add: socket_receive_db_def w2_def)
  have o2: "db_open w2 (fst D1) (snd D1)" using w1(2) by (simp add: w2_def db_open_got)
  obtain w3 where w3: "process_message_db fd m w2 = (Ret m', w3\<lparr>sent := (sent w3)(fd := sent w3 fd @ encode_db_msg m')\<rparr>)"
    "db_open w3 (fst D2) (snd D2)" "wf_db_msg m'" "same_but_fs w2 w3"
    using process_message_db_run [OF o2 next_one.hyps(2), of m' "fst D2" "snd D2" fd] next_one.hyps(3,4) by auto
  let ?w3 = "w3\<lparr>sent := (sent w3)(fd := sent w3 fd @ encode_db_msg m')\<rparr>"
  have "db_handler_loop (length (ms @ [m])) fd old w = (Ret m', ?w3)"
    using db_handler_loop_add [of "length ms" 1 fd old w] w1(1) rcv w3(1)
    by (simp add: bnd_def ret_def sizeof_db_msg_def)
  moreover have "db_open ?w3 (fst D2) (snd D2)" using w3(2) by (simp add: db_open_got)
  moreover note same_but_fsD [OF w3(4)]
  ultimately show ?case
    using w1 w3(3) wf by (intro exI [of _ ?w3] exI [of _ m']) (simp add: w2_def length_encode_db_msg)
qed

end
