(* ===== verification/Db_Connection.thy ===== *)
theory Db_Connection
  imports Db_Handler
begin

text \<open>
  The server's side of the database connection (\<^verbatim>\<open>broker/server/db-connection.c\<close>): each operation
  builds a request in a struct on its stack, sends it and waits for the answer.  The initial content
  of that struct is the parameter \<open>stk\<close>: fields the code does not set keep it.
\<close>

section \<open>Operations\<close>

text \<open>Send the request, receive the answer into the same struct; \<open>None\<close> is the return of -1.\<close>

definition db_exchange :: "int \<Rightarrow> db_msg_t \<Rightarrow> (('m, 's) world, db_msg_t option) prog" where
  "db_exchange db_socket msg =
     bnd (socket_send_db db_socket msg) (\<lambda>r.
     if r < 0 then ret None
     else bnd (socket_receive_db db_socket msg) (\<lambda>(res, msg).
     if res < 0 then ret None
     else if res = 0 then ret None
     else if db_type msg = DB_ERROR then ret None
     else ret (Some msg)))"

definition conn_add_user :: "db_msg_t \<Rightarrow> int \<Rightarrow> (('m, 's) world, int) prog" where
  "conn_add_user stk db_socket =
     bnd (db_exchange db_socket (stk\<lparr>db_type := DB_CREATE\<rparr>)) (\<lambda>reply. case reply of
       None \<Rightarrow> ret (-1)
     | Some msg \<Rightarrow> ret (db_global_id msg))"

definition conn_subscribe :: "db_msg_t \<Rightarrow> int \<Rightarrow> int \<Rightarrow> string \<Rightarrow> (('m, 's) world, int) prog" where
  "conn_subscribe stk db_socket i tp =
     bnd (db_exchange db_socket (stk\<lparr>db_global_id := i, db_type := DB_SUBSCRIBE,
            db_topic := put_field MAX_TOPIC_LENGTH (db_topic stk) tp\<rparr>)) (\<lambda>reply. case reply of
       None \<Rightarrow> ret (-1)
     | Some msg \<Rightarrow> ret 0)"

text \<open>\<^verbatim>\<open>for (int i = 0; i < msg.sub_count; i++)\<close>: reading past the array is undefined.\<close>

function add_subs :: "int list \<Rightarrow> int \<Rightarrow> nat \<Rightarrow> int vector \<Rightarrow> int vector res" where
  "add_subs xs n i v =
     (if int i < n then
        if i < length xs then rbind (vector_add v (xs ! i)) (\<lambda>v. add_subs xs n (Suc i) v) else Undef
      else Ret v)"
  by pat_completeness auto
termination
  by (relation "measure (\<lambda>(xs, n, i, v). nat n - i)") auto

declare add_subs.simps [simp del]

definition conn_get_subscribed :: "db_msg_t \<Rightarrow> int \<Rightarrow> string \<Rightarrow> int vector \<Rightarrow> (('m, 's) world, int \<times> int vector) prog" where
  "conn_get_subscribed stk db_socket tp subscribed =
     bnd (db_exchange db_socket (stk\<lparr>db_type := DB_GET_SUBSCRIBED,
            db_topic := put_field MAX_TOPIC_LENGTH (db_topic stk) tp\<rparr>)) (\<lambda>reply. case reply of
       None \<Rightarrow> ret (-1, subscribed)
     | Some msg \<Rightarrow>
         bnd (lift_res (add_subs (sub_ids msg) (sub_count msg) 0 subscribed)) (\<lambda>subscribed. ret (0, subscribed)))"

definition conn_delete :: "db_msg_t \<Rightarrow> int \<Rightarrow> int \<Rightarrow> (('m, 's) world, int) prog" where
  "conn_delete stk db_socket i =
     bnd (db_exchange db_socket (stk\<lparr>db_global_id := i, db_type := DB_DELETE\<rparr>)) (\<lambda>reply. case reply of
       None \<Rightarrow> ret (-1)
     | Some msg \<Rightarrow> ret 0)"

text \<open>\<open>close\<close> may fail, which is only logged.\<close>

definition db_disconnect :: "int \<Rightarrow> (('m, 's) world, int) prog" where
  "db_disconnect db_socket = bnd syscall (\<lambda>_. ret 0)"

section \<open>Both ends together\<close>

text \<open>
  The other end of the socket is a database process on its own host \<open>H\<close>: all it has sent after
  \<open>bytes\<close> arrived is what its loop writes for as many requests as \<open>bytes\<close> holds.
\<close>

definition db_peer :: "('n, 't) world \<Rightarrow> int \<Rightarrow> db_msg_t \<Rightarrow> char list \<Rightarrow> char list" where
  "db_peer H fd old bytes =
     sent (snd (db_handler_loop (length bytes div sizeof_db_msg) fd old (H\<lparr>peer := (\<lambda>_ _. bytes)\<rparr>))) fd"

lemma db_peer_serves:
  assumes "served D ms rs D'" "db_open H (fst D) (snd D)" "sent H fd = []" "got H fd = 0"
  shows "db_peer H fd old (wire ms) = wire rs \<and> (\<forall>m\<in>set rs. wf_db_msg m)"
proof -
  let ?H = "H\<lparr>peer := (\<lambda>_ _. wire ms)\<rparr>"
  have "length (wire ms) div sizeof_db_msg = length ms"
    using length_wire [OF served_requests_wf [OF assms(1)]] by (simp add: sizeof_db_msg_def)
  moreover have "db_open ?H (fst D) (snd D)" "fed ?H (wire ms @ [])" "got ?H fd = 0"
    using assms by (simp_all add: fed_def)
  from db_handler_loop_serves [OF assms(1) this, of old] assms(3) obtain w' msg where
    "db_handler_loop (length ms) fd old ?H = (Ret msg, w')" "sent w' fd = wire rs" "\<forall>m\<in>set rs. wf_db_msg m"
    by auto
  ultimately show ?thesis by (simp add: db_peer_def)
qed

text \<open>
  \<open>session w fd U T\<close>: socket \<open>fd\<close> leads to such a process, all requests so far were proper and
  answered, the answers have been read, and the database now stores \<open>U\<close> and \<open>T\<close>.
\<close>

definition session :: "('m, 's) world \<Rightarrow> int \<Rightarrow> users \<Rightarrow> topics \<Rightarrow> bool" where
  "session w fd U T \<longleftrightarrow> env w = [] \<and>
     (\<exists>(H :: (msg_t, int) world) fd' old D ms rs. peer w fd = db_peer H fd' old \<and> db_open H (fst D) (snd D) \<and> sent H fd' = [] \<and> got H fd' = 0
        \<and> served D ms rs (U, T) \<and> sent w fd = wire ms \<and> got w fd = length (wire rs))"

text \<open>Only the socket is touched.\<close>

definition only_socket :: "int \<Rightarrow> ('m, 's) world \<Rightarrow> ('m, 's) world \<Rightarrow> bool" where
  "only_socket fd w w' \<longleftrightarrow> (\<exists>bs n. w' = w\<lparr>sent := (sent w)(fd := bs), got := (got w)(fd := n)\<rparr>)"

lemma db_exchange_run:
  assumes "session w fd U T" "db_request_ok m" "db_room m (U, T)" "db_answer m (U, T) = (m', U', T')"
  shows "\<exists>w'. db_exchange fd m w = (Ret (if db_type m' = DB_ERROR then None else Some m'), w')
    \<and> session w' fd U' T' \<and> only_socket fd w w'"
proof -
  obtain H :: "(msg_t, int) world" and fd' old D ms rs where s: "env w = []" "peer w fd = db_peer H fd' old" "db_open H (fst D) (snd D)"
    "sent H fd' = []" "got H fd' = 0" "served D ms rs (U, T)" "sent w fd = wire ms" "got w fd = length (wire rs)"
    using assms(1) by (auto simp: session_def)
  have srv: "served D (ms @ [m]) (rs @ [m']) (U', T')"
    using s(6) assms(2-4) by (rule served.next_one)
  from db_peer_serves [OF srv s(3-5), of old]
  have ans: "db_peer H fd' old (wire (ms @ [m])) = wire (rs @ [m'])" and wf': "wf_db_msg m'" by auto
  have wf: "wf_db_msg m" using assms(2) by (simp add: db_request_ok_def)
  define w1 where "w1 = w\<lparr>sent := (sent w)(fd := sent w fd @ encode_db_msg m)\<rparr>"
  have snd: "socket_send_db fd m w = (Ret (int sizeof_db_msg), w1)"
    using db_codec.send_struct_run [OF wf s(1), of fd] by (simp add: socket_send_db_def w1_def)
  have av: "available w1 fd = encode_db_msg m' @ []" and e1: "env w1 = []"
    using s ans by (simp_all add: available_def w1_def)
  define w2 where "w2 = w1\<lparr>got := (got w1)(fd := got w1 fd + sizeof_db_msg)\<rparr>"
  have rcv: "socket_receive_db fd m w1 = (Ret (int sizeof_db_msg, m'), w2)"
    using db_codec.receive_struct_run [OF wf' av e1, of m] by (simp add: socket_receive_db_def w2_def)
  have "db_exchange fd m w = (Ret (if db_type m' = DB_ERROR then None else Some m'), w2)"
    by (simp add: db_exchange_def bnd_def snd rcv ret_def sizeof_db_msg_def)
  moreover have "session w2 fd U' T'"
    unfolding session_def
  proof (intro conjI exI)
    show "peer w2 fd = db_peer H fd' old" "env w2 = []" using s by (simp_all add: w2_def w1_def)
    show "sent w2 fd = wire (ms @ [m])" "got w2 fd = length (wire (rs @ [m']))"
      using s wf' by (simp_all add: w2_def w1_def length_encode_db_msg)
  qed (fact s(3) s(4) s(5) srv)+
  moreover have "only_socket fd w w2"
    unfolding only_socket_def w2_def w1_def by (intro exI) (simp add: fun_upd_def)
  ultimately show ?thesis by blast
qed

section \<open>The connection keeps the contract of the database\<close>

text \<open>A topic name that survives the 30 characters of its field.\<close>

definition topic_fits :: "string \<Rightarrow> bool" where
  "topic_fits tp \<longleftrightarrow> topic_ok tp \<and> length tp < MAX_TOPIC_LENGTH"

definition remote :: "db_msg_t \<Rightarrow> int \<Rightarrow> ('m, 's) world \<Rightarrow> users \<Rightarrow> topics \<Rightarrow> bool" where
  "remote stk fd w U T \<longleftrightarrow> session w fd U T \<and> wf_db_msg stk"

lemma put_topic:
  assumes "wf_db_msg stk" "topic_fits tp"
  shows "NUL \<in> set (put_field 30 (db_topic stk) tp)" "cstr (put_field 30 (db_topic stk) tp) = tp"
    "length (put_field 30 (db_topic stk) tp) = 30"
  using assms cstr_put_field [of 30 "db_topic stk" tp]
  by (simp_all add: wf_db_msg_def topic_fits_def topic_ok_def)

lemma conn_add_user_run:
  assumes "remote stk fd w U T" "U INT_MAX = None"
  shows "\<exists>w'. conn_add_user stk fd w = (Ret (next_id U), w') \<and> remote stk fd w' (U(next_id U \<mapsto> [])) T \<and> only_socket fd w w'"
proof -
  let ?m = "stk\<lparr>db_type := DB_CREATE\<rparr>"
  have s: "session w fd U T" "wf_db_msg stk" using assms(1) by (simp_all add: remote_def)
  have m: "db_request_ok ?m" "db_room ?m (U, T)"
    using s(2) assms(2) by (simp_all add: db_request_ok_def db_room_def is_int32_def)
  have ans: "db_answer ?m (U, T) = (?m\<lparr>db_type := DB_OK, db_global_id := next_id U\<rparr>, U(next_id U \<mapsto> []), T)"
    by (simp add: db_answer_def Let_def)
  from db_exchange_run [OF s(1) m ans] s(2) show ?thesis
    by (auto simp: conn_add_user_def bnd_def ret_def remote_def)
qed

lemma conn_subscribe_run:
  assumes "remote stk fd w U T" "is_int32 i" "topic_fits tp" "abs_req (Subscribe i tp) (U, T) = (r, U', T')"
  shows "\<exists>w'. conn_subscribe stk fd i tp w = (Ret r, w') \<and> remote stk fd w' U' T' \<and> only_socket fd w w'"
proof -
  let ?m = "stk\<lparr>db_global_id := i, db_type := DB_SUBSCRIBE, db_topic := put_field 30 (db_topic stk) tp\<rparr>"
  have s: "session w fd U T" "wf_db_msg stk" using assms(1) by (simp_all add: remote_def)
  note p = put_topic [OF s(2) assms(3)]
  have wf: "wf_db_msg ?m" using s(2) assms(2) p(3) by (simp add: wf_db_msg_def is_int32_def)
  then have m: "db_request_ok ?m" "db_room ?m (U, T)"
    using assms(3) p by (simp_all add: db_request_ok_def db_room_def topic_fits_def)
  have ans: "db_answer ?m (U, T) = (?m\<lparr>db_type := db_status r\<rparr>, U', T')"
    using assms(4) p by (simp add: db_answer_def Let_def)
  have "r = 0 \<or> r = -1" using assms(4) by (auto split: option.splits)
  with db_exchange_run [OF s(1) m ans] s(2) show ?thesis
    by (auto simp: conn_subscribe_def bnd_def ret_def remote_def db_status_def)
qed

lemma conn_delete_run:
  assumes "remote stk fd w U T" "is_int32 i" "abs_req (Delete i) (U, T) = (r, U', T')"
  shows "\<exists>w'. conn_delete stk fd i w = (Ret r, w') \<and> remote stk fd w' U' T' \<and> only_socket fd w w'"
proof -
  let ?m = "stk\<lparr>db_global_id := i, db_type := DB_DELETE\<rparr>"
  have s: "session w fd U T" "wf_db_msg stk" using assms(1) by (simp_all add: remote_def)
  have m: "db_request_ok ?m" "db_room ?m (U, T)"
    using s(2) assms(2) by (simp_all add: db_request_ok_def db_room_def is_int32_def wf_db_msg_def)
  have ans: "db_answer ?m (U, T) = (?m\<lparr>db_type := db_status r\<rparr>, U', T')"
    using assms(3) by (simp add: db_answer_def Let_def)
  have "r = 0 \<or> r = -1" using assms(3) by (auto split: option.splits)
  with db_exchange_run [OF s(1) m ans] s(2) show ?thesis
    by (auto simp: conn_delete_def bnd_def ret_def remote_def db_status_def)
qed

lemma add_subs_all:
  "0 \<le> n \<Longrightarrow> nat n \<le> length xs \<Longrightarrow> add_subs xs n i v = add_all vector_add (drop i (take (nat n) xs)) v"
proof (induction xs n i v rule: add_subs.induct)
  case (1 xs n i v)
  show ?case
  proof (cases "int i < n")
    case True
    with "1.prems" have l: "i < nat n" "i < length xs" by linarith+
    then have "drop i (take (nat n) xs) = xs ! i # drop (Suc i) (take (nat n) xs)"
      using "1.prems" Cons_nth_drop_Suc [of i "take (nat n) xs"] by simp
    with True l "1.IH" "1.prems" show ?thesis
      by (subst add_subs.simps) (cases "vector_add v (xs ! i)"; simp)
  next
    case False
    then show ?thesis by (subst add_subs.simps) simp
  qed
qed

lemma conn_get_subscribed_run:
  assumes "remote stk fd w U T" "topic_fits tp" "length (subscribers T tp) \<le> 134217727"
  shows "\<exists>w'. conn_get_subscribed stk fd tp v w =
      bnd (lift_res (add_subs (take MAX_CLIENTS (subscribers T tp) @ drop (length (subscribers T tp)) (sub_ids stk))
        (if subscribers T tp = [] then sub_count stk else int (min MAX_CLIENTS (length (subscribers T tp)))) 0 v))
      (\<lambda>v. ret (0, v)) w'
    \<and> remote stk fd w' U T \<and> only_socket fd w w'"
proof -
  let ?m = "stk\<lparr>db_type := DB_GET_SUBSCRIBED, db_topic := put_field 30 (db_topic stk) tp\<rparr>"
  let ?l = "subscribers T tp"
  have s: "session w fd U T" "wf_db_msg stk" using assms(1) by (simp_all add: remote_def)
  note p = put_topic [OF s(2) assms(2)]
  have wf: "wf_db_msg ?m" using s(2) p(3) by (simp add: wf_db_msg_def is_int32_def)
  then have m: "db_request_ok ?m" "db_room ?m (U, T)"
    using assms(2,3) p by (simp_all add: db_request_ok_def db_room_def topic_fits_def)
  define m' where "m' = ?m\<lparr>db_type := DB_OK, sub_ids := take MAX_CLIENTS ?l @ drop (length ?l) (sub_ids stk),
          sub_count := (if ?l = [] then sub_count stk else int (min MAX_CLIENTS (length ?l)))\<rparr>"
  have ans: "db_answer ?m (U, T) = (m', U, T)"
    using p by (simp add: db_answer_def Let_def m'_def)
  obtain w' where "db_exchange fd ?m w = (Ret (Some m'), w')" "session w' fd U T" "only_socket fd w w'"
    using db_exchange_run [OF s(1) m ans] by (auto simp: m'_def)
  then show ?thesis
    using s(2) by (intro exI [of _ w']) (simp add: conn_get_subscribed_def bnd_def remote_def m'_def)
qed

interpretation conn: topic_store "conn_add_user stk fd" "conn_subscribe stk fd" "conn_delete stk fd" topic_fits "remote stk fd"
proof unfold_locales
  fix w :: "('m, 's) world" and U T
  assume "remote stk fd w U T" "U INT_MAX = None"
  from conn_add_user_run [OF this]
  show "\<exists>w'. conn_add_user stk fd w = (Ret (next_id U), w') \<and> remote stk fd w' (U(next_id U \<mapsto> [])) T" by blast
next
  fix w :: "('m, 's) world" and U T i tp r U' T'
  assume "remote stk fd w U T" "is_int32 i" "topic_fits tp" "abs_req (Subscribe i tp) (U, T) = (r, U', T')"
  from conn_subscribe_run [OF this]
  show "\<exists>w'. conn_subscribe stk fd i tp w = (Ret r, w') \<and> remote stk fd w' U' T'" by blast
next
  fix w :: "('m, 's) world" and U T i r U' T'
  assume "remote stk fd w U T" "is_int32 i" "abs_req (Delete i) (U, T) = (r, U', T')"
  from conn_delete_run [OF this]
  show "\<exists>w'. conn_delete stk fd i w = (Ret r, w') \<and> remote stk fd w' U' T'" by blast
qed

section \<open>Properties\<close>

text \<open>A server that has just connected to a new database, and a clean struct.\<close>

definition blank_db_msg :: db_msg_t where
  "blank_db_msg = \<lparr>db_global_id = 0, db_type = 0, db_topic = replicate MAX_TOPIC_LENGTH NUL, sub_count = 0,
     sub_ids = replicate MAX_CLIENTS 0\<rparr>"

definition connected :: "('m, 's) world" where
  "connected = idle_host\<lparr>peer := (\<lambda>_. db_peer (new_db :: (msg_t, int) world) 0 blank_db_msg)\<rparr>"

lemma blank_db_msg_wf [simp]: "wf_db_msg blank_db_msg"
  by (simp add: blank_db_msg_def wf_db_msg_def is_int32_def)

lemma connected_session: "session connected fd Map.empty Map.empty"
  unfolding session_def
proof (intro conjI exI)
  show "served (Map.empty, Map.empty) [] [] (Map.empty, Map.empty)" by (rule served.nothing)
  show "peer connected fd = db_peer (new_db :: (msg_t, int) world) 0 blank_db_msg" by (simp add: connected_def)
  show "db_open (new_db :: (msg_t, int) world) (fst (Map.empty, Map.empty)) (snd (Map.empty, Map.empty))"
    using new_db_open(1) by simp
qed (simp_all add: connected_def new_db_def idle_host_def)

text \<open>
  C29: Through the connection, the server sees the abstract database: any sequence of requests to add,
  subscribe and delete users, each sent as the bytes of a struct, performed by the database process
  on its files and answered with the bytes of a struct, returns what the abstract database answers,
  whatever the structs on the server's stack held before.
\<close>

theorem remote_db_refines_abstract:
  "session w fd U T \<Longrightarrow> wf_db_msg stk \<Longrightarrow> \<forall>q\<in>set qs. req_ok topic_fits q \<Longrightarrow> ids_below n U \<Longrightarrow>
   n + int (length qs) \<le> INT_MAX \<Longrightarrow> db_linked U T \<Longrightarrow> abs_reqs qs (U, T) = (rs, U', T') \<Longrightarrow>
   \<exists>w'. do_reqs (do_req (conn_add_user stk fd) (conn_subscribe stk fd) (conn_delete stk fd)) qs w = (Ret rs, w')
     \<and> session w' fd U' T' \<and> db_linked U' T'"
  using conn.reqs_simulate [of stk fd w U T qs n rs U' T'] by (auto simp: remote_def)

lemma remote_db_refines_abstract_witness:
  "\<exists>w'. do_reqs (do_req (conn_add_user blank_db_msg 4) (conn_subscribe blank_db_msg 4) (conn_delete blank_db_msg 4))
      [AddUser, AddUser, Subscribe 1 ''rain'', Subscribe 2 ''rain'', Subscribe 7 ''rain'', Delete 1]
      (connected :: (msg_t, int) world) = (Ret [1, 2, 0, 0, -1, 0], w')"
proof -
  have r: "abs_reqs [AddUser, AddUser, Subscribe 1 ''rain'', Subscribe 2 ''rain'', Subscribe 7 ''rain'', Delete 1]
      (Map.empty, Map.empty) = ([1, 2, 0, 0, -1, 0], [2 \<mapsto> [''rain'']], without 1 [''rain''] [''rain'' \<mapsto> [1, 2]])"
    by (auto simp: next_id_def fun_eq_iff)
  have ok: "\<forall>q\<in>set [AddUser, AddUser, Subscribe 1 ''rain'', Subscribe 2 ''rain'', Subscribe 7 ''rain'', Delete 1]. req_ok topic_fits q"
    using rain_ok by (auto simp: is_int32_def topic_fits_def)
  have "(0 :: int) + int (length [AddUser, AddUser, Subscribe 1 ''rain'', Subscribe 2 ''rain'', Subscribe 7 ''rain'', Delete 1]) \<le> INT_MAX"
    by (simp add: INT_MAX_def)
  from remote_db_refines_abstract [OF connected_session blank_db_msg_wf ok new_db_open(3) this new_db_open(2) r, of 4]
  show ?thesis by blast
qed

text \<open>
  For a topic with subscribers, \<open>db_get_subscribed\<close> of the server returns the first 50 of them,
  in order of subscription.
\<close>

theorem remote_subscribers:
  "session w fd U T \<Longrightarrow> wf_db_msg stk \<Longrightarrow> topic_fits tp \<Longrightarrow> subscribers T tp \<noteq> [] \<Longrightarrow>
   length (subscribers T tp) \<le> 134217727 \<Longrightarrow> vec_ints v [] \<Longrightarrow>
   \<exists>w' v'. conn_get_subscribed stk fd tp v w = (Ret (0, v'), w') \<and> session w' fd U T
     \<and> vec_ints v' (take MAX_CLIENTS (subscribers T tp))"
proof -
  let ?l = "subscribers T tp"
  assume a: "session w fd U T" "wf_db_msg stk" "topic_fits tp" "?l \<noteq> []" "length ?l \<le> 134217727" "vec_ints v []"
  then have "remote stk fd w U T" by (simp add: remote_def)
  from conn_get_subscribed_run [OF this a(3,5), of v] obtain w' where
    g: "conn_get_subscribed stk fd tp v w = bnd (lift_res (add_subs (take 50 ?l @ drop (length ?l) (sub_ids stk))
        (int (min 50 (length ?l))) 0 v)) (\<lambda>v. ret (0, v)) w'" "session w' fd U T"
    using a(4) by (auto simp: remote_def)
  have "add_subs (take 50 ?l @ drop (length ?l) (sub_ids stk)) (int (min 50 (length ?l))) 0 v = add_all vector_add (take 50 ?l) v"
    by (simp add: add_subs_all min_def)
  moreover have "length ([] :: int list) + length (take 50 ?l) \<le> 134217727" by simp
  from vec.add_all_holds [OF a(6) this] obtain v' where "add_all vector_add (take 50 ?l) v = Ret v'" "vec_ints v' (take 50 ?l)"
    by auto
  ultimately show ?thesis using g by (auto simp: bnd_def lift_res_def ret_def)
qed

lemma rain_session: "\<exists>w. session (w :: (msg_t, int) world) 4 [1 \<mapsto> [''rain'']] [''rain'' \<mapsto> [1]]"
proof -
  have r: "abs_reqs [AddUser, Subscribe 1 ''rain''] (Map.empty, Map.empty) = ([1, 0], [1 \<mapsto> [''rain'']], [''rain'' \<mapsto> [1]])"
    by (auto simp: next_id_def)
  have ok: "\<forall>q\<in>set [AddUser, Subscribe 1 ''rain'']. req_ok topic_fits q"
    using rain_ok by (auto simp: is_int32_def topic_fits_def)
  have "(0 :: int) + int (length [AddUser, Subscribe 1 ''rain'']) \<le> INT_MAX" by (simp add: INT_MAX_def)
  from conn.reqs_simulate [OF _ ok new_db_open(3) this new_db_open(2) r, of blank_db_msg 4 "connected :: (msg_t, int) world"]
  show ?thesis using connected_session by (auto simp: remote_def)
qed

lemma remote_subscribers_witness:
  "\<exists>(w :: (msg_t, int) world) w' v v'. conn_get_subscribed blank_db_msg 4 ''rain'' v w = (Ret (0, v'), w') \<and> vec_ints v' [1]"
proof -
  obtain w :: "(msg_t, int) world" where "session w 4 [1 \<mapsto> [''rain'']] [''rain'' \<mapsto> [1]]" using rain_session by blast
  moreover obtain v :: "int vector" where "vec_ints v []" using vector_new_ints by blast
  ultimately show ?thesis
    using remote_subscribers [of w 4 "[1 \<mapsto> [''rain'']]" "[''rain'' \<mapsto> [1]]" blank_db_msg "''rain''" v] rain_ok
    by (simp add: topic_fits_def) blast
qed

text \<open>
  C32: For a topic without subscribers nobody sets \<open>sub_count\<close>: the server takes as subscribers
  whatever its own stack held in the struct, and reads past the array when that count exceeds 50.
\<close>

theorem no_subscribers_returns_stack_garbage:
  "session w fd U T \<Longrightarrow> wf_db_msg stk \<Longrightarrow> topic_fits tp \<Longrightarrow> subscribers T tp = [] \<Longrightarrow> vec_ints v [] \<Longrightarrow>
   (0 \<le> sub_count stk \<and> sub_count stk \<le> 50 \<longrightarrow>
      (\<exists>w' v'. conn_get_subscribed stk fd tp v w = (Ret (0, v'), w') \<and> vec_ints v' (take (nat (sub_count stk)) (sub_ids stk))))
   \<and> (sub_count stk = 51 \<longrightarrow> (\<exists>w'. conn_get_subscribed stk fd tp v w = (Undef, w')))"
proof -
  assume a: "session w fd U T" "wf_db_msg stk" "topic_fits tp" "subscribers T tp = []" "vec_ints v []"
  then have r: "remote stk fd w U T" by (simp add: remote_def)
  have n: "length (sub_ids stk) = 50" using a(2) by (simp add: wf_db_msg_def)
  from conn_get_subscribed_run [OF r a(3), of v] a(4) obtain w' where
    g: "conn_get_subscribed stk fd tp v w = bnd (lift_res (add_subs (sub_ids stk) (sub_count stk) 0 v)) (\<lambda>v. ret (0, v)) w'"
    by auto
  have "\<exists>v'. add_subs (sub_ids stk) (sub_count stk) 0 v = Ret v' \<and> vec_ints v' (take (nat (sub_count stk)) (sub_ids stk))"
    if "0 \<le> sub_count stk" "sub_count stk \<le> 50"
    using that n vec.add_all_holds [OF a(5), of "take (nat (sub_count stk)) (sub_ids stk)"] by (simp add: add_subs_all)
  moreover have over: "add_subs xs (int (length xs) + 1) i v = Undef"
    if "vec_ints v (take i xs)" "i \<le> length xs" "length xs \<le> 50" for xs i and v :: "int vector"
    using that
  proof (induction xs "int (length xs) + 1" i v rule: add_subs.induct)
    case (1 xs i v)
    show ?case
    proof (cases "i < length xs")
      case True
      then obtain v' where "vector_add v (xs ! i) = Ret v'" "vec_ints v' (take (Suc i) xs)"
        using vec.add_holds [OF "1.prems"(1), of "xs ! i"] "1.prems"(3) by (auto simp: take_Suc_conv_app_nth)
      with True "1.hyps" "1.prems" show ?thesis by (subst add_subs.simps) simp
    qed (use "1.prems" in \<open>subst add_subs.simps, simp\<close>)
  qed
  ultimately show ?thesis
    using n over [of v 0 "sub_ids stk"] a(5) by (auto simp: g bnd_def lift_res_def ret_def)
qed

lemma no_subscribers_returns_stack_garbage_witness:
  "\<exists>w' v v'. conn_get_subscribed (blank_db_msg\<lparr>sub_count := 2\<rparr>) 4 ''rain'' v (connected :: (msg_t, int) world) = (Ret (0, v'), w')
     \<and> vec_ints v' [0, 0]"
proof -
  obtain v :: "int vector" where v: "vec_ints v []" using vector_new_ints by blast
  have wf: "wf_db_msg (blank_db_msg\<lparr>sub_count := 2\<rparr>)" by (simp add: blank_db_msg_def wf_db_msg_def is_int32_def)
  have fits: "topic_fits ''rain''" using rain_ok by (simp add: topic_fits_def)
  have "take (nat 2) (sub_ids (blank_db_msg\<lparr>sub_count := 2\<rparr>)) = [0, 0]" by (simp add: blank_db_msg_def numeral_2_eq_2)
  with no_subscribers_returns_stack_garbage [OF connected_session wf fits _ v, of 4] show ?thesis
    by (simp add: subscribers_def) blast
qed

end
