(* ===== verification/Worker.thy ===== *)
theory Worker
  imports Global_Id Db_Connection
begin

text \<open>
  The worker of a server (\<^verbatim>\<open>broker/server/worker.c\<close>): it takes requests from the worker queue,
  works on the database connection and the table of global identifiers, and puts responses and
  published messages on the response queue under the process identifier of the handler that is to
  send them.  \<open>stk\<close> is what the database request structs on the stack held before.
\<close>

section \<open>Operations\<close>

abbreviation BROKER_ID :: int where "BROKER_ID \<equiv> 1"
abbreviation WORKER_QUEUE :: int where "WORKER_QUEUE \<equiv> 1"
abbreviation RESP_QUEUE :: int where "RESP_QUEUE \<equiv> 2"

type_synonym host = "(msg_t, global_ids_t) world"

definition get_worker_queue :: "(host, int) prog" where
  "get_worker_queue = bnd (getmsg WORKER_QUEUE) (\<lambda>q. if q < 0 then stop (Exit (-1)) else ret q)"

definition get_resp_queue :: "(host, int) prog" where
  "get_resp_queue = bnd (getmsg RESP_QUEUE) (\<lambda>q. if q < 0 then stop (Exit (-1)) else ret q)"

definition process_create_w :: "db_msg_t \<Rightarrow> int \<Rightarrow> int \<Rightarrow> msg_t \<Rightarrow> (host, msg_t) prog" where
  "process_create_w stk db_connection global_ids msg =
     bnd (conn_add_user stk db_connection) (\<lambda>g.
     let msg = msg\<lparr>global_id := g\<rparr> in
     if global_id msg < 0 then ret (msg\<lparr>msg_type := ACK_ERROR\<rparr>)
     else bnd (add_global_id global_ids (global_id msg) (int_of_long (mtype msg))) (\<lambda>r.
     if r < 0 then ret (msg\<lparr>msg_type := ACK_ERROR\<rparr>)
     else ret (msg\<lparr>msg_type := ACK_CREATE\<rparr>)))"

text \<open>\<^verbatim>\<open>msg->global_id = msg->mtype; msg->mtype = get_mtype(global_ids, msg->global_id);\<close>\<close>

definition look_up_sender :: "int \<Rightarrow> msg_t \<Rightarrow> (host, msg_t) prog" where
  "look_up_sender global_ids msg =
     (let msg = msg\<lparr>global_id := int_of_long (mtype msg)\<rparr> in
      bnd (get_mtype global_ids (global_id msg)) (\<lambda>m. ret (msg\<lparr>mtype := m\<rparr>)))"

definition process_subscribe_w :: "db_msg_t \<Rightarrow> int \<Rightarrow> int \<Rightarrow> msg_t \<Rightarrow> (host, msg_t) prog" where
  "process_subscribe_w stk db_connection global_ids msg =
     bnd (look_up_sender global_ids msg) (\<lambda>msg.
     if mtype msg < 0 then ret (msg\<lparr>msg_type := ACK_ERROR\<rparr>)
     else bnd (conn_subscribe stk db_connection (global_id msg) (topic (payload msg))) (\<lambda>r.
     if r < 0 then ret (msg\<lparr>msg_type := ACK_ERROR\<rparr>)
     else ret (msg\<lparr>msg_type := ACK_OK\<rparr>)))"

text \<open>
  One subscriber: \<open>msg\<close> is the copy that the function works on, the flag says that the next server of
  the ring has got it; \<open>None\<close> leaves the loop with the result -1.
\<close>

definition deliver_one :: "int \<Rightarrow> int \<Rightarrow> int \<Rightarrow> msg_t \<Rightarrow> bool \<Rightarrow> (host, (msg_t \<times> bool) option) prog" where
  "deliver_one global_ids resp_queue sub_id msg already_sent_to_next_server =
     bnd (get_mtype global_ids sub_id) (\<lambda>m.
     let msg = msg\<lparr>global_id := sub_id, mtype := m\<rparr> in
     if mtype msg < 0 \<and> mtype msg \<noteq> NO_MTYPE_FOUND_CODE then ret None
     else if mtype msg = NO_MTYPE_FOUND_CODE then
       (if \<not> already_sent_to_next_server then
          bnd (get_mtype global_ids NEXT_SERVER_GLOBAL_ID) (\<lambda>next_server_mtype.
          let msg = msg\<lparr>mtype := next_server_mtype\<rparr> in
          bnd (sendmsg mtype resp_queue msg) (\<lambda>r.
          if r < 0 then ret None else ret (Some (msg, True))))
        else ret (Some (msg, already_sent_to_next_server)))
     else
       bnd (sendmsg mtype resp_queue msg) (\<lambda>r.
       if r < 0 then ret None else ret (Some (msg, already_sent_to_next_server))))"

text \<open>The loop from index \<open>i\<close>, with \<open>n\<close> elements left.\<close>

primrec deliver :: "nat \<Rightarrow> int \<Rightarrow> int \<Rightarrow> int vector \<Rightarrow> int \<Rightarrow> msg_t \<Rightarrow> bool \<Rightarrow> (host, int) prog" where
  "deliver 0 global_ids resp_queue v i msg already_sent_to_next_server = ret 0"
| "deliver (Suc n) global_ids resp_queue v i msg already_sent_to_next_server =
     bnd (lift_res (vector_item_at v i)) (\<lambda>sub_id.
     bnd (deliver_one global_ids resp_queue sub_id msg already_sent_to_next_server) (\<lambda>r. case r of
       None \<Rightarrow> ret (-1)
     | Some (msg, already) \<Rightarrow> deliver n global_ids resp_queue v (i + 1) msg already))"

definition send_to_subs :: "db_msg_t \<Rightarrow> int \<Rightarrow> int \<Rightarrow> int \<Rightarrow> msg_t \<Rightarrow> (host, int) prog" where
  "send_to_subs stk db_connection global_ids resp_queue msg =
     bnd (lift_res (vector_new 4 False)) (\<lambda>subscribed.
     bnd (conn_get_subscribed stk db_connection (topic (payload msg)) subscribed) (\<lambda>(r, subscribed).
     if r < 0 then ret (-1)
     else deliver (nat (vector_size subscribed)) global_ids resp_queue subscribed 0 msg False))"

text \<open>
  \<open>b\<close> is the constant \<^verbatim>\<open>BROKER_ID\<close>, which has to be another one for every server of a ring; the server of the
  repository has the number 1.
\<close>

definition process_publish_at :: "int \<Rightarrow> db_msg_t \<Rightarrow> int \<Rightarrow> int \<Rightarrow> int \<Rightarrow> msg_t \<Rightarrow> (host, bool \<times> msg_t) prog" where
  "process_publish_at b stk db_connection global_ids resp_queue msg =
     (if broker_id msg = b then ret (False, msg)
      else
        let send_ack = (broker_id msg = 0);
            msg = (if broker_id msg = 0 then msg\<lparr>broker_id := b\<rparr> else msg) in
        bnd (look_up_sender global_ids msg) (\<lambda>msg.
        if mtype msg < 0 then ret (send_ack, msg\<lparr>msg_type := ACK_ERROR\<rparr>)
        else bnd (send_to_subs stk db_connection global_ids resp_queue msg) (\<lambda>r.
        if r < 0 then ret (send_ack, msg\<lparr>msg_type := ACK_ERROR\<rparr>)
        else ret (send_ack, msg\<lparr>msg_type := ACK_OK\<rparr>))))"

definition process_publish_w :: "db_msg_t \<Rightarrow> int \<Rightarrow> int \<Rightarrow> int \<Rightarrow> msg_t \<Rightarrow> (host, bool \<times> msg_t) prog" where
  "process_publish_w = process_publish_at BROKER_ID"

definition process_destroy_w :: "db_msg_t \<Rightarrow> int \<Rightarrow> int \<Rightarrow> msg_t \<Rightarrow> (host, msg_t) prog" where
  "process_destroy_w stk db_connection global_ids msg =
     bnd (look_up_sender global_ids (msg\<lparr>msg_type := ACK_DESTROY\<rparr>)) (\<lambda>msg.
     let msg = (if mtype msg < 0 then msg\<lparr>msg_type := ACK_ERROR\<rparr> else msg) in
     bnd (conn_delete stk db_connection (global_id msg)) (\<lambda>r.
     let msg = (if r < 0 then msg\<lparr>msg_type := ACK_ERROR\<rparr> else msg) in
     bnd (remove_global_id global_ids (global_id msg)) (\<lambda>r.
     ret (if r < 0 then msg\<lparr>msg_type := ACK_ERROR\<rparr> else msg))))"

definition process_msg_at :: "int \<Rightarrow> db_msg_t \<Rightarrow> int \<Rightarrow> int \<Rightarrow> int \<Rightarrow> msg_t \<Rightarrow> (host, unit) prog" where
  "process_msg_at b stk db_connection global_ids resp_queue msg =
     bnd (if msg_type msg = CREATE then
            bnd (process_create_w stk db_connection global_ids msg) (\<lambda>msg. ret (True, msg))
          else if msg_type msg = SUBSCRIBE then
            bnd (process_subscribe_w stk db_connection global_ids msg) (\<lambda>msg. ret (True, msg))
          else if msg_type msg = PUBLISH then
            process_publish_at b stk db_connection global_ids resp_queue msg
          else if msg_type msg = DESTROY then
            bnd (process_destroy_w stk db_connection global_ids msg) (\<lambda>msg. ret (True, msg))
          else ret (True, msg\<lparr>msg_type := ACK_ERROR\<rparr>)) (\<lambda>(send_response, msg).
     if send_response then bnd (sendmsg mtype resp_queue msg) (\<lambda>_. ret ()) else ret ())"

definition process_msg_w :: "db_msg_t \<Rightarrow> int \<Rightarrow> int \<Rightarrow> int \<Rightarrow> msg_t \<Rightarrow> (host, unit) prog" where
  "process_msg_w = process_msg_at BROKER_ID"

text \<open>
  One iteration of the main loop, without a signal.  The result of \<open>rcvmsg\<close> is ignored: after an
  error the uninitialised struct \<open>stk_msg\<close> is processed.
\<close>

definition worker_step_at :: "int \<Rightarrow> db_msg_t \<Rightarrow> msg_t \<Rightarrow> int \<Rightarrow> int \<Rightarrow> int \<Rightarrow> int \<Rightarrow> (host, unit) prog" where
  "worker_step_at b stk stk_msg worker_queue resp_queue global_ids db_connection =
     bnd (rcvmsg mtype worker_queue stk_msg 0) (\<lambda>(_, msg).
     process_msg_at b stk db_connection global_ids resp_queue msg)"

definition worker_step :: "db_msg_t \<Rightarrow> msg_t \<Rightarrow> int \<Rightarrow> int \<Rightarrow> int \<Rightarrow> int \<Rightarrow> (host, unit) prog" where
  "worker_step = worker_step_at BROKER_ID"

lemma process_msg_w_unfold:
  "process_msg_w stk d g q msg =
     bnd (if msg_type msg = CREATE then bnd (process_create_w stk d g msg) (\<lambda>msg. ret (True, msg))
          else if msg_type msg = SUBSCRIBE then bnd (process_subscribe_w stk d g msg) (\<lambda>msg. ret (True, msg))
          else if msg_type msg = PUBLISH then process_publish_w stk d g q msg
          else if msg_type msg = DESTROY then bnd (process_destroy_w stk d g msg) (\<lambda>msg. ret (True, msg))
          else ret (True, msg\<lparr>msg_type := ACK_ERROR\<rparr>)) (\<lambda>(send_response, msg).
     if send_response then bnd (sendmsg mtype q msg) (\<lambda>_. ret ()) else ret ())"
  by (simp add: process_msg_w_def process_msg_at_def process_publish_w_def)

lemma worker_step_unfold:
  "worker_step stk stk_msg wq q g d = bnd (rcvmsg mtype wq stk_msg 0) (\<lambda>(_, msg). process_msg_w stk d g q msg)"
  by (simp add: worker_step_def worker_step_at_def process_msg_w_def)

text \<open>
  Iterations of the main loop until a signal ends it, one for each element of the list, which says
  what the structs on the stack hold in that iteration.
\<close>

primrec worker_loop :: "(db_msg_t \<times> msg_t) list \<Rightarrow> int \<Rightarrow> int \<Rightarrow> int \<Rightarrow> int \<Rightarrow> (host, unit) prog" where
  "worker_loop [] worker_queue resp_queue global_ids db_connection = ret ()"
| "worker_loop (s # ss) worker_queue resp_queue global_ids db_connection =
     thn (worker_step (fst s) (snd s) worker_queue resp_queue global_ids db_connection)
       (worker_loop ss worker_queue resp_queue global_ids db_connection)"

section \<open>A server in service\<close>

text \<open>
  \<open>up w g q d gs ms U T\<close>: on the server host \<open>w\<close>, the table of global identifiers at \<open>g\<close> is in service
  with the rows \<open>gs\<close>, the response queue \<open>q\<close> holds \<open>ms\<close>, and \<open>d\<close> leads to a database that stores \<open>U\<close>
  and \<open>T\<close>.
\<close>

definition up :: "host \<Rightarrow> int \<Rightarrow> int \<Rightarrow> int \<Rightarrow> global_id_t list \<Rightarrow> msg_t list \<Rightarrow> users \<Rightarrow> topics \<Rightarrow> bool" where
  "up w g q d gs ms U T \<longleftrightarrow> (\<exists>t. serving w g t \<and> rows t = gs) \<and> ipc_objs (queues w) q = Some ms \<and> session w d U T"

text \<open>The response handler of a client.\<close>

definition handler_of :: "global_id_t list \<Rightarrow> int \<rightharpoonup> int" where
  "handler_of gs i = map_option g_mtype (row_of g_global_id gs i)"

definition handler_code :: "global_id_t list \<Rightarrow> int \<Rightarrow> int" where
  "handler_code gs i = (case handler_of gs i of None \<Rightarrow> NO_MTYPE_FOUND_CODE | Some m \<Rightarrow> m)"

lemma upE:
  assumes "up w g q d gs ms U T"
  obtains t where "serving w g t" "rows t = gs" "ipc_objs (queues w) q = Some ms" "session w d U T" "env w = []"
  using assms by (auto simp: up_def session_def)

lemma up_socket:
  assumes "up w g q d gs ms U T" "session w' d U' T'" "only_socket d w w'"
  shows "up w' g q d gs ms U' T' \<and> queues w' = queues w"
  using assms by (auto simp: up_def only_socket_def serving_def guard_def)

lemma session_other [simp]:
  "session (w\<lparr>queues := x\<rparr>) d = session w d" "session (w\<lparr>shms := y\<rparr>) d = session w d"
  by (simp_all add: fun_eq_iff session_def)

lemma up_queue: "up w g q d gs ms U T \<Longrightarrow> ipc_objs x q = Some ms' \<Longrightarrow> up (w\<lparr>queues := x\<rparr>) g q d gs ms' U T"
  by (auto simp: up_def serving_def guard_def)

lemma sendmsg_run:
  assumes "up w g q d gs ms U T"
  shows "sendmsg mtype q m w =
    (if 0 < mtype m then (Ret 0, w\<lparr>queues := ipc_put q (ms @ [m]) (queues w)\<rparr>) else (Ret (-1), w))"
  using assms by (elim upE) (intro wp_eqI, simp add: wp)

lemma up_get_mtype: "up w g q d gs ms U T \<Longrightarrow> get_mtype g i w = (Ret (handler_code gs i), w)"
  by (erule upE) (simp add: get_mtype_run mtype_of_def handler_of_def handler_code_def)

lemma up_handler:
  assumes "up w g q d gs ms U T" "handler_of gs i = Some m"
  shows "0 < m" "handler_code gs i = m"
  using assms by (auto elim!: upE simp: serving_def handler_of_def handler_code_def dest: row_of_SomeD)

lemma handler_code_None: "handler_of gs i = None \<Longrightarrow> handler_code gs i = NO_MTYPE_FOUND_CODE"
  by (simp add: handler_code_def)

lemma look_up_sender_run:
  "up w g q d gs ms U T \<Longrightarrow> is_int32 (mtype msg) \<Longrightarrow>
   look_up_sender g msg w = (Ret (msg\<lparr>global_id := mtype msg, mtype := handler_code gs (mtype msg)\<rparr>), w)"
  by (simp add: look_up_sender_def Let_def bnd_def up_get_mtype ret_def)

section \<open>Delivery\<close>

text \<open>
  The copies of a published message, for its subscribers in order: one for every subscriber with a
  handler here, and one for the next server when the first subscriber from elsewhere turns up.
\<close>

fun copies :: "global_id_t list \<Rightarrow> msg_t \<Rightarrow> bool \<Rightarrow> int list \<Rightarrow> msg_t list" where
  "copies gs msg fwd [] = []"
| "copies gs msg fwd (i # is) = (case handler_of gs i of
     Some h \<Rightarrow> msg\<lparr>global_id := i, mtype := h\<rparr> # copies gs msg fwd is
   | None \<Rightarrow> if fwd then copies gs msg True is
             else msg\<lparr>global_id := i, mtype := handler_code gs NEXT_SERVER_GLOBAL_ID\<rparr> # copies gs msg True is)"

lemma copies_msg: "copies gs (msg\<lparr>global_id := a, mtype := b\<rparr>) fwd is = copies gs msg fwd is"
  by (induction "is" arbitrary: fwd) (simp_all split: option.split)

lemma deliver_one_run:
  assumes "up w g q d gs ms U T" "handler_of gs 0 \<noteq> None"
  shows "\<exists>w' msg' fwd'. deliver_one g q i msg fwd w = (Ret (Some (msg', fwd')), w')
    \<and> up w' g q d gs (ms @ copies gs msg fwd [i]) U T \<and> w' = w\<lparr>queues := ipc_put q (ms @ copies gs msg fwd [i]) (queues w)\<rparr>
    \<and> (\<exists>a b. msg' = msg\<lparr>global_id := a, mtype := b\<rparr>) \<and> fwd' = (fwd \<or> handler_of gs i = None)"
proof -
  note gm = up_get_mtype [OF assms(1)] and sm = sendmsg_run [OF assms(1)]
  have qs: "ipc_objs (queues w) q = Some ms" using assms(1) by (rule upE)
  obtain n where n: "handler_of gs 0 = Some n" using assms(2) by auto
  note next0 = up_handler [OF assms(1) n]
  have upd: "up (w\<lparr>queues := ipc_put q ms' (queues w)\<rparr>) g q d gs ms' U T" for ms'
    using up_queue [OF assms(1)] by simp
  show ?thesis
  proof (cases "handler_of gs i")
    case None
    then show ?thesis
      using next0 upd assms(1) qs by (cases fwd) (auto simp: deliver_one_def bnd_def gm sm ret_def Let_def handler_code_None)
  next
    case (Some h)
    note up_handler [OF assms(1) Some]
    with Some upd show ?thesis by (auto simp: deliver_one_def bnd_def gm sm ret_def Let_def)
  qed
qed

lemma deliver_run:
  assumes "up w g q d gs ms U T" "handler_of gs 0 \<noteq> None" "vec_ints v is" "k + n = length is"
  shows "\<exists>w'. deliver n g q v (int k) msg fwd w = (Ret 0, w')
    \<and> up w' g q d gs (ms @ copies gs msg fwd (drop k is)) U T
    \<and> w' = w\<lparr>queues := ipc_put q (ms @ copies gs msg fwd (drop k is)) (queues w)\<rparr>"
  using assms
proof (induction n arbitrary: k w ms msg fwd)
  case 0
  then show ?case by (auto simp: ret_def elim!: upE)
next
  case (Suc n)
  then have k: "k < length is" by simp
  then have at: "vector_item_at v (int k) = Ret (is ! k)"
    using Suc.prems(3) vector_item_at_holds [of v "is"] by (simp add: vec_ints_def)
  obtain w1 a b fwd' where one: "deliver_one g q (is ! k) msg fwd w = (Ret (Some (msg\<lparr>global_id := a, mtype := b\<rparr>, fwd')), w1)"
    "up w1 g q d gs (ms @ copies gs msg fwd [is ! k]) U T"
    "w1 = w\<lparr>queues := ipc_put q (ms @ copies gs msg fwd [is ! k]) (queues w)\<rparr>"
    "fwd' = (fwd \<or> handler_of gs (is ! k) = None)"
    using deliver_one_run [OF Suc.prems(1,2), of "is ! k" msg fwd] by blast
  have c: "copies gs msg fwd (drop k is) = copies gs msg fwd [is ! k] @ copies gs msg fwd' (drop (Suc k) is)"
    using k one(4) by (simp add: Cons_nth_drop_Suc [symmetric] split: option.split)
  have k1: "int k + 1 = int (Suc k)" by simp
  obtain w2 where two: "deliver n g q v (int k + 1) (msg\<lparr>global_id := a, mtype := b\<rparr>) fwd' w1 = (Ret 0, w2)"
    "up w2 g q d gs (ms @ copies gs msg fwd (drop k is)) U T"
    "w2 = w1\<lparr>queues := ipc_put q (ms @ copies gs msg fwd (drop k is)) (queues w1)\<rparr>"
    using Suc.IH [OF one(2) Suc.prems(2,3), of "Suc k" "msg\<lparr>global_id := a, mtype := b\<rparr>" fwd'] Suc.prems(4)
    unfolding k1 c copies_msg by auto
  have "deliver (Suc n) g q v (int k) msg fwd w = (Ret 0, w2)"
    using at one(1) two(1) by (simp add: bnd_def lift_res_def)
  with two(2) show ?case unfolding two(3) one(3) by simp
qed

text \<open>What the copies are, without the loop.\<close>

lemma copies_local:
  "filter (\<lambda>c. handler_of gs (global_id c) \<noteq> None) (copies gs msg fwd is)
   = map (\<lambda>i. msg\<lparr>global_id := i, mtype := the (handler_of gs i)\<rparr>) (filter (\<lambda>i. handler_of gs i \<noteq> None) is)"
  by (induction "is" arbitrary: fwd) (auto split: option.split)

lemma copies_remote:
  "filter (\<lambda>c. handler_of gs (global_id c) = None) (copies gs msg fwd is)
   = (if fwd then [] else map (\<lambda>i. msg\<lparr>global_id := i, mtype := handler_code gs NEXT_SERVER_GLOBAL_ID\<rparr>)
        (take 1 (filter (\<lambda>i. handler_of gs i = None) is)))"
  by (induction "is" arbitrary: fwd) (auto split: option.split)

text \<open>Topic names arrive as fields of a struct; only their characters before the NUL count.\<close>

lemma put_field_cstr: "put_field n d (cstr b) = put_field n d b"
  by (simp add: put_field_def strncpy_def)

lemma conn_topic:
  "conn_subscribe stk d i (cstr b) = conn_subscribe stk d i b"
  "conn_get_subscribed stk d (cstr b) = conn_get_subscribed stk d b"
  by (simp_all add: fun_eq_iff conn_subscribe_def conn_get_subscribed_def put_field_cstr)

abbreviation topic_of :: "msg_t \<Rightarrow> string" where
  "topic_of m \<equiv> cstr (topic (payload m))"

lemma send_to_subs_run:
  assumes "up w g q d gs ms U T" "wf_db_msg stk" "handler_of gs 0 \<noteq> None" "topic_fits (topic_of msg)"
    "subscribers T (topic_of msg) \<noteq> []" "length (subscribers T (topic_of msg)) \<le> 134217727"
  defines "cs \<equiv> copies gs msg False (take MAX_CLIENTS (subscribers T (topic_of msg)))"
  shows "\<exists>w'. send_to_subs stk d g q msg w = (Ret 0, w') \<and> up w' g q d gs (ms @ cs) U T
    \<and> queues w' = ipc_put q (ms @ cs) (queues w)"
proof -
  let ?l = "take MAX_CLIENTS (subscribers T (topic_of msg))"
  obtain v :: "int vector" where v: "vector_new 4 False = Ret v" "vec_ints v []" using vector_new_ints by blast
  have r: "remote stk d w U T" using assms(1,2) by (auto simp: remote_def elim!: upE)
  from conn_get_subscribed_run [OF r assms(4,6), of v] assms(5) obtain w1 where
    g1: "conn_get_subscribed stk d (topic_of msg) v w = bnd (lift_res (add_subs
        (take 50 (subscribers T (topic_of msg)) @ drop (length (subscribers T (topic_of msg))) (sub_ids stk))
        (int (min 50 (length (subscribers T (topic_of msg))))) 0 v)) (\<lambda>v. ret (0, v)) w1"
    "session w1 d U T" "only_socket d w w1"
    by (auto simp: remote_def)
  have "add_subs (take 50 (subscribers T (topic_of msg)) @ drop (length (subscribers T (topic_of msg))) (sub_ids stk))
      (int (min 50 (length (subscribers T (topic_of msg))))) 0 v = add_all vector_add ?l v"
    by (simp add: add_subs_all min_def)
  moreover have "length ([] :: int list) + length ?l \<le> 134217727" by simp
  from vec.add_all_holds [OF v(2) this] obtain v' where v': "add_all vector_add ?l v = Ret v'" "vec_ints v' ?l"
    by auto
  ultimately have g2: "conn_get_subscribed stk d (topic (payload msg)) v w = (Ret (0, v'), w1)"
    using g1(1) by (simp add: conn_topic bnd_def lift_res_def ret_def)
  have u1: "up w1 g q d gs ms U T" "queues w1 = queues w" using up_socket [OF assms(1) g1(2,3)] by simp_all
  have "nat (vector_size v') = length ?l" using v'(2) vec_size [of v' ?l] by (simp add: vec_ints_def)
  with deliver_run [OF u1(1) assms(3) v'(2), of 0 "length ?l" msg False] u1(2) show ?thesis
    by (auto simp: send_to_subs_def bnd_def lift_res_def v(1) g2 cs_def)
qed

section \<open>The abstract server\<close>

text \<open>
  What a request does to the rows of the table, the users and the topics, and what it puts on the
  response queue.  \<open>mtype\<close> of a request is the handler for a creation and the client's identifier
  for the others.
\<close>

type_synonym server_state = "global_id_t list \<times> users \<times> topics"

fun reply :: "global_id_t list \<Rightarrow> msg_t \<Rightarrow> int \<Rightarrow> msg_t list" where
  "reply gs m ty = (case handler_of gs (mtype m) of
     None \<Rightarrow> []
   | Some h \<Rightarrow> [m\<lparr>global_id := mtype m, mtype := h, msg_type := ty\<rparr>])"

definition abs_create :: "msg_t \<Rightarrow> server_state \<Rightarrow> server_state \<times> msg_t list" where
  "abs_create m = (\<lambda>(gs, U, T). let i = next_id U; m = m\<lparr>global_id := i\<rparr> in
     if length gs < MAX_CLIENTS
     then ((gs @ [\<lparr>g_mtype = mtype m, g_global_id = i\<rparr>], U(i \<mapsto> []), T), [m\<lparr>msg_type := ACK_CREATE\<rparr>])
     else ((gs, U(i \<mapsto> []), T), [m\<lparr>msg_type := ACK_ERROR\<rparr>]))"

definition abs_subscribe :: "msg_t \<Rightarrow> server_state \<Rightarrow> server_state \<times> msg_t list" where
  "abs_subscribe m = (\<lambda>(gs, U, T). case handler_of gs (mtype m) of
     None \<Rightarrow> ((gs, U, T), [])
   | Some _ \<Rightarrow> (case abs_req (Subscribe (mtype m) (topic_of m)) (U, T) of
       (r, U', T') \<Rightarrow> ((gs, U', T'), reply gs m (if r < 0 then ACK_ERROR else ACK_OK))))"

definition abs_publish_at :: "int \<Rightarrow> msg_t \<Rightarrow> server_state \<Rightarrow> server_state \<times> msg_t list" where
  "abs_publish_at b m = (\<lambda>(gs, U, T). ((gs, U, T),
     if broker_id m = b \<or> handler_of gs (mtype m) = None then []
     else let m' = (if broker_id m = 0 then m\<lparr>broker_id := b\<rparr> else m) in
       copies gs m' False (take MAX_CLIENTS (subscribers T (topic_of m)))
       @ (if broker_id m = 0 then reply gs m' ACK_OK else [])))"

definition abs_publish :: "msg_t \<Rightarrow> server_state \<Rightarrow> server_state \<times> msg_t list" where
  "abs_publish = abs_publish_at BROKER_ID"

lemmas publish_defs = process_publish_w_def process_publish_at_def abs_publish_def abs_publish_at_def

definition abs_destroy :: "msg_t \<Rightarrow> server_state \<Rightarrow> server_state \<times> msg_t list" where
  "abs_destroy m = (\<lambda>(gs, U, T). case abs_req (Delete (mtype m)) (U, T) of
     (r, U', T') \<Rightarrow> ((case index_of (\<lambda>r. g_global_id r = mtype m) gs of None \<Rightarrow> gs | Some i \<Rightarrow> del_at i gs, U', T'),
        reply gs m (if r < 0 then ACK_ERROR else ACK_DESTROY)))"

definition abs_serve :: "msg_t \<Rightarrow> server_state \<Rightarrow> server_state \<times> msg_t list" where
  "abs_serve m S =
     (if msg_type m = CREATE then abs_create m S
      else if msg_type m = SUBSCRIBE then abs_subscribe m S
      else if msg_type m = PUBLISH then abs_publish m S
      else if msg_type m = DESTROY then abs_destroy m S
      else (S, [m\<lparr>msg_type := ACK_ERROR\<rparr>]))"

fun abs_serves :: "msg_t list \<Rightarrow> server_state \<Rightarrow> server_state \<times> msg_t list" where
  "abs_serves [] S = (S, [])"
| "abs_serves (m # ms) S = (case abs_serve m S of (S1, out1) \<Rightarrow>
     case abs_serves ms S1 of (S2, out2) \<Rightarrow> (S2, out1 @ out2))"

text \<open>
  The requests the refinement covers.  A publication that is to be delivered needs subscribers (for
  a topic without any, the database connection returns what the stack held) and the next server.
\<close>

definition request_fits :: "msg_t \<Rightarrow> server_state \<Rightarrow> bool" where
  "request_fits m S \<longleftrightarrow> 0 < mtype m \<and> is_int32 (mtype m)
     \<and> (msg_type m = SUBSCRIBE \<longrightarrow> topic_fits (topic_of m))
     \<and> (msg_type m = PUBLISH \<and> broker_id m \<noteq> BROKER_ID \<and> handler_of (fst S) (mtype m) \<noteq> None \<longrightarrow>
         topic_fits (topic_of m) \<and> handler_of (fst S) NEXT_SERVER_GLOBAL_ID \<noteq> None
         \<and> subscribers (snd (snd S)) (topic_of m) \<noteq> [] \<and> length (subscribers (snd (snd S)) (topic_of m)) \<le> 134217727)"

fun requests_fit :: "msg_t list \<Rightarrow> server_state \<Rightarrow> bool" where
  "requests_fit [] S = True"
| "requests_fit (m # ms) S = (request_fits m S \<and> requests_fit ms (fst (abs_serve m S)))"

section \<open>The worker implements the abstract server\<close>

text \<open>\<open>answers p w \<dots> S out\<close>: the program \<open>p\<close> returns, leaves the host in state \<open>S\<close> and queues \<open>out\<close>.\<close>

definition answers :: "(host, unit) prog \<Rightarrow> host \<Rightarrow> int \<Rightarrow> int \<Rightarrow> int \<Rightarrow> msg_t list \<Rightarrow> server_state \<Rightarrow> msg_t list \<Rightarrow> bool" where
  "answers p w g q d ms S out \<longleftrightarrow> (\<exists>w'. p w = (Ret (), w')
     \<and> up w' g q d (fst S) (ms @ out) (fst (snd S)) (snd (snd S)) \<and> queues w' = ipc_put q (ms @ out) (queues w))"

lemma answer_send:
  assumes "up w g q d gs ms U T"
  shows "answers (thn (sendmsg mtype q m) (ret ())) w g q d ms (gs, U, T) (if 0 < mtype m then [m] else [])"
  using assms up_queue [OF assms, of "ipc_put q (ms @ [m]) (queues w)" "ms @ [m]"]
  by (auto simp: answers_def bnd_def sendmsg_run ret_def elim!: upE)

lemma answer_after:
  assumes "p w = (Ret x, w1)" "queues w1 = ipc_put q (ms @ out1) (queues w)"
    "answers (f x) w1 g q d (ms @ out1) S out2"
  shows "answers (bnd p f) w g q d ms S (out1 @ out2)"
  using assms by (auto simp: answers_def bnd_def)

lemma up_rows: "up w g q d gs ms U T \<Longrightarrow> length gs \<le> MAX_CLIENTS"
  by (auto elim!: upE simp: serving_def wf_table_def rows_def)

lemma process_create_w_run:
  assumes "up w g q d gs ms U T" "wf_db_msg stk" "ids_below n U" "n < INT_MAX" "0 < mtype m" "is_int32 (mtype m)"
  shows "\<exists>w' gs' m'. process_create_w stk d g m w = (Ret m', w')
    \<and> abs_create m (gs, U, T) = ((gs', U(next_id U \<mapsto> []), T), [m'])
    \<and> up w' g q d gs' ms (U(next_id U \<mapsto> [])) T \<and> queues w' = queues w \<and> mtype m' = mtype m"
proof -
  have "remote stk d w U T" using assms(1,2) by (auto simp: remote_def elim!: upE)
  moreover have "U INT_MAX = None" using assms(3,4) by (force simp: ids_below_def)
  ultimately obtain w1 where
    w1: "conn_add_user stk d w = (Ret (next_id U), w1)" "session w1 d (U(next_id U \<mapsto> [])) T" "only_socket d w w1"
    using conn_add_user_run [of stk d w U T] by (auto simp: remote_def)
  have u1: "up w1 g q d gs ms (U(next_id U \<mapsto> [])) T" "queues w1 = queues w"
    using up_socket [OF assms(1) w1(2,3)] by simp_all
  then obtain t where t: "serving w1 g t" "rows t = gs" "env w1 = []" "ipc_objs (queues w1) q = Some ms" by (auto elim!: upE)
  have n: "0 < next_id U" using next_id_below(1) [OF assms(3)] .
  have cnt: "count t = int (length gs)" using t(1,2) length_rows [of 50 t] by (auto simp: serving_def)
  from add_global_id_run [OF t(1,3), of "next_id U" "mtype m"] obtain t' where
    add: "add_global_id g (next_id U) (mtype m) w1 =
      (if count t \<ge> int MAX_CLIENTS then (Ret (-1), w1) else (Ret (next_id U), w1\<lparr>shms := ipc_put g t' (shms w1)\<rparr>))"
    "count t < int MAX_CLIENTS \<longrightarrow> wf_globals t' \<and> rows t' = gs @ [\<lparr>g_mtype = mtype m, g_global_id = next_id U\<rparr>]"
    using t(2) by auto
  show ?thesis
  proof (cases "length gs < MAX_CLIENTS")
    case True
    have "up (w1\<lparr>shms := ipc_put g t' (shms w1)\<rparr>) g q d (gs @ [\<lparr>g_mtype = mtype m, g_global_id = next_id U\<rparr>]) ms (U(next_id U \<mapsto> [])) T"
      using u1(1) t(1,2) add(2) True cnt assms(5) by (auto simp: up_def serving_def guard_def)
    with True w1(1) add n u1(2) cnt assms(6) show ?thesis
      by (simp add: process_create_w_def bnd_def ret_def Let_def abs_create_def)
  next
    case False
    with w1(1) add n u1 cnt assms(6) show ?thesis
      by (simp add: process_create_w_def bnd_def ret_def Let_def abs_create_def)
  qed
qed

lemma process_subscribe_w_run:
  assumes "up w g q d gs ms U T" "wf_db_msg stk" "is_int32 (mtype m)" "topic_fits (topic_of m)"
  shows "\<exists>w' m' S' out. process_subscribe_w stk d g m w = (Ret m', w')
    \<and> abs_subscribe m (gs, U, T) = (S', if 0 < mtype m' then [m'] else [])
    \<and> up w' g q d (fst S') ms (fst (snd S')) (snd (snd S')) \<and> queues w' = queues w"
proof (cases "handler_of gs (mtype m)")
  case None
  with assms(1,3) show ?thesis
    by (simp add: process_subscribe_w_def bnd_def look_up_sender_run ret_def abs_subscribe_def handler_code_None)
next
  case (Some h)
  note h = up_handler [OF assms(1) Some]
  obtain r U' T' where r: "abs_req (Subscribe (mtype m) (topic_of m)) (U, T) = (r, U', T')" by (metis prod_cases3)
  have "remote stk d w U T" using assms(1,2) by (auto simp: remote_def elim!: upE)
  from conn_subscribe_run [OF this assms(3,4) r] obtain w1 where
    w1: "conn_subscribe stk d (mtype m) (topic (payload m)) w = (Ret r, w1)" "session w1 d U' T'" "only_socket d w w1"
    by (auto simp: remote_def conn_topic)
  with up_socket [OF assms(1) w1(2,3)] assms(1,3) Some h r show ?thesis
    by (simp add: process_subscribe_w_def bnd_def look_up_sender_run ret_def abs_subscribe_def)
qed

lemma remove_row_run:
  fixes i :: int
  assumes "up w g q d gs ms U T"
  defines "gs' \<equiv> (case index_of (\<lambda>r. g_global_id r = i) gs of None \<Rightarrow> gs | Some k \<Rightarrow> del_at k gs)"
  shows "\<exists>r w'. remove_global_id g i w = (Ret r, w') \<and> (r < 0 \<longleftrightarrow> handler_of gs i = None)
    \<and> up w' g q d gs' ms U T \<and> queues w' = queues w"
proof -
  obtain t where t: "serving w g t" "rows t = gs" "env w = []" using assms(1) by (rule upE)
  from remove_global_id_run [OF t(1,3), of i] obtain t' where
    rm: "remove_global_id g i w = (case index_of (\<lambda>r. g_global_id r = i) gs of
         None \<Rightarrow> (Ret (-1), w)
       | Some k \<Rightarrow> (Ret (int k), w\<lparr>shms := ipc_put g t' (shms w)\<rparr>))"
    "\<forall>k. index_of (\<lambda>r. g_global_id r = i) gs = Some k \<longrightarrow> wf_globals t' \<and> rows t' = del_at k gs"
    using t(2) by auto
  show ?thesis
  proof (cases "index_of (\<lambda>r. g_global_id r = i) gs")
    case None
    with assms(1) rm show ?thesis by (simp add: handler_of_def index_of_row_of gs'_def)
  next
    case (Some k)
    have "up (w\<lparr>shms := ipc_put g t' (shms w)\<rparr>) g q d (del_at k gs) ms U T"
      using assms(1) rm(2) Some set_del_at_subset [of k gs] by (auto simp: up_def serving_def guard_def)
    with Some rm(1) show ?thesis by (simp add: handler_of_def index_of_row_of gs'_def)
  qed
qed

lemma process_destroy_w_run:
  assumes "up w g q d gs ms U T" "wf_db_msg stk" "is_int32 (mtype m)"
  shows "\<exists>w' m' S'. process_destroy_w stk d g m w = (Ret m', w')
    \<and> abs_destroy m (gs, U, T) = (S', if 0 < mtype m' then [m'] else [])
    \<and> up w' g q d (fst S') ms (fst (snd S')) (snd (snd S')) \<and> queues w' = queues w"
proof -
  obtain r U' T' where r: "abs_req (Delete (mtype m)) (U, T) = (r, U', T')" by (metis prod_cases3)
  have "remote stk d w U T" using assms(1,2) by (auto simp: remote_def elim!: upE)
  from conn_delete_run [OF this assms(3) r] obtain w1 where
    w1: "conn_delete stk d (mtype m) w = (Ret r, w1)" "session w1 d U' T'" "only_socket d w w1"
    by (auto simp: remote_def)
  have u1: "up w1 g q d gs ms U' T'" "queues w1 = queues w" using up_socket [OF assms(1) w1(2,3)] by simp_all
  obtain k w2 where
    w2: "remove_global_id g (mtype m) w1 = (Ret k, w2)" "k < 0 \<longleftrightarrow> handler_of gs (mtype m) = None"
    "up w2 g q d (case index_of (\<lambda>r. g_global_id r = mtype m) gs of None \<Rightarrow> gs | Some k \<Rightarrow> del_at k gs) ms U' T'"
    "queues w2 = queues w1"
    using remove_row_run [OF u1(1), of "mtype m"] by (elim exE conjE) (rule that)
  show ?thesis
  proof (cases "handler_of gs (mtype m)")
    case None
    then show ?thesis
      using assms(1,3) w1(1) w2 u1(2) r
      by (simp add: process_destroy_w_def bnd_def look_up_sender_run ret_def Let_def abs_destroy_def handler_code_None del: abs_req.simps)
  next
    case (Some h)
    note up_handler [OF assms(1) Some]
    with Some show ?thesis
      using assms(1,3) w1(1) w2 u1(2) r
      by (simp add: process_destroy_w_def bnd_def look_up_sender_run ret_def Let_def abs_destroy_def del: abs_req.simps)
  qed
qed

text \<open>What a publication that is to be delivered needs.\<close>

definition publish_fits :: "msg_t \<Rightarrow> server_state \<Rightarrow> bool" where
  "publish_fits m S \<longleftrightarrow> topic_fits (topic_of m) \<and> handler_of (fst S) NEXT_SERVER_GLOBAL_ID \<noteq> None
     \<and> subscribers (snd (snd S)) (topic_of m) \<noteq> [] \<and> length (subscribers (snd (snd S)) (topic_of m)) \<le> 134217727"

lemma process_publish_at_run:
  assumes "up w g q d gs ms U T" "wf_db_msg stk" "is_int32 (mtype m)"
    "broker_id m \<noteq> b \<Longrightarrow> handler_of gs (mtype m) \<noteq> None \<Longrightarrow> publish_fits m (gs, U, T)"
  shows "\<exists>w' m' ack cs. process_publish_at b stk d g q m w = (Ret (ack, m'), w')
    \<and> abs_publish_at b m (gs, U, T) = ((gs, U, T), cs @ (if ack \<and> 0 < mtype m' then [m'] else []))
    \<and> up w' g q d gs (ms @ cs) U T \<and> queues w' = ipc_put q (ms @ cs) (queues w)"
proof -
  have qs: "ipc_objs (queues w) q = Some ms" using assms(1) by (rule upE)
  show ?thesis
  proof (cases "broker_id m = b \<or> handler_of gs (mtype m) = None")
    case True
    with assms(1,3) qs show ?thesis
      by (auto intro!: exI [of _ "[]"] simp: publish_defs bnd_def look_up_sender_run ret_def Let_def handler_code_None)
  next
    case False
    then obtain h where h: "handler_of gs (mtype m) = Some h" by auto
    note hc = up_handler [OF assms(1) h]
    let ?m = "if broker_id m = 0 then m\<lparr>broker_id := b\<rparr> else m"
    let ?m1 = "?m\<lparr>global_id := mtype m, mtype := h\<rparr>"
    have f: "topic_fits (topic_of m)" "handler_of gs 0 \<noteq> None" "subscribers T (topic_of m) \<noteq> []"
      "length (subscribers T (topic_of m)) \<le> 134217727" "payload ?m1 = payload m"
      using assms(4) False by (auto simp: publish_fits_def)
    from send_to_subs_run [OF assms(1,2) f(2), of ?m1] f obtain w1 where
      w1: "send_to_subs stk d g q ?m1 w = (Ret 0, w1)"
      "up w1 g q d gs (ms @ copies gs ?m1 False (take MAX_CLIENTS (subscribers T (topic_of m)))) U T"
      "queues w1 = ipc_put q (ms @ copies gs ?m1 False (take MAX_CLIENTS (subscribers T (topic_of m)))) (queues w)"
      by auto
    have lk: "look_up_sender g ?m w = (Ret ?m1, w)" using look_up_sender_run [OF assms(1), of ?m] assms(3) hc(2) by simp
    have "process_publish_at b stk d g q m w = (Ret (broker_id m = 0, ?m1\<lparr>msg_type := ACK_OK\<rparr>), w1)"
      using False hc(1) lk w1(1) by (simp add: process_publish_at_def bnd_def ret_def Let_def)
    moreover have "abs_publish_at b m (gs, U, T) = ((gs, U, T), copies gs ?m1 False (take MAX_CLIENTS (subscribers T (topic_of m)))
        @ (if broker_id m = 0 \<and> 0 < mtype (?m1\<lparr>msg_type := ACK_OK\<rparr>) then [?m1\<lparr>msg_type := ACK_OK\<rparr>] else []))"
      using False h hc(1) by (simp add: abs_publish_at_def copies_msg Let_def)
    ultimately show ?thesis using w1(2,3) by blast
  qed
qed

lemma publish_at_answers:
  assumes "up w g q d gs ms U T" "wf_db_msg stk" "msg_type m = PUBLISH" "is_int32 (mtype m)"
    "broker_id m \<noteq> b \<Longrightarrow> handler_of gs (mtype m) \<noteq> None \<Longrightarrow> publish_fits m (gs, U, T)"
  shows "answers (process_msg_at b stk d g q m) w g q d ms (gs, U, T) (snd (abs_publish_at b m (gs, U, T)))"
proof -
  from process_publish_at_run [OF assms(1,2,4,5)] obtain w' m' ack cs where
    p: "process_publish_at b stk d g q m w = (Ret (ack, m'), w')"
    "abs_publish_at b m (gs, U, T) = ((gs, U, T), cs @ (if ack \<and> 0 < mtype m' then [m'] else []))"
    "up w' g q d gs (ms @ cs) U T" "queues w' = ipc_put q (ms @ cs) (queues w)" by blast
  have rest: "answers (if ack then thn (sendmsg mtype q m') (ret ()) else ret ()) w' g q d (ms @ cs) (gs, U, T)
      (if ack \<and> 0 < mtype m' then [m'] else [])"
    using answer_send [OF p(3), of m'] p(3) by (auto simp: answers_def ret_def elim!: upE)
  have one: "process_msg_at b stk d g q m w = bnd (process_publish_at b stk d g q m) (\<lambda>(ack, m).
      if ack then thn (sendmsg mtype q m) (ret ()) else ret ()) w"
    using assms(3) by (simp add: process_msg_at_def)
  have "answers (bnd (process_publish_at b stk d g q m) (\<lambda>(ack, m). if ack then thn (sendmsg mtype q m) (ret ()) else ret ()))
      w g q d ms (gs, U, T) (snd (abs_publish_at b m (gs, U, T)))"
    unfolding p(2) snd_conv by (rule answer_after, rule p(1), rule p(4), simp only: prod.case, rule rest)
  then show ?thesis by (simp add: answers_def one)
qed

text \<open>One request.\<close>

lemma process_msg_w_run:
  assumes "up w g q d gs ms U T" "wf_db_msg stk" "ids_below n U" "n < INT_MAX" "request_fits m (gs, U, T)"
    "abs_serve m (gs, U, T) = (S', out)"
  shows "answers (process_msg_w stk d g q m) w g q d ms S' out"
proof -
  have m: "0 < mtype m" "is_int32 (mtype m)" using assms(5) by (simp_all add: request_fits_def)
  have qs: "ipc_objs (queues w) q = Some ms" using assms(1) by (rule upE)
  have fin: "answers (thn (sendmsg mtype q m') (ret ())) w' g q d ms S' out"
    if "up w' g q d (fst S') ms (fst (snd S')) (snd (snd S'))" "out = (if 0 < mtype m' then [m'] else [])" for w' m'
    using answer_send [OF that(1), of m'] that(2) by simp
  consider "msg_type m = CREATE" | "msg_type m = SUBSCRIBE" | "msg_type m = PUBLISH" | "msg_type m = DESTROY"
    | "msg_type m \<notin> {CREATE, SUBSCRIBE, PUBLISH, DESTROY}" by blast
  then show ?thesis
  proof cases
    case 1
    from process_create_w_run [OF assms(1-4) m] 1 assms(6) m(1) obtain w' m' where
      "process_create_w stk d g m w = (Ret m', w')" "up w' g q d (fst S') ms (fst (snd S')) (snd (snd S'))"
      "out = (if 0 < mtype m' then [m'] else [])" "queues w' = queues w"
      by (auto simp: abs_serve_def)
    with fin [of w' m'] 1 show ?thesis by (simp add: process_msg_w_unfold answers_def bnd_def ret_def)
  next
    case 2
    with assms(5) have "topic_fits (topic_of m)" by (simp add: request_fits_def)
    from process_subscribe_w_run [OF assms(1,2) m(2) this] 2 assms(6) obtain w' m' where
      "process_subscribe_w stk d g m w = (Ret m', w')" "up w' g q d (fst S') ms (fst (snd S')) (snd (snd S'))"
      "out = (if 0 < mtype m' then [m'] else [])" "queues w' = queues w"
      by (auto simp: abs_serve_def)
    with fin [of w' m'] 2 show ?thesis by (simp add: process_msg_w_unfold answers_def bnd_def ret_def)
  next
    case 3
    have "broker_id m \<noteq> BROKER_ID \<Longrightarrow> handler_of gs (mtype m) \<noteq> None \<Longrightarrow> publish_fits m (gs, U, T)"
      using assms(5) 3 by (auto simp: request_fits_def publish_fits_def)
    moreover have "S' = (gs, U, T)" "out = snd (abs_publish m (gs, U, T))"
      using assms(6) 3 by (auto simp: abs_serve_def abs_publish_def abs_publish_at_def)
    ultimately show ?thesis
      using publish_at_answers [OF assms(1,2) 3 m(2), of BROKER_ID] by (simp add: process_msg_w_def abs_publish_def)
  next
    case 4
    from process_destroy_w_run [OF assms(1,2) m(2)] 4 assms(6) obtain w' m' where
      "process_destroy_w stk d g m w = (Ret m', w')" "up w' g q d (fst S') ms (fst (snd S')) (snd (snd S'))"
      "out = (if 0 < mtype m' then [m'] else [])" "queues w' = queues w"
      by (auto simp: abs_serve_def)
    with fin [of w' m'] 4 show ?thesis by (simp add: process_msg_w_unfold answers_def bnd_def ret_def)
  next
    case 5
    with assms(6) have "S' = (gs, U, T)" "out = [m\<lparr>msg_type := ACK_ERROR\<rparr>]" by (auto simp: abs_serve_def)
    with 5 assms(1) m(1) fin [of w "m\<lparr>msg_type := ACK_ERROR\<rparr>"] show ?thesis
      by (simp add: process_msg_w_unfold answers_def bnd_def ret_def)
  qed
qed

text \<open>The users of the database after a request: at most one identifier more.\<close>

lemma abs_serve_ids:
  assumes "abs_serve m (gs, U, T) = ((gs', U', T'), out)" "ids_below n U"
  shows "ids_below (n + 1) U'"
proof -
  have same: "ids_below (n + 1) U" using assms(2) by (fastforce simp: ids_below_def)
  have step: "abs_req x (U, T) = (r, U', T') \<Longrightarrow> ids_below (n + 1) U'" for x r
    using ids_below_abs_req [OF assms(2)] .
  show ?thesis
    using assms(1) same step [of AddUser] step [of "Subscribe (mtype m) (topic_of m)"] step [of "Delete (mtype m)"]
    by (auto simp: abs_serve_def abs_create_def abs_subscribe_def publish_defs abs_destroy_def Let_def
        simp del: abs_req.simps(2,3) split: if_splits option.splits prod.splits)
qed

lemma worker_step_publish_run:
  assumes "up w g q d gs ms U T" "ipc_objs (queues w) wq = Some (m # rest)" "wq \<noteq> q" "wf_db_msg stk"
    "msg_type m = PUBLISH" "is_int32 (mtype m)"
    "broker_id m \<noteq> b \<Longrightarrow> handler_of gs (mtype m) \<noteq> None \<Longrightarrow> publish_fits m (gs, U, T)"
  shows "\<exists>w'. worker_step_at b stk stk_msg wq q g d w = (Ret (), w')
    \<and> up w' g q d gs (ms @ snd (abs_publish_at b m (gs, U, T))) U T \<and> ipc_objs (queues w') wq = Some rest"
proof -
  let ?w = "w\<lparr>queues := ipc_put wq rest (queues w)\<rparr>"
  have rcv: "rcvmsg mtype wq stk_msg 0 w = (Ret (0, m), ?w)"
    using assms(1,2) by (elim upE, intro wp_eqI) (simp add: wp take_msg_any)
  have qs: "ipc_objs (queues w) q = Some ms" using assms(1) by (rule upE)
  have "up ?w g q d gs ms U T" using up_queue [OF assms(1), of "ipc_put wq rest (queues w)" ms] assms(3) qs by simp
  from publish_at_answers [OF this assms(4-6), of b] assms(3,7) rcv show ?thesis
    by (auto simp: answers_def worker_step_at_def bnd_def)
qed

lemma worker_step_run:
  assumes "up w g q d gs ms U T" "ipc_objs (queues w) wq = Some (m # rest)" "wq \<noteq> q" "wf_db_msg stk"
    "ids_below n U" "n < INT_MAX" "request_fits m (gs, U, T)" "abs_serve m (gs, U, T) = (S', out)"
  shows "\<exists>w'. worker_step stk stk_msg wq q g d w = (Ret (), w')
    \<and> up w' g q d (fst S') (ms @ out) (fst (snd S')) (snd (snd S')) \<and> ipc_objs (queues w') wq = Some rest"
proof -
  let ?w = "w\<lparr>queues := ipc_put wq rest (queues w)\<rparr>"
  have rcv: "rcvmsg mtype wq stk_msg 0 w = (Ret (0, m), ?w)"
    using assms(1,2) by (elim upE, intro wp_eqI) (simp add: wp take_msg_any)
  have qs: "ipc_objs (queues w) q = Some ms" using assms(1) by (rule upE)
  have "up ?w g q d gs ms U T" using up_queue [OF assms(1), of "ipc_put wq rest (queues w)" ms] assms(3) qs by simp
  from process_msg_w_run [OF this assms(4-8)] rcv assms(3) show ?thesis
    by (auto simp: answers_def worker_step_unfold bnd_def)
qed

lemma worker_loop_run:
  assumes "up w g q d gs ms U T" "ipc_objs (queues w) wq = Some (rs @ rest)" "wq \<noteq> q" "length ss = length rs"
    "\<forall>s\<in>set ss. wf_db_msg (fst s)" "ids_below n U" "n + int (length rs) \<le> INT_MAX" "requests_fit rs (gs, U, T)"
    "abs_serves rs (gs, U, T) = ((gs', U', T'), out)"
  shows "\<exists>w'. worker_loop ss wq q g d w = (Ret (), w') \<and> up w' g q d gs' (ms @ out) U' T'
    \<and> ipc_objs (queues w') wq = Some rest"
  using assms
proof (induction rs arbitrary: w gs ms U T ss n out)
  case Nil
  then show ?case by (simp add: ret_def)
next
  case (Cons m rs)
  obtain s ss' where ss: "ss = s # ss'" using Cons.prems(4) by (cases ss) auto
  obtain gs1 U1 T1 out1 where one: "abs_serve m (gs, U, T) = ((gs1, U1, T1), out1)" by (metis prod_cases4 surj_pair)
  with Cons.prems(9) obtain out2 where two: "abs_serves rs (gs1, U1, T1) = ((gs', U', T'), out2)" "out = out1 @ out2"
    by (auto split: prod.splits)
  from worker_step_run [OF Cons.prems(1) _ Cons.prems(3) _ Cons.prems(6) _ _ one, of "rs @ rest" "fst s" "snd s"]
    Cons.prems(2,5,7,8) ss obtain w1 where
    w1: "worker_step (fst s) (snd s) wq q g d w = (Ret (), w1)" "up w1 g q d gs1 (ms @ out1) U1 T1"
      "ipc_objs (queues w1) wq = Some (rs @ rest)" by auto
  from Cons.IH [OF w1(2,3) Cons.prems(3) _ _ abs_serve_ids [OF one Cons.prems(6)] _ _ two(1), of ss'] Cons.prems(4,5,7,8) ss one
  obtain w2 where "worker_loop ss' wq q g d w1 = (Ret (), w2)" "up w2 g q d gs' (ms @ out1 @ out2) U' T'"
    "ipc_objs (queues w2) wq = Some rest" by auto
  with w1(1) ss two(2) show ?case by (simp add: bnd_def)
qed

section \<open>Invariant of the server\<close>

text \<open>
  Each client of this server has one row, and the rows are those of users of the database and of the
  next server.
\<close>

definition hosts_users :: "server_state \<Rightarrow> bool" where
  "hosts_users S \<longleftrightarrow> distinct (map g_global_id (fst S)) \<and> g_global_id ` set (fst S) \<subseteq> insert 0 (dom (fst (snd S)))"

lemma hosts_users_del:
  assumes "distinct (map g_global_id gs)" "index_of (\<lambda>r. g_global_id r = i) gs = Some k"
  shows "distinct (map g_global_id (del_at k gs)) \<and> g_global_id ` set (del_at k gs) \<subseteq> g_global_id ` set gs - {i}"
proof -
  have k: "k < length gs" "g_global_id (gs ! k) = i" using index_of_SomeD [OF assms(2)] by simp_all
  with distinct_del_at [OF assms(1), of k] have "distinct (map g_global_id (del_at k gs))" "i \<notin> g_global_id ` set (del_at k gs)"
    by (simp_all add: map_del_at [symmetric])
  then show ?thesis using set_del_at_subset [of k gs] by blast
qed

lemma abs_serve_hosts_users:
  assumes "abs_serve m (gs, U, T) = (S', out)" "hosts_users (gs, U, T)" "ids_below n U" "0 < mtype m"
  shows "hosts_users S'"
proof -
  note new = next_id_below [OF assms(3)]
  have "next_id U \<notin> g_global_id ` set gs"
    using assms(2) new(1,3) by (auto simp: hosts_users_def)
  then have create: "hosts_users (fst (abs_create m (gs, U, T)))"
    using assms(2) by (auto simp: hosts_users_def abs_create_def Let_def)
  have sub: "hosts_users (fst (abs_subscribe m (gs, U, T)))"
    using assms(2) by (auto simp: hosts_users_def abs_subscribe_def split: option.split)
  have gone: "distinct (map g_global_id gs') \<and> g_global_id ` set gs' \<subseteq> g_global_id ` set gs - {mtype m}"
    if "gs' = (case index_of (\<lambda>r. g_global_id r = mtype m) gs of None \<Rightarrow> gs | Some i \<Rightarrow> del_at i gs)" for gs'
    using hosts_users_del [of gs "mtype m"] assms(2) that
    by (cases "index_of (\<lambda>r. g_global_id r = mtype m) gs") (auto simp: hosts_users_def index_of_None_iff)
  have destroy: "hosts_users (fst (abs_destroy m (gs, U, T)))"
  proof -
    obtain r U' T' where del: "abs_req (Delete (mtype m)) (U, T) = (r, U', T')" by (metis prod_cases3)
    then have u: "dom U - {mtype m} \<subseteq> dom U'" by (auto split: option.splits)
    define gs' where "gs' = (case index_of (\<lambda>r. g_global_id r = mtype m) gs of None \<Rightarrow> gs | Some i \<Rightarrow> del_at i gs)"
    have "fst (abs_destroy m (gs, U, T)) = (gs', U', T')"
      by (simp add: abs_destroy_def del gs'_def del: abs_req.simps)
    moreover have "g_global_id ` set gs' \<subseteq> insert 0 (dom U')"
    proof -
      have "g_global_id ` set gs' \<subseteq> g_global_id ` set gs - {mtype m}" using gone [OF gs'_def] by (rule conjunct2)
      moreover have "g_global_id ` set gs \<subseteq> insert 0 (dom U)" using assms(2) by (simp add: hosts_users_def)
      moreover have "A \<subseteq> B - {x} \<Longrightarrow> B \<subseteq> insert 0 D \<Longrightarrow> D - {x} \<subseteq> D' \<Longrightarrow> A \<subseteq> insert 0 D'" for A B D D' and x :: int
        by blast
      ultimately show ?thesis using u by simp
    qed
    ultimately show ?thesis
      using gone [OF gs'_def] by (simp add: hosts_users_def)
  qed
  show ?thesis
    using assms(1,2) create sub destroy
    by (auto simp: abs_serve_def publish_defs split: if_splits)
qed

lemma abs_serves_hosts_users:
  assumes "abs_serves rs (gs, U, T) = (S', out)" "hosts_users (gs, U, T)" "ids_below n U" "requests_fit rs (gs, U, T)"
  shows "hosts_users S'"
  using assms
proof (induction rs arbitrary: gs U T n out)
  case (Cons m rs)
  obtain gs1 U1 T1 out1 where one: "abs_serve m (gs, U, T) = ((gs1, U1, T1), out1)" by (metis prod_cases4 surj_pair)
  with Cons.prems(1) obtain out2 where two: "abs_serves rs (gs1, U1, T1) = (S', out2)" by (auto split: prod.splits)
  have "0 < mtype m" using Cons.prems(4) by (simp add: request_fits_def)
  from Cons.IH [OF two abs_serve_hosts_users [OF one Cons.prems(2,3) this] abs_serve_ids [OF one Cons.prems(3)]] Cons.prems(4) one
  show ?case by simp
qed simp

section \<open>Under every outcome of the system calls\<close>

text \<open>
  \<open>steady g p\<close>: started with the table at \<open>g\<close> in service, the program \<open>p\<close> leaves it in service
  whenever it returns, whatever calls fail and whatever the other end of a socket sends.
\<close>

named_theorems steady "programs that leave the table of global identifiers in service"

definition steady :: "int \<Rightarrow> (host, 'a) prog \<Rightarrow> bool" where
  "steady g p \<longleftrightarrow> (\<forall>w. in_service w g \<longrightarrow> wp p (\<lambda>r w'. (\<exists>x. r = Ret x) \<longrightarrow> in_service w' g) w)"

lemma in_service_updates [simp]:
  fixes w :: host
  shows "in_service (w\<lparr>env := e\<rparr>) g = in_service w g" "in_service (w\<lparr>sent := s\<rparr>) g = in_service w g"
    "in_service (w\<lparr>got := n\<rparr>) g = in_service w g" "in_service (w\<lparr>queues := x\<rparr>) g = in_service w g"
  by (simp_all add: in_service_def serving_def guard_def)

lemma steady_basic [steady]:
  "steady g (ret x)" "steady g (stop r)" "steady g (lift_res r)" "steady g (gets f)" "steady g syscall"
  by (simp_all add: steady_def)

lemma steady_bnd [steady]:
  fixes p :: "(host, 'a) prog" and f :: "'a \<Rightarrow> (host, 'b) prog"
  assumes "steady g p" "\<And>x. steady g (f x)"
  shows "steady g (bnd p f)"
  unfolding steady_def
proof (intro allI impI)
  fix w :: host assume "in_service w g"
  then have "wp p (\<lambda>r w'. (\<exists>x. r = Ret x) \<longrightarrow> in_service w' g) w" using assms(1) by (simp add: steady_def)
  then show "wp (bnd p f) (\<lambda>r w'. (\<exists>x. r = Ret x) \<longrightarrow> in_service w' g) w"
    unfolding wp_bnd
  proof (rule wp_mono)
    fix r :: "'a res" and w' :: host assume "(\<exists>x. r = Ret x) \<longrightarrow> in_service w' g"
    with assms(2) show "and_then (\<lambda>x. wp (f x) (\<lambda>r w'. (\<exists>x. r = Ret x) \<longrightarrow> in_service w' g))
        (\<lambda>r w'. (\<exists>x. r = Ret x) \<longrightarrow> in_service w' g) r w'"
      by (cases r) (simp_all add: steady_def)
  qed
qed

lemma steady_branch [steady]:
  "(b \<Longrightarrow> steady g p) \<Longrightarrow> (\<not> b \<Longrightarrow> steady g p') \<Longrightarrow> steady g (if b then p else p')"
  "steady g p \<Longrightarrow> (\<And>x. steady g (f x)) \<Longrightarrow> steady g (case z of None \<Rightarrow> p | Some x \<Rightarrow> f x)"
  "(\<And>x y. steady g (h x y)) \<Longrightarrow> steady g (case v of (x, y) \<Rightarrow> h x y)"
  by (simp_all split: option.split prod.split)

lemma steady_calls [steady]:
  "steady g (sock_write fd bs)" "steady g (sock_read fd k)" "steady g (sendmsg mt q m)"
  by (auto simp: steady_def wp Let_def split: option.split outcome.split)

lemma steady_send_from [steady]: "steady g (send_from fd b n)"
  by (induction fd b n rule: send_from.induct) (subst send_from.simps, intro steady)

lemma steady_receive_from [steady]: "steady g (receive_from fd k n b)"
  by (induction fd k n b rule: receive_from.induct) (subst receive_from.simps, auto intro!: steady)

lemma steady_conn [steady]:
  "steady g (conn_add_user stk d)" "steady g (conn_subscribe stk d i tp)" "steady g (conn_delete stk d i)"
  "steady g (conn_get_subscribed stk d tp v)"
  by (auto simp: conn_add_user_def conn_subscribe_def conn_delete_def conn_get_subscribed_def db_exchange_def
      socket_send_db_def socket_receive_db_def send_struct_def receive_struct_def intro!: steady)

lemma steady_table [steady]: "steady g (get_mtype g i)" "0 < m \<Longrightarrow> steady g (add_global_id g i m)" "steady g (remove_global_id g i)"
  unfolding steady_def in_service_def [of _ g]
  using get_mtype_safe [of _ g _ i] add_global_id_safe [of _ g _ m i] remove_global_id_safe [of _ g _ i]
  by (fastforce elim!: wp_mono simp: wp_and back_in_service_def in_service_def)+

lemma steady_look_up [steady]: "steady g (look_up_sender g m)"
  by (auto simp: look_up_sender_def Let_def intro!: steady)

lemma steady_deliver [steady]: "steady g (deliver n g q v i msg fwd)"
proof -
  have "steady g (deliver_one g q i m fwd)" for i m fwd
    by (auto simp: deliver_one_def Let_def intro!: steady)
  then show ?thesis by (induction n arbitrary: i msg fwd) (auto intro!: steady)
qed

lemma steady_process_msg:
  "msg_type m = CREATE \<longrightarrow> 0 < int_of_long (mtype m) \<Longrightarrow> steady g (process_msg_w stk d g q m)"
  unfolding process_msg_w_unfold process_create_w_def process_subscribe_w_def publish_defs process_destroy_w_def
    send_to_subs_def Let_def
  by (auto intro!: steady)

section \<open>Properties\<close>

text \<open>
  A server host on which the clients \<open>gs\<close> are in the table, the database is new, and \<open>rs\<close> waits in
  the worker queue; \<open>ring_row\<close> is the next server, whose response handler is process 60.
\<close>

definition ring_row :: global_id_t where
  "ring_row = \<lparr>g_mtype = 60, g_global_id = NEXT_SERVER_GLOBAL_ID\<rparr>"

definition server_host :: "global_id_t list \<Rightarrow> msg_t list \<Rightarrow> host" where
  "server_host gs rs = connected\<lparr>
     sems := \<lparr>ipc_keys = [ftok_key 1 GLOBAL_IDS_SEM \<mapsto> 0], ipc_objs = [0 \<mapsto> 1], ipc_next = 1\<rparr>,
     shms := \<lparr>ipc_keys = [ftok_key 1 GLOBAL_IDS_SHM \<mapsto> 0],
              ipc_objs = [0 \<mapsto> \<lparr>count = int (length gs), ids = gs @ replicate (50 - length gs) \<lparr>g_mtype = 0, g_global_id = 0\<rparr>\<rparr>],
              ipc_next = 1\<rparr>,
     queues := \<lparr>ipc_keys = [ftok_key 1 WORKER_QUEUE \<mapsto> 0, ftok_key 1 RESP_QUEUE \<mapsto> 1], ipc_objs = [0 \<mapsto> rs, 1 \<mapsto> []], ipc_next = 2\<rparr>\<rparr>"

definition request :: "int \<Rightarrow> int \<Rightarrow> string \<Rightarrow> msg_t" where
  "request ty i tp = \<lparr>mtype = i, global_id = 0, msg_type = ty,
     payload = \<lparr>topic = put_field MAX_TOPIC_LENGTH (replicate 30 NUL) tp, body = replicate 100 NUL\<rparr>, broker_id = 0\<rparr>"

lemma request_simps [simp]:
  "mtype (request ty i tp) = i" "msg_type (request ty i tp) = ty" "broker_id (request ty i tp) = 0"
  "topic_of (request ty i tp) = take 29 (cstr tp)"
  by (simp_all add: request_def cstr_put_field)

lemma server_host_up:
  "length gs \<le> 50 \<Longrightarrow> \<forall>r\<in>set gs. 0 < g_mtype r \<Longrightarrow> up (server_host gs rs) 0 1 4 gs [] Map.empty Map.empty"
  "ipc_objs (queues (server_host gs rs)) 0 = Some rs"
proof -
  assume a: "length gs \<le> 50" "\<forall>r\<in>set gs. 0 < g_mtype r"
  let ?t = "\<lparr>count = int (length gs), ids = gs @ replicate (50 - length gs) \<lparr>g_mtype = 0, g_global_id = 0\<rparr>\<rparr>"
  have "session (server_host gs rs) 4 Map.empty Map.empty"
    using connected_session [of 4] by (simp add: server_host_def session_def)
  moreover have "serving (server_host gs rs) 0 ?t"
    using a by (simp add: serving_def guard_def server_host_def connected_def idle_host_def wf_table_def rows_def)
  ultimately show "up (server_host gs rs) 0 1 4 gs [] Map.empty Map.empty"
    by (auto simp: up_def server_host_def rows_def)
qed (simp add: server_host_def)

lemma ring_host_up: "up (server_host [ring_row] rs) 0 1 4 [ring_row] [] Map.empty Map.empty"
  by (rule server_host_up(1)) (simp_all add: ring_row_def)

text \<open>Three requests to a server that knows only the next server of the ring.\<close>

abbreviation three_requests :: "msg_t list" where
  "three_requests \<equiv> [request CREATE 70 '''', request SUBSCRIBE 1 ''rain'', request PUBLISH 1 ''rain'']"

lemma three_requests_served:
  obtains gs' U' T' out where
    "abs_serves three_requests ([ring_row], Map.empty, Map.empty) = ((gs', U', T'), out)"
    "map (\<lambda>m. (mtype m, global_id m, msg_type m)) out
        = [(70, 1, ACK_CREATE), (70, 1, ACK_OK), (70, 1, PUBLISH), (70, 1, ACK_OK)]"
    "requests_fit three_requests ([ring_row], Map.empty, Map.empty)"
proof -
  let ?S = "([ring_row], Map.empty, Map.empty) :: server_state"
  have n: "next_id Map.empty = 1" by (simp add: next_id_def)
  have rain: "cstr ''rain'' = ''rain''" "topic_fits ''rain''" using rain_ok by (auto simp: topic_fits_def topic_ok_def)
  note d = n rain abs_serve_def abs_create_def abs_subscribe_def publish_defs Let_def handler_of_def ring_row_def
    subscribers_def request_fits_def is_int32_def handler_code_def
  obtain gs' U' T' out where a: "abs_serves three_requests ?S = ((gs', U', T'), out)" by (metis prod_cases4 surj_pair)
  moreover from a have "map (\<lambda>m. (mtype m, global_id m, msg_type m)) out
      = [(70, 1, ACK_CREATE), (70, 1, ACK_OK), (70, 1, PUBLISH), (70, 1, ACK_OK)]"
    by (auto simp: d)
  moreover have "requests_fit three_requests ?S" by (simp add: d)
  ultimately show ?thesis by (rule that)
qed

text \<open>
  The worker implements the abstract server: for any sequence of requests in its queue, its loop
  takes them in order, changes the table of clients and the database as specified, and puts the
  specified responses and copies of publications on the response queue, in order.
\<close>

theorem worker_refines_abstract:
  "up w g q d gs ms U T \<Longrightarrow> ipc_objs (queues w) wq = Some (rs @ rest) \<Longrightarrow> wq \<noteq> q \<Longrightarrow> length ss = length rs \<Longrightarrow>
   \<forall>s\<in>set ss. wf_db_msg (fst s) \<Longrightarrow> ids_below n U \<Longrightarrow> n + int (length rs) \<le> INT_MAX \<Longrightarrow> requests_fit rs (gs, U, T) \<Longrightarrow>
   abs_serves rs (gs, U, T) = ((gs', U', T'), out) \<Longrightarrow>
   \<exists>w'. worker_loop ss wq q g d w = (Ret (), w') \<and> up w' g q d gs' (ms @ out) U' T'
     \<and> ipc_objs (queues w') wq = Some rest"
  by (rule worker_loop_run)

lemma worker_refines_abstract_witness:
  "\<exists>w' out. worker_loop (replicate 3 (blank_db_msg, request 0 0 '''')) 0 1 0 4 (server_host [ring_row] three_requests) = (Ret (), w')
    \<and> ipc_objs (queues w') 1 = Some out
    \<and> map (\<lambda>m. (mtype m, global_id m, msg_type m)) out
        = [(70, 1, ACK_CREATE), (70, 1, ACK_OK), (70, 1, PUBLISH), (70, 1, ACK_OK)]"
proof -
  obtain gs' U' T' out where t: "abs_serves three_requests ([ring_row], Map.empty, Map.empty) = ((gs', U', T'), out)"
    "map (\<lambda>m. (mtype m, global_id m, msg_type m)) out = [(70, 1, ACK_CREATE), (70, 1, ACK_OK), (70, 1, PUBLISH), (70, 1, ACK_OK)]"
    "requests_fit three_requests ([ring_row], Map.empty, Map.empty)" by (rule three_requests_served)
  have w: "ipc_objs (queues (server_host [ring_row] three_requests)) 0 = Some (three_requests @ [])" by (simp add: server_host_up(2))
  have s: "\<forall>s\<in>set (replicate 3 (blank_db_msg, request 0 0 '''')). wf_db_msg (fst s)" by simp
  from worker_refines_abstract [OF ring_host_up w _ _ s new_db_open(3) _ t(3,1)]
  obtain w' where "worker_loop (replicate 3 (blank_db_msg, request 0 0 '''')) 0 1 0 4 (server_host [ring_row] three_requests) = (Ret (), w')"
    "up w' 0 1 4 gs' out U' T'"
    by (auto simp: INT_MAX_def)
  with t(2) show ?thesis by (auto elim!: upE)
qed

text \<open>
  C14: Whatever requests come, each client of the server keeps exactly one row of the table, and every
  row belongs to a user of the database or to the next server.
\<close>

theorem worker_keeps_table_consistent:
  "up w g q d gs ms U T \<Longrightarrow> ipc_objs (queues w) wq = Some (rs @ rest) \<Longrightarrow> wq \<noteq> q \<Longrightarrow> length ss = length rs \<Longrightarrow>
   \<forall>s\<in>set ss. wf_db_msg (fst s) \<Longrightarrow> ids_below n U \<Longrightarrow> n + int (length rs) \<le> INT_MAX \<Longrightarrow> requests_fit rs (gs, U, T) \<Longrightarrow>
   hosts_users (gs, U, T) \<Longrightarrow>
   \<exists>w' gs' ms' U' T'. worker_loop ss wq q g d w = (Ret (), w') \<and> up w' g q d gs' ms' U' T' \<and> hosts_users (gs', U', T')"
proof -
  assume a: "up w g q d gs ms U T" "ipc_objs (queues w) wq = Some (rs @ rest)" "wq \<noteq> q" "length ss = length rs"
    "\<forall>s\<in>set ss. wf_db_msg (fst s)" "ids_below n U" "n + int (length rs) \<le> INT_MAX" "requests_fit rs (gs, U, T)"
  assume h: "hosts_users (gs, U, T)"
  obtain gs' U' T' out where s: "abs_serves rs (gs, U, T) = ((gs', U', T'), out)" by (metis prod_cases4 surj_pair)
  from worker_loop_run [OF a s] abs_serves_hosts_users [OF s h a(6,8)] show ?thesis by blast
qed

lemma worker_keeps_table_consistent_witness:
  "\<exists>w' gs' ms' U' T'. worker_loop [(blank_db_msg, request 0 0 ''''), (blank_db_msg, request 0 0 '''')] 0 1 0 4
      (server_host [ring_row] [request CREATE 70 '''', request DESTROY 1 '''']) = (Ret (), w')
    \<and> up w' 0 1 4 gs' ms' U' T' \<and> hosts_users (gs', U', T')"
proof -
  let ?rs = "[request CREATE 70 '''', request DESTROY 1 '''']"
  have f: "requests_fit ?rs ([ring_row], Map.empty, Map.empty)" by (simp add: request_fits_def is_int32_def)
  have w: "ipc_objs (queues (server_host [ring_row] ?rs)) 0 = Some (?rs @ [])" by (simp add: server_host_up(2))
  have h: "hosts_users ([ring_row], Map.empty, Map.empty)" by (simp add: hosts_users_def ring_row_def)
  from worker_keeps_table_consistent [OF ring_host_up w _ _ _ new_db_open(3) _ f h, of "[(blank_db_msg, request 0 0 ''''), (blank_db_msg, request 0 0 '''')]"]
  show ?thesis by (simp add: INT_MAX_def)
qed

text \<open>
  C9: A publication, fresh or from the ring, is queued once for every subscriber (of the first 50)
  with a handler on this server, in order of subscription, once for the next server when another
  subscriber exists, and a fresh one is acknowledged to its sender after all copies.
\<close>

theorem publish_delivered:
  "up w g q d gs ms U T \<Longrightarrow> wf_db_msg stk \<Longrightarrow> ids_below n U \<Longrightarrow> n < INT_MAX \<Longrightarrow> request_fits m (gs, U, T) \<Longrightarrow>
   msg_type m = PUBLISH \<Longrightarrow> broker_id m \<noteq> BROKER_ID \<Longrightarrow> handler_of gs (mtype m) = Some h \<Longrightarrow>
   m' = m\<lparr>broker_id := if broker_id m = 0 then BROKER_ID else broker_id m\<rparr> \<Longrightarrow>
   subs = take MAX_CLIENTS (subscribers T (topic_of m)) \<Longrightarrow>
   \<exists>w' cs. process_msg_w stk d g q m w = (Ret (), w')
     \<and> ipc_objs (queues w') q = Some (ms @ cs
          @ (if broker_id m = 0 then [m'\<lparr>global_id := mtype m, mtype := h, msg_type := ACK_OK\<rparr>] else []))
     \<and> filter (\<lambda>c. handler_of gs (global_id c) \<noteq> None) cs
         = map (\<lambda>i. m'\<lparr>global_id := i, mtype := the (handler_of gs i)\<rparr>) (filter (\<lambda>i. handler_of gs i \<noteq> None) subs)
     \<and> filter (\<lambda>c. handler_of gs (global_id c) = None) cs
         = map (\<lambda>i. m'\<lparr>global_id := i, mtype := the (handler_of gs NEXT_SERVER_GLOBAL_ID)\<rparr>)
             (take 1 (filter (\<lambda>i. handler_of gs i = None) subs))"
proof -
  assume a: "up w g q d gs ms U T" "wf_db_msg stk" "ids_below n U" "n < INT_MAX" "request_fits m (gs, U, T)"
  assume b: "msg_type m = PUBLISH" "broker_id m \<noteq> BROKER_ID" "handler_of gs (mtype m) = Some h"
    "m' = m\<lparr>broker_id := if broker_id m = 0 then BROKER_ID else broker_id m\<rparr>" "subs = take MAX_CLIENTS (subscribers T (topic_of m))"
  obtain nxt where nxt: "handler_of gs 0 = Some nxt" using a(5) b(1-3) by (auto simp: request_fits_def)
  let ?cs = "copies gs m' False subs"
  have "abs_serve m (gs, U, T) = ((gs, U, T), ?cs
      @ (if broker_id m = 0 then [m'\<lparr>global_id := mtype m, mtype := h, msg_type := ACK_OK\<rparr>] else []))"
    using b by (simp add: abs_serve_def publish_defs Let_def)
  from process_msg_w_run [OF a this] obtain w' where w': "process_msg_w stk d g q m w = (Ret (), w')"
    "queues w' = ipc_put q (ms @ ?cs @ (if broker_id m = 0 then [m'\<lparr>global_id := mtype m, mtype := h, msg_type := ACK_OK\<rparr>] else [])) (queues w)"
    by (auto simp: answers_def)
  show ?thesis
  proof (intro exI conjI)
    show "process_msg_w stk d g q m w = (Ret (), w')" by (fact w'(1))
    show "filter (\<lambda>c. handler_of gs (global_id c) \<noteq> None) ?cs
        = map (\<lambda>i. m'\<lparr>global_id := i, mtype := the (handler_of gs i)\<rparr>) (filter (\<lambda>i. handler_of gs i \<noteq> None) subs)"
      by (rule copies_local)
    show "filter (\<lambda>c. handler_of gs (global_id c) = None) ?cs
        = map (\<lambda>i. m'\<lparr>global_id := i, mtype := the (handler_of gs NEXT_SERVER_GLOBAL_ID)\<rparr>) (take 1 (filter (\<lambda>i. handler_of gs i = None) subs))"
      using nxt by (simp add: copies_remote handler_code_def)
  qed (simp add: w'(2))
qed

text \<open>A server with one client, number 1 at the response handler 70, who is subscribed to \<open>rain\<close>.\<close>

lemma rain_host:
  "\<exists>w ms. up w 0 1 4 [ring_row, \<lparr>g_mtype = 70, g_global_id = 1\<rparr>] ms [1 \<mapsto> [''rain'']] [''rain'' \<mapsto> [1]]"
proof -
  let ?rs = "[request CREATE 70 '''', request SUBSCRIBE 1 ''rain'']"
  let ?S = "([ring_row], Map.empty, Map.empty) :: server_state"
  have n: "next_id Map.empty = 1" by (simp add: next_id_def)
  have rain: "cstr ''rain'' = ''rain''" "topic_fits ''rain''" using rain_ok by (auto simp: topic_fits_def topic_ok_def)
  note d = n rain abs_serve_def abs_create_def abs_subscribe_def Let_def handler_of_def ring_row_def
    subscribers_def request_fits_def is_int32_def
  have f: "requests_fit ?rs ?S" by (simp add: d)
  have w: "ipc_objs (queues (server_host [ring_row] ?rs)) 0 = Some (?rs @ [])" by (simp add: server_host_up(2))
  obtain out where a: "abs_serves ?rs ?S = (([ring_row, \<lparr>g_mtype = 70, g_global_id = 1\<rparr>], [1 \<mapsto> [''rain'']], [''rain'' \<mapsto> [1]]), out)"
    by (simp add: d)
  from worker_loop_run [OF ring_host_up w _ _ _ new_db_open(3) _ f a, of "[(blank_db_msg, undefined), (blank_db_msg, undefined)]"]
  show ?thesis by (auto simp: INT_MAX_def)
qed

lemma rain_host_facts:
  "handler_of [ring_row, \<lparr>g_mtype = 70, g_global_id = 1\<rparr>] 1 = Some 70" "handler_of [ring_row, \<lparr>g_mtype = 70, g_global_id = 1\<rparr>] 0 = Some 60"
  "handler_of [ring_row, \<lparr>g_mtype = 70, g_global_id = 1\<rparr>] 9 = None"
  "subscribers [''rain'' \<mapsto> [1]] ''rain'' = [1]" "topic_of (request ty i ''rain'') = ''rain''" "topic_fits ''rain''" "ids_below 1 [1 \<mapsto> [''rain'']]"
  using rain_ok by (auto simp: handler_of_def ring_row_def subscribers_def topic_fits_def topic_ok_def ids_below_def)

lemma publish_delivered_witness:
  "\<exists>w ms w'. process_msg_w blank_db_msg 4 0 1 (request PUBLISH 1 ''rain'') w = (Ret (), w')
    \<and> (\<exists>cs. ipc_objs (queues w') 1 = Some (ms @ cs @ [(request PUBLISH 1 ''rain'')\<lparr>broker_id := 1, global_id := 1, mtype := 70, msg_type := ACK_OK\<rparr>])
        \<and> cs \<noteq> [])"
proof -
  let ?gs = "[ring_row, \<lparr>g_mtype = 70, g_global_id = 1\<rparr>]" and ?m = "request PUBLISH 1 ''rain''"
  obtain w ms where w: "up w 0 1 4 ?gs ms [1 \<mapsto> [''rain'']] [''rain'' \<mapsto> [1]]" using rain_host by blast
  have f: "request_fits ?m (?gs, [1 \<mapsto> [''rain'']], [''rain'' \<mapsto> [1]])"
    by (simp add: request_fits_def rain_host_facts is_int32_def del: request_simps(4))
  from publish_delivered [OF w blank_db_msg_wf rain_host_facts(7) _ f _ _ _ refl refl, of 70]
  obtain w' cs where "process_msg_w blank_db_msg 4 0 1 ?m w = (Ret (), w')"
    "ipc_objs (queues w') 1 = Some (ms @ cs @ [?m\<lparr>broker_id := 1, global_id := 1, mtype := 70, msg_type := ACK_OK\<rparr>])"
    "filter (\<lambda>c. handler_of ?gs (global_id c) \<noteq> None) cs = [?m\<lparr>broker_id := 1, global_id := 1, mtype := 70\<rparr>]"
    by (auto simp: rain_host_facts INT_MAX_def simp del: request_simps(4))
  then show ?thesis by (intro exI [of _ w] exI [of _ ms] exI [of _ w'] conjI exI [of _ cs]) auto
qed

text \<open>
  C18: A request to subscribe, to publish or to be removed from a sender without a row in the table is never
  answered: the error response carries the negative code of the lookup as its type, which the message queue
  refuses, and nothing else is queued for anybody.  A subscription or publication changes nothing at all; a
  removal does: the database deletes the user with that identifier and its subscriptions, although the sender
  is not a client of this server.
\<close>

theorem unknown_sender_never_answered:
  "up w g q d gs ms U T \<Longrightarrow> is_int32 (mtype m) \<Longrightarrow> handler_of gs (mtype m) = None \<Longrightarrow> wf_db_msg stk \<Longrightarrow>
   msg_type m \<in> {SUBSCRIBE, PUBLISH, DESTROY} \<Longrightarrow>
   \<exists>w'. process_msg_w stk d g q m w = (Ret (), w') \<and> queues w' = queues w
     \<and> (if msg_type m = DESTROY
        then up w' g q d gs ms (U(mtype m := None)) (case U (mtype m) of None \<Rightarrow> T | Some ts \<Rightarrow> without (mtype m) ts T)
        else w' = w)"
proof -
  assume a: "up w g q d gs ms U T" "is_int32 (mtype m)" "handler_of gs (mtype m) = None" "wf_db_msg stk"
    "msg_type m \<in> {SUBSCRIBE, PUBLISH, DESTROY}"
  show ?thesis
  proof (cases "msg_type m = DESTROY")
    case False
    with a have "process_msg_w stk d g q m w = (Ret (), w)"
      by (auto simp: process_msg_w_unfold process_subscribe_w_def publish_defs bnd_def ret_def Let_def look_up_sender_run
        handler_code_None sendmsg_run)
    with False show ?thesis by simp
  next
    case True
    have "index_of (\<lambda>r. g_global_id r = mtype m) gs = None"
      using a(3) unfolding handler_of_def index_of_None_iff by (auto simp: row_of_None_iff image_iff)
    then have "abs_destroy m (gs, U, T) = ((gs, U(mtype m := None), case U (mtype m) of None \<Rightarrow> T | Some ts \<Rightarrow> without (mtype m) ts T), [])"
      using a(3) by (auto simp: abs_destroy_def split: option.split)
    with process_destroy_w_run [OF a(1,4,2)] obtain w' m' where
      w': "process_destroy_w stk d g m w = (Ret m', w')" "\<not> 0 < mtype m'" "queues w' = queues w"
        "up w' g q d gs ms (U(mtype m := None)) (case U (mtype m) of None \<Rightarrow> T | Some ts \<Rightarrow> without (mtype m) ts T)"
      by (auto split: if_splits)
    with True show ?thesis
      by (intro exI [of _ w']) (simp add: process_msg_w_unfold bnd_def ret_def sendmsg_run [OF w'(4)])
  qed
qed

text \<open>A server whose database has a user who is not one of its clients.\<close>

lemma stranger_host: "\<exists>w ms. up w 0 1 4 [ring_row] ms [1 \<mapsto> [''rain'']] [''rain'' \<mapsto> [1]]"
proof -
  obtain w ms where "up w 0 1 4 [ring_row, \<lparr>g_mtype = 70, g_global_id = 1\<rparr>] ms [1 \<mapsto> [''rain'']] [''rain'' \<mapsto> [1]]"
    using rain_host by blast
  from remove_row_run [OF this, of 1] show ?thesis by (auto simp: ring_row_def del_at_def)
qed

lemma unknown_sender_never_answered_witness:
  "\<exists>w w1 ms. process_msg_w blank_db_msg 4 0 1 (request PUBLISH 1 ''rain'') w = (Ret (), w)
     \<and> process_msg_w blank_db_msg 4 0 1 (request DESTROY 1 '''') w = (Ret (), w1) \<and> queues w1 = queues w
     \<and> up w 0 1 4 [ring_row] ms [1 \<mapsto> [''rain'']] [''rain'' \<mapsto> [1]]
     \<and> up w1 0 1 4 [ring_row] ms Map.empty (without 1 [''rain''] [''rain'' \<mapsto> [1]])"
proof -
  obtain w ms where w: "up w 0 1 4 [ring_row] ms [1 \<mapsto> [''rain'']] [''rain'' \<mapsto> [1]]" using stranger_host by blast
  have n: "handler_of [ring_row] 1 = None" by (simp add: handler_of_def ring_row_def)
  from unknown_sender_never_answered [OF w, of "request PUBLISH 1 ''rain''" blank_db_msg]
    unknown_sender_never_answered [OF w, of "request DESTROY 1 ''''" blank_db_msg] n w
  show ?thesis by (fastforce simp: is_int32_def)
qed

text \<open>
  When the table is full, a creation is answered with an error although the user has been added
  to the database, where it stays.
\<close>

theorem full_server_leaks_user:
  "up w g q d gs ms U T \<Longrightarrow> wf_db_msg stk \<Longrightarrow> ids_below n U \<Longrightarrow> n < INT_MAX \<Longrightarrow> request_fits m (gs, U, T) \<Longrightarrow>
   msg_type m = CREATE \<Longrightarrow> length gs = MAX_CLIENTS \<Longrightarrow>
   \<exists>w'. process_msg_w stk d g q m w = (Ret (), w')
     \<and> up w' g q d gs (ms @ [m\<lparr>global_id := next_id U, msg_type := ACK_ERROR\<rparr>]) (U(next_id U \<mapsto> [])) T"
proof -
  assume a: "up w g q d gs ms U T" "wf_db_msg stk" "ids_below n U" "n < INT_MAX" "request_fits m (gs, U, T)"
  assume "msg_type m = CREATE" "length gs = MAX_CLIENTS"
  then have "abs_serve m (gs, U, T) = ((gs, U(next_id U \<mapsto> []), T), [m\<lparr>global_id := next_id U, msg_type := ACK_ERROR\<rparr>])"
    by (simp add: abs_serve_def abs_create_def Let_def)
  from process_msg_w_run [OF a this] show ?thesis by (auto simp: answers_def)
qed

lemma full_server_leaks_user_witness:
  "\<exists>w ms w'. process_msg_w blank_db_msg 4 0 1 (request CREATE 70 '''') w = (Ret (), w')
     \<and> up w' 0 1 4 (map (\<lambda>i. \<lparr>g_mtype = 60 + i, g_global_id = i\<rparr>) [0..49])
         (ms @ [(request CREATE 70 '''')\<lparr>global_id := 1, msg_type := ACK_ERROR\<rparr>]) [1 \<mapsto> []] Map.empty"
proof -
  let ?gs = "map (\<lambda>i. \<lparr>g_mtype = 60 + i, g_global_id = i\<rparr>) [0..49]" and ?m = "request CREATE 70 ''''"
  have u: "up (server_host ?gs []) 0 1 4 ?gs [] Map.empty Map.empty" by (rule server_host_up(1)) auto
  have f: "request_fits ?m (?gs, Map.empty, Map.empty)" by (simp add: request_fits_def is_int32_def)
  have n: "next_id Map.empty = 1" by (simp add: next_id_def)
  from full_server_leaks_user [OF u blank_db_msg_wf new_db_open(3) _ f] show ?thesis
    by - (rule exI [of _ "server_host ?gs []"], rule exI [of _ "[]"], simp add: INT_MAX_def n)
qed

text \<open>
  C13: Whatever system calls fail and whatever bytes the database sends, when the worker has processed
  a message the table of clients is in service again: its semaphore is free and its rows well formed.
\<close>

theorem worker_never_keeps_table:
  "in_service w g \<Longrightarrow> msg_type m = CREATE \<longrightarrow> 0 < int_of_long (mtype m) \<Longrightarrow>
   process_msg_w stk d g q m w = (Ret (), w') \<Longrightarrow> in_service w' g"
  using steady_process_msg [of m g stk d q] by (auto simp: steady_def wp_def)

lemma worker_never_keeps_table_witness:
  "\<exists>(w :: host) w'. env w = [Fail] \<and> process_msg_w blank_db_msg 4 0 1 (request SUBSCRIBE 9 '''') w = (Ret (), w') \<and> in_service w' 0"
proof -
  let ?w = "(server_host [ring_row] [])\<lparr>env := [Fail]\<rparr>" and ?m = "request SUBSCRIBE 9 ''''"
  have "in_service (server_host [ring_row] []) 0" using ring_host_up [of "[]"] by (auto simp: in_service_def elim!: upE)
  then have s: "in_service ?w 0" by simp
  have "process_msg_w blank_db_msg 4 0 1 ?m ?w = (Ret (), ?w\<lparr>env := []\<rparr>)"
    by (intro wp_eqI) (simp add: process_msg_w_unfold process_subscribe_w_def look_up_sender_def get_mtype_def wp Let_def)
  with worker_never_keeps_table [OF s _ this] show ?thesis
    by - (rule exI [of _ ?w], rule exI [of _ "?w\<lparr>env := []\<rparr>"], simp)
qed

end
