(* ===== verification/Server_Handlers.thy ===== *)
theory Server_Handlers
  imports Worker
begin

text \<open>
  The processes of a server around its worker: the request handler of a connection
  (\<^verbatim>\<open>broker/server/req_handler.c\<close>), which queues what the client's local broker or the previous server
  sends, the response handler (\<^verbatim>\<open>broker/server/resp_handler.c\<close>), which sends what the worker queued
  under its process identifier, the ring connection (\<^verbatim>\<open>broker/server/ring_connection.c\<close>), and the
  resources that the server creates and destroys (\<^verbatim>\<open>broker/server/server.c\<close>).  The main functions, which
  start and kill processes, are in the theories \<open>Server_Main\<close> and \<open>Broker_Main\<close>.
\<close>

section \<open>Operations\<close>

definition get_worker_queue_rq :: "(host, int) prog" where
  "get_worker_queue_rq = bnd (getmsg WORKER_QUEUE) (\<lambda>q. if q < 0 then stop (Exit (-1)) else ret q)"

definition process_message_rq :: "int \<Rightarrow> msg_t \<Rightarrow> int \<Rightarrow> (host, unit) prog" where
  "process_message_rq queue msg resp_handler_pid =
     (if msg_type msg \<in> {ACK_OK, ACK_ERROR, ACK_CREATE, ACK_DESTROY, ACK_NO_MSG, RECEIVE} then ret ()
      else
        let msg = (if msg_type msg = CREATE then msg\<lparr>mtype := resp_handler_pid\<rparr> else msg) in
        bnd (sendmsg mtype queue msg) (\<lambda>_. ret ()))"

text \<open>One iteration of the main loop, without a signal; \<open>False\<close> leaves it.\<close>

definition req_handler_step :: "msg_t \<Rightarrow> int \<Rightarrow> int \<Rightarrow> int \<Rightarrow> (host, bool) prog" where
  "req_handler_step stk client_socket worker_queue resp_handler_pid =
     bnd (socket_receive client_socket stk) (\<lambda>(res, msg).
     if res < 0 then ret False
     else if res = 0 then ret False
     else thn (process_message_rq worker_queue msg resp_handler_pid) (ret True))"

primrec req_handler_loop :: "msg_t list \<Rightarrow> int \<Rightarrow> int \<Rightarrow> int \<Rightarrow> (host, unit) prog" where
  "req_handler_loop [] client_socket worker_queue resp_handler_pid = ret ()"
| "req_handler_loop (stk # stks) client_socket worker_queue resp_handler_pid =
     bnd (req_handler_step stk client_socket worker_queue resp_handler_pid) (\<lambda>on.
     if on then req_handler_loop stks client_socket worker_queue resp_handler_pid else ret ())"

definition process_msg_rs :: "int \<Rightarrow> msg_t \<Rightarrow> (host, unit) prog" where
  "process_msg_rs socket msg =
     (if msg_type msg \<notin> {ACK_OK, ACK_ERROR, ACK_CREATE, ACK_DESTROY, PUBLISH} then ret ()
      else bnd (socket_send socket (msg\<lparr>mtype := global_id msg\<rparr>)) (\<lambda>_. ret ()))"

definition resp_handler_step :: "msg_t \<Rightarrow> int \<Rightarrow> int \<Rightarrow> int \<Rightarrow> (host, unit) prog" where
  "resp_handler_step stk resp_queue pid client_socket =
     bnd (rcvmsg mtype resp_queue stk pid) (\<lambda>(_, msg). process_msg_rs client_socket msg)"

primrec resp_handler_loop :: "msg_t list \<Rightarrow> int \<Rightarrow> int \<Rightarrow> int \<Rightarrow> (host, unit) prog" where
  "resp_handler_loop [] resp_queue pid client_socket = ret ()"
| "resp_handler_loop (stk # stks) resp_queue pid client_socket =
     thn (resp_handler_step stk resp_queue pid client_socket) (resp_handler_loop stks resp_queue pid client_socket)"

subsection \<open>The ring connection\<close>

abbreviation RING_CONNECTION_SETUP_QUEUE :: int where "RING_CONNECTION_SETUP_QUEUE \<equiv> 6"

record ring_setup_msg_t =
  setup_mtype :: int
  setup_resp_handler_pid :: int

text \<open>
  The queues of a server hold \<open>msg_t\<close>; the setup message is the first 16 bytes of one, with the process
  identifier where \<open>msg_t\<close> has its \<open>global_id\<close>.
\<close>

definition setup_as_msg :: "ring_setup_msg_t \<Rightarrow> msg_t" where
  "setup_as_msg m = \<lparr>mtype = setup_mtype m, global_id = setup_resp_handler_pid m, msg_type = 0,
     payload = \<lparr>topic = [], body = []\<rparr>, broker_id = 0\<rparr>"

text \<open>The main function, once the response handler for the next server runs as \<open>resp_handler_pid\<close>.\<close>

definition ring_connection :: "int \<Rightarrow> (host, int) prog" where
  "ring_connection resp_handler_pid =
     bnd global_ids_get (\<lambda>global_ids.
     bnd (add_global_id global_ids NEXT_SERVER_GLOBAL_ID resp_handler_pid) (\<lambda>r.
     if r < 0 then stop (Exit (-1))
     else bnd (getmsg RING_CONNECTION_SETUP_QUEUE) (\<lambda>ring_connection_setup_queue.
     bnd (sendmsg mtype ring_connection_setup_queue
            (setup_as_msg \<lparr>setup_mtype = 1, setup_resp_handler_pid = resp_handler_pid\<rparr>)) (\<lambda>_. ret 0))))"

subsection \<open>The resources of the server\<close>

definition create_global_ids :: "(host, unit) prog" where
  "create_global_ids = bnd global_ids_create (\<lambda>r. if r < 0 then stop (Exit (-1)) else ret ())"

definition create_queues :: "(host, unit) prog" where
  "create_queues =
     bnd (creamsg WORKER_QUEUE) (\<lambda>worker_queue.
     if worker_queue < 0 then stop (Exit (-1))
     else bnd (creamsg RESP_QUEUE) (\<lambda>resp_queue.
     if resp_queue < 0 then stop (Exit (-1))
     else bnd (creamsg RING_CONNECTION_SETUP_QUEUE) (\<lambda>ring_connection_setup_queue.
     if ring_connection_setup_queue < 0 then stop (Exit (-1)) else ret ())))"

definition destroy_global_ids :: "(host, unit) prog" where
  "destroy_global_ids =
     bnd global_ids_get (\<lambda>global_ids.
     if global_ids < 0 then ret () else bnd (global_ids_destroy global_ids) (\<lambda>_. ret ()))"

definition destroy_queue :: "int \<Rightarrow> (host, unit) prog" where
  "destroy_queue k = bnd (getmsg k) (\<lambda>q. if q < 0 then ret () else bnd (delmsg q) (\<lambda>_. ret ()))"

definition destroy_queues :: "(host, unit) prog" where
  "destroy_queues =
     thn (destroy_queue WORKER_QUEUE) (
     thn (destroy_queue RESP_QUEUE) (destroy_queue RING_CONNECTION_SETUP_QUEUE))"

text \<open>
  What \<open>main\<close> and \<open>safe_exit\<close> do with the resources.  The main function reads the setup message of the
  ring connection before it accepts clients; its result is the process identifier in it.
\<close>

definition server_setup :: "(host, unit) prog" where
  "server_setup = thn create_global_ids create_queues"

definition await_ring :: "msg_t \<Rightarrow> (host, int) prog" where
  "await_ring stk =
     bnd (getmsg RING_CONNECTION_SETUP_QUEUE) (\<lambda>ring_connection_setup_queue.
     bnd (rcvmsg mtype ring_connection_setup_queue stk 0) (\<lambda>(_, msg). ret (global_id msg)))"

definition server_teardown :: "(host, unit) prog" where
  "server_teardown = thn destroy_queues destroy_global_ids"

section \<open>The handlers\<close>

text \<open>What a request handler lets through to the worker.\<close>

definition accepted :: "int \<Rightarrow> msg_t list \<Rightarrow> msg_t list" where
  "accepted pid ms = filter (\<lambda>m. 0 < mtype m) (map (\<lambda>m. if msg_type m = CREATE then m\<lparr>mtype := pid\<rparr> else m)
     (filter (\<lambda>m. msg_type m \<notin> {ACK_OK, ACK_ERROR, ACK_CREATE, ACK_DESTROY, ACK_NO_MSG, RECEIVE}) ms))"

lemma process_message_rq_run:
  assumes "env w = []" "ipc_objs (queues w) wq = Some q"
  shows "process_message_rq wq m pid w = (Ret (), w\<lparr>queues := ipc_put wq (q @ accepted pid [m]) (queues w)\<rparr>)"
  using assms by (intro wp_eqI) (simp add: process_message_rq_def wp accepted_def Let_def)

lemma accepted_Cons: "accepted pid (m # ms) = accepted pid [m] @ accepted pid ms"
  by (simp add: accepted_def)

lemma req_handler_loop_run:
  assumes "env w = []" "ipc_objs (queues w) wq = Some q" "available w fd = concat (map encode_msg ms) @ later"
    "\<forall>m\<in>set ms. wf_msg m" "length stks = length ms"
  shows "req_handler_loop stks fd wq pid w =
    (Ret (), w\<lparr>queues := ipc_put wq (q @ accepted pid ms) (queues w), got := (got w)(fd := got w fd + sizeof_msg * length ms)\<rparr>)"
  using assms
proof (induction ms arbitrary: w q stks)
  case Nil
  then show ?case by (simp add: ret_def accepted_def)
next
  case (Cons m ms)
  obtain s ss where ss: "stks = s # ss" using Cons.prems(5) by (cases stks) auto
  have wf: "wf_msg m" using Cons.prems(4) by simp
  let ?w = "w\<lparr>got := (got w)(fd := got w fd + sizeof_msg)\<rparr>"
  have av: "available w fd = encode_msg m @ (concat (map encode_msg ms) @ later)" using Cons.prems(3) by simp
  have rcv: "socket_receive fd s w = (Ret (int sizeof_msg, m), ?w)"
    using msg_codec.receive_struct_run [OF wf av Cons.prems(1), of s] by (simp add: socket_receive_def)
  let ?w1 = "?w\<lparr>queues := ipc_put wq (q @ accepted pid [m]) (queues w)\<rparr>"
  have p: "process_message_rq wq m pid ?w = (Ret (), ?w1)"
    using process_message_rq_run [of ?w wq q m pid] Cons.prems(1,2) by simp
  have "available ?w1 fd = drop sizeof_msg (available w fd)" by (simp add: available_def add.commute)
  then have "available ?w1 fd = concat (map encode_msg ms) @ later" using av length_encode_msg [OF wf] by simp
  then have rest: "req_handler_loop ss fd wq pid ?w1 = (Ret (), ?w1\<lparr>queues := ipc_put wq ((q @ accepted pid [m]) @ accepted pid ms) (queues ?w1),
      got := (got ?w1)(fd := got ?w1 fd + sizeof_msg * length ms)\<rparr>)"
    using Cons.prems(1,4,5) ss by (intro Cons.IH) simp_all
  have "req_handler_step s fd wq pid w = (Ret True, ?w1)"
    using rcv p by (simp add: req_handler_step_def bnd_def ret_def sizeof_msg_def)
  moreover have "?w1\<lparr>queues := ipc_put wq ((q @ accepted pid [m]) @ accepted pid ms) (queues ?w1),
      got := (got ?w1)(fd := got ?w1 fd + sizeof_msg * length ms)\<rparr>
    = w\<lparr>queues := ipc_put wq (q @ accepted pid (m # ms)) (queues w), got := (got w)(fd := got w fd + sizeof_msg * length (m # ms))\<rparr>"
    by (rule world.equality) (simp_all add: fun_eq_iff accepted_Cons [of pid m ms])
  ultimately show ?case using rest unfolding ss by (simp only: req_handler_loop.simps bnd_def prod.case res.case if_True)
qed

text \<open>What a response handler sends of a message that was queued for it.\<close>

definition forwarded :: "msg_t list \<Rightarrow> msg_t list" where
  "forwarded ms = map (\<lambda>m. m\<lparr>mtype := global_id m\<rparr>) (filter (\<lambda>m. msg_type m \<in> {ACK_OK, ACK_ERROR, ACK_CREATE, ACK_DESTROY, PUBLISH}) ms)"

lemma wf_forwarded: "wf_msg m \<Longrightarrow> wf_msg (m\<lparr>mtype := global_id m\<rparr>)"
  by (simp add: wf_msg_def is_int32_def is_int64_def)

lemma process_msg_rs_run:
  assumes "env w = []" "wf_msg m"
  shows "process_msg_rs fd m w = (Ret (), w\<lparr>sent := (sent w)(fd := sent w fd @ concat (map encode_msg (forwarded [m])))\<rparr>)"
  using msg_codec.send_struct_run [OF wf_forwarded [OF assms(2)] assms(1), of fd]
  by (auto simp: process_msg_rs_def socket_send_def bnd_def ret_def forwarded_def)

lemma resp_handler_loop_run:
  assumes "env w = []" "ipc_objs (queues w) rq = Some q" "0 < pid" "length stks = length (filter (\<lambda>m. mtype m = pid) q)"
    "\<forall>m\<in>set q. wf_msg m"
  shows "resp_handler_loop stks rq pid fd w = (Ret (), w\<lparr>queues := ipc_put rq (filter (\<lambda>m. mtype m \<noteq> pid) q) (queues w),
    sent := (sent w)(fd := sent w fd @ concat (map encode_msg (forwarded (filter (\<lambda>m. mtype m = pid) q))))\<rparr>)"
  using assms
proof (induction stks arbitrary: w q)
  case Nil
  then have "filter (\<lambda>m. mtype m = pid) q = []" by simp
  moreover from this have "filter (\<lambda>m. mtype m \<noteq> pid) q = q" by (simp add: filter_empty_conv)
  ultimately show ?case using Nil.prems(2) by (simp add: ret_def forwarded_def)
next
  case (Cons s ss)
  then obtain m q' where m: "take_msg mtype pid q = Some (m, q')"
  proof (cases "take_msg mtype pid q")
    case None
    then have "filter (\<lambda>m. mtype m = pid) q = []"
      using Cons.prems(3) by (auto simp: take_msg_def take_first_None_iff filter_empty_conv)
    with Cons.prems(4) show ?thesis by simp
  qed auto
  note t = take_msg_type [OF m Cons.prems(3)]
  have mem: "m \<in> set q" "set q' \<subseteq> set q"
    using m Cons.prems(3) take_first_SomeD [of "\<lambda>x. mtype x = pid" q m q'] by (auto simp: take_msg_def)
  let ?w = "w\<lparr>queues := ipc_put rq q' (queues w)\<rparr>"
  let ?w1 = "?w\<lparr>sent := (sent w)(fd := sent w fd @ concat (map encode_msg (forwarded [m])))\<rparr>"
  have rcv: "rcvmsg mtype rq s pid w = (Ret (0, m), ?w)" using Cons.prems(1,2) m by (intro wp_eqI) (simp add: wp)
  have p: "process_msg_rs fd m ?w = (Ret (), ?w1)"
    using process_msg_rs_run [of ?w m fd] Cons.prems(1,5) mem by simp
  have rest: "resp_handler_loop ss rq pid fd ?w1 = (Ret (), ?w1\<lparr>queues := ipc_put rq (filter (\<lambda>m. mtype m \<noteq> pid) q') (queues ?w1),
      sent := (sent ?w1)(fd := sent ?w1 fd @ concat (map encode_msg (forwarded (filter (\<lambda>m. mtype m = pid) q'))))\<rparr>)"
    using Cons.prems t mem by (intro Cons.IH) auto
  have split: "forwarded (filter (\<lambda>m. mtype m = pid) q) = forwarded [m] @ forwarded (filter (\<lambda>m. mtype m = pid) q')"
    using t by (simp add: forwarded_def)
  have "resp_handler_step s rq pid fd w = (Ret (), ?w1)" using rcv p by (simp add: resp_handler_step_def bnd_def)
  with rest split t show ?case by (simp add: bnd_def fun_upd_def cong: if_cong)
qed

section \<open>Start and stop\<close>

definition server_absent :: "host \<Rightarrow> bool" where
  "server_absent w \<longleftrightarrow> env w = [] \<and> wf_base (dirkey w) \<and> wf_ipc (queues w) \<and> wf_ipc (sems w) \<and> wf_ipc (shms w)
     \<and> (\<forall>k\<in>{WORKER_QUEUE, RESP_QUEUE, RING_CONNECTION_SETUP_QUEUE}. ipc_keys (queues w) (ftok_key (dirkey w) k) = None)
     \<and> ipc_keys (sems w) (ftok_key (dirkey w) GLOBAL_IDS_SEM) = None \<and> ipc_keys (shms w) (ftok_key (dirkey w) GLOBAL_IDS_SHM) = None"

definition server_started :: "host \<Rightarrow> global_ids_t \<Rightarrow> host" where
  "server_started w t = (let k = ftok_key (dirkey w) in w\<lparr>
     queues := with_objs [(k RING_CONNECTION_SETUP_QUEUE, [])] (with_objs [(k RESP_QUEUE, [])] (with_objs [(k WORKER_QUEUE, [])] (queues w))),
     sems := ipc_put (ipc_next (sems w)) 1 (with_objs [(k GLOBAL_IDS_SEM, 0)] (sems w)),
     shms := with_objs [(k GLOBAL_IDS_SHM, t)] (shms w)\<rparr>)"

lemma server_absentD:
  assumes "server_absent w"
  shows "env w = []" "wf_base (dirkey w)" "0 \<le> ipc_next (queues w)" "0 \<le> ipc_next (sems w)" "0 \<le> ipc_next (shms w)"
    "\<forall>k\<in>{WORKER_QUEUE, RESP_QUEUE, RING_CONNECTION_SETUP_QUEUE}. ipc_keys (queues w) (ftok_key (dirkey w) k) = None"
    "ipc_keys (sems w) (ftok_key (dirkey w) GLOBAL_IDS_SEM) = None" "ipc_keys (shms w) (ftok_key (dirkey w) GLOBAL_IDS_SHM) = None"
  using assms by (simp_all add: server_absent_def wf_ipc_old(3))

lemma server_setup_run:
  assumes "server_absent w"
  shows "server_setup w = (Ret (), server_started w no_globals)"
  using server_absentD [OF assms]
  by (intro wp_eqI) (simp add: server_setup_def create_global_ids_def global_ids_create_def create_queues_def server_started_def
      Let_def wp ipc_create_fresh with_objs_simps)

lemma server_started_serving:
  assumes "server_absent w" "wf_globals t" "\<forall>r\<in>set (rows t). 0 < g_mtype r"
  shows "serving (server_started w t) (ipc_next (shms w)) t"
  using server_absentD [OF assms(1)] assms(2,3)
  by (auto simp: serving_def server_started_def Let_def guard_def with_objs_simps)

lemma ring_connection_run:
  assumes "server_absent w" "0 < pid"
  shows "\<exists>t w'. ring_connection pid (server_started w no_globals) = (Ret 0, w') \<and> wf_globals t
    \<and> rows t = [\<lparr>g_mtype = pid, g_global_id = 0\<rparr>] \<and> await_ring stk w' = (Ret pid, server_started w t)"
proof -
  let ?w = "server_started w no_globals" and ?g = "ipc_next (shms w)"
  note d = server_absentD [OF assms(1)]
  have e: "env ?w = []" using d by (simp add: server_started_def Let_def)
  have s: "serving ?w ?g no_globals" using server_started_serving [OF assms(1)] by (simp add: no_globals_def wf_zero_table)
  have get: "global_ids_get ?w = (Ret ?g, ?w)"
    using d by (intro wp_eqI) (simp add: global_ids_get_def wp server_started_def Let_def ipc_get_def with_objs_simps)
  have "count no_globals = 0" "rows no_globals = []" by (simp_all add: no_globals_def zero_table_def rows_def)
  with add_global_id_run [OF s e, of 0 pid] obtain t where
    t: "add_global_id ?g 0 pid ?w = (Ret 0, ?w\<lparr>shms := ipc_put ?g t (shms ?w)\<rparr>)" "wf_globals t"
    "rows t = [\<lparr>g_mtype = pid, g_global_id = 0\<rparr>]" by auto
  have w2: "?w\<lparr>shms := ipc_put ?g t (shms ?w)\<rparr> = server_started w t"
    using d(8) by (simp add: server_started_def Let_def with_objs_def ipc_create_def ipc_put_def)
  let ?m = "setup_as_msg \<lparr>setup_mtype = 1, setup_resp_handler_pid = pid\<rparr>"
  define w3 where "w3 = (server_started w t)\<lparr>queues := ipc_put (2 + ipc_next (queues w)) [?m] (queues (server_started w t))\<rparr>"
  have "bnd (getmsg RING_CONNECTION_SETUP_QUEUE) (\<lambda>q. bnd (sendmsg mtype q ?m) (\<lambda>_. ret (0 :: int))) (server_started w t) = (Ret 0, w3)"
    using d by (intro wp_eqI) (simp add: wp server_started_def Let_def ipc_get_def with_objs_simps setup_as_msg_def w3_def)
  then have ring: "ring_connection pid ?w = (Ret 0, w3)"
    using get t(1) w2 by (simp add: ring_connection_def bnd_def)
  have "await_ring stk w3 = (Ret pid, server_started w t)"
    using d by (intro wp_eqI) (simp add: await_ring_def wp w3_def server_started_def Let_def ipc_get_def with_objs_simps take_msg_any
        setup_as_msg_def ipc_put_def)
  with ring t(2,3) show ?thesis by blast
qed

lemma server_teardown_run:
  assumes "server_absent w"
  shows "\<exists>w''. server_teardown (server_started w t) = (Ret (), w'')
    \<and> ipc_keys (queues w'') = ipc_keys (queues w) \<and> ipc_objs (queues w'') = ipc_objs (queues w)
    \<and> ipc_keys (sems w'') = ipc_keys (sems w) \<and> ipc_objs (sems w'') = ipc_objs (sems w)
    \<and> ipc_keys (shms w'') = ipc_keys (shms w) \<and> ipc_objs (shms w'') = ipc_objs (shms w)"
proof -
  note a = assms [unfolded server_absent_def]
  note old = wf_ipc_old(1,2) [of "queues w"] wf_ipc_old(1,2) [of "sems w"] wf_ipc_old(1,2) [of "shms w"]
  have "wp server_teardown
    (\<lambda>r w''. r = Ret () \<and> ipc_keys (queues w'') = ipc_keys (queues w) \<and> ipc_objs (queues w'') = ipc_objs (queues w)
    \<and> ipc_keys (sems w'') = ipc_keys (sems w) \<and> ipc_objs (sems w'') = ipc_objs (sems w)
    \<and> ipc_keys (shms w'') = ipc_keys (shms w) \<and> ipc_objs (shms w'') = ipc_objs (shms w)) (server_started w t)"
    using a server_absentD [OF assms] old
    by (simp add: server_teardown_def destroy_queues_def destroy_queue_def destroy_global_ids_def global_ids_get_def global_ids_destroy_def
        wp server_started_def Let_def ipc_remove_def ipc_get_def with_objs_simps)
       (auto simp: fun_eq_iff with_objs_simps; fastforce)
  then show ?thesis by (cases "server_teardown (server_started w t)") (auto simp: wp_def)
qed

section \<open>Properties\<close>

text \<open>
  Starting a server on a host without one creates the table and the queues; the ring connection
  enters its response handler as the next server, number 0, and reports it to the server, which reads
  its process identifier; stopping removes every key and object that the start created.
\<close>

theorem server_starts_and_stops:
  "server_absent w \<Longrightarrow> 0 < pid \<Longrightarrow>
   \<exists>w1 w2 w3 w4 t. server_setup w = (Ret (), w1) \<and> ring_connection pid w1 = (Ret 0, w2) \<and> await_ring stk w2 = (Ret pid, w3)
     \<and> serving w3 (ipc_next (shms w)) t \<and> rows t = [\<lparr>g_mtype = pid, g_global_id = NEXT_SERVER_GLOBAL_ID\<rparr>]
     \<and> server_teardown w3 = (Ret (), w4)
     \<and> ipc_keys (queues w4) = ipc_keys (queues w) \<and> ipc_objs (queues w4) = ipc_objs (queues w)
     \<and> ipc_keys (sems w4) = ipc_keys (sems w) \<and> ipc_objs (sems w4) = ipc_objs (sems w)
     \<and> ipc_keys (shms w4) = ipc_keys (shms w) \<and> ipc_objs (shms w4) = ipc_objs (shms w)"
proof -
  assume a: "server_absent w" "0 < pid"
  from ring_connection_run [OF a] obtain t w2 where r: "ring_connection pid (server_started w no_globals) = (Ret 0, w2)"
    "wf_globals t" "rows t = [\<lparr>g_mtype = pid, g_global_id = 0\<rparr>]" "await_ring stk w2 = (Ret pid, server_started w t)"
    by blast
  moreover have "serving (server_started w t) (ipc_next (shms w)) t"
    using server_started_serving [OF a(1) r(2)] r(3) a(2) by simp
  ultimately show ?thesis
    using server_setup_run [OF a(1)] server_teardown_run [OF a(1), of t] by blast
qed

lemma server_starts_and_stops_witness:
  "\<exists>w1 w2 w3 w4. server_setup (idle_host :: host) = (Ret (), w1) \<and> ring_connection 60 w1 = (Ret 0, w2)
     \<and> await_ring (request 0 0 '''') w2 = (Ret 60, w3) \<and> server_teardown w3 = (Ret (), w4)"
proof -
  have "server_absent (idle_host :: host)" by (simp add: server_absent_def idle_host_def wf_ipc_def wf_base_def)
  from server_starts_and_stops [OF this, of 60 "request 0 0 ''''"] show ?thesis by auto
qed

text \<open>
  A request handler queues for the worker, in order, what arrives on its connection: creations
  under the process identifier of its response handler, the other requests under the identifier the
  client gave, and no message of a type that only responses have.
\<close>

theorem requests_reach_worker:
  "env w = [] \<Longrightarrow> ipc_objs (queues w) wq = Some q \<Longrightarrow> available w fd = concat (map encode_msg ms) @ later \<Longrightarrow>
   \<forall>m\<in>set ms. wf_msg m \<Longrightarrow> length stks = length ms \<Longrightarrow>
   \<exists>w'. req_handler_loop stks fd wq pid w = (Ret (), w') \<and> ipc_objs (queues w') wq = Some (q @ accepted pid ms)
     \<and> available w' fd = later"
proof -
  assume a: "env w = []" "ipc_objs (queues w) wq = Some q" "available w fd = concat (map encode_msg ms) @ later"
    "\<forall>m\<in>set ms. wf_msg m" "length stks = length ms"
  let ?w = "w\<lparr>queues := ipc_put wq (q @ accepted pid ms) (queues w), got := (got w)(fd := got w fd + sizeof_msg * length ms)\<rparr>"
  have "length (concat (map encode_msg ms)) = sizeof_msg * length ms"
    using a(4) by (induction ms) (simp_all add: length_encode_msg)
  moreover have "available ?w fd = drop (sizeof_msg * length ms) (available w fd)" by (simp add: available_def add.commute)
  ultimately have "available ?w fd = later" using a(3) by simp
  with req_handler_loop_run [OF a, of pid] show ?thesis by simp
qed

lemma requests_reach_worker_witness:
  "\<exists>w'. req_handler_loop [request 0 0 '''', request 0 0 '''', request 0 0 ''''] 3 0 77
      ((server_host [ring_row] [])\<lparr>peer := (\<lambda>_ _. concat (map encode_msg [request CREATE 12 '''', request ACK_OK 5 '''', request PUBLISH 5 ''rain'']))\<rparr>)
    = (Ret (), w') \<and> ipc_objs (queues w') 0 = Some [request CREATE 77 '''', request PUBLISH 5 ''rain'']"
proof -
  let ?ms = "[request CREATE 12 '''', request ACK_OK 5 '''', request PUBLISH 5 ''rain'']"
  let ?w = "(server_host [ring_row] [])\<lparr>peer := (\<lambda>_ _. concat (map encode_msg ?ms))\<rparr>"
  have "env ?w = []" "ipc_objs (queues ?w) 0 = Some []" "available ?w 3 = concat (map encode_msg ?ms) @ []"
    by (simp_all add: server_host_def connected_def idle_host_def available_def)
  moreover have "\<forall>m\<in>set ?ms. wf_msg m" by (simp add: request_def wf_msg_def is_int32_def is_int64_def)
  moreover have "accepted 77 ?ms = [request CREATE 77 '''', request PUBLISH 5 ''rain'']"
    by (simp add: accepted_def request_def)
  ultimately show ?thesis
    using requests_reach_worker [of ?w 0 "[]" 3 ?ms "[]" "[request 0 0 '''', request 0 0 '''', request 0 0 '''']" 77] by simp blast
qed

text \<open>
  A response handler sends over its connection exactly the messages that the worker queued under
  its process identifier, each addressed by the global identifier in it and in the order in which they
  were queued, and leaves the messages of the other handlers in the queue, in order.
\<close>

theorem responses_reach_connection:
  "env w = [] \<Longrightarrow> ipc_objs (queues w) rq = Some q \<Longrightarrow> 0 < pid \<Longrightarrow> length stks = length (filter (\<lambda>m. mtype m = pid) q) \<Longrightarrow>
   \<forall>m\<in>set q. wf_msg m \<Longrightarrow>
   \<exists>w'. resp_handler_loop stks rq pid fd w = (Ret (), w') \<and> ipc_objs (queues w') rq = Some (filter (\<lambda>m. mtype m \<noteq> pid) q)
     \<and> sent w' = (sent w)(fd := sent w fd @ concat (map encode_msg (forwarded (filter (\<lambda>m. mtype m = pid) q))))"
  using resp_handler_loop_run [of w rq q pid stks fd] by simp

lemma responses_reach_connection_witness:
  "\<exists>w w'. resp_handler_loop [request 0 0 ''''] 0 70 3 w = (Ret (), w') \<and> ipc_objs (queues w') 0 = Some [request ACK_OK 71 '''']
     \<and> sent w' 3 = encode_msg ((request ACK_OK 70 '''')\<lparr>global_id := 5, mtype := 5\<rparr>)"
proof -
  let ?q = "[request ACK_OK 71 '''', (request ACK_OK 70 '''')\<lparr>global_id := 5\<rparr>]"
  let ?w = "server_host [ring_row] ?q"
  have "env ?w = []" "ipc_objs (queues ?w) 0 = Some ?q" "sent ?w = (\<lambda>_. [])"
    by (simp_all add: server_host_def connected_def idle_host_def)
  moreover have "\<forall>m\<in>set ?q. wf_msg m" by (simp add: request_def wf_msg_def is_int32_def is_int64_def)
  ultimately show ?thesis
    using responses_reach_connection [of ?w 0 ?q 70 "[request 0 0 '''']" 3]
    by - (rule exI [of _ ?w], auto simp: forwarded_def)
qed

end
