(* ===== verification/Kept.thy ===== *)
theory Kept
  imports Broker_Id Global_Id Db_Connection
begin

text \<open>
  What the operations on the tables, the semaphores and the database connection leave alone: any
  property of a host that does not speak of its semaphores, its shared memory, the outcomes still to
  come and the socket to the database is kept by them, whatever happens.
\<close>

locale store_inv =
  fixes I :: "('m, 's) world \<Rightarrow> bool"
  assumes env_step: "I w \<Longrightarrow> I (w\<lparr>env := tl (env w)\<rparr>)"
    and sems_free: "I w \<Longrightarrow> I (w\<lparr>sems := x\<rparr>)"
    and shms_free: "I w \<Longrightarrow> I (w\<lparr>shms := y\<rparr>)"
begin

lemma sems_step: "I w \<Longrightarrow> I (w\<lparr>env := tl (env w), sems := x\<rparr>)"
  using sems_free [OF env_step] by simp

lemma keeps_calls [keeps]:
  "keeps I syscall (\<lambda>_. True)" "keeps I indeterminate (\<lambda>_. True)"
  "keeps I (getsem i) (\<lambda>_. True)" "keeps I (getshm i) (\<lambda>_. True)" "keeps I (getmsg i) (\<lambda>_. True)"
  "keeps I (sem_p s) (\<lambda>_. True)" "keeps I (sem_v s) (\<lambda>_. True)"
  "keeps I (shm_map a) (\<lambda>_. True)" "keeps I (shm_unmap a) (\<lambda>_. True)"
  "keeps I (shm_load a) (\<lambda>_. True)" "keeps I (shm_store a z) (\<lambda>_. True)"
  unfolding keeps_def by (auto simp: wp sems_step shms_free split: option.split dest: env_step env_step [OF env_step, simplified])

end

locale link_inv = store_inv I for I :: "('m, 's) world \<Rightarrow> bool" +
  fixes d :: int
  assumes sent_free: "I w \<Longrightarrow> I (w\<lparr>sent := (sent w)(d := bs)\<rparr>)"
    and got_free: "I w \<Longrightarrow> I (w\<lparr>got := (got w)(d := n)\<rparr>)"
begin

lemma keeps_sock [keeps]: "keeps I (sock_write d bs) (\<lambda>_. True)" "keeps I (sock_read d k) (\<lambda>_. True)"
proof -
  have "I w \<Longrightarrow> I (w\<lparr>env := tl (env w), sent := (sent w)(d := x)\<rparr>)" for w x
    using sent_free [OF env_step] by simp
  moreover have "I w \<Longrightarrow> I (w\<lparr>env := tl (env w), got := (got w)(d := n)\<rparr>)" for w n
    using got_free [OF env_step] by simp
  ultimately show "keeps I (sock_write d bs) (\<lambda>_. True)" "keeps I (sock_read d k) (\<lambda>_. True)"
    unfolding keeps_def by (auto simp: wp Let_def env_step split: outcome.split)
qed

lemma keeps_send_from [keeps]: "keeps I (send_from d b n) (\<lambda>_. True)"
proof -
  have "fd = d \<Longrightarrow> keeps I (send_from fd b n) (\<lambda>_. True)" for fd
    by (induction fd b n rule: send_from.induct) (subst send_from.simps, auto intro!: keeps)
  then show ?thesis by simp
qed

lemma keeps_receive_from [keeps]: "keeps I (receive_from d k n b) (\<lambda>_. True)"
proof -
  have "fd = d \<Longrightarrow> keeps I (receive_from fd k n b) (\<lambda>_. True)" for fd
    by (induction fd k n b rule: receive_from.induct) (subst receive_from.simps, auto intro!: keeps)
  then show ?thesis by simp
qed

lemma keeps_conn [keeps]:
  "keeps I (conn_add_user stk d) (\<lambda>_. True)" "keeps I (conn_subscribe stk d i tp) (\<lambda>_. True)"
  "keeps I (conn_delete stk d i) (\<lambda>_. True)" "keeps I (conn_get_subscribed stk d tp v) (\<lambda>_. True)"
  by (auto simp: conn_add_user_def conn_subscribe_def conn_delete_def conn_get_subscribed_def db_exchange_def
      socket_send_db_def socket_receive_db_def send_struct_def receive_struct_def intro!: keeps keeps_any [OF keeps_basic(4)])

end

locale server_inv = link_inv I d for I :: "('m, global_ids_t) world \<Rightarrow> bool" and d
begin

lemma keeps_table [keeps]:
  "keeps I (get_mtype g i) (\<lambda>_. True)" "keeps I (add_global_id g i m) (\<lambda>_. True)" "keeps I (remove_global_id g i) (\<lambda>_. True)"
  by (auto simp: get_mtype_def add_global_id_def remove_global_id_def Let_def intro!: keeps keeps_any [OF keeps_basic(4)])

end

locale machine_inv = store_inv I for I :: "('m, broker_ids_t) world \<Rightarrow> bool"
begin

lemma keeps_table [keeps]:
  "keeps I (add_local_id a l) (\<lambda>_. True)" "keeps I (set_global_id a g) (\<lambda>_. True)" "keeps I (get_global_id a l) (\<lambda>_. True)"
  "keeps I (get_local_id a g) (\<lambda>_. True)" "keeps I (local_id_exists a l) (\<lambda>_. True)" "keeps I (remove_id a l) (\<lambda>_. True)"
  by (auto simp: add_local_id_def set_global_id_def get_global_id_def get_local_id_def local_id_exists_def remove_id_def
      search_ids_def Let_def intro!: keeps keeps_any [OF keeps_basic(4)])

end

end
