(* ===== verification/Network.thy ===== *)
theory Network
  imports Client_Api Server_Handlers Kept "HOL-Library.Sublist"
begin

text \<open>
  The system as a state machine: one server, its database connection and any number of machines, whose
  processes take steps in any order.  A generic part shows that no process invents or alters a
  publication (\<open>keeps\<close>, \<open>intact\<close>), whatever the outcome of its step; the network is an inductive step
  relation over the real programs, and \<open>net_ok\<close> is its invariant.
\<close>

section \<open>What the worker makes of a message\<close>

definition derived :: "msg_t \<Rightarrow> msg_t \<Rightarrow> bool" where
  "derived m m' \<longleftrightarrow> payload m' = payload m
     \<and> (msg_type m' = msg_type m \<or> msg_type m' \<in> {ACK_OK, ACK_ERROR, ACK_CREATE, ACK_DESTROY})"

lemma derived_simps [simp]:
  "derived m m" "derived m (m'\<lparr>mtype := a\<rparr>) = derived m m'" "derived m (m'\<lparr>global_id := a\<rparr>) = derived m m'"
  "derived m (m'\<lparr>broker_id := a\<rparr>) = derived m m'"
  "derived m m' \<Longrightarrow> derived m (m'\<lparr>msg_type := ACK_OK\<rparr>)" "derived m m' \<Longrightarrow> derived m (m'\<lparr>msg_type := ACK_ERROR\<rparr>)"
  "derived m m' \<Longrightarrow> derived m (m'\<lparr>msg_type := ACK_CREATE\<rparr>)" "derived m m' \<Longrightarrow> derived m (m'\<lparr>msg_type := ACK_DESTROY\<rparr>)"
  by (auto simp: derived_def)

locale worker_inv = server_inv I d for I :: "host \<Rightarrow> bool" and d +
  fixes q :: int and ok :: "msg_t \<Rightarrow> bool"
  assumes queued: "I w \<Longrightarrow> ok m \<Longrightarrow> ipc_objs (queues w) q = Some ms \<Longrightarrow> I (w\<lparr>queues := ipc_put q (ms @ [m]) (queues w)\<rparr>)"
begin

lemma keeps_send [keeps]: "ok m \<Longrightarrow> keeps I (sendmsg mtype q m) (\<lambda>_. True)"
proof -
  have "I w \<Longrightarrow> ok m \<Longrightarrow> ipc_objs (queues w) q = Some ms \<Longrightarrow> I (w\<lparr>env := tl (env w), queues := ipc_put q (ms @ [m]) (queues w)\<rparr>)" for w ms
    using queued [OF env_step] by simp
  then show "ok m \<Longrightarrow> keeps I (sendmsg mtype q m) (\<lambda>_. True)"
    unfolding keeps_def by (auto simp: wp env_step split: option.split)
qed

lemma look_up [keeps]: "derived m0 m \<Longrightarrow> keeps I (look_up_sender g m) (derived m0)"
  by (auto simp: look_up_sender_def Let_def intro!: keeps keeps_ret)

lemma create [keeps]: "keeps I (process_create_w stk d g m) (derived m)"
  by (auto simp: process_create_w_def Let_def intro!: keeps keeps_ret)

lemma subscribe [keeps]: "keeps I (process_subscribe_w stk d g m) (derived m)"
  unfolding process_subscribe_w_def
  by (rule keeps_bind [where R = "derived m"]) (auto intro!: keeps keeps_ret)

lemma destroy [keeps]: "keeps I (process_destroy_w stk d g m) (derived m)"
  unfolding process_destroy_w_def
  by (rule keeps_bind [where R = "derived m"]) (auto simp: Let_def intro!: keeps keeps_ret)

lemma deliver_one:
  assumes "\<And>m'. derived m m' \<Longrightarrow> ok m'" "derived m m'"
  shows "keeps I (deliver_one g q i m' fwd) (\<lambda>r. \<forall>x y. r = Some (x, y) \<longrightarrow> derived m x)"
  using assms by (auto simp: deliver_one_def Let_def intro!: keeps keeps_ret)

lemma deliver [keeps]:
  assumes "\<And>m'. derived m m' \<Longrightarrow> ok m'" "derived m m'"
  shows "keeps I (deliver n g q v i m' fwd) (\<lambda>_. True)"
  using assms(2)
proof (induction n arbitrary: i m' fwd)
  case (Suc n)
  show ?case
    unfolding deliver.simps
    by (rule keeps_bind [OF keeps_any [OF keeps_basic(4)]], rule keeps_bind [OF deliver_one [OF assms(1) Suc.prems]])
      (auto intro!: keeps Suc.IH)
qed (auto intro!: keeps)

lemma send_to_subs [keeps]:
  assumes "\<And>m'. derived m m' \<Longrightarrow> ok m'" "derived m m'"
  shows "keeps I (send_to_subs stk d g q m') (\<lambda>_. True)"
  using assms by (auto simp: send_to_subs_def intro!: keeps keeps_any [OF keeps_basic(4)] deliver [of m])

lemma publish [keeps]:
  assumes "\<And>m'. derived m m' \<Longrightarrow> ok m'"
  shows "keeps I (process_publish_at b stk d g q m) (\<lambda>r. derived m (snd r))"
proof -
  have go: "keeps I (bnd (look_up_sender g m1) (\<lambda>msg. if mtype msg < 0 then ret (a, msg\<lparr>msg_type := ACK_ERROR\<rparr>)
        else bnd (send_to_subs stk d g q msg) (\<lambda>r.
        if r < 0 then ret (a, msg\<lparr>msg_type := ACK_ERROR\<rparr>) else ret (a, msg\<lparr>msg_type := ACK_OK\<rparr>)))) (\<lambda>r. derived m (snd r))"
    if "derived m m1" for m1 a
    using that assms
    by (intro keeps_bind [OF look_up]) (auto intro!: keeps keeps_ret send_to_subs [of m])
  show ?thesis by (auto simp: publish_defs Let_def intro!: keeps_branch keeps_ret go)
qed

lemma process_msg:
  assumes "\<And>m'. derived m m' \<Longrightarrow> ok m'"
  shows "keeps I (process_msg_at b stk d g q m) (\<lambda>_. True)"
proof -
  have ack: "keeps I (bnd p (\<lambda>msg. ret (True, msg))) (\<lambda>r. derived m (snd r))" if "keeps I p (derived m)" for p
    using that by (rule keeps_bind) (simp add: keeps_ret)
  show ?thesis
    unfolding process_msg_at_def
    by (rule keeps_bind [where R = "\<lambda>r. derived m (snd r)"])
       (use assms in \<open>auto intro!: keeps keeps_ret ack\<close>)
qed

end

section \<open>Streams of messages\<close>

text \<open>A message that occupies exactly the bytes of its struct and keeps its type on the way.\<close>

definition framed :: "msg_t \<Rightarrow> bool" where
  "framed m \<longleftrightarrow> length (topic (payload m)) = MAX_TOPIC_LENGTH \<and> length (body (payload m)) = MAX_MSG_LENGTH \<and> is_int32 (msg_type m)"

definition genuine :: "payload_t set \<Rightarrow> msg_t \<Rightarrow> bool" where
  "genuine P m \<longleftrightarrow> framed m \<and> (msg_type m = PUBLISH \<longrightarrow> payload m \<in> P)"

definition stream :: "payload_t set \<Rightarrow> char list \<Rightarrow> bool" where
  "stream P bs \<longleftrightarrow> (\<exists>ms. bs = concat (map encode_msg ms) \<and> (\<forall>m\<in>set ms. genuine P m))"

lemma genuine_mono: "genuine P m \<Longrightarrow> P \<subseteq> P' \<Longrightarrow> genuine P' m"
  by (auto simp: genuine_def)

lemma genuine_derived: "genuine P m \<Longrightarrow> derived m m' \<Longrightarrow> genuine P m'"
  by (auto simp: genuine_def framed_def derived_def is_int32_def)

lemma length_encode_framed: "framed m \<Longrightarrow> length (encode_msg m) = sizeof_msg"
  by (simp add: framed_def encode_msg_def sizeof_msg_def)

lemma decode_encode_genuine: "genuine P m \<Longrightarrow> genuine P (decode_msg (encode_msg m))"
proof -
  assume "genuine P m"
  then have "payload (decode_msg (encode_msg m)) = payload m" "msg_type (decode_msg (encode_msg m)) = msg_type m"
    by (simp_all add: genuine_def framed_def encode_msg_def decode_msg_def)
  with \<open>genuine P m\<close> show ?thesis by (simp add: genuine_def framed_def)
qed

lemma stream_Nil [simp]: "stream P []"
  by (auto simp: stream_def intro: exI [of _ "[]"])

lemma stream_append: "stream P bs \<Longrightarrow> genuine P m \<Longrightarrow> stream P (bs @ encode_msg m)"
proof -
  assume "genuine P m"
  moreover assume "stream P bs"
  then obtain ms where "bs = concat (map encode_msg ms)" "\<forall>m\<in>set ms. genuine P m" by (auto simp: stream_def)
  ultimately show ?thesis unfolding stream_def by (intro exI [of _ "ms @ [m]"]) auto
qed

lemma stream_mono: "stream P bs \<Longrightarrow> P \<subseteq> P' \<Longrightarrow> stream P' bs"
  unfolding stream_def using genuine_mono by blast

text \<open>What is left of a stream after some of its messages is a stream again.\<close>

lemma drop_messages:
  "\<forall>m\<in>set ms. framed m \<Longrightarrow> drop (sizeof_msg * k) (concat (map encode_msg ms)) = concat (map encode_msg (drop k ms))"
proof (induction ms arbitrary: k)
  case (Cons m ms)
  then show ?case
    using length_encode_framed [of m] by (cases k) simp_all
qed simp

lemma stream_rest:
  assumes "stream P bs" "sizeof_msg dvd n"
  shows "drop n bs = [] \<or> (\<exists>m rest. drop n bs = encode_msg m @ rest \<and> genuine P m)"
proof -
  obtain ms where ms: "bs = concat (map encode_msg ms)" "\<forall>m\<in>set ms. genuine P m" using assms(1) by (auto simp: stream_def)
  obtain k where "n = sizeof_msg * k" using assms(2) by (elim dvdE)
  then have d: "drop n bs = concat (map encode_msg (drop k ms))" using ms drop_messages [of ms k] by (simp add: genuine_def)
  show ?thesis
  proof (cases "drop k ms")
    case Nil
    with d show ?thesis by simp
  next
    case (Cons m rest)
    then have "m \<in> set ms" by (metis in_set_dropD list.set_intros(1))
    with Cons d ms(2) show ?thesis by auto
  qed
qed

section \<open>A host whose messages are genuine\<close>

text \<open>
  \<open>intact P Q K C w\<close>: no call fails; each queue \<open>i\<close> with \<open>Q i = Some T\<close> exists and holds genuine messages
  of the types \<open>T\<close>; a queue \<open>i\<close> with \<open>K k = Some i\<close> is found under the number \<open>k\<close>; and each connection
  \<open>(fd, out, in)\<close> of \<open>C\<close>, where \<open>out\<close> has reached the other end and \<open>in\<close> has come from it, has
  carried whole genuine messages in both directions and was read by whole messages.
\<close>

definition carries :: "payload_t set \<Rightarrow> (msg_t, 's) world \<Rightarrow> int \<Rightarrow> char list \<times> char list \<Rightarrow> bool" where
  "carries P w fd b \<longleftrightarrow> stream P (sent w fd) \<and> prefix (fst b) (sent w fd)
     \<and> peer w fd = (\<lambda>_. snd b) \<and> stream P (snd b) \<and> sizeof_msg dvd got w fd \<and> got w fd \<le> length (snd b)"

definition intact :: "payload_t set \<Rightarrow> (int \<rightharpoonup> int set) \<Rightarrow> (int \<rightharpoonup> int) \<Rightarrow> (int \<times> char list \<times> char list) set \<Rightarrow> (msg_t, 's) world \<Rightarrow> bool" where
  "intact P Q K C w \<longleftrightarrow> env w = []
     \<and> (\<forall>i T. Q i = Some T \<longrightarrow> (\<exists>ms. ipc_objs (queues w) i = Some ms \<and> (\<forall>m\<in>set ms. genuine P m \<and> msg_type m \<in> T)))
     \<and> (\<forall>k i. K k = Some i \<longrightarrow> ipc_keys (queues w) (ftok_key (dirkey w) k) = Some i)
     \<and> (\<forall>(fd, b)\<in>C. carries P w fd b)"

lemma carries_free [simp]:
  "carries P (w\<lparr>sems := x\<rparr>) = carries P w" "carries P (w\<lparr>shms := y\<rparr>) = carries P w" "carries P (w\<lparr>env := e\<rparr>) = carries P w"
  "carries P (w\<lparr>queues := z\<rparr>) = carries P w"
  by (simp_all add: fun_eq_iff carries_def)

lemma carries_sent: "carries P w fd b \<Longrightarrow> genuine P m \<Longrightarrow> carries P (w\<lparr>sent := (sent w)(fd' := sent w fd' @ encode_msg m)\<rparr>) fd b"
  by (auto simp: carries_def stream_append)

lemma carries_got:
  "carries P w fd b \<Longrightarrow> fd' = fd \<longrightarrow> sizeof_msg \<le> length (available w fd) \<Longrightarrow> carries P (w\<lparr>got := (got w)(fd' := got w fd' + sizeof_msg)\<rparr>) fd b"
  by (auto simp: carries_def available_def)

lemma intact_free [simp]:
  "intact P Q K C (w\<lparr>sems := x\<rparr>) = intact P Q K C w" "intact P Q K C (w\<lparr>shms := y\<rparr>) = intact P Q K C w"
  "intact P Q K C w \<Longrightarrow> intact P Q K C (w\<lparr>env := tl (env w)\<rparr>)"
  by (simp_all add: intact_def)

lemma intact_env: "intact P Q K C w \<Longrightarrow> env w = []"
  by (simp add: intact_def)

lemma intact_queue: "intact P Q K C w \<Longrightarrow> Q i = Some T \<Longrightarrow> \<exists>ms. ipc_objs (queues w) i = Some ms \<and> (\<forall>m\<in>set ms. genuine P m \<and> msg_type m \<in> T)"
  by (simp add: intact_def)

lemma intact_queueD:
  "intact P Q K C w \<Longrightarrow> Q i = Some T \<Longrightarrow> ipc_objs (queues w) i = Some ms \<Longrightarrow> \<forall>m\<in>set ms. genuine P m \<and> msg_type m \<in> T"
  by (fastforce dest: intact_queue)

lemma intact_put:
  assumes "intact P Q K C w" "\<And>T. Q i = Some T \<Longrightarrow> \<forall>m\<in>set ms. genuine P m \<and> msg_type m \<in> T"
  shows "intact P Q K C (w\<lparr>queues := ipc_put i ms (queues w)\<rparr>)"
  using assms by (auto simp: intact_def)

lemma intact_append:
  assumes "intact P Q K C w" "ipc_objs (queues w) i = Some ms" "\<And>T. Q i = Some T \<Longrightarrow> genuine P m \<and> msg_type m \<in> T"
  shows "intact P Q K C (w\<lparr>queues := ipc_put i (ms @ [m]) (queues w)\<rparr>)"
proof (rule intact_put [OF assms(1)])
  fix T assume T: "Q i = Some T"
  from intact_queueD [OF assms(1) T assms(2)] assms(3) [OF T] show "\<forall>m\<in>set (ms @ [m]). genuine P m \<and> msg_type m \<in> T" by auto
qed

lemma keeps_sendmsg:
  assumes "\<And>T. Q i = Some T \<Longrightarrow> genuine P m \<and> msg_type m \<in> T"
  shows "keeps (intact P Q K C) (sendmsg mtype i m) (\<lambda>_. True)"
proof (rule keepsI)
  fix w assume w: "intact P Q K C w"
  show "wp (sendmsg mtype i m) (\<lambda>r w'. intact P Q K C w' \<and> (\<forall>x. r = Ret x \<longrightarrow> True)) w"
    using w intact_env [OF w] intact_append [OF w _ assms] by (auto simp: wp split: option.split)
qed

lemma take_first_subset: "take_first Pr ms = Some (m, rest) \<Longrightarrow> m \<in> set ms \<and> set rest \<subseteq> set ms"
  by (induction ms arbitrary: rest) (auto split: if_splits)

lemma take_msg_subset: "take_msg mt ty ms = Some (m, rest) \<Longrightarrow> m \<in> set ms \<and> set rest \<subseteq> set ms"
  by (auto simp: take_msg_def split: if_splits dest!: take_first_subset)

lemma keeps_rcvmsg:
  fixes P :: "payload_t set" and K :: "int \<rightharpoonup> int" and C :: "(int \<times> char list \<times> char list) set"
  assumes "Q i = Some T"
  shows "keeps (intact P Q K C) (rcvmsg mtype i stk ty) (\<lambda>(_, m). genuine P m \<and> msg_type m \<in> T)"
    "keeps (intact P Q K C) (rcvmsg_no_wait mtype i stk ty) (\<lambda>(n, m). 0 \<le> n \<and> (m = stk \<and> n = 0 \<or> genuine P m \<and> msg_type m \<in> T))"
proof -
  have step: "genuine P m \<and> msg_type m \<in> T \<and> intact P Q K C (w\<lparr>queues := ipc_put i rest (queues w)\<rparr>)"
    if w: "intact P Q K C w" "ipc_objs (queues w) i = Some ms" "take_msg mtype ty ms = Some (m, rest)" for w ms m rest
  proof -
    have "\<forall>m\<in>set ms. genuine P m \<and> msg_type m \<in> T" using w(1,2) assms by (intro intact_queueD)
    with take_msg_subset [OF w(3)] show ?thesis by (auto intro!: intact_put [OF w(1)] simp: assms)
  qed
  have there: "ipc_objs (queues w) i \<noteq> None" if "intact P Q K C w" for w :: "(msg_t, 's) world"
    using intact_queue [of P Q K C w i T] that assms by auto
  show "keeps (intact P Q K C) (rcvmsg mtype i stk ty) (\<lambda>(_, m). genuine P m \<and> msg_type m \<in> T)"
    "keeps (intact P Q K C) (rcvmsg_no_wait mtype i stk ty) (\<lambda>(n, m). 0 \<le> n \<and> (m = stk \<and> n = 0 \<or> genuine P m \<and> msg_type m \<in> T))"
    by (auto intro!: keepsI simp: wp intact_env step split: option.split dest: there)
qed

text \<open>A connection carries whole messages.\<close>

lemma socket_send_whole:
  assumes "env w = []" "framed m"
  shows "socket_send fd m w = (Ret (int sizeof_msg), w\<lparr>sent := (sent w)(fd := sent w fd @ encode_msg m)\<rparr>)"
  using assms length_encode_framed [OF assms(2)]
  by (intro wp_eqI) (simp add: socket_send_def send_struct_def send_from.simps wp_sock_write sizeof_msg_def)

lemma socket_receive_whole:
  assumes "env w = []"
  shows "available w fd = [] \<Longrightarrow> socket_receive fd stk w = (Blocked, w)"
    "available w fd = encode_msg m @ rest \<Longrightarrow> framed m \<Longrightarrow>
      socket_receive fd stk w = (Ret (int sizeof_msg, decode_msg (encode_msg m)), w\<lparr>got := (got w)(fd := got w fd + sizeof_msg)\<rparr>)"
proof -
  show "available w fd = [] \<Longrightarrow> socket_receive fd stk w = (Blocked, w)"
    using assms by (intro wp_eqI) (simp add: socket_receive_def receive_struct_def receive_from.simps wp_sock_read sizeof_msg_def)
  assume a: "available w fd = encode_msg m @ rest" "framed m"
  then have "available w fd \<noteq> []" "encode_msg m \<noteq> []" "length (encode_msg m) = sizeof_msg"
    using length_encode_framed [OF a(2)] by (auto simp: sizeof_msg_def)
  with a assms show "socket_receive fd stk w = (Ret (int sizeof_msg, decode_msg (encode_msg m)), w\<lparr>got := (got w)(fd := got w fd + sizeof_msg)\<rparr>)"
    by (intro wp_eqI) (simp add: socket_receive_def receive_struct_def receive_from.simps wp_sock_read sizeof_msg_def Let_def)
qed

lemma keeps_socket_send:
  assumes "genuine P m"
  shows "keeps (intact P Q K C) (socket_send fd m) (\<lambda>_. True)"
proof (rule keepsI)
  fix w assume w: "intact P Q K C w"
  have "framed m" using assms by (simp add: genuine_def)
  note run = socket_send_whole [OF intact_env [OF w] this, of fd]
  have "intact P Q K C (w\<lparr>sent := (sent w)(fd := sent w fd @ encode_msg m)\<rparr>)"
    using w assms unfolding intact_def by (auto intro!: carries_sent)
  then show "wp (socket_send fd m) (\<lambda>r w'. intact P Q K C w' \<and> (\<forall>x. r = Ret x \<longrightarrow> True)) w"
    by (simp add: wp_def run)
qed

lemma keeps_socket_receive:
  assumes "(fd, b) \<in> C"
  shows "keeps (intact P Q K C) (socket_receive fd stk) (\<lambda>(n, m). genuine P m)"
proof (rule keepsI)
  fix w assume w: "intact P Q K C w"
  have "carries P w fd b" using w assms by (auto simp: intact_def)
  then obtain arrived where a: "peer w fd = (\<lambda>_. arrived)" "stream P arrived" "sizeof_msg dvd got w fd"
    by (auto simp: carries_def)
  note env = intact_env [OF w]
  have "available w fd = drop (got w fd) arrived" by (simp add: available_def a(1))
  with stream_rest [OF a(2,3)] consider "available w fd = []" | m rest where "available w fd = encode_msg m @ rest" "genuine P m"
    by auto
  then show "wp (socket_receive fd stk) (\<lambda>r w'. intact P Q K C w' \<and> (\<forall>x. r = Ret x \<longrightarrow> (case x of (n, m) \<Rightarrow> genuine P m))) w"
  proof cases
    case 1
    with w show ?thesis by (simp add: wp_def socket_receive_whole(1) [OF env])
  next
    case (2 m rest)
    then have f: "framed m" by (simp add: genuine_def)
    have "sizeof_msg \<le> length (available w fd)" using 2 length_encode_framed [OF f] by simp
    then have "intact P Q K C (w\<lparr>got := (got w)(fd := got w fd + sizeof_msg)\<rparr>)"
      using w unfolding intact_def by (auto intro!: carries_got)
    with decode_encode_genuine [OF 2(2)] show ?thesis
      by (simp add: wp_def socket_receive_whole(2) [OF env 2(1) f])
  qed
qed

section \<open>The processes keep it\<close>

lemma intact_machine: "machine_inv (intact P Q K C)"
  by unfold_locales simp_all

interpretation tables: machine_inv "intact P Q K C" for P Q K C
  by (rule intact_machine)

text \<open>The queues of a machine: the mailboxes hold publications only.\<close>

definition machine_queues :: "int \<Rightarrow> int \<Rightarrow> int \<Rightarrow> int \<rightharpoonup> int set" where
  "machine_queues reqq rq iq = [reqq \<mapsto> UNIV, rq \<mapsto> UNIV - {PUBLISH}, iq \<mapsto> {PUBLISH}]"

lemma framed_updates [simp]:
  "framed (m\<lparr>mtype := a\<rparr>) = framed m" "framed (m\<lparr>global_id := a\<rparr>) = framed m" "framed (m\<lparr>broker_id := a\<rparr>) = framed m"
  by (simp_all add: framed_def)

lemma genuine_updates [simp]:
  "genuine P (m\<lparr>mtype := a\<rparr>) = genuine P m" "genuine P (m\<lparr>global_id := a\<rparr>) = genuine P m" "genuine P (m\<lparr>broker_id := a\<rparr>) = genuine P m"
  by (simp_all add: genuine_def framed_def)

lemma genuine_ack: "framed m \<Longrightarrow> ty \<in> {ACK_OK, ACK_ERROR, ACK_CREATE, ACK_DESTROY, ACK_NO_MSG} \<Longrightarrow> genuine P (m\<lparr>msg_type := ty\<rparr>)"
  by (auto simp: genuine_def framed_def is_int32_def)

lemma genuine_framed: "genuine P m \<Longrightarrow> framed m"
  by (simp add: genuine_def)

lemma keeps_process_receive:
  assumes "Q = machine_queues reqq rq iq" "distinct [reqq, rq, iq]" "framed stk"
  shows "keeps (intact P Q K C) (process_receive stk rq iq msg) (\<lambda>_. True)"
proof -
  have q: "Q iq = Some {PUBLISH}" "\<And>T. Q rq = Some T \<Longrightarrow> T = UNIV - {PUBLISH}" using assms by (auto simp: machine_queues_def)
  show ?thesis
    unfolding process_receive_def
    by (rule keeps_bind [OF keeps_rcvmsg(2) [where Q = Q and i = iq, OF q(1)]])
       (auto simp: Let_def genuine_ack assms(3) genuine_framed intro!: keeps_thn keeps_sendmsg keeps_basic dest!: q(2) split: if_splits)
qed

lemma keeps_process_msg_br:
  assumes "Q = machine_queues reqq rq iq" "distinct [reqq, rq, iq]" "framed stk" "genuine P msg"
  shows "keeps (intact P Q K C) (process_msg_br stk a rq fd iq msg) (\<lambda>_. True)"
  using assms unfolding process_msg_br_def
  by (auto intro!: keeps_process_receive keeps_any [OF keeps_socket_send] keeps
      keeps_bind [where R = "\<lambda>x. \<forall>m. x = Some m \<longrightarrow> genuine P m"] keeps_ret split: if_splits)

lemma keeps_broker_req_step:
  assumes "Q = machine_queues reqq rq iq" "distinct [reqq, rq, iq]" "framed stk"
  shows "keeps (intact P Q K C) (broker_req_step stk stk_msg reqq a rq fd iq) (\<lambda>_. True)"
proof -
  have "Q reqq = Some UNIV" using assms by (simp add: machine_queues_def)
  from keeps_rcvmsg(1) [where Q = Q, OF this] show ?thesis
    unfolding broker_req_step_def by (rule keeps_bind) (use keeps_process_msg_br [OF assms] in auto)
qed

lemma keeps_process_message_br:
  assumes "Q = machine_queues reqq rq iq" "distinct [reqq, rq, iq]" "genuine P msg"
  shows "keeps (intact P Q K C) (process_message_br a rq iq msg) (\<lambda>_. True)"
  using assms unfolding process_message_br_def process_publish_br_def
  by (auto intro!: keeps keeps_sendmsg simp: machine_queues_def)

lemma keeps_broker_resp_step:
  assumes "Q = machine_queues reqq rq iq" "distinct [reqq, rq, iq]" "(fd, b) \<in> C"
  shows "keeps (intact P Q K C) (broker_resp_step stk fd a rq iq) (\<lambda>_. True)"
  unfolding broker_resp_step_def
  by (rule keeps_bind [OF keeps_socket_receive [OF assms(3)]]) (auto intro!: keeps keeps_process_message_br assms)

text \<open>The clients of a machine.\<close>


text \<open>The processes of the server.\<close>

definition server_queues :: "int \<Rightarrow> int \<Rightarrow> int \<rightharpoonup> int set" where
  "server_queues wq q = [wq \<mapsto> UNIV, q \<mapsto> UNIV]"

lemma keeps_req_handler_step:
  assumes "Q = server_queues wq q" "(fd, b) \<in> C"
  shows "keeps (intact P Q K C) (req_handler_step stk fd wq pid) (\<lambda>_. True)"
proof -
  have "keeps (intact P Q K C) (process_message_rq wq m pid) (\<lambda>_. True)" if "genuine P m" for m
    using that assms(1) by (auto simp: process_message_rq_def Let_def server_queues_def intro!: keeps keeps_sendmsg split: if_splits)
  then show ?thesis
    unfolding req_handler_step_def
    by (intro keeps_bind [OF keeps_socket_receive [OF assms(2)]]) (auto intro!: keeps)
qed

lemma keeps_resp_handler_step:
  assumes "Q q = Some T"
  shows "keeps (intact P Q K C) (resp_handler_step stk q pid fd) (\<lambda>_. True)"
  unfolding resp_handler_step_def process_msg_rs_def
  by (rule keeps_bind [OF keeps_rcvmsg(1) [where Q = Q, OF assms]])
     (auto intro!: keeps keeps_any [OF keeps_socket_send])

text \<open>The server's invariant, with a socket to the database that is none of the connections.\<close>

definition serves :: "payload_t set \<Rightarrow> int \<Rightarrow> int \<Rightarrow> int \<Rightarrow> (int \<times> char list \<times> char list) set \<Rightarrow> host \<Rightarrow> bool" where
  "serves P wq q d C w \<longleftrightarrow> d \<notin> fst ` C \<and> intact P (server_queues wq q) Map.empty C w"

lemma carries_other [simp]:
  "fd \<noteq> d \<Longrightarrow> carries P (w\<lparr>sent := (sent w)(d := x)\<rparr>) fd = carries P w fd"
  "fd \<noteq> d \<Longrightarrow> carries P (w\<lparr>got := (got w)(d := n)\<rparr>) fd = carries P w fd"
  by (simp_all add: fun_eq_iff carries_def)

lemma serves_socket:
  assumes "serves P wq q d C w"
  shows "serves P wq q d C (w\<lparr>sent := (sent w)(d := x)\<rparr>)" "serves P wq q d C (w\<lparr>got := (got w)(d := n)\<rparr>)"
proof -
  have "fd \<noteq> d" if "(fd, b) \<in> C" for fd b using assms that by (force simp: serves_def)
  with assms show "serves P wq q d C (w\<lparr>sent := (sent w)(d := x)\<rparr>)" "serves P wq q d C (w\<lparr>got := (got w)(d := n)\<rparr>)"
    by (auto simp: serves_def intact_def)
qed

interpretation worker_keeps: worker_inv "serves P wq q d C" d q "genuine P" for P wq q d C
proof unfold_locales
  fix w m ms assume "serves P wq q d C w" "genuine P m" "ipc_objs (queues w) q = Some ms"
  then show "serves P wq q d C (w\<lparr>queues := ipc_put q (ms @ [m]) (queues w)\<rparr>)"
    by (auto simp: serves_def server_queues_def split: if_splits intro!: intact_append)
qed (simp_all add: serves_def serves_socket [unfolded serves_def])

lemma keeps_worker_step:
  assumes "d \<notin> fst ` C"
  shows "keeps (intact P (server_queues wq q) Map.empty C) (worker_step stk stk_msg wq q g d) (\<lambda>_. True)"
proof -
  have "keeps (serves P wq q d C) (process_msg_at b stk d g q m) (\<lambda>_. True)" if "genuine P m" for m b
    by (rule worker_keeps.process_msg) (rule genuine_derived [OF that])
  then have "keeps (intact P (server_queues wq q) Map.empty C) (process_msg_at b stk d g q m) (\<lambda>_. True)" if "genuine P m" for m b
    using that assms by (simp add: keeps_def serves_def)
  note work = this
  have wq: "server_queues wq q wq = Some UNIV" by (simp add: server_queues_def)
  show ?thesis
    unfolding worker_step_def worker_step_at_def
    by (rule keeps_bind [OF keeps_rcvmsg(1) [where Q = "server_queues wq q", OF wq]]) (use work in auto)
qed

text \<open>A client of a machine puts a request into the queue of its local broker, and takes a response.\<close>

definition machine_keys :: "int \<Rightarrow> int \<Rightarrow> int \<rightharpoonup> int" where
  "machine_keys reqq rq = [BROKER_REQ_MSG \<mapsto> reqq, BROKER_RESP_MSG \<mapsto> rq]"

lemma keeps_getmsg:
  assumes "K k = Some i"
  shows "keeps (intact P Q K C) (getmsg k) (\<lambda>r. r = i \<or> r = -1)"
proof (rule keepsI)
  fix w assume w: "intact P Q K C w"
  then have "env w = []" "ipc_keys (queues w) (ftok_key (dirkey w) k) = Some i" using assms by (simp_all add: intact_def)
  with w show "wp (getmsg k) (\<lambda>r w'. intact P Q K C w' \<and> (\<forall>x. r = Ret x \<longrightarrow> x = i \<or> x = -1)) w"
    by (simp add: wp ipc_get_def)
qed

lemma keeps_client_send:
  assumes "genuine P msg" "distinct [reqq, rq, iq]"
  shows "keeps (intact P (machine_queues reqq rq iq) (machine_keys reqq rq) C) (send msg) (\<lambda>_. True)"
proof -
  have k: "machine_keys reqq rq BROKER_REQ_MSG = Some reqq" by (simp add: machine_keys_def)
  show ?thesis
    unfolding send_def
    by (rule keeps_bind [OF keeps_getmsg [where K = "machine_keys reqq rq", OF k]])
       (use assms in \<open>auto intro!: keeps keeps_sendmsg simp: machine_queues_def split: if_splits\<close>)
qed

lemma keeps_client_recv:
  assumes "distinct [reqq, rq, iq]"
  shows "keeps (intact P (machine_queues reqq rq iq) (machine_keys reqq rq) C) (recv (ret ()) i msg) (\<lambda>_. True)"
proof -
  have k: "machine_keys reqq rq BROKER_RESP_MSG = Some rq" and q: "machine_queues reqq rq iq rq = Some (UNIV - {PUBLISH})"
    using assms by (simp_all add: machine_keys_def machine_queues_def)
  show ?thesis
    unfolding recv_def
    by (rule keeps_bind [OF keeps_getmsg [where K = "machine_keys reqq rq", OF k]])
       (auto intro!: keeps keeps_any [OF keeps_rcvmsg(1) [where Q = "machine_queues reqq rq iq", OF q]])
qed

section \<open>The network\<close>

text \<open>
  One server with its database connection and a numbered family of machines, each with a socket to the
  server.  A site says where the parts of a machine are: its table, its three queues, its socket, the
  server's socket for it, and the response handler of the server that writes to that socket.
\<close>

record site =
  s_table :: int
  s_reqq :: int
  s_respq :: int
  s_inq :: int
  s_socket :: int
  s_conn :: int
  s_handler :: int

record wiring =
  w_work :: int
  w_resp :: int
  w_table :: int
  w_db :: int
  w_site :: "nat \<Rightarrow> site"

text \<open>\<open>published\<close> records the payloads that clients have sent in publications.\<close>

record net =
  hub :: host
  machines :: "nat \<Rightarrow> machine"
  published :: "payload_t set"

text \<open>
  The steps: a client sends a request or takes a response; the bytes written to a connection reach
  its other end; a process runs one iteration of its loop.  Each step takes whatever outcome the code
  has, waiting included.
\<close>

inductive net_step :: "wiring \<Rightarrow> net \<Rightarrow> net \<Rightarrow> bool" for L where
  client_asks: "framed msg \<Longrightarrow> send msg (machines N i) = (r, w') \<Longrightarrow>
    net_step L N (N\<lparr>machines := (machines N)(i := w'),
      published := (if msg_type msg = PUBLISH then insert (payload msg) (published N) else published N)\<rparr>)"
| client_takes: "recv (ret ()) l stk (machines N i) = (r, w') \<Longrightarrow> net_step L N (N\<lparr>machines := (machines N)(i := w')\<rparr>)"
| request_out: "s = w_site L i \<Longrightarrow> framed stk \<Longrightarrow>
    broker_req_step stk stk_msg (s_reqq s) (s_table s) (s_respq s) (s_socket s) (s_inq s) (machines N i) = (r, w') \<Longrightarrow>
    net_step L N (N\<lparr>machines := (machines N)(i := w')\<rparr>)"
| arrives_up: "s = w_site L i \<Longrightarrow> bs = sent (machines N i) (s_socket s) \<Longrightarrow>
    net_step L N (N\<lparr>hub := (hub N)\<lparr>peer := (peer (hub N))(s_conn s := (\<lambda>_. bs))\<rparr>\<rparr>)"
| request_in: "s = w_site L i \<Longrightarrow> req_handler_step stk (s_conn s) (w_work L) (s_handler s) (hub N) = (r, w') \<Longrightarrow>
    net_step L N (N\<lparr>hub := w'\<rparr>)"
| work: "worker_step stk stk_msg (w_work L) (w_resp L) (w_table L) (w_db L) (hub N) = (r, w') \<Longrightarrow> net_step L N (N\<lparr>hub := w'\<rparr>)"
| response_out: "s = w_site L i \<Longrightarrow> resp_handler_step stk (w_resp L) (s_handler s) (s_conn s) (hub N) = (r, w') \<Longrightarrow>
    net_step L N (N\<lparr>hub := w'\<rparr>)"
| arrives_down: "s = w_site L i \<Longrightarrow> bs = sent (hub N) (s_conn s) \<Longrightarrow>
    net_step L N (N\<lparr>machines := (machines N)(i := (machines N i)\<lparr>peer := (peer (machines N i))(s_socket s := (\<lambda>_. bs))\<rparr>)\<rparr>)"
| response_in: "s = w_site L i \<Longrightarrow>
    broker_resp_step stk (s_socket s) (s_table s) (s_respq s) (s_inq s) (machines N i) = (r, w') \<Longrightarrow>
    net_step L N (N\<lparr>machines := (machines N)(i := w')\<rparr>)"

section \<open>Its invariant\<close>

text \<open>The bytes that came up from machine \<open>i\<close> and those that came down to it.\<close>

definition net_ok :: "wiring \<Rightarrow> (nat \<Rightarrow> char list) \<Rightarrow> (nat \<Rightarrow> char list) \<Rightarrow> net \<Rightarrow> bool" where
  "net_ok L ups downs N \<longleftrightarrow>
     intact (published N) (server_queues (w_work L) (w_resp L)) Map.empty (range (\<lambda>i. (s_conn (w_site L i), downs i, ups i))) (hub N)
     \<and> (\<forall>i. case w_site L i of s \<Rightarrow>
         intact (published N) (machine_queues (s_reqq s) (s_respq s) (s_inq s)) (machine_keys (s_reqq s) (s_respq s))
           {(s_socket s, ups i, downs i)} (machines N i))"

definition wired :: "wiring \<Rightarrow> bool" where
  "wired L \<longleftrightarrow> inj (\<lambda>i. s_conn (w_site L i)) \<and> w_db L \<notin> range (\<lambda>i. s_conn (w_site L i))
     \<and> (\<forall>i. distinct [s_reqq (w_site L i), s_respq (w_site L i), s_inq (w_site L i)])"

lemma carries_mono: "carries P w fd b \<Longrightarrow> P \<subseteq> P' \<Longrightarrow> carries P' w fd b"
  by (auto simp: carries_def intro: stream_mono)

lemma intact_mono:
  assumes "intact P Q K C w" "P \<subseteq> P'"
  shows "intact P' Q K C w"
proof -
  have w: "env w = []" "\<forall>k i. K k = Some i \<longrightarrow> ipc_keys (queues w) (ftok_key (dirkey w) k) = Some i"
    "\<forall>(fd, b)\<in>C. carries P w fd b"
    using assms(1) by (simp_all add: intact_def)
  have "\<forall>i T. Q i = Some T \<longrightarrow> (\<exists>ms. ipc_objs (queues w) i = Some ms \<and> (\<forall>m\<in>set ms. genuine P' m \<and> msg_type m \<in> T))"
    using intact_queue [OF assms(1)] genuine_mono [OF _ assms(2)] by blast
  moreover have "\<forall>(fd, b)\<in>C. carries P' w fd b" using w(3) carries_mono [OF _ assms(2)] by blast
  ultimately show ?thesis using w(1,2) by (simp add: intact_def)
qed

lemma net_ok_site:
  assumes "net_ok L ups downs N"
  shows "intact (published N) (machine_queues (s_reqq (w_site L i)) (s_respq (w_site L i)) (s_inq (w_site L i)))
      (machine_keys (s_reqq (w_site L i)) (s_respq (w_site L i))) {(s_socket (w_site L i), ups i, downs i)} (machines N i)"
  using assms by (simp add: net_ok_def)

lemma net_ok_machine:
  assumes "net_ok L ups downs N"
    "keeps (intact (published N) (machine_queues (s_reqq (w_site L i)) (s_respq (w_site L i)) (s_inq (w_site L i)))
      (machine_keys (s_reqq (w_site L i)) (s_respq (w_site L i))) {(s_socket (w_site L i), ups i, downs i)}) p (\<lambda>_. True)"
    "p (machines N i) = (r, w')"
  shows "net_ok L ups downs (N\<lparr>machines := (machines N)(i := w')\<rparr>)"
  using keepsD [OF assms(2) net_ok_site [OF assms(1)] assms(3)] assms(1) by (auto simp: net_ok_def)

lemma net_ok_hub:
  assumes "net_ok L ups downs N"
    "keeps (intact (published N) (server_queues (w_work L) (w_resp L)) Map.empty (range (\<lambda>i. (s_conn (w_site L i), downs i, ups i)))) p (\<lambda>_. True)"
    "p (hub N) = (r, w')"
  shows "net_ok L ups downs (N\<lparr>hub := w'\<rparr>)"
  using keepsD [OF assms(2) _ assms(3)] assms(1) by (auto simp: net_ok_def)

lemma net_ok_publish:
  assumes "net_ok L ups downs N" "published N \<subseteq> P"
  shows "net_ok L ups downs (N\<lparr>published := P\<rparr>)"
  using assms by (auto simp: net_ok_def intro: intact_mono)

lemma carries_arrive:
  assumes "carries P w fd (out, old)" "stream P bs" "prefix old bs"
  shows "carries P (w\<lparr>peer := (peer w)(fd := (\<lambda>_. bs))\<rparr>) fd (out, bs)"
  using assms by (auto simp: carries_def dest: prefix_length_le)

lemma carries_elsewhere [simp]: "fd \<noteq> fd' \<Longrightarrow> carries P (w\<lparr>peer := (peer w)(fd' := x)\<rparr>) fd = carries P w fd"
  by (simp add: fun_eq_iff carries_def)

lemma carries_delivered: "carries P w fd (out, arrived) \<Longrightarrow> carries P w fd (sent w fd, arrived)"
  by (simp add: carries_def)

lemma carriesD: "carries P w fd (out, arrived) \<Longrightarrow> stream P (sent w fd) \<and> prefix out (sent w fd)"
  by (simp add: carries_def)

lemma intact_connections:
  "intact P Q K C w \<longleftrightarrow> intact P Q K {} w \<and> (\<forall>(fd, b)\<in>C. carries P w fd b)"
  by (auto simp: intact_def)

lemma intact_peer [simp]: "intact P Q K {} (w\<lparr>peer := x\<rparr>) = intact P Q K {} w"
  by (simp add: intact_def)

lemma net_ok_lines:
  assumes "net_ok L ups downs N"
  shows "carries (published N) (hub N) (s_conn (w_site L i)) (downs i, ups i)"
    "carries (published N) (machines N i) (s_socket (w_site L i)) (ups i, downs i)"
proof -
  have "\<forall>(fd, b)\<in>range (\<lambda>i. (s_conn (w_site L i), downs i, ups i)). carries (published N) (hub N) fd b"
    using assms by (simp add: net_ok_def intact_connections [where C = "range X" for X])
  then show "carries (published N) (hub N) (s_conn (w_site L i)) (downs i, ups i)" by auto
  show "carries (published N) (machines N i) (s_socket (w_site L i)) (ups i, downs i)"
    using net_ok_site [OF assms, of i] by (simp add: intact_connections [where C = "{x}" for x])
qed

lemma net_ok_arrives_up:
  assumes "net_ok L ups downs N" "wired L" "bs = sent (machines N i) (s_socket (w_site L i))"
  shows "net_ok L (ups(i := bs)) downs (N\<lparr>hub := (hub N)\<lparr>peer := (peer (hub N))(s_conn (w_site L i) := (\<lambda>_. bs))\<rparr>\<rparr>)"
proof -
  let ?w = "(hub N)\<lparr>peer := (peer (hub N))(s_conn (w_site L i) := (\<lambda>_. bs))\<rparr>" and ?P = "published N"
  have apart: "s_conn (w_site L j) = s_conn (w_site L i) \<longleftrightarrow> j = i" for j
    using assms(2) by (auto simp: wired_def inj_def)
  note lines = net_ok_lines [OF assms(1)]
  have bs: "stream ?P bs" "prefix (ups i) bs" using carriesD [OF lines(2) [of i]] assms(3) by simp_all
  have "carries ?P ?w (s_conn (w_site L j)) (downs j, (ups(i := bs)) j)" for j
    using lines(1) [of j] carries_arrive [OF lines(1) [of i] bs] apart [of j] by (cases "j = i") simp_all
  then have hub: "intact ?P (server_queues (w_work L) (w_resp L)) Map.empty (range (\<lambda>j. (s_conn (w_site L j), downs j, (ups(i := bs)) j))) ?w"
    using assms(1) by (subst intact_connections) (auto simp: net_ok_def intact_connections [where C = "range X" for X])
  have "carries ?P (machines N i) (s_socket (w_site L i)) (bs, downs i)"
    using carries_delivered [OF lines(2) [of i]] assms(3) by simp
  then have "intact ?P (machine_queues (s_reqq (w_site L j)) (s_respq (w_site L j)) (s_inq (w_site L j)))
      (machine_keys (s_reqq (w_site L j)) (s_respq (w_site L j))) {(s_socket (w_site L j), (ups(i := bs)) j, downs j)} (machines N j)" for j
    using net_ok_site [OF assms(1), of j] by (auto simp: intact_connections [where C = "{x}" for x])
  with hub show ?thesis by (simp add: net_ok_def)
qed

lemma net_ok_arrives_down:
  assumes "net_ok L ups downs N" "bs = sent (hub N) (s_conn (w_site L i))"
  shows "net_ok L ups (downs(i := bs)) (N\<lparr>machines := (machines N)(i := (machines N i)\<lparr>peer := (peer (machines N i))(s_socket (w_site L i) := (\<lambda>_. bs))\<rparr>)\<rparr>)"
proof -
  let ?w = "(machines N i)\<lparr>peer := (peer (machines N i))(s_socket (w_site L i) := (\<lambda>_. bs))\<rparr>" and ?P = "published N"
  note lines = net_ok_lines [OF assms(1)]
  have bs: "stream ?P bs" "prefix (downs i) bs" using carriesD [OF lines(1) [of i]] assms(2) by simp_all
  have "carries ?P (hub N) (s_conn (w_site L j)) ((downs(i := bs)) j, ups j)" for j
    using lines(1) [of j] carries_delivered [OF lines(1) [of i]] assms(2) by (cases "j = i") simp_all
  then have hub: "intact ?P (server_queues (w_work L) (w_resp L)) Map.empty (range (\<lambda>j. (s_conn (w_site L j), (downs(i := bs)) j, ups j))) (hub N)"
    using assms(1) by (subst intact_connections) (auto simp: net_ok_def intact_connections [where C = "range X" for X])
  have "carries ?P ?w (s_socket (w_site L i)) (ups i, bs)" using carries_arrive [OF lines(2) [of i] bs] .
  then have "intact ?P (machine_queues (s_reqq (w_site L j)) (s_respq (w_site L j)) (s_inq (w_site L j)))
      (machine_keys (s_reqq (w_site L j)) (s_respq (w_site L j))) {(s_socket (w_site L j), ups j, (downs(i := bs)) j)}
      (((machines N)(i := ?w)) j)" for j
    using net_ok_site [OF assms(1), of j] by (auto simp: intact_connections [where C = "{x}" for x])
  with hub show ?thesis by (simp add: net_ok_def)
qed

lemma net_ok_step:
  assumes "net_step L N N'" "wired L" "net_ok L ups downs N"
  shows "\<exists>ups' downs'. net_ok L ups' downs' N'"
proof -
  have d: "distinct [s_reqq (w_site L i), s_respq (w_site L i), s_inq (w_site L i)]" for i
    using assms(2) by (simp add: wired_def)
  have db: "w_db L \<notin> fst ` range (\<lambda>i. (s_conn (w_site L i), downs i, ups i))"
    using assms(2) by (auto simp: wired_def)
  show ?thesis
    using assms(1)
  proof cases
    case (client_asks msg i r w')
    let ?P = "if msg_type msg = PUBLISH then insert (payload msg) (published N) else published N"
    have ok: "net_ok L ups downs (N\<lparr>published := ?P\<rparr>)" by (rule net_ok_publish [OF assms(3)]) auto
    have g: "genuine ?P msg" using client_asks(2) by (simp add: genuine_def)
    have "net_ok L ups downs ((N\<lparr>published := ?P\<rparr>)\<lparr>machines := (machines (N\<lparr>published := ?P\<rparr>))(i := w')\<rparr>)"
      using keeps_client_send [OF g d [of i]] client_asks(3) by (intro net_ok_machine [OF ok, where p = "send msg"]) simp_all
    moreover have "(N\<lparr>published := ?P\<rparr>)\<lparr>machines := (machines (N\<lparr>published := ?P\<rparr>))(i := w')\<rparr> = N'"
      unfolding client_asks(1) by simp
    ultimately show ?thesis by metis
  next
    case (client_takes l stk i r w')
    show ?thesis
      unfolding client_takes(1)
      using net_ok_machine [OF assms(3) keeps_client_recv [OF d] client_takes(2)] by blast
  next
    case (request_out s i stk stk_msg r w')
    show ?thesis
      unfolding request_out(1)
      using net_ok_machine [OF assms(3) keeps_broker_req_step [OF refl d request_out(3)]] request_out(4)
      unfolding request_out(2) by blast
  next
    case (arrives_up s i bs)
    show ?thesis
      unfolding arrives_up(1)
      using net_ok_arrives_up [OF assms(3,2)] arrives_up(3) unfolding arrives_up(2) by blast
  next
    case (request_in s i stk r w')
    have "(s_conn (w_site L i), downs i, ups i) \<in> range (\<lambda>i. (s_conn (w_site L i), downs i, ups i))" by simp
    from net_ok_hub [OF assms(3) keeps_req_handler_step [OF refl this]] request_in(3) show ?thesis
      unfolding request_in(1,2) by blast
  next
    case (work stk stk_msg r w')
    from net_ok_hub [OF assms(3) keeps_worker_step [OF db] work(2)] show ?thesis
      unfolding work(1) by blast
  next
    case (response_out s i stk r w')
    have "server_queues (w_work L) (w_resp L) (w_resp L) = Some UNIV" by (simp add: server_queues_def)
    from net_ok_hub [OF assms(3) keeps_resp_handler_step [where Q = "server_queues (w_work L) (w_resp L)", OF this]]
      response_out(3) show ?thesis
      unfolding response_out(1,2) by blast
  next
    case (arrives_down s i bs)
    show ?thesis
      unfolding arrives_down(1)
      using net_ok_arrives_down [OF assms(3)] arrives_down(3) unfolding arrives_down(2) by blast
  next
    case (response_in s i stk r w')
    have "(s_socket (w_site L i), ups i, downs i) \<in> {(s_socket (w_site L i), ups i, downs i)}" by simp
    from net_ok_machine [OF assms(3) keeps_broker_resp_step [OF refl d this]] response_in(3) show ?thesis
      unfolding response_in(1,2) by blast
  qed
qed

lemma net_ok_reachable:
  assumes "(net_step L)\<^sup>*\<^sup>* N N'" "wired L" "net_ok L ups downs N"
  shows "\<exists>ups downs. net_ok L ups downs N'"
  using assms(1)
proof (induction rule: rtranclp_induct)
  case base
  show ?case using assms(3) by blast
next
  case (step N1 N2)
  then show ?case using net_ok_step [OF _ assms(2)] by blast
qed

section \<open>Properties\<close>

text \<open>A network in which nothing has happened yet.\<close>

definition fresh_socket :: "(msg_t, 's) world \<Rightarrow> int \<Rightarrow> bool" where
  "fresh_socket w fd \<longleftrightarrow> sent w fd = [] \<and> got w fd = 0 \<and> peer w fd = (\<lambda>_. [])"

definition net_started :: "wiring \<Rightarrow> net \<Rightarrow> bool" where
  "net_started L N \<longleftrightarrow> published N = {} \<and> env (hub N) = []
     \<and> (\<forall>q\<in>{w_work L, w_resp L}. ipc_objs (queues (hub N)) q = Some [])
     \<and> (\<forall>i. case w_site L i of s \<Rightarrow> let w = machines N i in
         fresh_socket (hub N) (s_conn s) \<and> fresh_socket w (s_socket s) \<and> env w = []
         \<and> (\<forall>q\<in>{s_reqq s, s_respq s, s_inq s}. ipc_objs (queues w) q = Some [])
         \<and> ipc_keys (queues w) (ftok_key (dirkey w) BROKER_REQ_MSG) = Some (s_reqq s)
         \<and> ipc_keys (queues w) (ftok_key (dirkey w) BROKER_RESP_MSG) = Some (s_respq s))"

lemma net_started_ok:
  assumes "net_started L N"
  shows "net_ok L (\<lambda>_. []) (\<lambda>_. []) N"
  using assms
  by (auto simp: net_started_def net_ok_def intact_def carries_def fresh_socket_def Let_def server_queues_def machine_queues_def
      machine_keys_def split: if_splits)

text \<open>
  C3: In every run of the network, in any interleaving of its processes and whatever the database
  answers, every message in a mailbox of a local broker is a publication whose topic and text a client
  has published: nothing is invented, altered or taken for a publication on the way.
\<close>

theorem mailboxes_hold_published:
  "wired L \<Longrightarrow> net_started L N0 \<Longrightarrow> (net_step L)\<^sup>*\<^sup>* N0 N \<Longrightarrow> s = w_site L i \<Longrightarrow>
   \<exists>ms. ipc_objs (queues (machines N i)) (s_inq s) = Some ms
     \<and> (\<forall>m\<in>set ms. msg_type m = PUBLISH \<and> payload m \<in> published N)"
proof -
  assume a: "wired L" "net_started L N0" "(net_step L)\<^sup>*\<^sup>* N0 N" "s = w_site L i"
  obtain ups downs where "net_ok L ups downs N"
    using net_ok_reachable [OF a(3,1) net_started_ok [OF a(2)]] by blast
  from intact_queue [OF net_ok_site [OF this, of i], of "s_inq s" "{PUBLISH}"] a(1,4) show ?thesis
    by (fastforce simp: machine_queues_def wired_def genuine_def)
qed

definition small_wiring :: wiring where
  "small_wiring = \<lparr>w_work = 0, w_resp = 1, w_table = 0, w_db = 4, w_site = (\<lambda>i. \<lparr>s_table = 0, s_reqq = 0, s_respq = 1, s_inq = 2,
     s_socket = 3, s_conn = 5 + int i, s_handler = 70 + int i\<rparr>)\<rparr>"

lemma small_wiring_wired: "wired small_wiring"
  by (auto simp: wired_def small_wiring_def inj_def)

lemma small_net_started:
  assumes "ready w a 0 1 2 ([], [], [])" "sent w = (\<lambda>_. [])" "got w = (\<lambda>_. 0)"
  shows "net_started small_wiring \<lparr>hub = (server_host [ring_row] [])\<lparr>peer := (\<lambda>_ _. [])\<rparr>, machines = (\<lambda>_. w\<lparr>peer := (\<lambda>_ _. [])\<rparr>), published = {}\<rparr>"
proof -
  have "env w = []" "ipc_objs (queues w) 0 = Some []" using readyD [OF assms(1)] by simp_all
  moreover have "ipc_objs (queues w) 1 = Some []" "ipc_objs (queues w) 2 = Some []"
    using readyD(1) [OF assms(1)] by (auto simp: at_state_def elim: at_workE)
  ultimately show ?thesis
    using assms by (simp add: net_started_def small_wiring_def fresh_socket_def server_host_def connected_def idle_host_def ready_def)
qed

text \<open>A network in which one client has published.\<close>

lemma small_run:
  obtains N0 N where "net_started small_wiring N0" "(net_step small_wiring)\<^sup>*\<^sup>* N0 N" "published N = {payload (request PUBLISH 5 ''rain'')}"
proof -
  obtain w a where w: "ready w a 0 1 2 ([], [], [])" "sent w = (\<lambda>_. [])" "got w = (\<lambda>_. 0)"
    using ready_host [of "[]" "[]"] by auto
  let ?m = "request PUBLISH 5 ''rain''"
  define N0 where "N0 = \<lparr>hub = (server_host [ring_row] [])\<lparr>peer := (\<lambda>_ _. [])\<rparr>, machines = (\<lambda>_. w\<lparr>peer := (\<lambda>_ _. [])\<rparr>), published = {}\<rparr>"
  have start: "net_started small_wiring N0" unfolding N0_def by (rule small_net_started [OF w])
  obtain r w' where send: "send ?m (machines N0 0) = (r, w')" by fastforce
  define N where "N = N0\<lparr>machines := (machines N0)(0 := w'),
      published := (if msg_type ?m = PUBLISH then insert (payload ?m) (published N0) else published N0)\<rparr>"
  have f: "framed ?m" by (simp add: framed_def request_def is_int32_def)
  have "net_step small_wiring N0 N" unfolding N_def by (rule client_asks [OF f send])
  then have run: "(net_step small_wiring)\<^sup>*\<^sup>* N0 N" by (rule r_into_rtranclp)
  have "published N = {payload ?m}" by (simp add: N_def N0_def)
  with start run show ?thesis by (rule that)
qed

lemma mailboxes_hold_published_witness:
  "\<exists>N0 N ms. net_started small_wiring N0 \<and> (net_step small_wiring)\<^sup>*\<^sup>* N0 N \<and> published N = {payload (request PUBLISH 5 ''rain'')}
     \<and> ipc_objs (queues (machines N 0)) 2 = Some ms \<and> (\<forall>m\<in>set ms. payload m \<in> published N)"
proof -
  obtain N0 N where r: "net_started small_wiring N0" "(net_step small_wiring)\<^sup>*\<^sup>* N0 N" "published N = {payload (request PUBLISH 5 ''rain'')}"
    by (rule small_run)
  have q: "s_inq (w_site small_wiring 0) = 2" by (simp add: small_wiring_def)
  obtain ms where
    ms: "ipc_objs (queues (machines N 0)) 2 = Some ms" "\<forall>m\<in>set ms. msg_type m = PUBLISH \<and> payload m \<in> published N"
    using mailboxes_hold_published [OF small_wiring_wired r(1,2) refl, of 0] unfolding q by (elim exE conjE) (rule that)
  show ?thesis
    by (rule exI [of _ N0], rule exI [of _ N], rule exI [of _ ms]) (intro conjI r ms(1) ballI, use ms(2) in blast)
qed

text \<open>
  C8: In every run of the network the data keep their types.  The bytes on each connection, in both
  directions, are whole structs with fields of the right size, and each reader has read whole structs; the
  queues of the server hold such structs, the response queues of the machines no publications, and the
  mailboxes publications only.
\<close>

theorem network_well_typed:
  "wired L \<Longrightarrow> net_started L N0 \<Longrightarrow> (net_step L)\<^sup>*\<^sup>* N0 N \<Longrightarrow> s = w_site L i \<Longrightarrow>
   (\<exists>ms. sent (machines N i) (s_socket s) = concat (map encode_msg ms) \<and> (\<forall>m\<in>set ms. framed m)) \<and> sizeof_msg dvd got (hub N) (s_conn s)
   \<and> (\<exists>ms. sent (hub N) (s_conn s) = concat (map encode_msg ms) \<and> (\<forall>m\<in>set ms. framed m)) \<and> sizeof_msg dvd got (machines N i) (s_socket s)
   \<and> (\<exists>ms. ipc_objs (queues (hub N)) (w_work L) = Some ms \<and> (\<forall>m\<in>set ms. framed m))
   \<and> (\<exists>ms. ipc_objs (queues (hub N)) (w_resp L) = Some ms \<and> (\<forall>m\<in>set ms. framed m))
   \<and> (\<exists>ms. ipc_objs (queues (machines N i)) (s_reqq s) = Some ms \<and> (\<forall>m\<in>set ms. framed m))
   \<and> (\<exists>ms. ipc_objs (queues (machines N i)) (s_respq s) = Some ms \<and> (\<forall>m\<in>set ms. framed m \<and> msg_type m \<noteq> PUBLISH))
   \<and> (\<exists>ms. ipc_objs (queues (machines N i)) (s_inq s) = Some ms \<and> (\<forall>m\<in>set ms. framed m \<and> msg_type m = PUBLISH))"
proof -
  assume a: "wired L" "net_started L N0" "(net_step L)\<^sup>*\<^sup>* N0 N" "s = w_site L i"
  obtain ups downs where ok: "net_ok L ups downs N"
    using net_ok_reachable [OF a(3,1) net_started_ok [OF a(2)]] by blast
  note lines = net_ok_lines [OF ok, of i, folded a(4)]
  have wires: "(\<exists>ms. sent (machines N i) (s_socket s) = concat (map encode_msg ms) \<and> (\<forall>m\<in>set ms. framed m)) \<and> sizeof_msg dvd got (hub N) (s_conn s)"
    "(\<exists>ms. sent (hub N) (s_conn s) = concat (map encode_msg ms) \<and> (\<forall>m\<in>set ms. framed m)) \<and> sizeof_msg dvd got (machines N i) (s_socket s)"
    using lines unfolding carries_def stream_def by (fastforce dest: genuine_framed)+
  have "intact (published N) (server_queues (w_work L) (w_resp L)) Map.empty (range (\<lambda>i. (s_conn (w_site L i), downs i, ups i))) (hub N)"
    using ok by (simp add: net_ok_def)
  note h = this
  have hub: "\<exists>ms. ipc_objs (queues (hub N)) j = Some ms \<and> (\<forall>m\<in>set ms. framed m)" if "j \<in> {w_work L, w_resp L}" for j
  proof -
    have "server_queues (w_work L) (w_resp L) j = Some UNIV" using that by (auto simp: server_queues_def)
    from intact_queue [where Q = "server_queues (w_work L) (w_resp L)", OF h this] genuine_framed show ?thesis by blast
  qed
  have site: "\<exists>ms. ipc_objs (queues (machines N i)) j = Some ms \<and> (\<forall>m\<in>set ms. framed m \<and> msg_type m \<in> T)"
    if "machine_queues (s_reqq s) (s_respq s) (s_inq s) j = Some T" for j T
    using intact_queue [OF net_ok_site [OF ok, of i, folded a(4)] that] genuine_framed by blast
  have d: "s_reqq s \<noteq> s_respq s" "s_reqq s \<noteq> s_inq s" "s_respq s \<noteq> s_inq s" using a(1,4) by (auto simp: wired_def)
  show ?thesis
    using wires hub [of "w_work L"] hub [of "w_resp L"] site [of "s_reqq s" UNIV] site [of "s_respq s" "UNIV - {PUBLISH}"]
      site [of "s_inq s" "{PUBLISH}"] d
    by (simp add: machine_queues_def)
qed

lemma network_well_typed_witness:
  "\<exists>N0 N ms. net_started small_wiring N0 \<and> (net_step small_wiring)\<^sup>*\<^sup>* N0 N \<and> published N \<noteq> {}
     \<and> ipc_objs (queues (machines N 0)) 0 = Some ms \<and> (\<forall>m\<in>set ms. framed m)"
proof -
  obtain N0 N where r: "net_started small_wiring N0" "(net_step small_wiring)\<^sup>*\<^sup>* N0 N" "published N = {payload (request PUBLISH 5 ''rain'')}"
    by (rule small_run)
  have q: "s_reqq (w_site small_wiring 0) = 0" by (simp add: small_wiring_def)
  obtain ms where ms: "ipc_objs (queues (machines N 0)) 0 = Some ms" "\<forall>m\<in>set ms. framed m"
    using network_well_typed [OF small_wiring_wired r(1,2) refl, of 0] unfolding q by (elim exE conjE) (rule that)
  have "published N \<noteq> {}" using r(3) by simp
  show ?thesis
    by (rule exI [of _ N0], rule exI [of _ N], rule exI [of _ ms]) (intro conjI r(1,2) ms \<open>published N \<noteq> {}\<close>)
qed

end
