(* ===== verification/Delivery.thy ===== *)
theory Delivery
  imports Network
begin

text \<open>
  A publication on its way through the whole system: from a calm network there is a run in which the
  message that one client publishes ends in the mailbox of a subscriber on another machine.
\<close>

section \<open>What a step leaves alone\<close>

definition untouched :: "int \<Rightarrow> int \<Rightarrow> char list \<Rightarrow> nat \<Rightarrow> (int \<Rightarrow> char list \<Rightarrow> char list) \<Rightarrow> host \<Rightarrow> bool" where
  "untouched d fd a b p w \<longleftrightarrow> fd \<noteq> d \<and> sent w fd = a \<and> got w fd = b \<and> peer w = p"

interpretation worker_frame: worker_inv "untouched d fd a b p" d q "\<lambda>_. True" for d fd a b p q
  by unfold_locales (simp_all add: untouched_def)

lemma worker_step_at_frame:
  assumes "worker_step_at b stk stk_msg wq q g d w = (r, w')" "fd \<noteq> d" "env w = []" "ipc_objs (queues w) wq = Some (m # rest)"
  shows "sent w' fd = sent w fd \<and> got w' fd = got w fd \<and> peer w' = peer w"
proof -
  let ?w = "w\<lparr>queues := ipc_put wq rest (queues w)\<rparr>"
  have "rcvmsg mtype wq stk_msg 0 w = (Ret (0, m), ?w)"
    using assms(3,4) by (intro wp_eqI) (simp add: wp take_msg_any)
  then have p: "process_msg_at b stk d g q m ?w = (r, w')" using assms(1) by (simp add: worker_step_at_def bnd_def)
  have "keeps (untouched d fd (sent w fd) (got w fd) (peer w)) (process_msg_at b stk d g q m) (\<lambda>_. True)"
    by (rule worker_frame.process_msg) simp
  from keepsD [OF this _ p] assms(2) show ?thesis by (simp add: untouched_def)
qed

lemmas worker_step_frame = worker_step_at_frame [of BROKER_ID, folded worker_step_def]

lemma session_elsewhere:
  "fd \<noteq> d \<Longrightarrow> session (w\<lparr>peer := (peer w)(fd := x)\<rparr>) d U T = session w d U T"
  "fd \<noteq> d \<Longrightarrow> session (w\<lparr>got := (got w)(fd := n)\<rparr>) d U T = session w d U T"
  "fd \<noteq> d \<Longrightarrow> session (w\<lparr>sent := (sent w)(fd := y)\<rparr>) d U T = session w d U T"
  by (simp_all add: session_def)

lemma up_elsewhere:
  "fd \<noteq> d \<Longrightarrow> up (w\<lparr>peer := (peer w)(fd := x)\<rparr>) g q d gs ms U T = up w g q d gs ms U T"
  "fd \<noteq> d \<Longrightarrow> up (w\<lparr>got := (got w)(fd := n)\<rparr>) g q d gs ms U T = up w g q d gs ms U T"
  by (simp_all add: up_def session_elsewhere serving_def guard_def)

section \<open>Loops as runs of the network\<close>

lemma response_out_run:
  assumes "s = w_site L i" "resp_handler_loop stks (w_resp L) (s_handler s) (s_conn s) (hub N) = (Ret (), w')"
  shows "(net_step L)\<^sup>*\<^sup>* N (N\<lparr>hub := w'\<rparr>)"
  using assms(2)
proof (induction stks arbitrary: N)
  case Nil
  then show ?case by (cases N) (auto simp: ret_def)
next
  case (Cons stk stks)
  obtain r w1 where one: "resp_handler_step stk (w_resp L) (s_handler s) (s_conn s) (hub N) = (r, w1)" by fastforce
  with Cons.prems have r: "r = Ret ()" "resp_handler_loop stks (w_resp L) (s_handler s) (s_conn s) w1 = (Ret (), w')"
    by (auto simp: bnd_def split: res.splits)
  have "net_step L N (N\<lparr>hub := w1\<rparr>)" using one by (rule response_out [OF assms(1)])
  also have "(net_step L)\<^sup>*\<^sup>* (N\<lparr>hub := w1\<rparr>) ((N\<lparr>hub := w1\<rparr>)\<lparr>hub := w'\<rparr>)" using r(2) by (intro Cons.IH) simp
  finally show ?case by simp
qed

lemma response_in_run:
  assumes "s = w_site L i" "broker_resp_loop stks (s_socket s) (s_table s) (s_respq s) (s_inq s) (machines N i) = (Ret (), w')"
  shows "(net_step L)\<^sup>*\<^sup>* N (N\<lparr>machines := (machines N)(i := w')\<rparr>)"
  using assms(2)
proof (induction stks arbitrary: N)
  case Nil
  then have "(machines N)(i := w') = machines N" by (auto simp: ret_def)
  then show ?case by (cases N) simp
next
  case (Cons stk stks)
  obtain r w1 where one: "broker_resp_step stk (s_socket s) (s_table s) (s_respq s) (s_inq s) (machines N i) = (r, w1)" by fastforce
  have step: "net_step L N (N\<lparr>machines := (machines N)(i := w1)\<rparr>)" using one by (rule response_in [OF assms(1)])
  from Cons.prems one consider "r = Ret False" "w1 = w'"
    | "r = Ret True" "broker_resp_loop stks (s_socket s) (s_table s) (s_respq s) (s_inq s) w1 = (Ret (), w')"
    by (auto simp: bnd_def ret_def split: res.splits if_splits)
  then show ?case
  proof cases
    case 1
    with step show ?thesis by blast
  next
    case 2
    note step
    also have "(net_step L)\<^sup>*\<^sup>* (N\<lparr>machines := (machines N)(i := w1)\<rparr>)
        ((N\<lparr>machines := (machines N)(i := w1)\<rparr>)\<lparr>machines := (machines (N\<lparr>machines := (machines N)(i := w1)\<rparr>))(i := w')\<rparr>)"
      using 2(2) by (intro Cons.IH) simp
    also have "(N\<lparr>machines := (machines N)(i := w1)\<rparr>)\<lparr>machines := (machines (N\<lparr>machines := (machines N)(i := w1)\<rparr>))(i := w')\<rparr>
        = N\<lparr>machines := (machines N)(i := w')\<rparr>"
      by (rule net.equality) (simp_all add: fun_eq_iff)
    finally show ?thesis .
  qed
qed

section \<open>A calm network\<close>

text \<open>
  Nothing is under way: the queues of the server are empty, the local brokers wait, and every byte
  that was sent has been read.
\<close>

definition calm :: "wiring \<Rightarrow> net \<Rightarrow> global_id_t list \<Rightarrow> users \<Rightarrow> topics \<Rightarrow> (nat \<Rightarrow> local_state) \<Rightarrow> bool" where
  "calm L N gs U T S \<longleftrightarrow> wired L \<and> w_work L \<noteq> w_resp L
     \<and> up (hub N) (w_table L) (w_resp L) (w_db L) gs [] U T \<and> ipc_objs (queues (hub N)) (w_work L) = Some []
     \<and> (\<forall>i. case w_site L i of s \<Rightarrow>
         ready (machines N i) (s_table s) (s_reqq s) (s_respq s) (s_inq s) (S i)
         \<and> got (hub N) (s_conn s) = length (sent (machines N i) (s_socket s))
         \<and> got (machines N i) (s_socket s) = length (sent (hub N) (s_conn s)))"

lemma wired_db: "wired L \<Longrightarrow> s_conn (w_site L i) \<noteq> w_db L"
  unfolding wired_def by (metis rangeI)

text \<open>The publication of client \<open>l\<close> of machine \<open>i\<close> reaches the worker queue.\<close>

lemma request_reaches_worker:
  assumes c: "calm L N gs U T S" and m: "local_request_ok m (S i)" "msg_type m = PUBLISH" "global_of (fst (S i)) (mtype m) = Some ga" "0 < ga"
  shows "\<exists>N'. (net_step L)\<^sup>*\<^sup>* N N' \<and> up (hub N') (w_table L) (w_resp L) (w_db L) gs [] U T
    \<and> ipc_objs (queues (hub N')) (w_work L) = Some [m\<lparr>mtype := ga\<rparr>] \<and> sent (hub N') = sent (hub N)
    \<and> (\<forall>j. j \<noteq> i \<longrightarrow> machines N' j = machines N j)"
proof -
  let ?s = "w_site L i" and ?m = "m\<lparr>mtype := ga\<rparr>"
  have r: "ready (machines N i) (s_table ?s) (s_reqq ?s) (s_respq ?s) (s_inq ?s) (S i)"
    and got: "got (hub N) (s_conn ?s) = length (sent (machines N i) (s_socket ?s))"
    and hub: "up (hub N) (w_table L) (w_resp L) (w_db L) gs [] U T" "ipc_objs (queues (hub N)) (w_work L) = Some []"
    and apart: "w_work L \<noteq> w_resp L" "s_conn ?s \<noteq> w_db L"
    using c by (simp_all add: calm_def wired_db)
  have wf: "wf_msg m" "0 < mtype m" "is_int64 ga" using m by (auto simp: local_request_ok_def)
  then have wf1: "wf_msg ?m" by (simp add: wf_msg_def)
  have f: "framed m" using wf(1) by (simp add: framed_def wf_msg_def)
  have abs: "abs_request blank_msg m (S i) = (S i, [?m])"
    using m by (cases "S i") (auto simp: abs_request_def)
  define P1 where "P1 = insert (payload m) (published N)"
  define N1 where "N1 = N\<lparr>machines := (machines N)(i := asked (machines N i) (s_reqq ?s) m), published := P1\<rparr>"
  have s1: "net_step L N N1"
    using client_asks [OF f send_run [OF r wf(2)]] m(2) by (simp add: N1_def P1_def)
  obtain w2 where w2: "broker_req_loop [(blank_msg, blank_msg)] (s_reqq ?s) (s_table ?s) (s_respq ?s) (s_socket ?s) (s_inq ?s)
      (asked (machines N i) (s_reqq ?s) m) = (Ret (), w2)"
    "sent w2 (s_socket ?s) = sent (machines N i) (s_socket ?s) @ encode_msg ?m"
    using handled_once [OF r m(1), of "(blank_msg, blank_msg)" "S i" "[?m]" "s_socket ?s"] abs by auto
  then obtain x where x: "broker_req_step blank_msg blank_msg (s_reqq ?s) (s_table ?s) (s_respq ?s) (s_socket ?s) (s_inq ?s)
      (machines N1 i) = (x, w2)"
    by (auto simp: N1_def bnd_def ret_def split: prod.splits res.splits)
  define N2 where "N2 = N1\<lparr>machines := (machines N1)(i := w2)\<rparr>"
  have "framed blank_msg" by (simp add: framed_def blank_msg_def is_int32_def)
  then have s2: "net_step L N1 N2" unfolding N2_def using x by (rule request_out [OF refl])
  define bs where "bs = sent (machines N i) (s_socket ?s) @ encode_msg ?m"
  define N3 where "N3 = N2\<lparr>hub := (hub N2)\<lparr>peer := (peer (hub N2))(s_conn ?s := (\<lambda>_. bs))\<rparr>\<rparr>"
  have s3: "net_step L N2 N3" unfolding N3_def by (rule arrives_up [OF refl]) (simp add: bs_def N2_def w2(2))
  have h3: "hub N3 = (hub N)\<lparr>peer := (peer (hub N))(s_conn ?s := (\<lambda>_. bs))\<rparr>" by (simp add: N3_def N2_def N1_def)
  have e: "env (hub N3) = []" using hub(1) h3 by (simp add: up_def session_def)
  have q: "ipc_objs (queues (hub N3)) (w_work L) = Some []" using hub(2) h3 by simp
  have "available (hub N3) (s_conn ?s) = concat (map encode_msg [?m]) @ []"
    using got by (simp add: h3 available_def bs_def)
  from req_handler_loop_run [OF e q this, of "[blank_msg]" "s_handler ?s"] wf1 m(2,4)
  have w4: "req_handler_loop [blank_msg] (s_conn ?s) (w_work L) (s_handler ?s) (hub N3)
      = (Ret (), (hub N3)\<lparr>queues := ipc_put (w_work L) [?m] (queues (hub N3)),
          got := (got (hub N3))(s_conn ?s := got (hub N3) (s_conn ?s) + sizeof_msg)\<rparr>)" (is "_ = (_, ?w4)")
    by (simp add: accepted_def)
  obtain x4 where x4: "req_handler_step blank_msg (s_conn ?s) (w_work L) (s_handler ?s) (hub N3) = (x4, ?w4)"
    using w4 by (auto simp: bnd_def ret_def split: prod.splits res.splits if_splits)
  define N4 where "N4 = N3\<lparr>hub := ?w4\<rparr>"
  have s4: "net_step L N3 N4" unfolding N4_def by (rule request_in [OF refl x4])
  have "up ?w4 (w_table L) (w_resp L) (w_db L) gs [] U T"
  proof -
    have "up (hub N3) (w_table L) (w_resp L) (w_db L) gs [] U T" unfolding h3 using hub(1) up_elsewhere(1) [OF apart(2)] by simp
    from up_queue [OF this, of "ipc_put (w_work L) [?m] (queues (hub N3))" "[]"] this apart(1)
    have "up ((hub N3)\<lparr>queues := ipc_put (w_work L) [?m] (queues (hub N3))\<rparr>) (w_table L) (w_resp L) (w_db L) gs [] U T"
      by (auto simp: up_def)
    from up_elsewhere(2) [OF apart(2), THEN iffD2, OF this] show ?thesis by simp
  qed
  moreover have "(net_step L)\<^sup>*\<^sup>* N N4" using s1 s2 s3 s4 by (meson rtranclp.rtrancl_into_rtrancl rtranclp.rtrancl_refl)
  ultimately show ?thesis
    by (intro exI [of _ N4]) (simp add: N4_def, simp add: N3_def N2_def N1_def h3)
qed

text \<open>The worker answers, and nothing else of the server's connections changes.\<close>

lemma worker_delivers:
  assumes "up (hub N) (w_table L) (w_resp L) (w_db L) gs [] U T" "ipc_objs (queues (hub N)) (w_work L) = Some [m]"
    "w_work L \<noteq> w_resp L" "ids_below n U" "n < INT_MAX" "request_fits m (gs, U, T)" "msg_type m = PUBLISH" "broker_id m = 0"
    "handler_of gs (mtype m) = Some h"
  defines "m' \<equiv> m\<lparr>broker_id := BROKER_ID\<rparr>"
  defines "out \<equiv> copies gs m' False (take MAX_CLIENTS (subscribers T (topic_of m))) @ [m'\<lparr>global_id := mtype m, mtype := h, msg_type := ACK_OK\<rparr>]"
  shows "\<exists>N'. net_step L N N' \<and> up (hub N') (w_table L) (w_resp L) (w_db L) gs out U T \<and> machines N' = machines N
    \<and> (\<forall>fd. fd \<noteq> w_db L \<longrightarrow> sent (hub N') fd = sent (hub N) fd)"
proof -
  have abs: "abs_serve m (gs, U, T) = ((gs, U, T), out)"
    using assms(7-9) by (simp add: abs_serve_def publish_defs Let_def out_def m'_def)
  obtain w' where w': "worker_step blank_db_msg m (w_work L) (w_resp L) (w_table L) (w_db L) (hub N) = (Ret (), w')"
    "up w' (w_table L) (w_resp L) (w_db L) gs out U T"
    using worker_step_run [OF assms(1,2,3) blank_db_msg_wf assms(4-6) abs] by auto
  have "env (hub N) = []" using assms(1) by (rule upE)
  note frame = worker_step_frame [OF w'(1) _ this assms(2)]
  define N' where "N' = N\<lparr>hub := w'\<rparr>"
  have "net_step L N N'" unfolding N'_def by (rule work [OF w'(1)])
  with w'(2) frame show ?thesis by (intro exI [of _ N']) (simp add: N'_def)
qed

text \<open>What the mailboxes get of a sequence of publications.\<close>

lemma publications_mailed:
  "\<forall>m\<in>set ms. msg_type m = PUBLISH \<Longrightarrow>
   abs_events (map Response ms) (rs, resp, inc)
     = ((rs, resp, inc @ map (\<lambda>m. m\<lparr>mtype := the (local_of rs (mtype m))\<rparr>) (filter (\<lambda>m. local_of rs (mtype m) \<noteq> None) ms)), [])"
  by (induction ms arbitrary: inc) (auto simp: abs_response_def split: option.split)

lemma publications_ok: "\<forall>m\<in>set ms. msg_type m = PUBLISH \<and> is_int32 (mtype m) \<Longrightarrow> events_ok (map Response ms) S"
  by (induction ms arbitrary: S) auto

lemma copies_members: "c \<in> set (copies gs m fwd is) \<Longrightarrow> \<exists>i h. c = m\<lparr>global_id := i, mtype := h\<rparr> \<and> i \<in> set is
    \<and> (h = handler_code gs NEXT_SERVER_GLOBAL_ID \<or> handler_of gs i = Some h)"
  by (induction "is" arbitrary: fwd) (fastforce split: option.splits if_splits)+

lemma copy_made: "handler_of gs i = Some h \<Longrightarrow> i \<in> set is \<Longrightarrow> m\<lparr>global_id := i, mtype := h\<rparr> \<in> set (copies gs m fwd is)"
  by (induction "is" arbitrary: fwd) (auto split: option.split)

text \<open>What is queued fits its struct when the identifiers do.\<close>

lemma handler_wf: "\<forall>r\<in>set gs. is_int64 (g_mtype r) \<Longrightarrow> handler_of gs i = Some h \<Longrightarrow> is_int64 h"
  by (auto simp: handler_of_def dest!: row_of_SomeD)

lemma copies_wf:
  assumes "wf_msg m" "\<forall>r\<in>set gs. is_int64 (g_mtype r)" "\<forall>x\<in>set is. is_int32 x" "c \<in> set (copies gs m fwd is)"
  shows "wf_msg c"
proof -
  obtain i h where c: "c = m\<lparr>global_id := i, mtype := h\<rparr>" "i \<in> set is" "h = handler_code gs NEXT_SERVER_GLOBAL_ID \<or> handler_of gs i = Some h"
    using copies_members [OF assms(4)] by blast
  have "is_int64 (handler_code gs 0)"
    using handler_wf [OF assms(2)] by (auto simp: handler_code_def is_int64_def split: option.split)
  then have "is_int64 h" using c(3) handler_wf [OF assms(2)] by auto
  with assms(1,3) c(1,2) show ?thesis by (simp add: wf_msg_def)
qed

text \<open>The responses for the handler of machine \<open>j\<close> reach the machine and are handled there.\<close>

lemma responses_reach_machine:
  assumes up: "up (hub N) (w_table L) (w_resp L) (w_db L) gs out U T" and wf: "\<forall>m\<in>set out. wf_msg m"
    and s: "s = w_site L j" and at: "at_state (machines N j) (s_table s) (s_respq s) (s_inq s) S" "s_respq s \<noteq> s_inq s"
    and h: "0 < s_handler s" and read: "got (machines N j) (s_socket s) = length (sent (hub N) (s_conn s))"
    and fs: "fs = forwarded (filter (\<lambda>m. mtype m = s_handler s) out)" "\<forall>m\<in>set fs. msg_type m = PUBLISH \<and> is_int32 (mtype m)"
  shows "\<exists>N'. (net_step L)\<^sup>*\<^sup>* N N' \<and> at_state (machines N' j) (s_table s) (s_respq s) (s_inq s) (fst (abs_events (map Response fs) S))"
proof -
  have e: "env (hub N) = []" and q: "ipc_objs (queues (hub N)) (w_resp L) = Some out" using up by (auto elim: upE)
  let ?n = "length (filter (\<lambda>m. mtype m = s_handler s) out)"
  obtain w1 where w1: "resp_handler_loop (replicate ?n blank_msg) (w_resp L) (s_handler s) (s_conn s) (hub N) = (Ret (), w1)"
    "sent w1 (s_conn s) = sent (hub N) (s_conn s) @ concat (map encode_msg fs)"
    using resp_handler_loop_run [OF e q h _ wf, of "replicate ?n blank_msg" "s_conn s"] fs(1) by simp
  define N1 where "N1 = N\<lparr>hub := w1\<rparr>"
  have r1: "(net_step L)\<^sup>*\<^sup>* N N1" unfolding N1_def by (rule response_out_run [OF s w1(1)])
  let ?wj = "(machines N j)\<lparr>peer := (peer (machines N j))(s_socket s := (\<lambda>_. sent w1 (s_conn s)))\<rparr>"
  define N2 where "N2 = N1\<lparr>machines := (machines N1)(j := (machines N1 j)\<lparr>peer := (peer (machines N1 j))(s_socket s := (\<lambda>_. sent w1 (s_conn s)))\<rparr>)\<rparr>"
  have r2: "net_step L N1 N2" unfolding N2_def by (rule arrives_down [OF s]) (simp add: N1_def)
  have j2: "machines N2 j = ?wj" by (simp add: N2_def N1_def)
  have "at_state ?wj (s_table s) (s_respq s) (s_inq s) S"
    using at(1) by (simp add: at_state_def at_work_def open_broker_def guard_def)
  moreover have "available ?wj (s_socket s) = concat (map encode_msg fs) @ []" using read w1(2) by (simp add: available_def)
  moreover have "\<forall>m\<in>set fs. wf_msg m" using wf wf_forwarded by (auto simp: fs(1) forwarded_def)
  moreover have "abs_events (map Response fs) S = (fst (abs_events (map Response fs) S), snd (abs_events (map Response fs) S))" by simp
  ultimately obtain w3 where w3: "broker_resp_loop (replicate (length fs) blank_msg) (s_socket s) (s_table s) (s_respq s) (s_inq s) ?wj = (Ret (), w3)"
    "at_state w3 (s_table s) (s_respq s) (s_inq s) (fst (abs_events (map Response fs) S))"
    using broker_resp_loop_run [OF _ at(2) _ _ _ publications_ok [OF fs(2)], of ?wj "s_table s" S "s_socket s" "[]" "replicate (length fs) blank_msg"]
    by (metis length_replicate)
  have "(net_step L)\<^sup>*\<^sup>* N2 (N2\<lparr>machines := (machines N2)(j := w3)\<rparr>)"
    using w3(1) unfolding j2 [symmetric] by (rule response_in_run [OF s])
  with r1 r2 have "(net_step L)\<^sup>*\<^sup>* N (N2\<lparr>machines := (machines N2)(j := w3)\<rparr>)"
    by (meson rtranclp.rtrancl_into_rtrancl rtranclp_trans)
  with w3(2) show ?thesis by (intro exI [of _ "N2\<lparr>machines := (machines N2)(j := w3)\<rparr>"]) simp
qed

lemma forwarded_mem: "c \<in> set xs \<Longrightarrow> msg_type c = PUBLISH \<Longrightarrow> c\<lparr>mtype := global_id c\<rparr> \<in> set (forwarded xs)"
  by (simp add: forwarded_def)

section \<open>Properties\<close>

text \<open>
  C4: From a calm network, the publication of a client on one machine can reach every subscriber
  among the first 50 on another machine of the server: there is a run of the network at whose end the
  subscriber's mailbox holds a message with the published topic and text.
\<close>

theorem publication_reaches_subscriber:
  "calm L N gs U T S \<Longrightarrow> i \<noteq> j \<Longrightarrow> s_handler (w_site L i) \<noteq> s_handler (w_site L j) \<Longrightarrow>
   local_request_ok m (S i) \<Longrightarrow> msg_type m = PUBLISH \<Longrightarrow> broker_id m = 0 \<Longrightarrow>
   global_of (fst (S i)) (mtype m) = Some ga \<Longrightarrow> handler_of gs ga = Some (s_handler (w_site L i)) \<Longrightarrow>
   gb \<in> set (take MAX_CLIENTS (subscribers T (topic_of m))) \<Longrightarrow> handler_of gs gb = Some (s_handler (w_site L j)) \<Longrightarrow>
   local_of (fst (S j)) gb = Some lb \<Longrightarrow>
   request_fits (m\<lparr>mtype := ga\<rparr>) (gs, U, T) \<Longrightarrow> ids_below n U \<Longrightarrow> n < INT_MAX \<Longrightarrow>
   \<forall>x\<in>set (subscribers T (topic_of m)). is_int32 x \<Longrightarrow> \<forall>r\<in>set gs. is_int64 (g_mtype r) \<Longrightarrow>
   \<exists>N' S' m'. (net_step L)\<^sup>*\<^sup>* N N'
     \<and> at_state (machines N' j) (s_table (w_site L j)) (s_respq (w_site L j)) (s_inq (w_site L j)) S'
     \<and> m' \<in> set (mailbox lb S') \<and> payload m' = payload m"
proof -
  assume c: "calm L N gs U T S" and ij: "i \<noteq> j" "s_handler (w_site L i) \<noteq> s_handler (w_site L j)"
  assume m: "local_request_ok m (S i)" "msg_type m = PUBLISH" "broker_id m = 0" "global_of (fst (S i)) (mtype m) = Some ga"
    "handler_of gs ga = Some (s_handler (w_site L i))"
  assume b: "gb \<in> set (take MAX_CLIENTS (subscribers T (topic_of m)))" "handler_of gs gb = Some (s_handler (w_site L j))"
    "local_of (fst (S j)) gb = Some lb"
  assume f: "request_fits (m\<lparr>mtype := ga\<rparr>) (gs, U, T)" "ids_below n U" "n < INT_MAX"
    "\<forall>x\<in>set (subscribers T (topic_of m)). is_int32 x" "\<forall>r\<in>set gs. is_int64 (g_mtype r)"
  let ?s = "w_site L j" and ?subs = "take MAX_CLIENTS (subscribers T (topic_of m))"
  let ?m = "m\<lparr>mtype := ga, broker_id := BROKER_ID\<rparr>"
  let ?out = "copies gs ?m False ?subs @ [?m\<lparr>global_id := ga, mtype := s_handler (w_site L i), msg_type := ACK_OK\<rparr>]"
  have ga: "0 < ga" "is_int32 ga" using f(1) by (simp_all add: request_fits_def)
  have calm: "w_work L \<noteq> w_resp L" "s_conn ?s \<noteq> w_db L"
    "ready (machines N j) (s_table ?s) (s_reqq ?s) (s_respq ?s) (s_inq ?s) (S j)"
    "got (machines N j) (s_socket ?s) = length (sent (hub N) (s_conn ?s))"
    using c by (simp_all add: calm_def wired_db)
  obtain N1 where N1: "(net_step L)\<^sup>*\<^sup>* N N1" "up (hub N1) (w_table L) (w_resp L) (w_db L) gs [] U T"
    "ipc_objs (queues (hub N1)) (w_work L) = Some [m\<lparr>mtype := ga\<rparr>]" "sent (hub N1) = sent (hub N)" "\<forall>j. j \<noteq> i \<longrightarrow> machines N1 j = machines N j"
    using request_reaches_worker [OF c m(1,2,4) ga(1)] by (elim exE conjE) (rule that)
  obtain N2 where N2: "net_step L N1 N2" "up (hub N2) (w_table L) (w_resp L) (w_db L) gs ?out U T" "machines N2 = machines N1"
    "sent (hub N2) (s_conn ?s) = sent (hub N1) (s_conn ?s)"
    using worker_delivers [OF N1(2,3) calm(1) f(2,3,1), of "s_handler (w_site L i)"] m calm(2) by auto
  have wfm: "wf_msg ?m" "is_int64 (s_handler (w_site L i))"
    using m(1) ga(2) handler_wf [OF f(5) m(5)] by (simp_all add: local_request_ok_def wf_msg_def is_int32_def is_int64_def)
  have subs: "\<forall>x\<in>set ?subs. is_int32 x" using f(4) by (auto dest: in_set_takeD)
  have wf: "\<forall>x\<in>set ?out. wf_msg x"
    using copies_wf [OF wfm(1) f(5) subs] wfm ga(2) by (auto simp: wf_msg_def is_int32_def)
  define fs where "fs = forwarded (filter (\<lambda>m. mtype m = s_handler ?s) ?out)"
  have hb: "0 < s_handler ?s" using up_handler(1) [OF N2(2) b(2)] .
  have fs: "\<forall>x\<in>set fs. msg_type x = PUBLISH \<and> is_int32 (mtype x)"
    using copies_members [of _ gs ?m False ?subs] subs ij(2) m(2) unfolding fs_def forwarded_def by fastforce
  have "?m\<lparr>global_id := gb, mtype := s_handler ?s\<rparr> \<in> set (filter (\<lambda>m. mtype m = s_handler ?s) ?out)"
    using copy_made [OF b(2,1), of ?m False] by simp
  then have mem: "?m\<lparr>global_id := gb, mtype := gb\<rparr> \<in> set fs"
    using forwarded_mem [of "?m\<lparr>global_id := gb, mtype := s_handler ?s\<rparr>"] m(2) unfolding fs_def by simp
  note r = readyD [OF calm(3)]
  from responses_reach_machine [OF N2(2) wf refl _ r(2) hb _ fs_def fs, of "S j"] r(1) N1(4) N1(5) [rule_format, OF ij(1) [symmetric]] N2(3,4) calm(4)
  obtain N3 where N3: "(net_step L)\<^sup>*\<^sup>* N2 N3"
    "at_state (machines N3 j) (s_table ?s) (s_respq ?s) (s_inq ?s) (fst (abs_events (map Response fs) (S j)))"
    by auto
  obtain rs resp inc where Sj: "S j = (rs, resp, inc)" by (metis prod_cases3)
  have "?m\<lparr>global_id := gb, mtype := lb\<rparr> \<in> set (mailbox lb (fst (abs_events (map Response fs) (S j))))"
    using mem b(3) fs publications_mailed [of fs rs resp inc] unfolding Sj by (force simp: mailbox_def image_iff)
  moreover have "(net_step L)\<^sup>*\<^sup>* N N3" using N1(1) N2(1) N3(1) by (meson rtranclp.rtrancl_into_rtrancl rtranclp_trans)
  ultimately show ?thesis
    using N3(2) by - (rule exI [of _ N3], rule exI [of _ "fst (abs_events (map Response fs) (S j))"],
      rule exI [of _ "?m\<lparr>global_id := gb, mtype := lb\<rparr>"], simp)
qed

text \<open>
  Two machines: client 80 of machine 0 has the global identifier 1, client 90 of machine 1 has 2 and is
  subscribed to \<open>rain\<close>.
\<close>

abbreviation two_clients :: "global_id_t list" where
  "two_clients \<equiv> [ring_row, \<lparr>g_mtype = 70, g_global_id = 1\<rparr>, \<lparr>g_mtype = 71, g_global_id = 2\<rparr>]"

lemma two_clients_hub:
  "\<exists>w. up w 0 1 4 two_clients [] [1 \<mapsto> [], 2 \<mapsto> [''rain'']] [''rain'' \<mapsto> [2]] \<and> ipc_objs (queues w) 0 = Some []
     \<and> (\<forall>fd. fd \<noteq> 4 \<longrightarrow> sent w fd = [] \<and> got w fd = 0)"
proof -
  let ?rs = "[request CREATE 70 '''', request CREATE 71 '''', request SUBSCRIBE 2 ''rain'']"
  let ?S = "([ring_row], Map.empty, Map.empty) :: server_state"
  let ?U = "[1 \<mapsto> [], 2 \<mapsto> [''rain'']] :: users" and ?T = "[''rain'' \<mapsto> [2]] :: topics"
  have "finite (dom [1 \<mapsto> [] :: string list])" "dom [1 \<mapsto> [] :: string list] = {1 :: int}" by simp_all
  then have n: "next_id Map.empty = 1" "next_id [1 \<mapsto> []] = 2" by (simp_all add: next_id_def)
  have rain: "cstr ''rain'' = ''rain''" "topic_fits ''rain''" using rain_ok by (auto simp: topic_fits_def topic_ok_def)
  note d = n rain abs_serve_def abs_create_def abs_subscribe_def Let_def handler_of_def ring_row_def
    subscribers_def request_fits_def is_int32_def
  have f: "requests_fit ?rs ?S" by (simp add: d)
  have w: "ipc_objs (queues (server_host [ring_row] ?rs)) 0 = Some (?rs @ [])" by (simp add: server_host_up(2))
  obtain out where a: "abs_serves ?rs ?S = ((two_clients, ?U, ?T), out)" by (auto simp: d)
  from worker_loop_run [OF ring_host_up w _ _ _ new_db_open(3) _ f a, of "replicate 3 (blank_db_msg, undefined)"]
  obtain w1 where w1: "up w1 0 1 4 two_clients out ?U ?T" "ipc_objs (queues w1) 0 = Some []"
    by (auto simp: INT_MAX_def)
  let ?w = "w1\<lparr>queues := ipc_put 1 [] (queues w1), sent := (\<lambda>fd. if fd = 4 then sent w1 4 else []), got := (\<lambda>fd. if fd = 4 then got w1 4 else 0)\<rparr>"
  have "up ?w 0 1 4 two_clients [] ?U ?T" using w1(1) by (auto simp: up_def serving_def guard_def session_def)
  with w1(2) show ?thesis by (intro exI [of _ ?w]) simp
qed

lemma publication_reaches_subscriber_witness:
  "\<exists>N N' S' m'. (net_step small_wiring)\<^sup>*\<^sup>* N N' \<and> at_state (machines N' 1) 0 1 2 S'
     \<and> m' \<in> set (mailbox 90 S') \<and> payload m' = payload (request PUBLISH 80 ''rain'')"
proof -
  let ?gs = two_clients and ?U = "[1 \<mapsto> [], 2 \<mapsto> [''rain'']] :: users" and ?T = "[''rain'' \<mapsto> [2]] :: topics"
  let ?m = "request PUBLISH 80 ''rain''"
  obtain w where w: "up w 0 1 4 ?gs [] ?U ?T" "ipc_objs (queues w) 0 = Some []" "\<forall>fd. fd \<noteq> 4 \<longrightarrow> sent w fd = [] \<and> got w fd = 0"
    using two_clients_hub by blast
  obtain w0 where w0: "ready w0 0 0 1 2 ([\<lparr>local_id = 80, b_global_id = 1\<rparr>], [], [])" "sent w0 = (\<lambda>_. [])" "got w0 = (\<lambda>_. 0)"
    using ready_host0 [of "[\<lparr>local_id = 80, b_global_id = 1\<rparr>]" "[]"] by auto
  obtain w1 where w1: "ready w1 0 0 1 2 ([\<lparr>local_id = 90, b_global_id = 2\<rparr>], [], [])" "sent w1 = (\<lambda>_. [])" "got w1 = (\<lambda>_. 0)"
    using ready_host0 [of "[\<lparr>local_id = 90, b_global_id = 2\<rparr>]" "[]"] by auto
  define S :: "nat \<Rightarrow> local_state" where
    "S = (\<lambda>k. ([if k = 0 then \<lparr>local_id = 80, b_global_id = 1\<rparr> else \<lparr>local_id = 90, b_global_id = 2\<rparr>], [], []))"
  let ?N = "\<lparr>hub = w, machines = (\<lambda>k. if k = 0 then w0 else w1), published = {}\<rparr>"
  have calm: "calm small_wiring ?N ?gs ?U ?T S"
    using small_wiring_wired w w0 w1 by (simp add: calm_def small_wiring_def S_def)
  have site: "w_site small_wiring 0 = \<lparr>s_table = 0, s_reqq = 0, s_respq = 1, s_inq = 2, s_socket = 3, s_conn = 5, s_handler = 70\<rparr>"
    "w_site small_wiring 1 = \<lparr>s_table = 0, s_reqq = 0, s_respq = 1, s_inq = 2, s_socket = 3, s_conn = 6, s_handler = 71\<rparr>"
    by (simp_all add: small_wiring_def)
  have rain: "topic_of ?m = ''rain''" "subscribers ?T ''rain'' = [2]" "topic_fits ''rain''" using rain_host_facts by (auto simp: subscribers_def)
  have h: "handler_of ?gs 0 = Some 60" "handler_of ?gs 1 = Some 70" "handler_of ?gs 2 = Some 71"
    by (simp_all add: handler_of_def ring_row_def)
  have f: "request_fits (?m\<lparr>mtype := 1\<rparr>) (?gs, ?U, ?T)"
    using h rain by (simp add: request_fits_def is_int32_def del: request_simps(4))
  have ok: "local_request_ok ?m (S 0)"
    by (simp add: local_request_ok_def S_def global_of_def request_def wf_msg_def is_int32_def is_int64_def)
  have "ids_below 2 ?U" by (auto simp: ids_below_def)
  have loc: "global_of (fst (S 0)) (mtype ?m) = Some 1" "local_of (fst (S 1)) 2 = Some 90"
    by (simp_all add: S_def global_of_def local_of_def)
  have sub: "2 \<in> set (take MAX_CLIENTS (subscribers ?T (topic_of ?m)))" "\<forall>x\<in>set (subscribers ?T (topic_of ?m)). is_int32 x"
    unfolding rain(1,2) by (simp_all add: is_int32_def)
  have hd: "handler_of ?gs 1 = Some (s_handler (w_site small_wiring 0))" "handler_of ?gs 2 = Some (s_handler (w_site small_wiring 1))"
    "s_handler (w_site small_wiring 0) \<noteq> s_handler (w_site small_wiring 1)" "\<forall>r\<in>set ?gs. is_int64 (g_mtype r)"
    using h unfolding site by (simp_all add: ring_row_def is_int64_def)
  from publication_reaches_subscriber [OF calm _ hd(3) ok _ _ loc(1) hd(1) sub(1) hd(2) loc(2) f \<open>ids_below 2 ?U\<close> _ sub(2) hd(4)]
  obtain N' S' m' where "(net_step small_wiring)\<^sup>*\<^sup>* ?N N'" "at_state (machines N' 1) 0 1 2 S'" "m' \<in> set (mailbox 90 S')" "payload m' = payload ?m"
    unfolding site by (auto simp: INT_MAX_def)
  then show ?thesis by blast
qed

end
