(* ===== verification/Ring.thy ===== *)
theory Ring
  imports Delivery
begin

text \<open>
  Servers in a ring.  Every server has its own \<^verbatim>\<open>BROKER_ID\<close>, and its response handler for the next server
  writes to a connection from which a request handler of the next one reads
  (\<^verbatim>\<open>broker/server/ring_connection.c\<close>, \<^verbatim>\<open>req_handler.c\<close>).  A step relation lets the processes of all
  servers run in any order while clients publish; its invariant says how far a publication gets.
\<close>

section \<open>The ring\<close>

text \<open>
  Where the parts of a server are: its number, its two queues, its table, its connection to the
  database, the connections to the next and from the previous server, the process that writes to the
  former, and the process that answers on the latter.
\<close>

record ring_site =
  r_id :: int
  r_work :: int
  r_resp :: int
  r_table :: int
  r_db :: int
  r_out :: int
  r_in :: int
  r_next :: int
  r_prev :: int

text \<open>What a client can publish: its request, as the local broker sends it on.\<close>

definition topic_served :: "topics \<Rightarrow> string \<Rightarrow> bool" where
  "topic_served T t \<longleftrightarrow> topic_fits t \<and> subscribers T t \<noteq> [] \<and> length (subscribers T t) \<le> 134217727"

definition fresh_publication :: "topics \<Rightarrow> msg_t \<Rightarrow> bool" where
  "fresh_publication T m \<longleftrightarrow> msg_type m = PUBLISH \<and> broker_id m = 0 \<and> wf_msg m \<and> 0 < mtype m \<and> is_int32 (mtype m)
     \<and> topic_served T (topic_of m)"

text \<open>
  The steps of \<open>n\<close> servers: a request handler queues the publication of a client; the worker takes a
  turn; the response handler for the next server takes a turn; bytes reach the next server; its
  request handler takes a turn; a response handler of a client takes a turn.
\<close>

inductive ring_step :: "nat \<Rightarrow> topics \<Rightarrow> (nat \<Rightarrow> ring_site) \<Rightarrow> (nat \<Rightarrow> host) \<Rightarrow> (nat \<Rightarrow> host) \<Rightarrow> bool" for n T R where
  ring_asks: "k < n \<Longrightarrow> s = R k \<Longrightarrow> fresh_publication T m \<Longrightarrow> process_message_rq (r_work s) m pid (W k) = (r, w') \<Longrightarrow>
    ring_step n T R W (W(k := w'))"
| ring_works: "k < n \<Longrightarrow> s = R k \<Longrightarrow> wf_db_msg stk \<Longrightarrow>
    worker_step_at (r_id s) stk stk_msg (r_work s) (r_resp s) (r_table s) (r_db s) (W k) = (r, w') \<Longrightarrow>
    ring_step n T R W (W(k := w'))"
| ring_sends: "k < n \<Longrightarrow> s = R k \<Longrightarrow> resp_handler_step stk_msg (r_resp s) (r_next s) (r_out s) (W k) = (r, w') \<Longrightarrow>
    ring_step n T R W (W(k := w'))"
| ring_arrives: "k < n \<Longrightarrow> s = R (Suc k mod n) \<Longrightarrow> w = W (Suc k mod n) \<Longrightarrow> bs = sent (W k) (r_out (R k)) \<Longrightarrow>
    ring_step n T R W (W(Suc k mod n := w\<lparr>peer := (peer w)(r_in s := (\<lambda>_. bs))\<rparr>))"
| ring_takes: "k < n \<Longrightarrow> s = R k \<Longrightarrow> req_handler_step stk_msg (r_in s) (r_work s) (r_prev s) (W k) = (r, w') \<Longrightarrow>
    ring_step n T R W (W(k := w'))"
| ring_answers: "k < n \<Longrightarrow> s = R k \<Longrightarrow> 0 < pid \<Longrightarrow> pid \<noteq> r_next s \<Longrightarrow> fd \<noteq> r_out s \<Longrightarrow> fd \<noteq> r_db s \<Longrightarrow>
    resp_handler_step stk_msg (r_resp s) pid fd (W k) = (r, w') \<Longrightarrow> ring_step n T R W (W(k := w'))"

text \<open>
  A ring in service: distinct numbers, a row 0 for the next server in each table, one row per client
  in all tables, and a database with identifiers that fit.
\<close>

definition ring_wired :: "nat \<Rightarrow> (nat \<Rightarrow> ring_site) \<Rightarrow> (nat \<Rightarrow> global_id_t list) \<Rightarrow> topics \<Rightarrow> bool" where
  "ring_wired n R G T \<longleftrightarrow> inj_on (\<lambda>k. r_id (R k)) {..<n}
     \<and> (\<forall>k<n. r_id (R k) \<noteq> 0 \<and> is_int32 (r_id (R k)) \<and> r_work (R k) \<noteq> r_resp (R k) \<and> r_out (R k) \<noteq> r_db (R k) \<and> r_in (R k) \<noteq> r_db (R k)
         \<and> handler_of (G k) NEXT_SERVER_GLOBAL_ID = Some (r_next (R k))
         \<and> (\<forall>i. handler_of (G k) i = Some (r_next (R k)) \<longrightarrow> i = NEXT_SERVER_GLOBAL_ID) \<and> (\<forall>r\<in>set (G k). is_int64 (g_mtype r)))
     \<and> (\<forall>j<n. \<forall>k<n. \<forall>i>0. handler_of (G j) i \<noteq> None \<longrightarrow> handler_of (G k) i \<noteq> None \<longrightarrow> j = k)
     \<and> (\<forall>t. \<forall>i\<in>set (subscribers T t). 0 < i \<and> is_int32 i)"

section \<open>How far a publication gets\<close>

text \<open>The subscribers of a topic whom server \<open>k\<close> asks the next server to serve, of whom it names the first.\<close>

definition unknown :: "(nat \<Rightarrow> global_id_t list) \<Rightarrow> topics \<Rightarrow> nat \<Rightarrow> string \<Rightarrow> int list" where
  "unknown G T k t = filter (\<lambda>i. handler_of (G k) i = None) (take MAX_CLIENTS (subscribers T t))"

text \<open>The server \<open>d\<close> places after server \<open>a\<close> accepts the publications of \<open>a\<close> on the topic \<open>t\<close>.\<close>

primrec carried :: "nat \<Rightarrow> (nat \<Rightarrow> global_id_t list) \<Rightarrow> topics \<Rightarrow> nat \<Rightarrow> string \<Rightarrow> nat \<Rightarrow> bool" where
  "carried n G T a t 0 = True"
| "carried n G T a t (Suc d) = (carried n G T a t d
     \<and> (case unknown G T ((a + d) mod n) t of [] \<Rightarrow> False | i # _ \<Rightarrow> handler_of (G ((a + Suc d) mod n)) i \<noteq> None))"

text \<open>It passes them on in the name of client \<open>i\<close>.\<close>

definition leaves :: "nat \<Rightarrow> (nat \<Rightarrow> global_id_t list) \<Rightarrow> topics \<Rightarrow> nat \<Rightarrow> string \<Rightarrow> nat \<Rightarrow> int \<Rightarrow> bool" where
  "leaves n G T a t d i \<longleftrightarrow> carried n G T a t d \<and> (\<exists>is. unknown G T ((a + d) mod n) t = i # is)"

lemma carried_leaves: "carried n G T a t (Suc d) \<longleftrightarrow> (\<exists>i. leaves n G T a t d i \<and> handler_of (G ((a + Suc d) mod n)) i \<noteq> None)"
  by (auto simp: leaves_def split: list.split)

lemma carried_mono: "carried n G T a t d \<Longrightarrow> e \<le> d \<Longrightarrow> carried n G T a t e"
  by (induction d) (auto simp: le_Suc_eq)

lemma places_differ: "a < n \<Longrightarrow> d < n \<Longrightarrow> e < n \<Longrightarrow> (a + d) mod n = (a + e) mod n \<Longrightarrow> d = (e :: nat)"
proof -
  have "d = e" if "a < n" "e < n" "d \<le> e" "(a + d) mod n = (a + e) mod n" for d e :: nat
  proof -
    have "n dvd (a + e) - (a + d)" using that by (metis mod_eq_dvd_iff_nat add_le_cancel_left)
    then have "n dvd e - d" by simp
    with that show ?thesis by (auto dest: dvd_imp_le)
  qed
  from this [of e d] this [of d e] show "a < n \<Longrightarrow> d < n \<Longrightarrow> e < n \<Longrightarrow> (a + d) mod n = (a + e) mod n \<Longrightarrow> d = e"
    by (metis nat_le_linear)
qed

text \<open>
  The first subscriber \<open>x\<close> is the name under which every server that does not host it passes the
  publication on: so each of them has to be followed by the host of \<open>x\<close>.
\<close>

lemma carried_two:
  assumes "ring_wired n R G T" "a < n" "d < n" "carried n G T a t d"
  shows "d \<le> 2"
proof (rule ccontr)
  assume d: "\<not> d \<le> 2"
  let ?at = "\<lambda>e. (a + e) mod n"
  have "carried n G T a t (Suc 0)" "carried n G T a t (Suc (Suc 0))" "carried n G T a t (Suc (Suc (Suc 0)))"
    using d by (auto intro!: carried_mono [OF assms(4)] simp del: carried.simps)
  then obtain i j l where
    i: "\<exists>is. unknown G T (?at 0) t = i # is" "handler_of (G (?at 1)) i \<noteq> None" and
    j: "\<exists>is. unknown G T (?at 1) t = j # is" "handler_of (G (?at 2)) j \<noteq> None" and
    l: "\<exists>is. unknown G T (?at 2) t = l # is" "handler_of (G (?at 3)) l \<noteq> None"
    unfolding carried_leaves leaves_def by (auto simp: numeral_2_eq_2 numeral_3_eq_3)
  obtain x xs where x: "take MAX_CLIENTS (subscribers T t) = x # xs"
    using i(1) by (cases "take MAX_CLIENTS (subscribers T t)") (auto simp: unknown_def)
  then have "x \<in> set (subscribers T t)" by (metis in_set_takeD list.set_intros(1))
  then have pos: "0 < x" using assms(1) by (simp add: ring_wired_def)
  have once: "handler_of (G p) x \<noteq> None \<Longrightarrow> handler_of (G q) x \<noteq> None \<Longrightarrow> p < n \<Longrightarrow> q < n \<Longrightarrow> p = q" for p q
    using assms(1) pos unfolding ring_wired_def by blast
  have n: "?at e < n" for e using assms(2) by simp
  have host: "handler_of (G (?at e)) x \<noteq> None \<Longrightarrow> handler_of (G (?at e')) x \<noteq> None \<Longrightarrow> e < n \<Longrightarrow> e' < n \<Longrightarrow> e = e'" for e e'
    using once [OF _ _ n n] places_differ [OF assms(2)] by blast
  show False
  proof (cases "handler_of (G (?at 0)) x = None")
    case True
    then have 1: "handler_of (G (?at 1)) x \<noteq> None" using i x by (auto simp: unknown_def)
    have "handler_of (G (?at 2)) x = None" by (rule ccontr) (use host [OF 1, of 2] d assms(3) in simp)
    then have "handler_of (G (?at 3)) x \<noteq> None" using l x by (auto simp: unknown_def)
    with 1 host [of 1 3] d assms(3) show False by auto
  next
    case False
    have "handler_of (G (?at 1)) x = None" by (rule ccontr) (use host [OF False, of 1] d assms(3) in simp)
    then have "handler_of (G (?at 2)) x \<noteq> None" using j x by (auto simp: unknown_def)
    with False host [of 0 2] d assms(3) show False by auto
  qed
qed

section \<open>What the turns of a server do\<close>

lemma concat_encode_Cons: "ys \<noteq> [] \<Longrightarrow> concat (map encode_msg ys) = encode_msg (hd ys) @ concat (map encode_msg (tl ys))"
  by (cases ys) simp_all

text \<open>The response handler of process \<open>pid\<close>.\<close>

lemma resp_handler_step_cases:
  assumes "resp_handler_step stk rq pid fd w = (r, w')" "env w = []" "ipc_objs (queues w) rq = Some q" "0 < pid" "\<forall>m\<in>set q. wf_msg m"
  obtains "w' = w" | m q' where "m \<in> set q" "mtype m = pid" "set q' \<subseteq> set q"
    "w' = w\<lparr>queues := ipc_put rq q' (queues w), sent := (sent w)(fd := sent w fd @ concat (map encode_msg (forwarded [m])))\<rparr>"
proof (cases "take_msg mtype pid q")
  case None
  then have "rcvmsg mtype rq stk pid w = (Blocked, w)" using assms(2,3) by (intro wp_eqI) (simp add: wp)
  then show ?thesis using assms(1) that(1) by (simp add: resp_handler_step_def bnd_def)
next
  case (Some mq)
  obtain m q' where m: "take_msg mtype pid q = Some (m, q')" using Some by (cases mq) simp
  note mem = take_msg_subset [OF m]
  have "rcvmsg mtype rq stk pid w = (Ret (0, m), w\<lparr>queues := ipc_put rq q' (queues w)\<rparr>)"
    using assms(2,3) m by (intro wp_eqI) (simp add: wp)
  moreover have "wf_msg m" using mem assms(5) by simp
  ultimately have "w' = w\<lparr>queues := ipc_put rq q' (queues w), sent := (sent w)(fd := sent w fd @ concat (map encode_msg (forwarded [m])))\<rparr>"
    using process_msg_rs_run [of "w\<lparr>queues := ipc_put rq q' (queues w)\<rparr>" m fd] assms(1,2) by (simp add: resp_handler_step_def bnd_def)
  with mem take_msg_type [OF m assms(4)] show ?thesis by (intro that(2)) auto
qed

text \<open>The request handler of a connection on which whole messages are waiting.\<close>

lemma req_handler_step_cases:
  assumes "req_handler_step stk fd wq pid w = (r, w')" "env w = []" "ipc_objs (queues w) wq = Some q"
    "available w fd = concat (map encode_msg ms)" "\<forall>m\<in>set ms. wf_msg m"
  obtains "w' = w" | m ms' where "ms = m # ms'"
    "w' = w\<lparr>got := (got w)(fd := got w fd + sizeof_msg), queues := ipc_put wq (q @ accepted pid [m]) (queues w)\<rparr>"
proof (cases ms)
  case Nil
  then have "socket_receive fd stk w = (Blocked, w)" using socket_receive_whole(1) [OF assms(2)] assms(4) by simp
  then show ?thesis using assms(1) that(1) by (simp add: req_handler_step_def bnd_def)
next
  case (Cons m ms')
  then have av: "available w fd = encode_msg m @ concat (map encode_msg ms')" and wf: "wf_msg m" using assms(4,5) by simp_all
  have rcv: "socket_receive fd stk w = (Ret (int sizeof_msg, m), w\<lparr>got := (got w)(fd := got w fd + sizeof_msg)\<rparr>)"
    using msg_codec.receive_struct_run [OF wf av assms(2), of stk] by (simp add: socket_receive_def)
  have "w' = w\<lparr>got := (got w)(fd := got w fd + sizeof_msg), queues := ipc_put wq (q @ accepted pid [m]) (queues w)\<rparr>"
    using process_message_rq_run [of "w\<lparr>got := (got w)(fd := got w fd + sizeof_msg)\<rparr>" wq q m pid] assms(1-3) rcv
    by (simp add: req_handler_step_def bnd_def ret_def sizeof_msg_def)
  with Cons show ?thesis by (rule that(2))
qed

text \<open>The worker, when what waits for it are publications.\<close>

lemma worker_turn_cases:
  assumes "worker_step_at b stk stk_msg wq q g d w = (r, w')" "up w g q d gs ms U T" "ipc_objs (queues w) wq = Some ws" "wq \<noteq> q"
    "wf_db_msg stk" "\<forall>m\<in>set ws. msg_type m = PUBLISH \<and> is_int32 (mtype m) \<and> publish_fits m (gs, U, T)"
  obtains "w' = w" | m ws' where "ws = m # ws'" "up w' g q d gs (ms @ snd (abs_publish_at b m (gs, U, T))) U T"
    "ipc_objs (queues w') wq = Some ws'" "\<And>fd. fd \<noteq> d \<Longrightarrow> sent w' fd = sent w fd \<and> got w' fd = got w fd" "peer w' = peer w"
proof (cases ws)
  case Nil
  have "env w = []" using assms(2) by (rule upE)
  with Nil assms(3) have "rcvmsg mtype wq stk_msg 0 w = (Blocked, w)" by (intro wp_eqI) (simp add: wp take_msg_any)
  then show ?thesis using assms(1) that(1) by (simp add: worker_step_at_def bnd_def)
next
  case (Cons m ws')
  have e: "env w = []" using assms(2) by (rule upE)
  have m: "ipc_objs (queues w) wq = Some (m # ws')" using Cons assms(3) by simp
  have "up w' g q d gs (ms @ snd (abs_publish_at b m (gs, U, T))) U T" "ipc_objs (queues w') wq = Some ws'"
    using worker_step_publish_run [OF assms(2) m assms(4,5), of b stk_msg] assms(1,6) Cons by auto
  moreover have "peer w' = peer w" using worker_step_at_frame [OF assms(1) _ e m, of "d + 1"] by simp
  ultimately show ?thesis using worker_step_at_frame [OF assms(1) _ e m] by (intro that(2) [OF Cons]) auto
qed

section \<open>The invariant\<close>

text \<open>A publication that waits for the worker of server \<open>k\<close>, or is on the connection to server \<open>k\<close>.\<close>

definition on_its_way :: "nat \<Rightarrow> (nat \<Rightarrow> ring_site) \<Rightarrow> (nat \<Rightarrow> global_id_t list) \<Rightarrow> topics \<Rightarrow> nat \<Rightarrow> msg_t \<Rightarrow> bool" where
  "on_its_way n R G T k m \<longleftrightarrow> msg_type m = PUBLISH \<and> wf_msg m \<and> 0 < mtype m \<and> is_int32 (mtype m) \<and> topic_served T (topic_of m)
     \<and> (broker_id m = 0 \<or> (\<exists>a<n. \<exists>d<n. k = (a + Suc d) mod n \<and> broker_id m = r_id (R a)
         \<and> leaves n G T a (topic_of m) d (mtype m)))"

text \<open>A message in the response queue of server \<open>k\<close>.\<close>

definition handed_out :: "nat \<Rightarrow> (nat \<Rightarrow> ring_site) \<Rightarrow> (nat \<Rightarrow> global_id_t list) \<Rightarrow> topics \<Rightarrow> nat \<Rightarrow> msg_t \<Rightarrow> bool" where
  "handed_out n R G T k c \<longleftrightarrow> wf_msg c \<and> (if msg_type c = PUBLISH
     then topic_served T (topic_of c) \<and> (\<exists>a<n. \<exists>d<n. k = (a + d) mod n \<and> broker_id c = r_id (R a)
       \<and> carried n G T a (topic_of c) d \<and> (mtype c = r_next (R k) \<longrightarrow> leaves n G T a (topic_of c) d (global_id c)))
     else mtype c \<noteq> r_next (R k))"

lemma ring_wiredD:
  assumes "ring_wired n R G T" "k < n"
  shows "r_id (R k) \<noteq> 0" "is_int32 (r_id (R k))" "r_work (R k) \<noteq> r_resp (R k)" "r_out (R k) \<noteq> r_db (R k)" "r_in (R k) \<noteq> r_db (R k)"
    "handler_of (G k) NEXT_SERVER_GLOBAL_ID = Some (r_next (R k))"
    "handler_of (G k) i = Some (r_next (R k)) \<Longrightarrow> i = NEXT_SERVER_GLOBAL_ID" "\<forall>r\<in>set (G k). is_int64 (g_mtype r)"
    "i \<in> set (subscribers T t) \<Longrightarrow> 0 < i \<and> is_int32 i"
  using assms unfolding ring_wired_def by blast+

text \<open>The copy for the next server names the first client unknown here.\<close>

lemma copies_next:
  assumes "c \<in> set (copies gs m False is)" "handler_of gs (global_id c) = None"
  shows "\<exists>is'. filter (\<lambda>i. handler_of gs i = None) is = global_id c # is'"
proof -
  have "c \<in> set (filter (\<lambda>c. handler_of gs (global_id c) = None) (copies gs m False is))" using assms by simp
  then show ?thesis
    unfolding copies_remote by (cases "filter (\<lambda>i. handler_of gs i = None) is") auto
qed

lemma copies_mtype: "c \<in> set (copies gs m fwd is) \<Longrightarrow> handler_of gs (global_id c) = Some h \<Longrightarrow> mtype c = h"
  by (induction "is" arbitrary: fwd) (auto split: option.splits if_splits)

lemma copies_handed_out:
  assumes "ring_wired n R G T" "k < n" "a < n" "d < n" "k = (a + d) mod n" "carried n G T a (topic_of m) d"
    "wf_msg m" "msg_type m = PUBLISH" "topic_served T (topic_of m)" "broker_id m = r_id (R a)"
    "c \<in> set (copies (G k) m False (take MAX_CLIENTS (subscribers T (topic_of m))))"
  shows "handed_out n R G T k c"
proof -
  note w = ring_wiredD [OF assms(1,2)]
  let ?is = "take MAX_CLIENTS (subscribers T (topic_of m))"
  obtain i h where c: "c = m\<lparr>global_id := i, mtype := h\<rparr>" "i \<in> set ?is" "h = handler_code (G k) NEXT_SERVER_GLOBAL_ID \<or> handler_of (G k) i = Some h"
    using copies_members [OF assms(11)] by blast
  have pos: "\<forall>x\<in>set ?is. 0 < x \<and> is_int32 x" using w(9) by (auto dest: in_set_takeD)
  have wf: "wf_msg c" using copies_wf [OF assms(7) w(8) _ assms(11)] pos by blast
  have "leaves n G T a (topic_of m) d i" if "h = r_next (R k)"
  proof -
    have "handler_of (G k) i = None"
      using copies_mtype [OF assms(11)] w(7) [of i] c(1,2) pos that by (cases "handler_of (G k) i") auto
    then show ?thesis using copies_next [OF assms(11)] c(1) assms(5,6) by (auto simp: leaves_def unknown_def)
  qed
  with wf c(1) assms(3-6,8-10) show ?thesis by (auto simp: handed_out_def)
qed

lemma served_handed_out:
  assumes "ring_wired n R G T" "k < n" "on_its_way n R G T k m" "c \<in> set (snd (abs_publish_at (r_id (R k)) m (G k, U, T)))"
  shows "handed_out n R G T k c"
proof -
  note w = ring_wiredD [OF assms(1,2)]
  have m: "msg_type m = PUBLISH" "wf_msg m" "0 < mtype m" "is_int32 (mtype m)" "topic_served T (topic_of m)"
    using assms(3) by (simp_all add: on_its_way_def)
  obtain h where h: "handler_of (G k) (mtype m) = Some h" and b: "broker_id m \<noteq> r_id (R k)"
    using assms(4) by (auto simp: abs_publish_at_def split: if_splits)
  show ?thesis
  proof (cases "broker_id m = 0")
    case True
    let ?m = "m\<lparr>broker_id := r_id (R k)\<rparr>"
    have wf: "wf_msg ?m" using m(2) w(2) by (simp add: wf_msg_def)
    have "is_int64 h" using handler_wf [OF w(8) h] .
    then have "handed_out n R G T k (?m\<lparr>global_id := mtype m, mtype := h, msg_type := ACK_OK\<rparr>)"
      using wf m(3,4) h w(7) [of "mtype m"] by (auto simp: handed_out_def wf_msg_def is_int32_def)
    moreover have "handed_out n R G T k c" if "c \<in> set (copies (G k) ?m False (take MAX_CLIENTS (subscribers T (topic_of m))))"
      using copies_handed_out [OF assms(1,2), of k 0 ?m c] that wf m assms(2) by simp
    ultimately show ?thesis using assms(4) True h b by (auto simp: abs_publish_at_def Let_def)
  next
    case False
    then obtain a d where ad: "a < n" "d < n" "k = (a + Suc d) mod n" "broker_id m = r_id (R a)" "leaves n G T a (topic_of m) d (mtype m)"
      using assms(3) by (auto simp: on_its_way_def)
    have "k = a" if "Suc d = n" using ad(1,3) unfolding that by simp
    then have "Suc d \<noteq> n" using ad(4) b by blast
    then have "Suc d < n" using ad(2) by simp
    moreover have "carried n G T a (topic_of m) (Suc d)" unfolding carried_leaves using ad h by auto
    moreover have "c \<in> set (copies (G k) m False (take MAX_CLIENTS (subscribers T (topic_of m))))"
      using assms(4) False h b by (simp add: abs_publish_at_def)
    ultimately show ?thesis using copies_handed_out [OF assms(1,2) ad(1) _ ad(3)] m ad(4) by simp
  qed
qed

text \<open>What the response handler for the next server sends is on its way to that server.\<close>

lemma passed_on_its_way:
  assumes "ring_wired n R G T" "k < n" "handed_out n R G T k c" "mtype c = r_next (R k)" "m \<in> set (forwarded [c])"
  shows "on_its_way n R G T (Suc k mod n) m"
proof -
  have p: "msg_type c = PUBLISH" using assms(3,4) by (auto simp: handed_out_def split: if_splits)
  then obtain a d where ad: "a < n" "d < n" "k = (a + d) mod n" "broker_id c = r_id (R a)" "leaves n G T a (topic_of c) d (global_id c)"
    using assms(3,4) by (auto simp: handed_out_def)
  then have "global_id c \<in> set (unknown G T k (topic_of c))" by (auto simp: leaves_def)
  then have "0 < global_id c \<and> is_int32 (global_id c)"
    using ring_wiredD(9) [OF assms(1,2)] by (auto simp: unknown_def dest!: in_set_takeD)
  moreover have "m = c\<lparr>mtype := global_id c\<rparr>" using assms(5) p by (simp add: forwarded_def)
  moreover have "Suc k mod n = (a + Suc d) mod n" using ad(3) by (simp add: mod_Suc_eq)
  ultimately show ?thesis
    using assms(3) p ad wf_forwarded [of c] unfolding on_its_way_def handed_out_def by auto
qed

text \<open>
  A server of the ring: it is up, what waits and what it sent to the next server is as above, and the
  bytes that came from the previous one are whole messages, read one by one.
\<close>

definition ring_host :: "ring_site \<Rightarrow> global_id_t list \<Rightarrow> users \<Rightarrow> topics \<Rightarrow> (msg_t \<Rightarrow> bool) \<Rightarrow> (msg_t \<Rightarrow> bool)
    \<Rightarrow> msg_t list \<Rightarrow> msg_t list \<Rightarrow> host \<Rightarrow> bool" where
  "ring_host s gs U T P Q xs ys w \<longleftrightarrow>
     (\<exists>cs. up w (r_table s) (r_resp s) (r_db s) gs cs U T \<and> (\<forall>c\<in>set cs. Q c))
     \<and> (\<exists>ms. ipc_objs (queues w) (r_work s) = Some ms \<and> (\<forall>m\<in>set ms. P m))
     \<and> sent w (r_out s) = concat (map encode_msg xs)
     \<and> peer w (r_in s) = (\<lambda>_. concat (map encode_msg ys)) \<and> (\<exists>j. got w (r_in s) = sizeof_msg * j)"

definition ring_ok :: "nat \<Rightarrow> (nat \<Rightarrow> ring_site) \<Rightarrow> (nat \<Rightarrow> global_id_t list) \<Rightarrow> users \<Rightarrow> topics \<Rightarrow> (nat \<Rightarrow> host) \<Rightarrow> bool" where
  "ring_ok n R G U T W \<longleftrightarrow> (\<forall>k<n. \<exists>xs ys. ring_host (R k) (G k) U T (on_its_way n R G T k) (handed_out n R G T k) xs ys (W k)
     \<and> (\<forall>m\<in>set xs. on_its_way n R G T (Suc k mod n) m) \<and> (\<forall>m\<in>set ys. on_its_way n R G T k m))"

lemma ring_hostE:
  assumes "ring_host s gs U T P Q xs ys w"
  obtains cs ms j where "up w (r_table s) (r_resp s) (r_db s) gs cs U T" "\<forall>c\<in>set cs. Q c" "env w = []"
    "ipc_objs (queues w) (r_resp s) = Some cs" "ipc_objs (queues w) (r_work s) = Some ms" "\<forall>m\<in>set ms. P m"
    "sent w (r_out s) = concat (map encode_msg xs)" "peer w (r_in s) = (\<lambda>_. concat (map encode_msg ys))" "got w (r_in s) = sizeof_msg * j"
proof -
  obtain cs where cs: "up w (r_table s) (r_resp s) (r_db s) gs cs U T" "\<forall>c\<in>set cs. Q c" using assms by (auto simp: ring_host_def)
  moreover have "env w = []" "ipc_objs (queues w) (r_resp s) = Some cs" using cs(1) by (auto elim: upE)
  ultimately show ?thesis using assms that by (auto simp: ring_host_def)
qed

lemma ring_hostI:
  "up w (r_table s) (r_resp s) (r_db s) gs cs U T \<Longrightarrow> \<forall>c\<in>set cs. Q c \<Longrightarrow> ipc_objs (queues w) (r_work s) = Some ms \<Longrightarrow> \<forall>m\<in>set ms. P m \<Longrightarrow>
   sent w (r_out s) = concat (map encode_msg xs) \<Longrightarrow> peer w (r_in s) = (\<lambda>_. concat (map encode_msg ys)) \<Longrightarrow> got w (r_in s) = sizeof_msg * j \<Longrightarrow>
   ring_host s gs U T P Q xs ys w"
  by (auto simp: ring_host_def)

lemma up_sent: "f d = sent w d \<Longrightarrow> up (w\<lparr>sent := f\<rparr>) g q d gs ms U T = up w g q d gs ms U T"
  by (simp add: up_def session_def serving_def guard_def)

lemma up_got: "f d = got w d \<Longrightarrow> up (w\<lparr>got := f\<rparr>) g q d gs ms U T = up w g q d gs ms U T"
  by (simp add: up_def session_def serving_def guard_def)

lemma publish_fits_at: "ring_wired n R G T \<Longrightarrow> k < n \<Longrightarrow> topic_served T (topic_of m) \<Longrightarrow> publish_fits m (G k, U, T)"
  using ring_wiredD(6) by (auto simp: publish_fits_def topic_served_def)

lemma available_rest:
  assumes "peer w fd = (\<lambda>_. concat (map encode_msg ys))" "got w fd = sizeof_msg * j" "\<forall>m\<in>set ys. wf_msg m"
  shows "available w fd = concat (map encode_msg (drop j ys))"
proof -
  have "\<forall>m\<in>set ys. framed m" using assms(3) by (simp add: framed_def wf_msg_def)
  from drop_messages [OF this] assms(1,2) show ?thesis by (simp add: available_def)
qed

text \<open>Each turn keeps what a server has.\<close>

lemma ring_works_keeps:
  assumes "ring_wired n R G T" "k < n" "ring_host (R k) (G k) U T (on_its_way n R G T k) (handed_out n R G T k) xs ys w" "wf_db_msg stk"
    "worker_step_at (r_id (R k)) stk stk_msg (r_work (R k)) (r_resp (R k)) (r_table (R k)) (r_db (R k)) w = (r, w')"
  shows "ring_host (R k) (G k) U T (on_its_way n R G T k) (handed_out n R G T k) xs ys w'"
  using assms(3)
proof (rule ring_hostE)
  fix cs ms j
  assume up: "up w (r_table (R k)) (r_resp (R k)) (r_db (R k)) (G k) cs U T" "\<forall>c\<in>set cs. handed_out n R G T k c"
  assume ms: "ipc_objs (queues w) (r_work (R k)) = Some ms" "\<forall>m\<in>set ms. on_its_way n R G T k m"
  assume io: "sent w (r_out (R k)) = concat (map encode_msg xs)" "peer w (r_in (R k)) = (\<lambda>_. concat (map encode_msg ys))"
    "got w (r_in (R k)) = sizeof_msg * j"
  note w = ring_wiredD [OF assms(1,2)]
  have "\<forall>m\<in>set ms. msg_type m = PUBLISH \<and> is_int32 (mtype m) \<and> publish_fits m (G k, U, T)"
    using ms(2) publish_fits_at [OF assms(1,2)] by (simp add: on_its_way_def)
  from worker_turn_cases [OF assms(5) up(1) ms(1) w(3) assms(4) this]
  consider "w' = w" | m ws' where "ms = m # ws'"
    "up w' (r_table (R k)) (r_resp (R k)) (r_db (R k)) (G k) (cs @ snd (abs_publish_at (r_id (R k)) m (G k, U, T))) U T"
    "ipc_objs (queues w') (r_work (R k)) = Some ws'" "\<And>fd. fd \<noteq> r_db (R k) \<Longrightarrow> sent w' fd = sent w fd \<and> got w' fd = got w fd" "peer w' = peer w"
    by blast
  then show ?thesis
  proof cases
    case 1
    with assms(3) show ?thesis by simp
  next
    case (2 m ws')
    moreover have "\<forall>c\<in>set (snd (abs_publish_at (r_id (R k)) m (G k, U, T))). handed_out n R G T k c"
      using served_handed_out [OF assms(1,2)] ms(2) 2(1) by auto
    ultimately show ?thesis using up(2) ms(2) io w(4,5) by (intro ring_hostI [OF 2(2) _ 2(3)]) auto
  qed
qed

lemma ring_answers_keeps:
  assumes "ring_wired n R G T" "k < n" "ring_host (R k) (G k) U T P (handed_out n R G T k) xs ys w"
    "0 < pid" "fd \<noteq> r_db (R k)" "resp_handler_step stk_msg (r_resp (R k)) pid fd w = (r, w')"
  obtains "w' = w" | c where "handed_out n R G T k c" "mtype c = pid"
    "ring_host (R k) (G k) U T P (handed_out n R G T k) (if fd = r_out (R k) then xs @ forwarded [c] else xs) ys w'"
  using assms(3)
proof (rule ring_hostE)
  fix cs ms j
  assume up: "up w (r_table (R k)) (r_resp (R k)) (r_db (R k)) (G k) cs U T" "\<forall>c\<in>set cs. handed_out n R G T k c" "env w = []"
    "ipc_objs (queues w) (r_resp (R k)) = Some cs"
  have wf: "\<forall>c\<in>set cs. wf_msg c" using up(2) by (simp add: handed_out_def)
  note w = ring_wiredD [OF assms(1,2)]
  from resp_handler_step_cases [OF assms(6) up(3,4) assms(4) wf]
  consider "w' = w" | m q' where "m \<in> set cs" "mtype m = pid" "set q' \<subseteq> set cs"
    "w' = w\<lparr>queues := ipc_put (r_resp (R k)) q' (queues w), sent := (sent w)(fd := sent w fd @ concat (map encode_msg (forwarded [m])))\<rparr>"
    by blast
  then show thesis
  proof cases
    case 1
    then show ?thesis by (rule that(1))
  next
    case (2 m q')
    have "up w' (r_table (R k)) (r_resp (R k)) (r_db (R k)) (G k) q' U T"
      using up_queue [OF up(1), of "ipc_put (r_resp (R k)) q' (queues w)" q'] assms(5) unfolding 2(4) by (simp add: up_sent)
    then have "ring_host (R k) (G k) U T P (handed_out n R G T k) (if fd = r_out (R k) then xs @ forwarded [m] else xs) ys w'"
      using assms(3) up(2) 2(3) w(3) unfolding ring_host_def 2(4) by auto
    with up(2) 2 show ?thesis by (intro that(2)) auto
  qed
qed

lemma ring_takes_keeps:
  assumes "ring_wired n R G T" "k < n" "ring_host (R k) (G k) U T (on_its_way n R G T k) Q xs ys w" "\<forall>m\<in>set ys. on_its_way n R G T k m"
    "req_handler_step stk (r_in (R k)) (r_work (R k)) pid w = (r, w')"
  shows "ring_host (R k) (G k) U T (on_its_way n R G T k) Q xs ys w'"
  using assms(3)
proof (rule ring_hostE)
  fix cs ms j
  assume up: "up w (r_table (R k)) (r_resp (R k)) (r_db (R k)) (G k) cs U T" "env w = []"
  assume ms: "ipc_objs (queues w) (r_work (R k)) = Some ms" "\<forall>m\<in>set ms. on_its_way n R G T k m"
    "peer w (r_in (R k)) = (\<lambda>_. concat (map encode_msg ys))" "got w (r_in (R k)) = sizeof_msg * j"
  note w = ring_wiredD [OF assms(1,2)]
  have wf: "\<forall>m\<in>set ys. wf_msg m" using assms(4) by (simp add: on_its_way_def)
  note av = available_rest [OF ms(3,4) wf]
  have "\<forall>m\<in>set (drop j ys). wf_msg m" using wf by (auto dest: in_set_dropD)
  from req_handler_step_cases [OF assms(5) up(2) ms(1) av this]
  consider "w' = w" | m ms' where "drop j ys = m # ms'"
    "w' = w\<lparr>got := (got w)(r_in (R k) := got w (r_in (R k)) + sizeof_msg), queues := ipc_put (r_work (R k)) (ms @ accepted pid [m]) (queues w)\<rparr>"
    by blast
  then show ?thesis
  proof cases
    case 1
    with assms(3) show ?thesis by simp
  next
    case (2 m ms')
    then have "m \<in> set ys" by (metis in_set_dropD list.set_intros(1))
    then have m: "on_its_way n R G T k m" using assms(4) by simp
    then have "accepted pid [m] = [m]" by (simp add: accepted_def on_its_way_def)
    moreover have "\<exists>i. got w (r_in (R k)) + sizeof_msg = sizeof_msg * i" using ms(4) by (intro exI [of _ "Suc j"]) simp
    moreover have "up w' (r_table (R k)) (r_resp (R k)) (r_db (R k)) (G k) cs' U T"
      if "up w (r_table (R k)) (r_resp (R k)) (r_db (R k)) (G k) cs' U T" for cs'
      using up_queue [OF that, of "ipc_put (r_work (R k)) x (queues w)" cs' for x] that w(3,5) unfolding 2(2)
      by (auto simp: up_elsewhere up_def serving_def guard_def session_def)
    ultimately show ?thesis using assms(3) ms(1,2) m unfolding ring_host_def 2(2) by auto
  qed
qed

lemma ring_asks_keeps:
  assumes "ring_wired n R G T" "k < n" "ring_host (R k) (G k) U T (on_its_way n R G T k) Q xs ys w" "fresh_publication T m"
    "process_message_rq (r_work (R k)) m pid w = (r, w')"
  shows "ring_host (R k) (G k) U T (on_its_way n R G T k) Q xs ys w'"
  using assms(3)
proof (rule ring_hostE)
  fix cs ms j
  assume up: "up w (r_table (R k)) (r_resp (R k)) (r_db (R k)) (G k) cs U T" "\<forall>c\<in>set cs. Q c" "env w = []"
  assume ms: "ipc_objs (queues w) (r_work (R k)) = Some ms" "\<forall>m\<in>set ms. on_its_way n R G T k m"
  assume io: "sent w (r_out (R k)) = concat (map encode_msg xs)" "peer w (r_in (R k)) = (\<lambda>_. concat (map encode_msg ys))"
    "got w (r_in (R k)) = sizeof_msg * j"
  have m: "on_its_way n R G T k m" "accepted pid [m] = [m]"
    using assms(4) by (simp_all add: fresh_publication_def on_its_way_def accepted_def)
  have w': "w' = w\<lparr>queues := ipc_put (r_work (R k)) (ms @ [m]) (queues w)\<rparr>"
    using process_message_rq_run [OF up(3) ms(1), of m pid] m(2) assms(5) by simp
  have "ipc_objs (queues w) (r_resp (R k)) = Some cs" using up(1) by (rule upE)
  then have "up w' (r_table (R k)) (r_resp (R k)) (r_db (R k)) (G k) cs U T"
    using up_queue [OF up(1), of "ipc_put (r_work (R k)) (ms @ [m]) (queues w)" cs] ring_wiredD(3) [OF assms(1,2)] by (simp add: w')
  with up(2) ms(2) m(1) io show ?thesis by (intro ring_hostI [where ms = "ms @ [m]"]) (auto simp: w')
qed

lemma ring_arrives_keeps:
  assumes "ring_wired n R G T" "k < n" "ring_host (R k) (G k) U T P Q xs ys w"
  shows "ring_host (R k) (G k) U T P Q xs zs (w\<lparr>peer := (peer w)(r_in (R k) := (\<lambda>_. concat (map encode_msg zs)))\<rparr>)"
  using assms(3) ring_wiredD(5) [OF assms(1,2)] by (auto simp: ring_host_def up_elsewhere)

section \<open>Every step keeps it\<close>

lemma ring_ok_host:
  assumes "ring_ok n R G U T W" "k < n"
  obtains xs ys where "ring_host (R k) (G k) U T (on_its_way n R G T k) (handed_out n R G T k) xs ys (W k)"
    "\<forall>m\<in>set xs. on_its_way n R G T (Suc k mod n) m" "\<forall>m\<in>set ys. on_its_way n R G T k m"
  using assms by (auto simp: ring_ok_def)

lemma ring_ok_update:
  assumes "ring_ok n R G U T W" "ring_host (R k) (G k) U T (on_its_way n R G T k) (handed_out n R G T k) xs ys w"
    "\<forall>m\<in>set xs. on_its_way n R G T (Suc k mod n) m" "\<forall>m\<in>set ys. on_its_way n R G T k m"
  shows "ring_ok n R G U T (W(k := w))"
  using assms unfolding ring_ok_def by auto

lemma ring_ok_step:
  assumes "ring_step n T R W W'" "ring_wired n R G T" "ring_ok n R G U T W"
  shows "ring_ok n R G U T W'"
  using assms(1)
proof cases
  case (ring_asks k s m pid r w')
  note ring_ok_host [OF assms(3) ring_asks(2)]
  then show ?thesis
    using ring_asks_keeps [OF assms(2) ring_asks(2) _ ring_asks(4)] ring_asks ring_ok_update [OF assms(3)] by metis
next
  case (ring_works k s stk stk_msg r w')
  note ring_ok_host [OF assms(3) ring_works(2)]
  then show ?thesis
    using ring_works_keeps [OF assms(2) ring_works(2) _ ring_works(4)] ring_works ring_ok_update [OF assms(3)] by metis
next
  case (ring_sends k s stk_msg r w')
  obtain xs ys where h: "ring_host (R k) (G k) U T (on_its_way n R G T k) (handed_out n R G T k) xs ys (W k)"
    "\<forall>m\<in>set xs. on_its_way n R G T (Suc k mod n) m" "\<forall>m\<in>set ys. on_its_way n R G T k m"
    using ring_ok_host [OF assms(3) ring_sends(2)] .
  note w = ring_wiredD [OF assms(2) ring_sends(2)]
  have "0 < r_next (R k)" using h(1) w(6) by (elim ring_hostE) (rule up_handler)
  from ring_answers_keeps [OF assms(2) ring_sends(2) h(1) this w(4) ring_sends(4) [unfolded ring_sends(3)]]
  show ?thesis
  proof cases
    case 1
    then show ?thesis using assms(3) ring_sends(1) by simp
  next
    case (2 c)
    then have "\<forall>m\<in>set (xs @ forwarded [c]). on_its_way n R G T (Suc k mod n) m"
      using h(2) passed_on_its_way [OF assms(2) ring_sends(2)] by auto
    with 2(3) h(3) show ?thesis unfolding ring_sends(1) by (intro ring_ok_update [OF assms(3)]) auto
  qed
next
  case (ring_arrives k s w bs)
  have k: "Suc k mod n < n" using ring_arrives(2) by simp
  obtain xs ys where h: "ring_host (R k) (G k) U T (on_its_way n R G T k) (handed_out n R G T k) xs ys (W k)"
    "\<forall>m\<in>set xs. on_its_way n R G T (Suc k mod n) m"
    using ring_ok_host [OF assms(3) ring_arrives(2)] .
  obtain xs' ys' where h': "ring_host (R (Suc k mod n)) (G (Suc k mod n)) U T (on_its_way n R G T (Suc k mod n))
      (handed_out n R G T (Suc k mod n)) xs' ys' (W (Suc k mod n))"
    "\<forall>m\<in>set xs'. on_its_way n R G T (Suc (Suc k mod n) mod n) m"
    using ring_ok_host [OF assms(3) k] .
  have "bs = concat (map encode_msg xs)" using h(1) ring_arrives(5) by (auto elim: ring_hostE)
  then show ?thesis
    using ring_arrives_keeps [OF assms(2) k h'(1), of xs] h(2) h'(2) ring_arrives by (auto intro: ring_ok_update [OF assms(3)])
next
  case (ring_takes k s stk_msg r w')
  note ring_ok_host [OF assms(3) ring_takes(2)]
  then show ?thesis
    using ring_takes_keeps [OF assms(2) ring_takes(2)] ring_takes ring_ok_update [OF assms(3)] by metis
next
  case (ring_answers k s pid fd stk_msg r w')
  obtain xs ys where h: "ring_host (R k) (G k) U T (on_its_way n R G T k) (handed_out n R G T k) xs ys (W k)"
    "\<forall>m\<in>set xs. on_its_way n R G T (Suc k mod n) m" "\<forall>m\<in>set ys. on_its_way n R G T k m"
    using ring_ok_host [OF assms(3) ring_answers(2)] .
  from ring_answers_keeps [OF assms(2) ring_answers(2) h(1) ring_answers(4), of fd] ring_answers
  consider "w' = W k" | "ring_host (R k) (G k) U T (on_its_way n R G T k) (handed_out n R G T k) xs ys w'" by auto
  then show ?thesis
  proof cases
    case 1
    then show ?thesis using assms(3) ring_answers(1) by simp
  next
    case 2
    then show ?thesis unfolding ring_answers(1) using h(2,3) by (rule ring_ok_update [OF assms(3)])
  qed
qed

lemma ring_ok_reachable: "(ring_step n T R)\<^sup>*\<^sup>* W W' \<Longrightarrow> ring_wired n R G T \<Longrightarrow> ring_ok n R G U T W \<Longrightarrow> ring_ok n R G U T W'"
  by (induction rule: rtranclp_induct) (auto intro: ring_ok_step)

text \<open>A ring in which nothing is under way.\<close>

definition ring_idle :: "nat \<Rightarrow> (nat \<Rightarrow> ring_site) \<Rightarrow> (nat \<Rightarrow> global_id_t list) \<Rightarrow> users \<Rightarrow> topics \<Rightarrow> (nat \<Rightarrow> host) \<Rightarrow> bool" where
  "ring_idle n R G U T W \<longleftrightarrow> (\<forall>k<n. case R k of s \<Rightarrow> up (W k) (r_table s) (r_resp s) (r_db s) (G k) [] U T
     \<and> ipc_objs (queues (W k)) (r_work s) = Some [] \<and> sent (W k) (r_out s) = [] \<and> got (W k) (r_in s) = 0 \<and> peer (W k) (r_in s) = (\<lambda>_. []))"

lemma ring_idle_ok: "ring_idle n R G U T W \<Longrightarrow> ring_ok n R G U T W"
  unfolding ring_ok_def ring_idle_def
  by (intro allI impI exI [of _ "[]"] conjI ring_hostI [where j = 0]) auto

lemma ring_copy:
  assumes "ring_wired n R G T" "ring_idle n R G U T W" "(ring_step n T R)\<^sup>*\<^sup>* W W'" "k < n"
    "ipc_objs (queues (W' k)) (r_resp (R k)) = Some cs" "c \<in> set cs" "msg_type c = PUBLISH"
  obtains a d where "a < n" "d < n" "k = (a + d) mod n" "broker_id c = r_id (R a)" "carried n G T a (topic_of c) d"
proof -
  have ok: "ring_ok n R G U T W'" using assms(3,1) ring_idle_ok [OF assms(2)] by (rule ring_ok_reachable)
  obtain xs ys where "ring_host (R k) (G k) U T (on_its_way n R G T k) (handed_out n R G T k) xs ys (W' k)"
    using ring_ok_host [OF ok assms(4)] .
  then have "handed_out n R G T k c" by (rule ring_hostE) (use assms(5,6) in auto)
  with assms(7) that show ?thesis by (auto simp: handed_out_def)
qed

section \<open>A publication on its way\<close>

text \<open>The messages that a server queues for its own clients.\<close>

definition served_here :: "global_id_t list \<Rightarrow> msg_t \<Rightarrow> int list \<Rightarrow> msg_t list" where
  "served_here gs m is = map (\<lambda>i. m\<lparr>global_id := i, mtype := the (handler_of gs i)\<rparr>) (filter (\<lambda>i. handler_of gs i \<noteq> None) is)"

lemma copies_split:
  assumes "ring_wired n R G T" "k < n" "is = take MAX_CLIENTS (subscribers T t)"
  shows "filter (\<lambda>c. mtype c \<noteq> r_next (R k)) (copies (G k) m False is) = served_here (G k) m is"
    "filter (\<lambda>c. mtype c = r_next (R k)) (copies (G k) m False is)
      = map (\<lambda>i. m\<lparr>global_id := i, mtype := r_next (R k)\<rparr>) (take 1 (unknown G T k t))"
proof -
  note w = ring_wiredD [OF assms(1,2)]
  have n: "handler_code (G k) NEXT_SERVER_GLOBAL_ID = r_next (R k)" using w(6) by (simp add: handler_code_def)
  have same: "mtype c = r_next (R k) \<longleftrightarrow> handler_of (G k) (global_id c) = None" if c: "c \<in> set (copies (G k) m False is)" for c
  proof -
    obtain i h where i: "c = m\<lparr>global_id := i, mtype := h\<rparr>" "i \<in> set is" "h = handler_code (G k) NEXT_SERVER_GLOBAL_ID \<or> handler_of (G k) i = Some h"
      using copies_members [OF c] by blast
    then have "0 < i" using w(9) assms(3) by (auto dest: in_set_takeD)
    with i n w(7) [of i] copies_mtype [OF c] show ?thesis by (cases "handler_of (G k) i") auto
  qed
  show "filter (\<lambda>c. mtype c \<noteq> r_next (R k)) (copies (G k) m False is) = served_here (G k) m is"
    unfolding served_here_def copies_local [where fwd = False, symmetric] by (rule filter_cong [OF refl]) (simp add: same)
  have "filter (\<lambda>c. mtype c = r_next (R k)) (copies (G k) m False is) = filter (\<lambda>c. handler_of (G k) (global_id c) = None) (copies (G k) m False is)"
    by (rule filter_cong [OF refl]) (simp add: same)
  then show "filter (\<lambda>c. mtype c = r_next (R k)) (copies (G k) m False is)
      = map (\<lambda>i. m\<lparr>global_id := i, mtype := r_next (R k)\<rparr>) (take 1 (unknown G T k t))"
    unfolding copies_remote by (simp add: n assms(3) unknown_def)
qed

lemma fresh_on_its_way: "fresh_publication T m \<Longrightarrow> on_its_way n R G T k m"
  by (simp add: fresh_publication_def on_its_way_def)

lemma fresh_served:
  assumes "ring_wired n R G T" "a < n" "fresh_publication T m" "handler_of (G a) (mtype m) = Some h"
  shows "snd (abs_publish_at (r_id (R a)) m (G a, U, T)) =
      copies (G a) (m\<lparr>broker_id := r_id (R a)\<rparr>) False (take MAX_CLIENTS (subscribers T (topic_of m)))
      @ [m\<lparr>broker_id := r_id (R a), global_id := mtype m, mtype := h, msg_type := ACK_OK\<rparr>]"
  using assms ring_wiredD(1) [OF assms(1,2)] by (simp add: fresh_publication_def abs_publish_at_def Let_def)

text \<open>What is left of that when the copy for the next server is gone.\<close>

lemma fresh_split:
  fixes U :: users
  assumes "ring_wired n R G T" "a < n" "fresh_publication T m" "handler_of (G a) (mtype m) = Some h"
  defines "m' \<equiv> m\<lparr>broker_id := r_id (R a)\<rparr>" and "cs \<equiv> snd (abs_publish_at (r_id (R a)) m (G a, U, T))"
  shows "filter (\<lambda>c. mtype c = r_next (R a)) cs = map (\<lambda>i. m'\<lparr>global_id := i, mtype := r_next (R a)\<rparr>) (take 1 (unknown G T a (topic_of m)))"
    "filter (\<lambda>c. msg_type c = PUBLISH) (filter (\<lambda>c. mtype c \<noteq> r_next (R a)) cs)
      = served_here (G a) m' (take MAX_CLIENTS (subscribers T (topic_of m)))"
    "\<forall>c\<in>set cs. wf_msg c"
proof -
  have f: "msg_type m = PUBLISH" "0 < mtype m" using assms(3) by (simp_all add: fresh_publication_def)
  then have "h \<noteq> r_next (R a)" using ring_wiredD(7) [OF assms(1,2), of "mtype m"] assms(4) by auto
  with f(1) copies_split [OF assms(1,2) refl, of m'] show "filter (\<lambda>c. mtype c = r_next (R a)) cs
      = map (\<lambda>i. m'\<lparr>global_id := i, mtype := r_next (R a)\<rparr>) (take 1 (unknown G T a (topic_of m)))"
    "filter (\<lambda>c. msg_type c = PUBLISH) (filter (\<lambda>c. mtype c \<noteq> r_next (R a)) cs)
      = served_here (G a) m' (take MAX_CLIENTS (subscribers T (topic_of m)))"
    unfolding cs_def fresh_served [OF assms(1-4)] m'_def filter_append by (simp_all add: served_here_def)
  show "\<forall>c\<in>set cs. wf_msg c"
    using served_handed_out [OF assms(1,2) fresh_on_its_way [OF assms(3)]] by (auto simp: cs_def handed_out_def)
qed

text \<open>A client's publication is served by its own server \<open>a\<close>.\<close>

lemma publication_served:
  assumes "ring_wired n R G T" "ring_idle n R G U T W" "fresh_publication T m" "a < n"
  shows "\<exists>w. (ring_step n T R)\<^sup>*\<^sup>* W (W(a := w))
    \<and> up w (r_table (R a)) (r_resp (R a)) (r_db (R a)) (G a) (snd (abs_publish_at (r_id (R a)) m (G a, U, T))) U T
    \<and> sent w (r_out (R a)) = []"
proof -
  note w = ring_wiredD [OF assms(1,4)]
  have i: "up (W a) (r_table (R a)) (r_resp (R a)) (r_db (R a)) (G a) [] U T" "ipc_objs (queues (W a)) (r_work (R a)) = Some []"
    "sent (W a) (r_out (R a)) = []"
    using assms(2,4) by (simp_all add: ring_idle_def Let_def)
  have e: "env (W a) = []" using i(1) by (rule upE)
  have m: "msg_type m = PUBLISH" "broker_id m = 0" "is_int32 (mtype m)" "topic_served T (topic_of m)" "accepted 1 [m] = [m]"
    using assms(3) by (simp_all add: fresh_publication_def accepted_def)
  define w1 where "w1 = (W a)\<lparr>queues := ipc_put (r_work (R a)) [m] (queues (W a))\<rparr>"
  have r1: "process_message_rq (r_work (R a)) m 1 (W a) = (Ret (), w1)"
    using process_message_rq_run [OF e i(2), of m 1] m(5) by (simp add: w1_def)
  have s1: "ring_step n T R W (W(a := w1))" by (rule ring_asks [where s = "R a" and m = m]) (use assms(3,4) r1 in simp_all)
  have q: "ipc_objs (queues (W a)) (r_resp (R a)) = Some []" using i(1) by (rule upE)
  then have u1: "up w1 (r_table (R a)) (r_resp (R a)) (r_db (R a)) (G a) [] U T"
    using up_queue [OF i(1), of "ipc_put (r_work (R a)) [m] (queues (W a))" "[]"] w(3) by (simp add: w1_def)
  have q1: "ipc_objs (queues w1) (r_work (R a)) = Some [m]" by (simp add: w1_def)
  obtain w2 where w2: "worker_step_at (r_id (R a)) blank_db_msg m (r_work (R a)) (r_resp (R a)) (r_table (R a)) (r_db (R a)) w1 = (Ret (), w2)"
    "up w2 (r_table (R a)) (r_resp (R a)) (r_db (R a)) (G a) ([] @ snd (abs_publish_at (r_id (R a)) m (G a, U, T))) U T"
    using worker_step_publish_run [OF u1 q1 w(3) blank_db_msg_wf m(1,3) publish_fits_at [OF assms(1,4) m(4)], of "r_id (R a)" m] by blast
  have e1: "env w1 = []" using e by (simp add: w1_def)
  have "sent w2 (r_out (R a)) = []" using worker_step_at_frame [OF w2(1) w(4) e1 q1] i(3) by (simp add: w1_def)
  moreover have "ring_step n T R (W(a := w1)) ((W(a := w1))(a := w2))"
    using w2(1) by (intro ring_works [where s = "R a" and stk = blank_db_msg] assms(4) blank_db_msg_wf) simp_all
  ultimately show ?thesis using s1 w2(2) by (intro exI [of _ w2]) auto
qed

text \<open>What server \<open>a\<close> passes on reaches the worker of the next server \<open>b\<close>.\<close>

lemma publication_passed:
  assumes "ring_wired n R G T" "a < n" "b = Suc a mod n" "b \<noteq> a"
    "up (W a) (r_table (R a)) (r_resp (R a)) (r_db (R a)) (G a) cs U T" "sent (W a) (r_out (R a)) = []" "\<forall>c\<in>set cs. wf_msg c"
    "filter (\<lambda>c. mtype c = r_next (R a)) cs = [c]" "msg_type c = PUBLISH" "0 < global_id c"
    "up (W b) (r_table (R b)) (r_resp (R b)) (r_db (R b)) (G b) [] U T" "ipc_objs (queues (W b)) (r_work (R b)) = Some []"
    "got (W b) (r_in (R b)) = 0"
  shows "\<exists>w1 w2. (ring_step n T R)\<^sup>*\<^sup>* W (W(a := w1, b := w2))
    \<and> ipc_objs (queues w1) (r_resp (R a)) = Some (filter (\<lambda>c. mtype c \<noteq> r_next (R a)) cs)
    \<and> up w2 (r_table (R b)) (r_resp (R b)) (r_db (R b)) (G b) [] U T
    \<and> ipc_objs (queues w2) (r_work (R b)) = Some [c\<lparr>mtype := global_id c\<rparr>]"
proof -
  have b: "b < n" using assms(2,3) by simp
  note w = ring_wiredD [OF assms(1)]
  let ?c = "c\<lparr>mtype := global_id c\<rparr>"
  have c: "forwarded [c] = [?c]" using assms(9) by (simp add: forwarded_def)
  have "c \<in> set (filter (\<lambda>c. mtype c = r_next (R a)) cs)" by (simp add: assms(8))
  then have wf: "wf_msg c" using assms(7) by simp
  have ea: "env (W a) = []" "ipc_objs (queues (W a)) (r_resp (R a)) = Some cs" using assms(5) by (auto elim: upE)
  have pos: "0 < r_next (R a)" using assms(5) w(6) [OF assms(2)] by (rule up_handler)
  let ?w1 = "(W a)\<lparr>queues := ipc_put (r_resp (R a)) (filter (\<lambda>c. mtype c \<noteq> r_next (R a)) cs) (queues (W a)),
    sent := (sent (W a))(r_out (R a) := encode_msg ?c)\<rparr>"
  have "resp_handler_loop [blank_msg] (r_resp (R a)) (r_next (R a)) (r_out (R a)) (W a) = (Ret (), ?w1)"
    using resp_handler_loop_run [OF ea pos _ assms(7), of "[blank_msg]" "r_out (R a)"] assms(6) by (simp add: assms(8) c)
  then have send: "resp_handler_step blank_msg (r_resp (R a)) (r_next (R a)) (r_out (R a)) (W a) = (Ret (), ?w1)"
    by (auto simp: bnd_def ret_def split: prod.splits res.splits)
  have s1: "ring_step n T R W (W(a := ?w1))" by (rule ring_sends [where s = "R a"]) (use assms(2) send in simp_all)
  let ?wb = "(W b)\<lparr>peer := (peer (W b))(r_in (R b) := (\<lambda>_. encode_msg ?c))\<rparr>"
  have s2: "ring_step n T R (W(a := ?w1)) (W(a := ?w1, b := ?wb))"
    using ring_arrives [where k = a and n = n and T = T and W = "W(a := ?w1)" and s = "R b" and w = "W b" and R = R and bs = "encode_msg ?c"] assms(2-4) by simp
  have ub: "up ?wb (r_table (R b)) (r_resp (R b)) (r_db (R b)) (G b) [] U T" using assms(11) w(5) [OF b] by (simp add: up_elsewhere)
  have eb: "env ?wb = []" using ub by (rule upE)
  have "available ?wb (r_in (R b)) = concat (map encode_msg [?c]) @ []" using assms(13) by (simp add: available_def)
  note take = req_handler_loop_run [OF eb _ this, of "r_work (R b)" "[]" "[blank_msg]" "r_prev (R b)"]
  have acc: "accepted (r_prev (R b)) [?c] = [?c]" using assms(9,10) by (simp add: accepted_def)
  let ?w2 = "?wb\<lparr>queues := ipc_put (r_work (R b)) [?c] (queues ?wb), got := (got ?wb)(r_in (R b) := sizeof_msg)\<rparr>"
  have "req_handler_loop [blank_msg] (r_in (R b)) (r_work (R b)) (r_prev (R b)) ?wb = (Ret (), ?w2)"
    using take wf_forwarded [OF wf] assms(12,13) acc by simp
  then obtain x where rcv: "req_handler_step blank_msg (r_in (R b)) (r_work (R b)) (r_prev (R b)) ?wb = (x, ?w2)"
    by (auto simp: bnd_def ret_def split: prod.splits res.splits if_splits)
  have s3: "ring_step n T R (W(a := ?w1, b := ?wb)) (W(a := ?w1, b := ?w2))"
    using ring_takes [where k = b and W = "W(a := ?w1, b := ?wb)" and s = "R b" and w' = ?w2] b rcv by simp
  have qb: "ipc_objs (queues (W b)) (r_resp (R b)) = Some []" using assms(11) by (rule upE)
  have "up ?w2 (r_table (R b)) (r_resp (R b)) (r_db (R b)) (G b) [] U T"
    using up_queue [OF ub, of "ipc_put (r_work (R b)) [?c] (queues (W b))" "[]"] qb w(3,5) [OF b] by (simp add: up_elsewhere up_got)
  moreover have "(ring_step n T R)\<^sup>*\<^sup>* W (W(a := ?w1, b := ?w2))"
    using s1 s2 s3 by (meson rtranclp.rtrancl_into_rtrancl rtranclp.rtrancl_refl)
  ultimately show ?thesis by (intro exI [of _ ?w1] exI [of _ ?w2]) simp
qed

text \<open>And is served there.\<close>

lemma passed_publication_served:
  assumes "ring_wired n R G T" "b < n" "up (W b) (r_table (R b)) (r_resp (R b)) (r_db (R b)) (G b) [] U T"
    "ipc_objs (queues (W b)) (r_work (R b)) = Some [m]" "msg_type m = PUBLISH" "is_int32 (mtype m)" "topic_served T (topic_of m)"
  shows "\<exists>w. ring_step n T R W (W(b := w))
    \<and> ipc_objs (queues w) (r_resp (R b)) = Some (snd (abs_publish_at (r_id (R b)) m (G b, U, T)))"
proof -
  note w = ring_wiredD [OF assms(1,2)]
  obtain w where w: "worker_step_at (r_id (R b)) blank_db_msg m (r_work (R b)) (r_resp (R b)) (r_table (R b)) (r_db (R b)) (W b) = (Ret (), w)"
    "up w (r_table (R b)) (r_resp (R b)) (r_db (R b)) (G b) ([] @ snd (abs_publish_at (r_id (R b)) m (G b, U, T))) U T"
    using worker_step_publish_run [OF assms(3,4) w(3) blank_db_msg_wf assms(5,6) publish_fits_at [OF assms(1,2,7)], of "r_id (R b)" m] by blast
  have "ring_step n T R W (W(b := w))"
    by (rule ring_works [where s = "R b" and stk = blank_db_msg]) (use assms(2) w(1) blank_db_msg_wf in simp_all)
  moreover have "ipc_objs (queues w) (r_resp (R b)) = Some (snd (abs_publish_at (r_id (R b)) m (G b, U, T)))"
    using w(2) by (auto elim: upE)
  ultimately show ?thesis by blast
qed

section \<open>A ring of two\<close>

text \<open>
  Two servers with the numbers 1 and 2; client 1 is connected to the first, client 2 has subscribed to
  a topic and is connected to the second or to none.
\<close>

definition pair_site :: "nat \<Rightarrow> ring_site" where
  "pair_site k = \<lparr>r_id = int (Suc k), r_work = 0, r_resp = 1, r_table = 0, r_db = 4, r_out = 5, r_in = 3, r_next = 60, r_prev = 61\<rparr>"

definition pair_rows :: "global_id_t list \<Rightarrow> nat \<Rightarrow> global_id_t list" where
  "pair_rows gs k = (if k = 0 then [ring_row, \<lparr>g_mtype = 70, g_global_id = 1\<rparr>] else gs)"

abbreviation rain_topics :: topics where "rain_topics \<equiv> [''rain'' \<mapsto> [2]]"

lemma pair_host:
  assumes "length gs \<le> 50" "\<forall>r\<in>set gs. 0 < g_mtype r"
  shows "\<exists>w. up w 0 1 4 gs [] [1 \<mapsto> [], 2 \<mapsto> [''rain'']] rain_topics \<and> ipc_objs (queues w) 0 = Some []
    \<and> sent w 5 = [] \<and> got w 3 = 0 \<and> peer w 3 = (\<lambda>_. [])"
proof -
  obtain w where w: "up w 0 1 4 two_clients [] [1 \<mapsto> [], 2 \<mapsto> [''rain'']] rain_topics" "ipc_objs (queues w) 0 = Some []"
    "\<forall>fd. fd \<noteq> 4 \<longrightarrow> sent w fd = [] \<and> got w fd = 0"
    using two_clients_hub by blast
  let ?t = "\<lparr>count = int (length gs), ids = gs @ replicate (50 - length gs) \<lparr>g_mtype = 0, g_global_id = 0\<rparr>\<rparr>"
  let ?w = "w\<lparr>shms := ipc_put 0 ?t (shms w), peer := (peer w)(3 := (\<lambda>_. []))\<rparr>"
  have "serving ?w 0 ?t" using w(1) assms by (auto simp: up_def serving_def guard_def wf_table_def rows_def)
  moreover have "rows ?t = gs" by (simp add: rows_def)
  ultimately have "up ?w 0 1 4 gs [] [1 \<mapsto> [], 2 \<mapsto> [''rain'']] rain_topics" using w(1) by (auto simp: up_def session_def)
  with w(2,3) show ?thesis by (intro exI [of _ ?w]) simp
qed

lemma pair_ring:
  assumes "gs \<in> {[ring_row], [ring_row, \<lparr>g_mtype = 71, g_global_id = 2\<rparr>]}"
  shows "ring_wired 2 pair_site (pair_rows gs) rain_topics"
    "\<exists>W. ring_idle 2 pair_site (pair_rows gs) [1 \<mapsto> [], 2 \<mapsto> [''rain'']] rain_topics W"
    "unknown (pair_rows gs) rain_topics 0 ''rain'' = [2]"
proof -
  have two: "k < 2 \<Longrightarrow> k = 0 \<or> k = Suc 0" for k :: nat by auto
  have sub: "subscribers rain_topics t = (if t = ''rain'' then [2] else [])" for t by (simp add: subscribers_def)
  show "ring_wired 2 pair_site (pair_rows gs) rain_topics"
    using assms unfolding ring_wired_def
    by (auto dest!: two simp: pair_site_def pair_rows_def sub handler_of_def ring_row_def inj_on_def is_int32_def is_int64_def split: if_splits)
  obtain w0 w1 where "up w0 0 1 4 [ring_row, \<lparr>g_mtype = 70, g_global_id = 1\<rparr>] [] [1 \<mapsto> [], 2 \<mapsto> [''rain'']] rain_topics \<and> ipc_objs (queues w0) 0 = Some []
      \<and> sent w0 5 = [] \<and> got w0 3 = 0 \<and> peer w0 3 = (\<lambda>_. [])"
    "up w1 0 1 4 gs [] [1 \<mapsto> [], 2 \<mapsto> [''rain'']] rain_topics \<and> ipc_objs (queues w1) 0 = Some []
      \<and> sent w1 5 = [] \<and> got w1 3 = 0 \<and> peer w1 3 = (\<lambda>_. [])"
    using pair_host [of "[ring_row, \<lparr>g_mtype = 70, g_global_id = 1\<rparr>]"] pair_host [of gs] assms by (auto simp: ring_row_def)
  then have "ring_idle 2 pair_site (pair_rows gs) [1 \<mapsto> [], 2 \<mapsto> [''rain'']] rain_topics (\<lambda>k. if k = 0 then w0 else w1)"
    by (auto dest!: two simp: ring_idle_def pair_site_def pair_rows_def)
  then show "\<exists>W. ring_idle 2 pair_site (pair_rows gs) [1 \<mapsto> [], 2 \<mapsto> [''rain'']] rain_topics W" by blast
  show "unknown (pair_rows gs) rain_topics 0 ''rain'' = [2]"
    by (simp add: unknown_def sub pair_rows_def handler_of_def ring_row_def)
qed

lemma rain_publication:
  "fresh_publication rain_topics (request PUBLISH 1 ''rain'')" "topic_of (request PUBLISH 1 ''rain'') = ''rain''"
  "handler_of (pair_rows gs 0) (mtype (request PUBLISH 1 ''rain'')) = Some 70"
proof -
  show t: "topic_of (request PUBLISH 1 ''rain'') = ''rain''" by (rule rain_host_facts)
  have "wf_msg (request PUBLISH 1 ''rain'')" by (simp add: request_def wf_msg_def is_int32_def is_int64_def)
  then show "fresh_publication rain_topics (request PUBLISH 1 ''rain'')"
    using rain_host_facts(6) unfolding fresh_publication_def topic_served_def t by (simp add: is_int32_def subscribers_def)
qed (simp add: pair_rows_def handler_of_def ring_row_def)

text \<open>The publication of client 1 waits at the first server for the response handler of the ring.\<close>

lemma pair_published:
  "\<exists>W W' cs c. ring_idle 2 pair_site (pair_rows [ring_row]) [1 \<mapsto> [], 2 \<mapsto> [''rain'']] rain_topics W
     \<and> (ring_step 2 rain_topics pair_site)\<^sup>*\<^sup>* W W' \<and> ipc_objs (queues (W' 0)) (r_resp (pair_site 0)) = Some cs \<and> c \<in> set cs
     \<and> msg_type c = PUBLISH \<and> broker_id c = r_id (pair_site 0) \<and> topic_of c = ''rain''"
proof -
  let ?m = "request PUBLISH 1 ''rain''" and ?U = "[1 \<mapsto> [], 2 \<mapsto> [''rain'']] :: users"
  note ring = pair_ring [of "[ring_row]", simplified]
  obtain W where W: "ring_idle 2 pair_site (pair_rows [ring_row]) ?U rain_topics W" using ring(2) by blast
  let ?cs = "snd (abs_publish_at (r_id (pair_site 0)) ?m (pair_rows [ring_row] 0, ?U, rain_topics))"
  obtain w where w: "(ring_step 2 rain_topics pair_site)\<^sup>*\<^sup>* W (W(0 := w))" "ipc_objs (queues w) (r_resp (pair_site 0)) = Some ?cs"
    using publication_served [OF ring(1) W rain_publication(1), of 0] by (auto elim: upE)
  let ?c = "?m\<lparr>broker_id := r_id (pair_site 0), global_id := 2, mtype := r_next (pair_site 0)\<rparr>"
  have "filter (\<lambda>c. mtype c = r_next (pair_site 0)) ?cs = [?c]"
    using fresh_split(1) [OF ring(1) _ rain_publication(1,3)] ring(3) unfolding rain_publication(2) by simp
  then have "?c \<in> set (filter (\<lambda>c. mtype c = r_next (pair_site 0)) ?cs)" by simp
  then have "?c \<in> set ?cs" by simp
  moreover have "msg_type ?c = PUBLISH" "broker_id ?c = r_id (pair_site 0)" "topic_of ?c = ''rain''" using rain_publication(2) by simp_all
  ultimately show ?thesis using W w by (intro exI [of _ W] exI [of _ "W(0 := w)"] exI [of _ ?cs] exI [of _ ?c]) simp
qed

section \<open>Properties\<close>

text \<open>
  C6: In a ring of any size whose clients only publish, while who is connected where and the subscriptions
  stay as they are, and whatever its processes do, in any order: a publication is queued for a client only by
  the server at which it was published, by the next one or by the one after that.  A server three
  places away does not serve it.  (A client that is removed, or a subscription that is added, while a copy is
  on its way is not covered: then a third server may take the copy in the name of a client of its own.)
\<close>

theorem ring_reaches_two:
  "ring_wired n R G T \<Longrightarrow> ring_idle n R G U T W \<Longrightarrow> (ring_step n T R)\<^sup>*\<^sup>* W W' \<Longrightarrow> k < n \<Longrightarrow>
   ipc_objs (queues (W' k)) (r_resp (R k)) = Some cs \<Longrightarrow> c \<in> set cs \<Longrightarrow> msg_type c = PUBLISH \<Longrightarrow>
   \<exists>a<n. broker_id c = r_id (R a) \<and> k \<in> {a, Suc a mod n, Suc (Suc a) mod n}"
proof -
  assume w: "ring_wired n R G T" and c: "ring_idle n R G U T W" "(ring_step n T R)\<^sup>*\<^sup>* W W'" "k < n"
    "ipc_objs (queues (W' k)) (r_resp (R k)) = Some cs" "c \<in> set cs" "msg_type c = PUBLISH"
  obtain a d where ad: "a < n" "d < n" "k = (a + d) mod n" "broker_id c = r_id (R a)" "carried n G T a (topic_of c) d"
    using ring_copy [OF w c] .
  have "d \<le> 2" using carried_two [OF w ad(1,2,5)] .
  then consider "d = 0" | "d = 1" | "d = 2" by linarith
  then have "k \<in> {a, Suc a mod n, Suc (Suc a) mod n}" using ad(1,3) by cases simp_all
  with ad(1,4) show ?thesis by blast
qed

lemma ring_reaches_two_witness:
  "\<exists>(W :: nat \<Rightarrow> host) k cs c. k < 2 \<and> ipc_objs (queues (W k)) 1 = Some cs \<and> c \<in> set cs \<and> msg_type c = PUBLISH
     \<and> (\<exists>a<2. broker_id c = r_id (pair_site a) \<and> k \<in> {a, Suc a mod 2, Suc (Suc a) mod 2})"
proof -
  obtain W W' cs c where run: "ring_idle 2 pair_site (pair_rows [ring_row]) [1 \<mapsto> [], 2 \<mapsto> [''rain'']] rain_topics W"
    "(ring_step 2 rain_topics pair_site)\<^sup>*\<^sup>* W W'"
    and q: "ipc_objs (queues (W' 0)) (r_resp (pair_site 0)) = Some cs" and c: "c \<in> set cs" "msg_type c = PUBLISH"
    using pair_published by blast
  from ring_reaches_two [OF pair_ring(1) run _ q c] have "\<exists>a<2. broker_id c = r_id (pair_site a) \<and> 0 \<in> {a, Suc a mod 2, Suc (Suc a) mod 2}"
    by simp
  with c q show ?thesis by (intro exI [of _ W'] exI [of _ 0] exI [of _ cs] exI [of _ c]) (simp add: pair_site_def)
qed

text \<open>
  C7: While clients only publish, as in the property before: when the first subscriber that a server does not
  know is not a client of the next server, its publications on that topic are served by nobody else,
  not even to the clients of the next server.
\<close>

theorem ring_drops_publication:
  "ring_wired n R G T \<Longrightarrow> ring_idle n R G U T W \<Longrightarrow> (ring_step n T R)\<^sup>*\<^sup>* W W' \<Longrightarrow> k < n \<Longrightarrow> a < n \<Longrightarrow>
   unknown G T a t = i # is \<Longrightarrow> handler_of (G (Suc a mod n)) i = None \<Longrightarrow>
   ipc_objs (queues (W' k)) (r_resp (R k)) = Some cs \<Longrightarrow> c \<in> set cs \<Longrightarrow> msg_type c = PUBLISH \<Longrightarrow>
   broker_id c = r_id (R a) \<Longrightarrow> topic_of c = t \<Longrightarrow> k = a"
proof -
  assume w: "ring_wired n R G T" and c: "ring_idle n R G U T W" "(ring_step n T R)\<^sup>*\<^sup>* W W'" "k < n"
    "ipc_objs (queues (W' k)) (r_resp (R k)) = Some cs" "c \<in> set cs" "msg_type c = PUBLISH"
  assume a: "a < n" "unknown G T a t = i # is" "handler_of (G (Suc a mod n)) i = None" "broker_id c = r_id (R a)" "topic_of c = t"
  obtain a' d where ad: "a' < n" "d < n" "k = (a' + d) mod n" "broker_id c = r_id (R a')" "carried n G T a' (topic_of c) d"
    using ring_copy [OF w c] .
  have "inj_on (\<lambda>k. r_id (R k)) {..<n}" using w by (simp add: ring_wired_def)
  then have "a' = a" using a(1,4) ad(1,4) by (auto simp: inj_on_def)
  moreover have "\<not> carried n G T a t (Suc 0)" using a(1-3) by simp
  then have "d = 0" using carried_mono [OF ad(5), of "Suc 0"] a(5) \<open>a' = a\<close> by (cases d) auto
  ultimately show ?thesis using ad(3) a(1) by simp
qed

lemma ring_drops_publication_witness:
  "\<exists>(W :: nat \<Rightarrow> host) k cs c. k < 2 \<and> ipc_objs (queues (W k)) 1 = Some cs \<and> c \<in> set cs \<and> msg_type c = PUBLISH \<and> topic_of c = ''rain'' \<and> k = 0"
proof -
  obtain W W' cs c k where run: "ring_idle 2 pair_site (pair_rows [ring_row]) [1 \<mapsto> [], 2 \<mapsto> [''rain'']] rain_topics W"
    "(ring_step 2 rain_topics pair_site)\<^sup>*\<^sup>* W W'" "k < (2 :: nat)"
    and q: "ipc_objs (queues (W' k)) (r_resp (pair_site k)) = Some cs" and c: "c \<in> set cs" "msg_type c = PUBLISH"
    "broker_id c = r_id (pair_site 0)" "topic_of c = ''rain''"
    using pair_published by (metis zero_less_numeral)
  note ring = pair_ring [of "[ring_row]", simplified]
  have "handler_of (pair_rows [ring_row] (Suc 0 mod 2)) 2 = None" by (simp add: pair_rows_def handler_of_def ring_row_def)
  from ring_drops_publication [OF ring(1) run _ ring(3) this q c] have "k = 0" by simp
  with c q run(3) show ?thesis by (intro exI [of _ W'] exI [of _ k] exI [of _ cs] exI [of _ c]) (simp add: pair_site_def)
qed

text \<open>
  C5: When the first subscriber that the publisher's server does not know is a client of the next
  server, there is a run in which both servers queue the publication exactly once for each of their own
  clients among the first 50 subscribers, in the order of the subscriptions.
\<close>

theorem ring_serves_next:
  "ring_wired n R G T \<Longrightarrow> ring_idle n R G U T W \<Longrightarrow> fresh_publication T m \<Longrightarrow> a < n \<Longrightarrow> handler_of (G a) (mtype m) \<noteq> None \<Longrightarrow>
   b = Suc a mod n \<Longrightarrow> b \<noteq> a \<Longrightarrow> unknown G T a (topic_of m) = i # is \<Longrightarrow> handler_of (G b) i \<noteq> None \<Longrightarrow>
   subs = take MAX_CLIENTS (subscribers T (topic_of m)) \<Longrightarrow> m' = m\<lparr>broker_id := r_id (R a)\<rparr> \<Longrightarrow>
   \<exists>W' cs cs'. (ring_step n T R)\<^sup>*\<^sup>* W W' \<and> ipc_objs (queues (W' a)) (r_resp (R a)) = Some cs
     \<and> filter (\<lambda>c. msg_type c = PUBLISH) cs = served_here (G a) m' subs
     \<and> ipc_objs (queues (W' b)) (r_resp (R b)) = Some cs' \<and> filter (\<lambda>c. mtype c \<noteq> r_next (R b)) cs' = served_here (G b) m' subs"
proof -
  assume w: "ring_wired n R G T" and idle: "ring_idle n R G U T W" and m: "fresh_publication T m" and a: "a < n"
    "handler_of (G a) (mtype m) \<noteq> None" and b: "b = Suc a mod n" "b \<noteq> a" and i: "unknown G T a (topic_of m) = i # is" "handler_of (G b) i \<noteq> None"
  assume subs: "subs = take MAX_CLIENTS (subscribers T (topic_of m))" and m': "m' = m\<lparr>broker_id := r_id (R a)\<rparr>"
  obtain h where h: "handler_of (G a) (mtype m) = Some h" using a(2) by auto
  have bn: "b < n" using a(1) b(1) by simp
  note ra = ring_wiredD [OF w a(1)]
  have f: "msg_type m = PUBLISH" "wf_msg m" "0 < mtype m" "topic_served T (topic_of m)" using m by (simp_all add: fresh_publication_def)
  have "i \<in> set (unknown G T a (topic_of m))" using i(1) by simp
  then have "i \<in> set (subscribers T (topic_of m))" by (auto simp: unknown_def dest: in_set_takeD)
  then have pos: "0 < i" "is_int32 i" using ra(9) by auto
  let ?cs = "snd (abs_publish_at (r_id (R a)) m (G a, U, T))" and ?c = "m'\<lparr>global_id := i, mtype := r_next (R a)\<rparr>"
  note split = fresh_split [where U = U, OF w a(1) m h, folded m' subs]
  have one: "filter (\<lambda>c. mtype c = r_next (R a)) ?cs = [?c]" using split(1) i(1) by simp
  obtain w1 where w1: "(ring_step n T R)\<^sup>*\<^sup>* W (W(a := w1))" "up w1 (r_table (R a)) (r_resp (R a)) (r_db (R a)) (G a) ?cs U T"
    "sent w1 (r_out (R a)) = []"
    using publication_served [OF w idle m a(1)] by blast
  have at_b: "up (W b) (r_table (R b)) (r_resp (R b)) (r_db (R b)) (G b) [] U T" "ipc_objs (queues (W b)) (r_work (R b)) = Some []"
    "got (W b) (r_in (R b)) = 0"
    using idle bn by (simp_all add: ring_idle_def Let_def)
  obtain w2 v where w2: "(ring_step n T R)\<^sup>*\<^sup>* (W(a := w1)) ((W(a := w1))(a := w2, b := v))"
    "ipc_objs (queues w2) (r_resp (R a)) = Some (filter (\<lambda>c. mtype c \<noteq> r_next (R a)) ?cs)"
    "up v (r_table (R b)) (r_resp (R b)) (r_db (R b)) (G b) [] U T" "ipc_objs (queues v) (r_work (R b)) = Some [?c\<lparr>mtype := global_id ?c\<rparr>]"
    using publication_passed [OF w a(1) b, of "W(a := w1)" ?cs U ?c] w1(2,3) split(3) one f(1) pos at_b b(2) by (auto simp: m')
  obtain v1 where v1: "ring_step n T R ((W(a := w1))(a := w2, b := v)) ((W(a := w1))(a := w2, b := v1))"
    "ipc_objs (queues v1) (r_resp (R b)) = Some (snd (abs_publish_at (r_id (R b)) (?c\<lparr>mtype := global_id ?c\<rparr>) (G b, U, T)))"
    using passed_publication_served [OF w bn, of "(W(a := w1))(a := w2, b := v)" U] w2(3,4) f(1,4) pos by (auto simp: m')
  have run: "(ring_step n T R)\<^sup>*\<^sup>* W (W(a := w2, b := v1))" using w1(1) w2(1) v1(1) by simp
  have "r_id (R a) \<noteq> r_id (R b)" using w a(1) bn b(2) unfolding ring_wired_def inj_on_def by blast
  then have "snd (abs_publish_at (r_id (R b)) (?c\<lparr>mtype := global_id ?c\<rparr>) (G b, U, T)) = copies (G b) m' False subs"
    using ra(1) i(2) by (auto simp: abs_publish_at_def m' subs copies_msg)
  then show ?thesis
    using run w2(2) v1(2) b(2) split(2) copies_split(1) [where m = m', OF w bn subs]
    by (intro exI [of _ "W(a := w2, b := v1)"]) auto
qed

lemma ring_serves_next_witness:
  "\<exists>W W' cs'. ring_idle 2 pair_site (pair_rows [ring_row, \<lparr>g_mtype = 71, g_global_id = 2\<rparr>]) [1 \<mapsto> [], 2 \<mapsto> [''rain'']] rain_topics W
     \<and> (ring_step 2 rain_topics pair_site)\<^sup>*\<^sup>* W W' \<and> ipc_objs (queues (W' 1)) 1 = Some cs'
     \<and> filter (\<lambda>c. mtype c \<noteq> 60) cs' = [(request PUBLISH 1 ''rain'')\<lparr>broker_id := 1, global_id := 2, mtype := 71\<rparr>]"
proof -
  let ?gs = "[ring_row, \<lparr>g_mtype = 71, g_global_id = 2\<rparr>]" and ?m = "request PUBLISH 1 ''rain''"
  note ring = pair_ring [of ?gs, simplified]
  obtain W where W: "ring_idle 2 pair_site (pair_rows ?gs) [1 \<mapsto> [], 2 \<mapsto> [''rain'']] rain_topics W" using ring(2) by blast
  have unk: "unknown (pair_rows ?gs) rain_topics 0 (topic_of ?m) = [2]" unfolding rain_publication(2) by (rule ring(3))
  have h: "handler_of (pair_rows ?gs 1) 2 = Some 71" by (simp add: pair_rows_def handler_of_def ring_row_def)
  have subs: "[2] = take MAX_CLIENTS (subscribers rain_topics (topic_of ?m))" unfolding rain_publication(2) by (simp add: subscribers_def)
  have "handler_of (pair_rows ?gs 0) (mtype ?m) \<noteq> None" "handler_of (pair_rows ?gs 1) 2 \<noteq> None" using rain_publication(3) h by auto
  from ring_serves_next [OF ring(1) W rain_publication(1) _ this(1) _ _ unk this(2) subs refl]
  obtain W' cs' where "(ring_step 2 rain_topics pair_site)\<^sup>*\<^sup>* W W'" "ipc_objs (queues (W' 1)) (r_resp (pair_site 1)) = Some cs'"
    "filter (\<lambda>c. mtype c \<noteq> r_next (pair_site 1)) cs' = served_here (pair_rows ?gs 1) (?m\<lparr>broker_id := r_id (pair_site 0)\<rparr>) [2]"
    by auto
  with W h show ?thesis by (intro exI [of _ W] exI [of _ W'] exI [of _ cs']) (simp add: pair_site_def served_here_def)
qed

end
