(* ===== verification/Processes.thy ===== *)
theory Processes
  imports Socket_IO List_DS File_Store
begin

text \<open>
  Processes that start and stop other processes, and the sockets they open
  (\<^verbatim>\<open>broker/common/ipc/socket.c\<close>, first half).  A process sees the state of its host, its own open
  descriptors and memory, and the table of processes.  \<open>fork\<close> runs the code of the child up to \<^verbatim>\<open>execl\<close> or
  its end before the parent goes on; what the executed program does later is the business of its own model.

  \<^verbatim>\<open>kill\<close> only tells a process to stop: the programs of the repository handle SIGINT by setting a flag, which
  their loops may see late or never (theory \<open>Signals\<close>; the guide of the museum in a tour).  So whether a
  process that has been told to stop does end is a parameter, \<open>heeds\<close>, and a process that waits for one that
  does not waits for ever.  A process that has ended stays in the table until its parent waits for it.
\<close>

section \<open>State\<close>

datatype fd_state = Unbound | Bound int | Listening int | Connected

text \<open>An executed program with its arguments.\<close>

record image =
  img_path :: string
  img_args :: "string list"

datatype status = Forked | Runs image | Told | Ended

record process =
  p_pid :: int
  p_parent :: int
  p_status :: status

record ('m, 's, 'c) master =
  os :: "('m, 's) world"
  self :: int
  fds :: "(int \<times> fd_state) list"
  procs :: "process list"
  next_pid :: int
  heeds :: "int \<Rightarrow> bool"
  mem :: 'c

section \<open>System calls\<close>

definition on_os :: "(('m, 's) world, 'a) prog \<Rightarrow> (('m, 's, 'c) master, 'a) prog" where
  "on_os p m = (case p (os m) of (r, w) \<Rightarrow> (r, m\<lparr>os := w\<rparr>))"

definition set_mem :: "'c \<Rightarrow> (('m, 's, 'c) master, unit) prog" where
  "set_mem x m = (Ret (), m\<lparr>mem := x\<rparr>)"

text \<open>The lowest descriptor that is not open; 0, 1 and 2 are the standard streams.\<close>

definition free_fd :: "(int \<times> fd_state) list \<Rightarrow> int" where
  "free_fd t = hd (filter (\<lambda>fd. fd \<notin> fst ` set t) [3..int (length t) + 3])"

definition sys_socket :: "(('m, 's, 'c) master, int) prog" where
  "sys_socket =
     bnd (on_os syscall) (\<lambda>x m.
       if x = Fail then (Ret (-1), m)
       else let fd = free_fd (fds m) in (Ret fd, m\<lparr>fds := AList.update fd Unbound (fds m)\<rparr>))"

text \<open>Whether the name is resolved.\<close>

definition sys_gethostbyname :: "string \<Rightarrow> (('m, 's, 'c) master, bool) prog" where
  "sys_gethostbyname name = bnd (on_os syscall) (\<lambda>x. ret (x \<noteq> Fail))"

definition sys_connect :: "int \<Rightarrow> int \<Rightarrow> (('m, 's, 'c) master, int) prog" where
  "sys_connect fd port =
     bnd (on_os syscall) (\<lambda>x m.
       if x = Fail \<or> map_of (fds m) fd \<notin> {Some Unbound} \<union> range (\<lambda>p. Some (Bound p)) then (Ret (-1), m)
       else (Ret 0, m\<lparr>fds := AList.update fd Connected (fds m)\<rparr>))"

definition sys_bind :: "int \<Rightarrow> int \<Rightarrow> (('m, 's, 'c) master, int) prog" where
  "sys_bind fd port =
     bnd (on_os syscall) (\<lambda>x m.
       if x = Fail \<or> map_of (fds m) fd \<noteq> Some Unbound then (Ret (-1), m)
       else (Ret 0, m\<lparr>fds := AList.update fd (Bound port) (fds m)\<rparr>))"

definition sys_listen :: "int \<Rightarrow> (('m, 's, 'c) master, int) prog" where
  "sys_listen fd =
     bnd (on_os syscall) (\<lambda>x m.
       if x = Fail then (Ret (-1), m)
       else case map_of (fds m) fd of
         Some (Bound port) \<Rightarrow> (Ret 0, m\<lparr>fds := AList.update fd (Listening port) (fds m)\<rparr>)
       | _ \<Rightarrow> (Ret (-1), m))"

text \<open>A short outcome is that nobody ever connects.\<close>

definition sys_accept :: "int \<Rightarrow> (('m, 's, 'c) master, int) prog" where
  "sys_accept fd =
     bnd (on_os syscall) (\<lambda>x m.
       case x of
         Fail \<Rightarrow> (Ret (-1), m)
       | Part _ \<Rightarrow> (Blocked, m)
       | Ok \<Rightarrow> (case map_of (fds m) fd of
           Some (Listening port) \<Rightarrow>
             (let c = free_fd (fds m) in (Ret c, m\<lparr>fds := AList.update c Connected (fds m)\<rparr>))
         | _ \<Rightarrow> (Ret (-1), m)))"

text \<open>As on Linux, the descriptor is released also when \<^verbatim>\<open>close\<close> reports an error.\<close>

definition sys_close :: "int \<Rightarrow> (('m, 's, 'c) master, int) prog" where
  "sys_close fd =
     bnd (on_os syscall) (\<lambda>x m.
       if map_of (fds m) fd = None then (Ret (-1), m)
       else (Ret (if x = Fail then -1 else 0), m\<lparr>fds := AList.delete fd (fds m)\<rparr>))"

definition set_status :: "int \<Rightarrow> status \<Rightarrow> process list \<Rightarrow> process list" where
  "set_status pid s ps = map (\<lambda>p. if p_pid p = pid then p\<lparr>p_status := s\<rparr> else p) ps"

text \<open>A process that is told to stop and has not ended.\<close>

definition tell :: "int \<Rightarrow> process list \<Rightarrow> process list" where
  "tell pid ps = map (\<lambda>p. if p_pid p = pid \<and> p_status p \<noteq> Ended then p\<lparr>p_status := Told\<rparr> else p) ps"

text \<open>A process that is over as soon as its parent waits for it.\<close>

definition ends :: "('m, 's, 'c) master \<Rightarrow> process \<Rightarrow> bool" where
  "ends m p \<longleftrightarrow> p_status p = Ended \<or> p_status p = Told \<and> heeds m (p_pid p)"

text \<open>
  The child has a copy of the descriptors and of the memory; the host and the table of processes are
  shared.  Its program returns what it executes.
\<close>

definition fork :: "(('m, 's, 'c) master, image) prog \<Rightarrow> (('m, 's, 'c) master, int) prog" where
  "fork child =
     bnd (on_os syscall) (\<lambda>x m.
       if x = Fail then (Ret (-1), m)
       else
         let pid = next_pid m;
             (r, c) = child (m\<lparr>self := pid, next_pid := pid + 1,
               procs := \<lparr>p_pid = pid, p_parent = self m, p_status = Forked\<rparr> # procs m\<rparr>);
             s = (case r of Ret img \<Rightarrow> Runs img | Exit _ \<Rightarrow> Ended | Abort \<Rightarrow> Ended | _ \<Rightarrow> Forked)
         in (if r = Undef then Undef else Ret pid,
             m\<lparr>os := os c, procs := set_status pid s (procs c), next_pid := next_pid c\<rparr>))"

text \<open>\<open>execl\<close> only returns when it fails; then the child goes on with \<open>p\<close>.\<close>

definition execl :: "string \<Rightarrow> string list \<Rightarrow> (('m, 's, 'c) master, image) prog \<Rightarrow> (('m, 's, 'c) master, image) prog" where
  "execl path args p =
     bnd (on_os syscall) (\<lambda>x. if x = Fail then p else ret \<lparr>img_path = path, img_args = args\<rparr>)"

definition sys_kill :: "int \<Rightarrow> (('m, 's, 'c) master, int) prog" where
  "sys_kill pid =
     bnd (on_os syscall) (\<lambda>x m.
       if x = Fail \<or> pid \<notin> p_pid ` set (procs m) then (Ret (-1), m)
       else (Ret 0, m\<lparr>procs := tell pid (procs m)\<rparr>))"

definition sys_waitpid :: "int \<Rightarrow> (('m, 's, 'c) master, int) prog" where
  "sys_waitpid pid =
     bnd (on_os syscall) (\<lambda>x m.
       if x = Fail then (Ret (-1), m)
       else case find (\<lambda>p. p_pid p = pid \<and> p_parent p = self m) (procs m) of
         None \<Rightarrow> (Ret (-1), m)
       | Some p \<Rightarrow>
           if ends m p then (Ret pid, m\<lparr>procs := filter (\<lambda>q. p_pid q \<noteq> pid) (procs m)\<rparr>)
           else (Blocked, m))"

text \<open>\<open>wait(NULL)\<close>: any child that is over.\<close>

definition sys_wait :: "(('m, 's, 'c) master, int) prog" where
  "sys_wait =
     bnd (on_os syscall) (\<lambda>x m.
       if x = Fail then (Ret (-1), m)
       else case find (\<lambda>p. p_parent p = self m \<and> ends m p) (procs m) of
         Some p \<Rightarrow> (Ret (p_pid p), m\<lparr>procs := filter (\<lambda>q. p_pid q \<noteq> p_pid p) (procs m)\<rparr>)
       | None \<Rightarrow> (if \<exists>p\<in>set (procs m). p_parent p = self m then Blocked else Ret (-1), m))"

text \<open>
  While a process waits for another one, that one runs: a process \<open>pid\<close> of the same host with its own
  memory and no descriptors, whatever comes of it.
\<close>

definition beside :: "int \<Rightarrow> 'd \<Rightarrow> (('m, 's, 'd) master, 'a) prog \<Rightarrow> (('m, 's, 'c) master, unit) prog" where
  "beside pid x p m =
     (case p \<lparr>os = os m, self = pid, fds = [], procs = procs m, next_pid = next_pid m, heeds = heeds m, mem = x\<rparr> of
        (r, c) \<Rightarrow> (Ret (), m\<lparr>os := os c, procs := procs c, next_pid := next_pid c\<rparr>))"

text \<open>\<open>snprintf(s, 3, "%d", n)\<close> into an array of three characters.\<close>

definition three_chars :: "int \<Rightarrow> string" where
  "three_chars n = take 2 (show_int n)"

section \<open>Opening sockets (socket.c)\<close>

definition create_client_socket :: "string \<Rightarrow> int \<Rightarrow> (('m, 's, 'c) master, int) prog" where
  "create_client_socket server_ip server_port =
     bnd sys_socket (\<lambda>socket_fd.
     if socket_fd < 0 then stop (Exit (-1))
     else bnd (sys_gethostbyname server_ip) (\<lambda>server.
     if \<not> server then stop (Exit (-1))
     else bnd (sys_connect socket_fd server_port) (\<lambda>r.
     if r \<noteq> 0 then stop (Exit (-1)) else ret socket_fd)))"

definition create_server_socket :: "int \<Rightarrow> (('m, 's, 'c) master, int) prog" where
  "create_server_socket port =
     bnd sys_socket (\<lambda>socket_fd.
     if socket_fd < 0 then ret (-1)
     else bnd (sys_bind socket_fd port) (\<lambda>r.
     if r < 0 then ret (-1)
     else bnd (sys_listen socket_fd) (\<lambda>r.
     if r < 0 then ret (-1) else ret socket_fd)))"

definition accept_client :: "int \<Rightarrow> (('m, 's, 'c) master, int) prog" where
  "accept_client server_socket = sys_accept server_socket"

section \<open>Weakest preconditions\<close>

lemma wp_on_os [wp, simp]: "wp (on_os p) Q m = wp p (\<lambda>r w. Q r (m\<lparr>os := w\<rparr>)) (os m)"
  by (simp add: on_os_def wp_def split: prod.split)

lemma wp_set_mem [wp, simp]: "wp (set_mem x) Q m = Q (Ret ()) (m\<lparr>mem := x\<rparr>)"
  by (simp add: set_mem_def wp_def)

abbreviation call_failed :: "('m, 's, 'c) master \<Rightarrow> bool" where
  "call_failed m \<equiv> failing (os m)"

abbreviation called :: "('m, 's, 'c) master \<Rightarrow> ('m, 's, 'c) master" where
  "called m \<equiv> m\<lparr>os := adv (os m)\<rparr>"

lemma wp_sys_socket [wp]:
  "wp sys_socket Q m = (if call_failed m then Q (Ret (-1)) (called m)
     else Q (Ret (free_fd (fds m))) ((called m)\<lparr>fds := AList.update (free_fd (fds m)) Unbound (fds m)\<rparr>))"
  by (simp add: sys_socket_def wp_def bnd_def on_os_def syscall_def Let_def)

lemma wp_sys_gethostbyname [wp]: "wp (sys_gethostbyname n) Q m = Q (Ret (\<not> call_failed m)) (called m)"
  by (simp add: sys_gethostbyname_def)

lemma wp_sys_connect [wp]:
  "wp (sys_connect fd port) Q m =
     (if call_failed m \<or> map_of (fds m) fd \<notin> {Some Unbound} \<union> range (\<lambda>p. Some (Bound p)) then Q (Ret (-1)) (called m)
      else Q (Ret 0) ((called m)\<lparr>fds := AList.update fd Connected (fds m)\<rparr>))"
  by (simp add: sys_connect_def wp_def bnd_def on_os_def syscall_def)

lemma wp_sys_bind [wp]:
  "wp (sys_bind fd port) Q m =
     (if call_failed m \<or> map_of (fds m) fd \<noteq> Some Unbound then Q (Ret (-1)) (called m)
      else Q (Ret 0) ((called m)\<lparr>fds := AList.update fd (Bound port) (fds m)\<rparr>))"
  by (simp add: sys_bind_def wp_def bnd_def on_os_def syscall_def)

lemma wp_sys_listen [wp]:
  "wp (sys_listen fd) Q m =
     (if call_failed m then Q (Ret (-1)) (called m)
      else case map_of (fds m) fd of
        Some (Bound port) \<Rightarrow> Q (Ret 0) ((called m)\<lparr>fds := AList.update fd (Listening port) (fds m)\<rparr>)
      | _ \<Rightarrow> Q (Ret (-1)) (called m))"
  by (simp add: sys_listen_def wp_def bnd_def on_os_def syscall_def split: option.split fd_state.split)

lemma wp_sys_accept [wp]:
  "wp (sys_accept fd) Q m =
     (case next_outcome (env (os m)) of
        Fail \<Rightarrow> Q (Ret (-1)) (called m)
      | Part _ \<Rightarrow> Q Blocked (called m)
      | Ok \<Rightarrow> (case map_of (fds m) fd of
          Some (Listening port) \<Rightarrow>
            Q (Ret (free_fd (fds m))) ((called m)\<lparr>fds := AList.update (free_fd (fds m)) Connected (fds m)\<rparr>)
        | _ \<Rightarrow> Q (Ret (-1)) (called m)))"
  by (simp add: sys_accept_def wp_def bnd_def on_os_def syscall_def Let_def split: option.split fd_state.split outcome.split)

lemma wp_sys_close [wp]:
  "wp (sys_close fd) Q m =
     (if map_of (fds m) fd = None then Q (Ret (-1)) (called m)
      else Q (Ret (if call_failed m then -1 else 0)) ((called m)\<lparr>fds := AList.delete fd (fds m)\<rparr>))"
  by (simp add: sys_close_def wp_def bnd_def on_os_def syscall_def)

lemma ends_free [simp]:
  "ends (m\<lparr>os := w\<rparr>) = ends m" "ends (m\<lparr>mem := x\<rparr>) = ends m" "ends (m\<lparr>fds := y\<rparr>) = ends m" "ends (m\<lparr>procs := ps\<rparr>) = ends m"
  by (simp_all add: fun_eq_iff ends_def)

lemma wp_sys_kill [wp]:
  "wp (sys_kill pid) Q m =
     (if call_failed m \<or> pid \<notin> p_pid ` set (procs m) then Q (Ret (-1)) (called m)
      else Q (Ret 0) ((called m)\<lparr>procs := tell pid (procs m)\<rparr>))"
  by (simp add: sys_kill_def wp_def bnd_def on_os_def syscall_def)

lemma wp_sys_waitpid [wp]:
  "wp (sys_waitpid pid) Q m =
     (if call_failed m then Q (Ret (-1)) (called m)
      else case find (\<lambda>p. p_pid p = pid \<and> p_parent p = self m) (procs m) of
        None \<Rightarrow> Q (Ret (-1)) (called m)
      | Some p \<Rightarrow> if ends m p then Q (Ret pid) ((called m)\<lparr>procs := filter (\<lambda>q. p_pid q \<noteq> pid) (procs m)\<rparr>)
          else Q Blocked (called m))"
  by (simp add: sys_waitpid_def wp_def bnd_def on_os_def syscall_def split: option.split)

lemma wp_sys_wait [wp]:
  "wp sys_wait Q m =
     (if call_failed m then Q (Ret (-1)) (called m)
      else case find (\<lambda>p. p_parent p = self m \<and> ends m p) (procs m) of
        Some p \<Rightarrow> Q (Ret (p_pid p)) ((called m)\<lparr>procs := filter (\<lambda>q. p_pid q \<noteq> p_pid p) (procs m)\<rparr>)
      | None \<Rightarrow> Q (if \<exists>p\<in>set (procs m). p_parent p = self m then Blocked else Ret (-1)) (called m))"
  by (auto simp: sys_wait_def wp_def bnd_def on_os_def syscall_def split: option.split)

lemma wp_execl [wp]:
  "wp (execl path args p) Q m =
     (if call_failed m then wp p Q (called m) else Q (Ret \<lparr>img_path = path, img_args = args\<rparr>) (called m))"
  by (simp add: execl_def)

section \<open>Descriptors\<close>

lemma free_fd_range: "free_fd t \<notin> fst ` set t \<and> 3 \<le> free_fd t \<and> free_fd t \<le> int (length t) + 3"
proof -
  let ?xs = "filter (\<lambda>fd. fd \<notin> fst ` set t) [3..int (length t) + 3]"
  have "?xs \<noteq> []"
  proof
    assume "?xs = []"
    then have "{3..int (length t) + 3} \<subseteq> fst ` set t" by (auto simp: filter_empty_conv)
    then have "card {3..int (length t) + 3} \<le> card (fst ` set t)" by (intro card_mono) simp_all
    also have "\<dots> \<le> length t" by (metis card_length length_map set_map)
    finally show False by simp
  qed
  from hd_in_set [OF this] show ?thesis by (auto simp: free_fd_def)
qed

lemma free_fd_none [simp]: "map_of t (free_fd t) = None"
  using free_fd_range [of t] by (simp add: map_of_eq_None_iff)

lemma free_fd_pos [simp]: "\<not> free_fd t < 0"
  using free_fd_range [of t] by linarith

lemma close_opened [simp]:
  "map_of t fd = None \<Longrightarrow> AList.delete fd (AList.update fd x t) = t"
  by (simp add: delete_update_same map_of_eq_None_iff)

lemma open_twice [simp]: "AList.update fd y (AList.update fd x t) = AList.update fd y t"
  by (induction t) auto

lemma create_client_socket_run:
  "env (os m) = [] \<Longrightarrow> create_client_socket ip port m = (Ret (free_fd (fds m)), m\<lparr>fds := AList.update (free_fd (fds m)) Connected (fds m)\<rparr>)"
  by (intro wp_eqI) (simp add: create_client_socket_def wp update_conv)

lemma create_server_socket_run:
  "env (os m) = [] \<Longrightarrow> create_server_socket port m = (Ret (free_fd (fds m)), m\<lparr>fds := AList.update (free_fd (fds m)) (Listening port) (fds m)\<rparr>)"
  by (intro wp_eqI) (simp add: create_server_socket_def wp update_conv)

section \<open>Processes\<close>

lemma set_status_simps [simp]:
  "set_status pid s [] = []"
  "set_status pid s (p # ps) = (if p_pid p = pid then p\<lparr>p_status := s\<rparr> else p) # set_status pid s ps"
  by (simp_all add: set_status_def)

lemma pids_set_status [simp]: "p_pid ` set (set_status pid s ps) = p_pid ` set ps"
  by (induction ps) auto

lemma filter_set_status [simp]: "filter (\<lambda>p. p_pid p \<noteq> pid) (set_status pid s ps) = filter (\<lambda>p. p_pid p \<noteq> pid) ps"
  by (induction ps) auto

lemma set_status_id: "pid \<notin> p_pid ` set ps \<Longrightarrow> set_status pid s ps = ps"
  by (induction ps) auto

lemma tell_simps [simp]:
  "tell pid [] = []"
  "tell pid (p # ps) = (if p_pid p = pid \<and> p_status p \<noteq> Ended then p\<lparr>p_status := Told\<rparr> else p) # tell pid ps"
  "tell pid (ps @ qs) = tell pid ps @ tell pid qs"
  by (simp_all add: tell_def)

lemma pids_tell [simp]: "p_pid ` set (tell pid ps) = p_pid ` set ps"
  by (induction ps) auto

lemma filter_tell [simp]: "filter (\<lambda>p. p_pid p \<noteq> pid) (tell pid ps) = filter (\<lambda>p. p_pid p \<noteq> pid) ps"
  by (induction ps) auto

lemma tell_id: "pid \<notin> p_pid ` set ps \<Longrightarrow> tell pid ps = ps"
  by (induction ps) auto

text \<open>
  Telling a process to stop and waiting for it.  It is gone afterwards when it is a child and heeds; a
  child that does not is \<open>stubborn\<close>, and whoever is not a child is only told.
\<close>

definition my_child :: "int \<Rightarrow> int \<Rightarrow> process list \<Rightarrow> process option" where
  "my_child me pid ps = find (\<lambda>p. p_pid p = pid \<and> p_parent p = me) ps"

definition stubborn :: "('m, 's, 'c) master \<Rightarrow> int \<Rightarrow> bool" where
  "stubborn m pid \<longleftrightarrow> (case my_child (self m) pid (procs m) of None \<Rightarrow> False | Some p \<Rightarrow> p_status p \<noteq> Ended \<and> \<not> heeds m pid)"

definition reaped :: "int \<Rightarrow> int \<Rightarrow> process list \<Rightarrow> process list" where
  "reaped me pid ps =
     (if \<exists>p\<in>set ps. p_pid p = pid \<and> p_parent p = me then filter (\<lambda>p. p_pid p \<noteq> pid) ps else tell pid ps)"

definition stop_process :: "int \<Rightarrow> (('m, 's, 'c) master, unit) prog" where
  "stop_process pid = bnd (sys_kill pid) (\<lambda>r. if r < 0 then ret () else thn (sys_waitpid pid) (ret ()))"

lemma find_told:
  "find (\<lambda>p. p_pid p = pid \<and> p_parent p = me) (tell pid ps)
     = map_option (\<lambda>p. if p_status p \<noteq> Ended then p\<lparr>p_status := Told\<rparr> else p) (my_child me pid ps)"
  by (induction ps) (auto simp: my_child_def)

lemma my_child_Some: "my_child me pid ps = Some p \<Longrightarrow> p \<in> set ps \<and> p_pid p = pid \<and> p_parent p = me"
  by (auto simp: my_child_def find_Some_iff in_set_conv_nth)

lemma my_child_None: "my_child me pid ps = None \<longleftrightarrow> \<not> (\<exists>p\<in>set ps. p_pid p = pid \<and> p_parent p = me)"
  by (auto simp: my_child_def find_None_iff)

lemma stop_process_ends:
  "\<exists>r m'. stop_process pid m = (r, m') \<and> (r = Ret () \<or> r = Blocked) \<and> fds m' = fds m \<and> mem m' = mem m \<and> self m' = self m
     \<and> next_pid m' = next_pid m \<and> heeds m' = heeds m \<and> (\<exists>e. os m' = os m\<lparr>env := e\<rparr>)
     \<and> (env (os m) = [] \<longrightarrow> os m' = os m \<and> (r = Blocked \<longleftrightarrow> stubborn m pid)
          \<and> procs m' = (if stubborn m pid then tell pid (procs m) else reaped (self m) pid (procs m)))"
proof -
  have "wp (stop_process pid) (\<lambda>r m'. (r = Ret () \<or> r = Blocked) \<and> fds m' = fds m \<and> mem m' = mem m \<and> self m' = self m
     \<and> next_pid m' = next_pid m \<and> heeds m' = heeds m \<and> (\<exists>e. os m' = os m\<lparr>env := e\<rparr>)
     \<and> (env (os m) = [] \<longrightarrow> os m' = os m \<and> (r = Blocked \<longleftrightarrow> stubborn m pid)
          \<and> procs m' = (if stubborn m pid then tell pid (procs m) else reaped (self m) pid (procs m)))) m"
  proof (cases "my_child (self m) pid (procs m)")
    case None
    then have s: "\<not> stubborn m pid" "reaped (self m) pid (procs m) = tell pid (procs m)"
      unfolding stubborn_def reaped_def my_child_None by (simp add: None, auto)
    show ?thesis
      by (simp add: stop_process_def wp find_told None s) (auto simp: tell_id)
  next
    case (Some p)
    note p = my_child_Some [OF Some]
    let ?t = "if p_status p \<noteq> Ended then p\<lparr>p_status := Told\<rparr> else p"
    have s: "ends m ?t \<longleftrightarrow> \<not> stubborn m pid" "pid \<in> p_pid ` set (procs m)"
      "reaped (self m) pid (procs m) = filter (\<lambda>p. p_pid p \<noteq> pid) (procs m)"
      using Some p by (auto simp: stubborn_def ends_def reaped_def)
    show ?thesis
      by (simp only: stop_process_def wp_bnd wp_sys_kill and_then.simps) (auto simp: wp find_told Some s)
  qed
  then show ?thesis by (cases "stop_process pid m") (auto simp: wp_run)
qed

lemma stop_process_run:
  assumes "env (os m) = []"
  shows "stop_process pid m = (if stubborn m pid then (Blocked, m\<lparr>procs := tell pid (procs m)\<rparr>)
    else (Ret (), m\<lparr>procs := reaped (self m) pid (procs m)\<rparr>))"
proof -
  from stop_process_ends [of pid m] assms obtain r m' where m': "stop_process pid m = (r, m')" "r = Ret () \<or> r = Blocked"
    "fds m' = fds m" "mem m' = mem m" "self m' = self m" "next_pid m' = next_pid m" "heeds m' = heeds m" "os m' = os m"
    "r = Blocked \<longleftrightarrow> stubborn m pid" "procs m' = (if stubborn m pid then tell pid (procs m) else reaped (self m) pid (procs m))" by blast
  then have "m' = m\<lparr>procs := procs m'\<rparr>" by (intro master.equality) simp_all
  with m' show ?thesis by auto
qed

section \<open>Closing, starting and arguments\<close>

lemma sys_close_run:
  "\<exists>r. sys_close fd m = (Ret r, (called m)\<lparr>fds := AList.delete fd (fds m)\<rparr>)
     \<and> (env (os m) = [] \<and> map_of (fds m) fd \<noteq> None \<longrightarrow> r = 0)"
  by (auto simp: sys_close_def bnd_def on_os_def syscall_def map_of_eq_None_iff)

text \<open>The identifiers in the table of processes have all been given out.\<close>

definition pids_ok :: "('m, 's, 'c) master \<Rightarrow> bool" where
  "pids_ok m \<longleftrightarrow> 0 < next_pid m \<and> distinct (map p_pid (procs m)) \<and> (\<forall>p\<in>set (procs m). p_pid p < next_pid m)"

lemma fork_runs:
  assumes "env (os m) = []" "pids_ok m"
    and "child (m\<lparr>self := next_pid m, next_pid := next_pid m + 1, procs := \<lparr>p_pid = next_pid m, p_parent = self m, p_status = Forked\<rparr> # procs m\<rparr>)
      = (Ret img, c)" "os c = os m" "procs c = \<lparr>p_pid = next_pid m, p_parent = self m, p_status = Forked\<rparr> # procs m" "next_pid c = next_pid m + 1"
  shows "fork child m = (Ret (next_pid m), m\<lparr>procs := \<lparr>p_pid = next_pid m, p_parent = self m, p_status = Runs img\<rparr> # procs m, next_pid := next_pid m + 1\<rparr>)"
proof -
  have "next_pid m \<notin> p_pid ` set (procs m)" using assms(2) by (auto simp: pids_ok_def)
  then show ?thesis using assms by (simp add: fork_def bnd_def on_os_def syscall_def Let_def set_status_id)
qed

lemma fork_execl_run:
  "env (os m) = [] \<Longrightarrow> pids_ok m \<Longrightarrow> fork (execl path args p) m = (Ret (next_pid m),
     m\<lparr>procs := \<lparr>p_pid = next_pid m, p_parent = self m, p_status = Runs \<lparr>img_path = path, img_args = args\<rparr>\<rparr> # procs m, next_pid := next_pid m + 1\<rparr>)"
  by (rule fork_runs [where c = "m\<lparr>self := next_pid m, next_pid := next_pid m + 1, procs := \<lparr>p_pid = next_pid m, p_parent = self m, p_status = Forked\<rparr> # procs m\<rparr>"])
     (simp_all add: execl_def bnd_def on_os_def syscall_def ret_def)

lemma fork_close_execl_run:
  "env (os m) = [] \<Longrightarrow> pids_ok m \<Longrightarrow> fork (thn (sys_close fd) (execl path args p)) m = (Ret (next_pid m),
     m\<lparr>procs := \<lparr>p_pid = next_pid m, p_parent = self m, p_status = Runs \<lparr>img_path = path, img_args = args\<rparr>\<rparr> # procs m, next_pid := next_pid m + 1\<rparr>)"
  by (rule fork_runs [where c = "m\<lparr>self := next_pid m, next_pid := next_pid m + 1, procs := \<lparr>p_pid = next_pid m, p_parent = self m, p_status = Forked\<rparr> # procs m,
        fds := AList.delete fd (fds m)\<rparr>"])
     (auto simp: sys_close_def execl_def bnd_def on_os_def syscall_def ret_def map_of_eq_None_iff)

abbreviation child_of :: "int \<Rightarrow> string \<Rightarrow> string list \<Rightarrow> int \<Rightarrow> process" where
  "child_of me path args pid \<equiv> \<lparr>p_pid = pid, p_parent = me, p_status = Runs \<lparr>img_path = path, img_args = args\<rparr>\<rparr>"

lemma pids_ok_child [simp]:
  "pids_ok m \<Longrightarrow> p_pid p = next_pid m \<Longrightarrow> pids_ok (m\<lparr>procs := p # procs m, next_pid := next_pid m + 1\<rparr>)"
  by (auto simp: pids_ok_def)

lemma pids_ok_free [simp]:
  "pids_ok (m\<lparr>mem := x\<rparr>) = pids_ok m" "pids_ok (m\<lparr>fds := y\<rparr>) = pids_ok m" "pids_ok (m\<lparr>os := z\<rparr>) = pids_ok m"
  by (simp_all add: pids_ok_def)

lemma map_upt_Suc_Cons: "map f [0..<Suc n] = f 0 # map (\<lambda>i. f (Suc i)) [0..<n]"
  by (simp add: upt_conv_Cons map_Suc_upt [symmetric] del: upt_Suc)

text \<open>The handler reads back the descriptor from its argument when it has at most two digits.\<close>

lemma show_nat_small: "n < 100 \<Longrightarrow> length (show_nat n) \<le> 2"
proof -
  assume "n < 100"
  then have "n div 10 < 10" by (simp add: div_less_iff_less_mult)
  then show ?thesis by (subst show_nat.simps; subst show_nat.simps) simp
qed

lemma three_chars_small: "0 \<le> fd \<Longrightarrow> fd < 100 \<Longrightarrow> strtol10 (three_chars fd) = fd"
proof -
  assume a: "0 \<le> fd" "fd < 100"
  then have "length (show_int fd) \<le> 2" using show_nat_small [of "nat fd"] by (simp add: show_int_def)
  then have "three_chars fd = show_int fd" by (simp add: three_chars_def)
  with a strtol10_show_int [of fd "[]"] show ?thesis by (simp add: is_int32_def)
qed

lemma stop_process_inline:
  "bnd (sys_kill pid) (\<lambda>r. thn (if r < 0 then ret () else thn (sys_waitpid pid) (ret ())) k) = thn (stop_process pid) k"
  by (simp add: stop_process_def bnd_assoc)

text \<open>A child that was started last is reaped, and the table is as before.\<close>

lemma reaped_last [simp]: "pids_ok m \<Longrightarrow> p_pid p = next_pid m \<Longrightarrow> p_parent p = me \<Longrightarrow> reaped me (next_pid m) (p # procs m) = procs m"
  by (auto simp: pids_ok_def reaped_def filter_id_conv)

section \<open>Programs that do not return\<close>

definition no_return :: "('w, 'a) prog \<Rightarrow> bool" where
  "no_return p \<longleftrightarrow> (\<forall>m x. fst (p m) \<noteq> Ret x)"

lemma no_return_bind: "(\<And>x. no_return (f x)) \<Longrightarrow> no_return (bnd p f)"
  by (auto simp: no_return_def bnd_def split: prod.split res.split)

lemma no_return_if: "no_return p \<Longrightarrow> no_return q \<Longrightarrow> no_return (if b then p else q)"
  by simp

lemma no_return_stop: "no_return (stop (Exit c))"
  by (simp add: no_return_def stop_def)

end
