(* ===== verification/Server_Main.thy ===== *)
theory Server_Main
  imports Server_Handlers Processes Db_Handler
begin

text \<open>
  The processes of a server and of the database as a whole: the main functions of
  \<^verbatim>\<open>broker/server/server.c\<close>, \<^verbatim>\<open>req_handler.c\<close>, \<^verbatim>\<open>ring_connection.c\<close> and \<^verbatim>\<open>broker/db-server/db_server.c\<close>, with
  the children they start, the list in which they keep them (\<^verbatim>\<open>list.c\<close>) and the way they stop them.
  \<open>others\<close> is what the other processes of the host do while a main function waits for them.  A loop
  that accepts connections ends with the first signal, after any number of connections.
\<close>

section \<open>The list of children\<close>

record kids =
  kid_list :: clist
  kid_heap :: "int heap"

type_synonym server_main = "(msg_t, global_ids_t, kids) master"

definition new_childs :: "(('m, 's, kids) master, unit) prog" where
  "new_childs =
     bnd (gets mem) (\<lambda>k. bnd (lift_res (list_new 4 False)) (\<lambda>l. set_mem (k\<lparr>kid_list := l\<rparr>)))"

definition add_child :: "int \<Rightarrow> (('m, 's, kids) master, unit) prog" where
  "add_child pid =
     bnd (gets mem) (\<lambda>k.
     bnd (lift_res (list_append (kid_list k) pid (kid_heap k))) (\<lambda>(l, h).
     set_mem \<lparr>kid_list = l, kid_heap = h\<rparr>))"

definition destroy_childs :: "(('m, 's, kids) master, unit) prog" where
  "destroy_childs =
     bnd (gets mem) (\<lambda>k.
     case list_destroy [] (kid_list k) (kid_heap k) of
       None \<Rightarrow> stop Blocked
     | Some r \<Rightarrow> bnd (lift_res r) (\<lambda>(freed, l, h). set_mem \<lparr>kid_list = l, kid_heap = h\<rparr>))"

text \<open>
  \<open>list_for_each\<close> with a function of the program as its iterator: the walk ends where the function
  returns \<open>False\<close> or does not return.
\<close>

definition visit :: "('a \<Rightarrow> ('w, bool) prog) \<Rightarrow> 'a \<Rightarrow> unit res \<times> 'w \<Rightarrow> bool \<times> (unit res \<times> 'w)" where
  "visit f x = (\<lambda>(r, w). case bnd (lift_res r) (\<lambda>_. f x) w of
     (q, w') \<Rightarrow> (q = Ret True, bnd (lift_res q) (\<lambda>_. ret ()) w'))"

definition for_each_child :: "(int \<Rightarrow> (('m, 's, kids) master, bool) prog) \<Rightarrow> (('m, 's, kids) master, unit) prog" where
  "for_each_child f m =
     (case list_for_each (visit f) (kid_list (mem m)) (kid_heap (mem m)) (Ret (), m) of
        None \<Rightarrow> (Blocked, m)
      | Some (Ret z) \<Rightarrow> z
      | Some _ \<Rightarrow> (Undef, m))"

section \<open>server.c\<close>

abbreviation PORT :: int where "PORT \<equiv> 8080"
abbreviation WORKERS :: nat where "WORKERS \<equiv> 1"

definition kill_child :: "int \<Rightarrow> (('m, 's, 'c) master, bool) prog" where
  "kill_child child_pid =
     bnd (sys_kill child_pid) (\<lambda>r.
     if r < 0 then ret True else thn (sys_waitpid child_pid) (ret True))"

definition kill_childs :: "(('m, 's, kids) master, unit) prog" where
  "kill_childs = for_each_child kill_child"

definition safe_exit :: "int \<Rightarrow> int \<Rightarrow> (server_main, 'a) prog" where
  "safe_exit socket error =
     thn kill_childs (
     thn destroy_childs (
     thn (on_os destroy_queues) (
     thn (on_os destroy_global_ids) (
     thn (sys_close socket) (stop (Exit error))))))"

text \<open>The turns of the loop that are left.\<close>

primrec create_workers :: "nat \<Rightarrow> (server_main, unit) prog" where
  "create_workers 0 = ret ()"
| "create_workers (Suc n) =
     bnd (fork (execl ''./worker'' [''./worker''] (stop (Exit (-1))))) (\<lambda>worker.
     if worker < 0 then stop (Exit (-1)) else thn (add_child worker) (create_workers n))"

definition fork_req_handler :: "int \<Rightarrow> int \<Rightarrow> (server_main, unit) prog" where
  "fork_req_handler server_socket client_socket =
     bnd (fork (
       thn (sys_close server_socket) (
       execl ''./req_handler'' [''./req_handler'', three_chars client_socket] (safe_exit server_socket (-1))))) (\<lambda>handler.
     if handler < 0 then safe_exit server_socket (-1)
     else thn (add_child handler) (thn (sys_close client_socket) (ret ())))"

definition wait_ring_connection :: "int \<Rightarrow> (server_main, int) prog" where
  "wait_ring_connection socket =
     bnd (accept_client socket) (\<lambda>previous_server_socket.
     if previous_server_socket < 0 then safe_exit socket (-1) else ret previous_server_socket)"

primrec accept_loop :: "nat \<Rightarrow> int \<Rightarrow> (server_main, unit) prog" where
  "accept_loop 0 socket = ret ()"
| "accept_loop (Suc n) socket =
     bnd (accept_client socket) (\<lambda>client_socket.
     if client_socket < 0 then ret ()
     else thn (fork_req_handler socket client_socket) (accept_loop n socket))"

definition server_main :: "(server_main, unit) prog \<Rightarrow> msg_t \<Rightarrow> nat \<Rightarrow> (server_main, unit) prog" where
  "server_main others stk n =
     thn new_childs (
     thn (on_os create_global_ids) (
     thn (on_os create_queues) (
     thn (create_workers WORKERS) (
     bnd (create_server_socket PORT) (\<lambda>socket.
     if socket < 0 then safe_exit socket (-1)
     else bnd (wait_ring_connection socket) (\<lambda>previous_server_socket.
     thn (fork_req_handler socket previous_server_socket) (
     thn others (
     bnd (on_os (await_ring stk)) (\<lambda>resp_handler_pid.
     thn (add_child resp_handler_pid) (
     thn (accept_loop n socket) (
     safe_exit socket 0)))))))))))"

section \<open>req_handler.c and ring_connection.c\<close>

definition create_resp_handler_rq :: "int \<Rightarrow> (('m, 's, 'c) master, int) prog" where
  "create_resp_handler_rq socket =
     bnd (fork (execl ''./resp_handler'' [''./resp_handler'', three_chars socket] (stop (Exit (-1))))) (\<lambda>pid.
     if pid < 0 then stop (Exit (-1)) else ret pid)"

text \<open>\<open>sscanf\<close> of a decimal number.\<close>

definition req_handler_main :: "string list \<Rightarrow> msg_t list \<Rightarrow> ((msg_t, global_ids_t, 'c) master, unit) prog" where
  "req_handler_main argv stks =
     (if length argv < 2 then stop (Exit (-1))
      else let client_socket = int_of_long (strtol10 (argv ! 1)) in
        bnd (create_resp_handler_rq client_socket) (\<lambda>resp_handler_pid.
        bnd (on_os get_worker_queue_rq) (\<lambda>worker_queue.
        thn (on_os (req_handler_loop stks client_socket worker_queue resp_handler_pid)) (
        bnd (sys_kill resp_handler_pid) (\<lambda>r.
        thn (if r < 0 then ret () else thn (sys_waitpid resp_handler_pid) (ret ())) (
        thn (sys_close client_socket) (ret ())))))))"

definition create_resp_handler_rc :: "int \<Rightarrow> (('m, 's, 'c) master, int) prog" where
  "create_resp_handler_rc socket =
     bnd (fork (execl ''./resp_handler'' [''./resp_handler'', three_chars socket] (stop (Exit (-1))))) (\<lambda>pid.
     if pid < 0 then stop (Exit (-1)) else thn (sys_close socket) (ret pid))"

definition ring_connection_main :: "string \<Rightarrow> int \<Rightarrow> ((msg_t, global_ids_t, 'c) master, int) prog" where
  "ring_connection_main next_server_ip next_server_port =
     bnd (create_client_socket next_server_ip next_server_port) (\<lambda>next_server_socket.
     bnd (create_resp_handler_rc next_server_socket) (\<lambda>resp_handler_pid.
     on_os (ring_connection resp_handler_pid)))"

section \<open>db_server.c\<close>

abbreviation DB_PORT :: int where "DB_PORT \<equiv> 3307"

definition kill_child_db :: "int \<Rightarrow> (('m, 's, 'c) master, bool) prog" where
  "kill_child_db child_pid =
     bnd (sys_kill child_pid) (\<lambda>r.
     if r < 0 then ret True else thn (sys_waitpid child_pid) (ret True))"

definition kill_childs_db :: "(('m, 's, kids) master, unit) prog" where
  "kill_childs_db = for_each_child kill_child_db"

definition safe_exit_db :: "int \<Rightarrow> int \<Rightarrow> int \<Rightarrow> (('m, 's, kids) master, 'a) prog" where
  "safe_exit_db socket sem error =
     thn kill_childs_db (
     thn destroy_childs (
     bnd (sys_close socket) (\<lambda>r.
     let error = (if r < 0 then -1 else error) in
     bnd (on_os (delsem sem)) (\<lambda>r.
     let error = (if r < 0 then -1 else error) in
     stop (Exit error)))))"

text \<open>One connection of the loop; the result says whether the loop goes on.\<close>

definition db_server_step :: "int \<Rightarrow> int \<Rightarrow> (('m, 's, kids) master, bool) prog" where
  "db_server_step socket sem =
     bnd (accept_client socket) (\<lambda>client_socket.
     if client_socket < 0 then ret False
     else bnd (fork (
         thn (sys_close socket) (
         execl ''./db_handler'' [''./db_handler'', three_chars client_socket] (safe_exit_db socket sem (-1))))) (\<lambda>handler.
       if handler < 0 then safe_exit_db socket sem (-1)
       else thn (add_child handler) (thn (sys_close client_socket) (ret True))))"

primrec db_server_loop :: "nat \<Rightarrow> int \<Rightarrow> int \<Rightarrow> (('m, 's, kids) master, unit) prog" where
  "db_server_loop 0 socket sem = ret ()"
| "db_server_loop (Suc n) socket sem =
     bnd (db_server_step socket sem) (\<lambda>on. if on then db_server_loop n socket sem else ret ())"

definition db_server_main :: "nat \<Rightarrow> (('m, 's, kids) master, unit) prog" where
  "db_server_main n =
     bnd (on_os (creasem DB_SEM)) (\<lambda>sem.
     if sem < 0 then stop (Exit (-1))
     else thn (on_os (inisem sem 1)) (
     thn new_childs (
     bnd (create_server_socket DB_PORT) (\<lambda>socket.
     if socket < 0 then safe_exit_db socket sem (-1)
     else thn (db_server_loop n socket sem) (safe_exit_db socket sem 0)))))"

section \<open>The list of children in memory\<close>

text \<open>\<open>kids_are k xs\<close>: the list holds the process identifiers \<open>xs\<close>, and the heap nothing else.\<close>

definition kids_are :: "kids \<Rightarrow> int list \<Rightarrow> bool" where
  "kids_are k xs \<longleftrightarrow> (\<exists>as. owns (kid_heap k) (kid_list k) as xs \<and> tail_last (kid_list k) as \<and> dom (nodes (kid_heap k)) = set as
     \<and> \<not> l_freeFn (kid_list k))"

lemma list_append_heap:
  assumes "list_append l x h = Ret (l', h')"
  shows "dom (nodes h') = insert (fresh h) (dom (nodes h)) \<and> l_freeFn l' = l_freeFn l"
  using assms
  by (auto simp: list_append_def new_node_def deref_def rbind_Ret_iff split: if_splits option.splits)

lemma new_childs_run:
  assumes "nodes (kid_heap (mem m)) = Map.empty"
  shows "\<exists>k. new_childs m = (Ret (), m\<lparr>mem := k\<rparr>) \<and> kids_are k []"
  using assms
  by (auto simp: new_childs_def bnd_def gets_def lift_res_def list_new_def set_mem_def kids_are_def owns_def tail_last_def)

lemma add_child_run:
  assumes "kids_are (mem m) xs"
  shows "\<exists>k. add_child pid m = (Ret (), m\<lparr>mem := k\<rparr>) \<and> kids_are k (xs @ [pid])"
proof -
  let ?k = "mem m"
  from assms obtain as where as: "owns (kid_heap ?k) (kid_list ?k) as xs" "tail_last (kid_list ?k) as"
    "dom (nodes (kid_heap ?k)) = set as" "\<not> l_freeFn (kid_list ?k)"
    by (auto simp: kids_are_def)
  from list_append_owns [OF as(1,2), of pid] obtain l' h' where
    l: "list_append (kid_list ?k) pid (kid_heap ?k) = Ret (l', h')" "owns h' l' (as @ [fresh (kid_heap ?k)]) (xs @ [pid])"
    "tail_last l' (as @ [fresh (kid_heap ?k)])" by blast
  have "kids_are \<lparr>kid_list = l', kid_heap = h'\<rparr> (xs @ [pid])"
    unfolding kids_are_def using l(2,3) list_append_heap [OF l(1)] as(3,4)
    by (intro exI [of _ "as @ [fresh (kid_heap ?k)]"]) simp
  then show ?thesis using l(1) by (auto simp: add_child_def bnd_def gets_def lift_res_def set_mem_def)
qed

lemma destroy_childs_run:
  assumes "kids_are (mem m) xs"
  shows "\<exists>k. destroy_childs m = (Ret (), m\<lparr>mem := k\<rparr>) \<and> nodes (kid_heap k) = Map.empty"
proof -
  let ?k = "mem m"
  from assms obtain as where as: "owns (kid_heap ?k) (kid_list ?k) as xs" "dom (nodes (kid_heap ?k)) = set as"
    by (auto simp: kids_are_def)
  from list_destroy_owns [of "kid_heap ?k" "kid_list ?k" as xs "[]"] as(1) obtain fr l' h' where
    l: "list_destroy [] (kid_list ?k) (kid_heap ?k) = Some (Ret (fr, l', h'))"
    "nodes h' = (\<lambda>a. if a \<in> set as then None else nodes (kid_heap ?k) a)"
    by (auto simp: owns_def)
  have "nodes h' = Map.empty" using l(2) by (auto simp: fun_eq_iff as(2) [symmetric] domIff)
  with l(1) show ?thesis by (auto simp: destroy_childs_def bnd_def gets_def lift_res_def set_mem_def)
qed

section \<open>Stopping the children\<close>

lemma kill_child_stops: "kill_child pid m = bnd (stop_process pid) (\<lambda>_. ret True) m" "kill_child_db = kill_child"
proof -
  show "kill_child pid m = bnd (stop_process pid) (\<lambda>_. ret True) m"
    unfolding kill_child_def stop_process_def bnd_assoc
    by (rule arg_cong [where f = "\<lambda>f. bnd (sys_kill pid) f m"]) (auto simp: fun_eq_iff bnd_def ret_def split: prod.split res.split)
  show "kill_child_db = kill_child" by (simp add: fun_eq_iff kill_child_def kill_child_db_def)
qed

text \<open>What stopping children changes: only outcomes that have happened and the table of processes.\<close>

definition only_procs :: "('m, 's, 'c) master \<Rightarrow> ('m, 's, 'c) master \<Rightarrow> bool" where
  "only_procs m m' \<longleftrightarrow> (\<exists>e ps. m' = m\<lparr>os := os m\<lparr>env := e\<rparr>, procs := ps\<rparr>)"

lemma only_procs_trans: "only_procs m m' \<Longrightarrow> only_procs m' m'' \<Longrightarrow> only_procs m m''"
  unfolding only_procs_def by (elim exE) (simp, blast)

text \<open>
  What the loop over the children amounts to when no call fails: they are told and waited for one after the
  other, up to the first that does not end; those after it are not even told.
\<close>

fun stop_children :: "int list \<Rightarrow> ('m, 's, 'c) master \<Rightarrow> unit res \<times> ('m, 's, 'c) master" where
  "stop_children [] m = (Ret (), m)"
| "stop_children (x # xs) m =
     (if stubborn m x then (Blocked, m\<lparr>procs := tell x (procs m)\<rparr>)
      else stop_children xs (m\<lparr>procs := reaped (self m) x (procs m)\<rparr>))"

lemma kill_child_run:
  "\<exists>r m'. kill_child pid m = (r, m') \<and> (r = Ret True \<or> r = Blocked) \<and> only_procs m m'
     \<and> (env (os m) = [] \<longrightarrow> (if stubborn m pid then r = Blocked \<and> m' = m\<lparr>procs := tell pid (procs m)\<rparr>
          else r = Ret True \<and> m' = m\<lparr>procs := reaped (self m) pid (procs m)\<rparr>))"
proof -
  from stop_process_ends [of pid m] obtain r m' e where m':
    "stop_process pid m = (r, m')" "r = Ret () \<or> r = Blocked" "fds m' = fds m" "mem m' = mem m" "self m' = self m"
    "next_pid m' = next_pid m" "heeds m' = heeds m" "os m' = os m\<lparr>env := e\<rparr>" by blast
  then have same: "m' = m\<lparr>os := os m\<lparr>env := e\<rparr>, procs := procs m'\<rparr>" by (auto intro!: master.equality)
  define r' where "r' = (if r = Ret () then Ret True else Blocked)"
  have run: "kill_child pid m = (r', m')"
    using m'(1,2) unfolding kill_child_stops(1) r'_def by (auto simp: bnd_def ret_def)
  moreover have "only_procs m m'" using same unfolding only_procs_def by blast
  moreover have "if stubborn m pid then r' = Blocked \<and> m' = m\<lparr>procs := tell pid (procs m)\<rparr>
      else r' = Ret True \<and> m' = m\<lparr>procs := reaped (self m) pid (procs m)\<rparr>" if "env (os m) = []"
    using stop_process_run [OF that, of pid] m'(1) by (auto simp: r'_def split: if_splits)
  moreover have "r' = Ret True \<or> r' = Blocked" by (simp add: r'_def)
  ultimately show ?thesis by blast
qed

lemma visit_blocked: "iterate (visit f) xs (Blocked, m) = (Blocked, m)"
  by (cases xs) (simp_all add: visit_def bnd_def lift_res_def)

lemma iterate_kill:
  "\<exists>r m'. iterate (visit kill_child) xs (Ret (), m) = (r, m') \<and> (r = Ret () \<or> r = Blocked) \<and> only_procs m m'
     \<and> (env (os m) = [] \<longrightarrow> (r, m') = stop_children xs m)"
proof (induction xs arbitrary: m)
  case Nil
  show ?case by (auto simp: only_procs_def intro!: master.equality exI [of _ "env (os m)"] exI [of _ "procs m"])
next
  case (Cons x xs)
  from kill_child_run [of x m] obtain q m1 where m1: "kill_child x m = (q, m1)" "q = Ret True \<or> q = Blocked" "only_procs m m1"
    "env (os m) = [] \<longrightarrow> (if stubborn m x then q = Blocked \<and> m1 = m\<lparr>procs := tell x (procs m)\<rparr>
       else q = Ret True \<and> m1 = m\<lparr>procs := reaped (self m) x (procs m)\<rparr>)" by blast
  show ?case
  proof (cases "q = Ret True")
    case True
    from Cons.IH [of m1] obtain r m2 where m2: "iterate (visit kill_child) xs (Ret (), m1) = (r, m2)" "r = Ret () \<or> r = Blocked"
      "only_procs m1 m2" "env (os m1) = [] \<longrightarrow> (r, m2) = stop_children xs m1" by blast
    have "iterate (visit kill_child) (x # xs) (Ret (), m) = (r, m2)"
      using m1(1) m2(1) True by (simp add: visit_def bnd_def lift_res_def ret_def)
    with m1 m2 True show ?thesis by (intro exI [of _ r] exI [of _ m2]) (auto intro: only_procs_trans split: if_splits)
  next
    case False
    then have "iterate (visit kill_child) (x # xs) (Ret (), m) = (Blocked, m1)"
      using m1(1,2) visit_blocked [of kill_child xs m1] by (simp add: visit_def bnd_def lift_res_def ret_def)
    with m1 False show ?thesis by (intro exI [of _ Blocked] exI [of _ m1]) (auto split: if_splits)
  qed
qed

lemma kill_childs_run:
  assumes "kids_are (mem m) xs"
  shows "\<exists>r m'. kill_childs m = (r, m') \<and> (r = Ret () \<or> r = Blocked) \<and> only_procs m m'
     \<and> (env (os m) = [] \<longrightarrow> (r, m') = stop_children xs m)"
proof -
  from assms obtain as where "chain (kid_heap (mem m)) (l_head (kid_list (mem m))) as xs" by (auto simp: kids_are_def owns_def)
  then have "kill_childs m = iterate (visit kill_child) xs (Ret (), m)"
    by (simp add: kill_childs_def for_each_child_def list_for_each_def list_for_each_iterate)
  with iterate_kill [of xs m] show ?thesis by simp
qed

text \<open>Stopping one child does not make another one stop or stay.\<close>

lemma my_child_reaped: "my_child me x (reaped me y ps) = (if x = y then None else my_child me x ps)"
proof (cases "x = y")
  case True
  have "my_child me y (filter (\<lambda>p. p_pid p \<noteq> y) ps) = None"
    by (simp add: my_child_def find_None_iff)
  moreover have "my_child me y (tell y ps) = None" if "my_child me y ps = None"
    using find_told [of y me ps] that by (simp add: my_child_def)
  ultimately show ?thesis using True my_child_None [of me y ps] by (simp add: reaped_def)
next
  case False
  have "my_child me x (filter (\<lambda>p. p_pid p \<noteq> y) ps) = my_child me x ps" using False
    by (induction ps) (auto simp: my_child_def)
  moreover have "my_child me x (tell y ps) = my_child me x ps" using False
    by (induction ps) (auto simp: my_child_def)
  ultimately show ?thesis using False by (simp add: reaped_def)
qed

lemma stubborn_reaped:
  "\<not> stubborn m y \<Longrightarrow> stubborn (m\<lparr>procs := reaped (self m) y (procs m)\<rparr>) x = stubborn m x"
  by (auto simp: stubborn_def my_child_reaped split: option.splits)

lemma stop_children_heeded:
  "\<forall>x\<in>set xs. \<not> stubborn m x \<Longrightarrow> stop_children xs m = (Ret (), m\<lparr>procs := fold (reaped (self m)) xs (procs m)\<rparr>)"
  by (induction xs arbitrary: m) (simp_all add: stubborn_reaped)

lemma stop_children_stuck:
  assumes "\<forall>y\<in>set ys. \<not> stubborn m y" "stubborn m x"
  shows "stop_children (ys @ x # zs) m = (Blocked, m\<lparr>procs := tell x (fold (reaped (self m)) ys (procs m))\<rparr>)"
  using assms by (induction ys arbitrary: m) (simp_all add: stubborn_reaped)

lemma kill_childs_db_same: "kill_childs_db = kill_childs"
  by (simp add: kill_childs_db_def kill_childs_def kill_child_stops(2))

section \<open>The end of a main function\<close>

text \<open>Programs that always return.\<close>

definition returns :: "('w, 'a) prog \<Rightarrow> bool" where
  "returns p \<longleftrightarrow> (\<forall>w. \<exists>x w'. p w = (Ret x, w'))"

lemma returns_bind: "returns p \<Longrightarrow> (\<And>x. returns (f x)) \<Longrightarrow> returns (bnd p f)"
  unfolding returns_def
proof
  fix w assume a: "\<forall>w. \<exists>x w'. p w = (Ret x, w')" "\<And>x. \<forall>w. \<exists>y w'. f x w = (Ret y, w')"
  from a(1) obtain x w1 where "p w = (Ret x, w1)" by blast
  moreover from a(2) [of x] obtain y w2 where "f x w1 = (Ret y, w2)" by blast
  ultimately show "\<exists>y w2. bnd p f w = (Ret y, w2)" by (simp add: bnd_def)
qed

lemma returns_wp: "(\<And>w. wp p (\<lambda>r _. \<exists>x. r = Ret x) w) \<Longrightarrow> returns p"
  by (simp add: returns_def wp_run) (metis prod.collapse)

lemma returns_calls:
  "returns (ret x)" "returns (getmsg k)" "returns (delmsg q)" "returns (getsem k)" "returns (delsem i)" "returns (delshm i)"
  "returns (creasem k)" "returns (inisem s n)"
  by (rule returns_wp; simp add: wp split: prod.split)+

lemma returns_if: "(b \<Longrightarrow> returns p) \<Longrightarrow> (\<not> b \<Longrightarrow> returns q) \<Longrightarrow> returns (if b then p else q)"
  by simp

lemma teardown_returns:
  "\<exists>w'. destroy_queues w = (Ret (), w')" "\<exists>r w'. destroy_global_ids w = (r, w') \<and> (r = Ret () \<or> r = Exit (-1))"
proof -
  note go = returns_bind returns_calls returns_if
  have "returns destroy_queues" unfolding destroy_queues_def destroy_queue_def by (intro go)
  then show "\<exists>w'. destroy_queues w = (Ret (), w')" by (simp add: returns_def)
  have d: "returns (global_ids_destroy i)" for i unfolding global_ids_destroy_def by (intro go)
  have "wp global_ids_get (\<lambda>r _. (\<exists>i. r = Ret i) \<or> r = Exit (-1)) w" by (simp add: global_ids_get_def wp)
  then obtain r w1 where g: "global_ids_get w = (r, w1)" "(\<exists>i. r = Ret i) \<or> r = Exit (-1)"
    by (cases "global_ids_get w") (auto simp: wp_def)
  show "\<exists>r w'. destroy_global_ids w = (r, w') \<and> (r = Ret () \<or> r = Exit (-1))"
  proof (cases r)
    case (Ret i)
    moreover from d [of i] obtain j w2 where "global_ids_destroy i w1 = (Ret j, w2)" unfolding returns_def by blast
    ultimately show ?thesis using g(1) by (auto simp: destroy_global_ids_def bnd_def ret_def)
  qed (use g in \<open>auto simp: destroy_global_ids_def bnd_def\<close>)
qed

text \<open>
  Whatever calls fail, \<open>safe_exit\<close> exits or waits for a child that does not end: the list is walked, and
  freed when the walk is over.  The code may be -1: \<open>global_ids_get\<close> exits when it finds no table.
\<close>

lemma safe_exit_run:
  assumes "kids_are (mem m) xs"
  shows "\<exists>r m'. safe_exit socket e m = (r, m') \<and> (r = Exit e \<or> r = Exit (-1) \<or> r = Blocked) \<and> (r \<noteq> Blocked \<longrightarrow> nodes (kid_heap (mem m')) = Map.empty)
     \<and> next_pid m' = next_pid m \<and> self m' = self m
     \<and> (env (os m) = [] \<and> (\<exists>x\<in>set xs. stubborn m x) \<longrightarrow> r = Blocked \<and> m' = snd (stop_children xs m))
     \<and> (env (os m) = [] \<and> (\<forall>x\<in>set xs. \<not> stubborn m x) \<longrightarrow> r \<noteq> Blocked \<and> procs m' = fold (reaped (self m)) xs (procs m)
        \<and> (fst (server_teardown (os m)) = Ret () \<longrightarrow> r = Exit e \<and> fds m' = AList.delete socket (fds m)
           \<and> os m' = adv (snd (server_teardown (os m)))))"
proof -
  from kill_childs_run [OF assms] obtain q m1 where m1: "kill_childs m = (q, m1)" "q = Ret () \<or> q = Blocked" "only_procs m m1"
    "env (os m) = [] \<longrightarrow> (q, m1) = stop_children xs m" by blast
  then have same: "mem m1 = mem m" "fds m1 = fds m" "next_pid m1 = next_pid m" "self m1 = self m" by (auto simp: only_procs_def)
  have heeded: "env (os m) = [] \<and> (\<forall>x\<in>set xs. \<not> stubborn m x) \<longrightarrow> q = Ret () \<and> m1 = m\<lparr>procs := fold (reaped (self m)) xs (procs m)\<rparr>"
    using m1(4) stop_children_heeded [of xs m] by auto
  have stuck: "q = Blocked" if "env (os m) = []" "\<exists>x\<in>set xs. stubborn m x"
  proof -
    from split_list_first_prop [OF that(2)] obtain ys x zs where "xs = ys @ x # zs" "stubborn m x" "\<forall>y\<in>set ys. \<not> stubborn m y" by blast
    with m1(4) that(1) stop_children_stuck [of ys m x zs] show ?thesis by simp
  qed
  show ?thesis
  proof (cases "q = Ret ()")
    case False
    with m1 have "safe_exit socket e m = (Blocked, m1)" by (auto simp: safe_exit_def bnd_def)
    moreover have "m1 = snd (stop_children xs m)" if "env (os m) = []" using m1(4) that by (metis snd_conv)
    ultimately show ?thesis using same heeded False
      by (intro exI [of _ Blocked] exI [of _ m1]) simp
  next
    case True
    with stuck have free: "env (os m) = [] \<Longrightarrow> \<forall>x\<in>set xs. \<not> stubborn m x" by auto
    from same destroy_childs_run [of m1 xs] assms obtain k where
      k: "destroy_childs m1 = (Ret (), m1\<lparr>mem := k\<rparr>)" "nodes (kid_heap k) = Map.empty" by auto
    from teardown_returns(1) obtain w2 where w2: "destroy_queues (os m1) = (Ret (), w2)" by blast
    from teardown_returns(2) obtain d w3 where w3: "destroy_global_ids w2 = (d, w3)" "d = Ret () \<or> d = Exit (-1)" by blast
    let ?m = "m1\<lparr>mem := k, os := w3\<rparr>"
    let ?m' = "(called ?m)\<lparr>fds := AList.delete socket (fds ?m)\<rparr>"
    from sys_close_run [of socket ?m] obtain r where r: "sys_close socket ?m = (Ret r, ?m')" by blast
    have down: "server_teardown (os m1) = (d, w3)" using w2 w3(1) by (simp add: server_teardown_def bnd_def)
    have run: "safe_exit socket e m = (if d = Ret () then (Exit e, ?m') else (Exit (-1), ?m))"
      using m1(1) True k(1) w2 w3 r by (auto simp: safe_exit_def bnd_def on_os_def stop_def)
    show ?thesis
    proof (cases "d = Ret ()")
      case True
      with run down same k(2) heeded free show ?thesis by (intro exI [of _ "Exit e"] exI [of _ ?m']) auto
    next
      case False
      with run down same k(2) heeded free show ?thesis by (intro exI [of _ "Exit (-1)"] exI [of _ ?m]) auto
    qed
  qed
qed

lemma delsem_returns:
  "\<exists>r w'. delsem sem w = (Ret r, w') \<and> (env w = [] \<and> ipc_objs (sems w) sem \<noteq> None \<longrightarrow> r = 0)"
  by (auto simp: delsem_def bnd_def syscall_def ipc_remove_def split: option.split)

lemma safe_exit_db_run:
  assumes "kids_are (mem m) xs"
  shows "\<exists>r m'. safe_exit_db socket sem e m = (r, m') \<and> (r = Exit e \<or> r = Exit (-1) \<or> r = Blocked)
     \<and> (env (os m) = [] \<and> (\<forall>x\<in>set xs. \<not> stubborn m x) \<longrightarrow> r \<noteq> Blocked \<and> fds m' = AList.delete socket (fds m)
        \<and> nodes (kid_heap (mem m')) = Map.empty \<and> procs m' = fold (reaped (self m)) xs (procs m) \<and> os m' = snd (delsem sem (os m))
        \<and> (map_of (fds m) socket \<noteq> None \<and> ipc_objs (sems (os m)) sem \<noteq> None \<longrightarrow> r = Exit e))"
proof -
  from kill_childs_run [OF assms] obtain q m1 where m1: "kill_childs m = (q, m1)" "q = Ret () \<or> q = Blocked" "only_procs m m1"
    "env (os m) = [] \<longrightarrow> (q, m1) = stop_children xs m" by blast
  have heeded: "env (os m) = [] \<and> (\<forall>x\<in>set xs. \<not> stubborn m x) \<longrightarrow> q = Ret () \<and> m1 = m\<lparr>procs := fold (reaped (self m)) xs (procs m)\<rparr>"
    using m1(4) stop_children_heeded [of xs m] by auto
  show ?thesis
  proof (cases "q = Ret ()")
    case False
    with m1 have "safe_exit_db socket sem e m = (Blocked, m1)" by (auto simp: kill_childs_db_same safe_exit_db_def bnd_def)
    with False heeded show ?thesis by (intro exI [of _ Blocked] exI [of _ m1]) auto
  next
    case True
    from m1(3) have same: "mem m1 = mem m" "fds m1 = fds m" by (auto simp: only_procs_def)
    with destroy_childs_run [of m1 xs] assms obtain k where
      k: "destroy_childs m1 = (Ret (), m1\<lparr>mem := k\<rparr>)" "nodes (kid_heap k) = Map.empty" by auto
    let ?m = "m1\<lparr>mem := k\<rparr>"
    from sys_close_run [of socket ?m] obtain r where r: "sys_close socket ?m = (Ret r, (called ?m)\<lparr>fds := AList.delete socket (fds ?m)\<rparr>)"
      "env (os ?m) = [] \<and> map_of (fds ?m) socket \<noteq> None \<longrightarrow> r = 0" by blast
    from delsem_returns [of sem "adv (os m1)"] obtain r' w where d: "delsem sem (adv (os m1)) = (Ret r', w)"
      "env (adv (os m1)) = [] \<and> ipc_objs (sems (adv (os m1))) sem \<noteq> None \<longrightarrow> r' = 0" by blast
    define c where "c = (if r' < 0 then -1 else if r < 0 then -1 else e)"
    define m2 where "m2 = (called ?m)\<lparr>fds := AList.delete socket (fds ?m), os := w\<rparr>"
    have "safe_exit_db socket sem e m = (Exit c, m2)"
      using m1(1) True k(1) r(1) d(1) by (simp add: kill_childs_db_same safe_exit_db_def c_def m2_def bnd_def on_os_def stop_def Let_def)
    moreover have "Exit c = Exit e \<or> Exit c = Exit (-1)" by (simp add: c_def)
    moreover have "fds m2 = AList.delete socket (fds m)" "mem m2 = k" "procs m2 = procs m1" "os m2 = w"
      using same by (simp_all add: m2_def)
    moreover have "procs m1 = fold (reaped (self m)) xs (procs m) \<and> w = snd (delsem sem (os m))
        \<and> (map_of (fds m) socket \<noteq> None \<and> ipc_objs (sems (os m)) sem \<noteq> None \<longrightarrow> c = e)"
      if "env (os m) = [] \<and> (\<forall>x\<in>set xs. \<not> stubborn m x)"
      using that heeded same r(2) d by (auto simp: c_def)
    ultimately show ?thesis using k(2) by (intro exI [of _ "Exit c"] exI [of _ m2]) auto
  qed
qed

section \<open>Every client gets a handler\<close>

definition req_handler_of :: "int \<Rightarrow> int \<Rightarrow> int \<Rightarrow> process" where
  "req_handler_of me fd = child_of me ''./req_handler'' [''./req_handler'', three_chars fd]"

lemma start_handler_run:
  assumes "env (os m) = []" "pids_ok m" "kids_are (mem m) xs"
  shows "\<exists>k. bnd (fork (thn (sys_close socket) (execl path args q))) (\<lambda>handler.
       if handler < 0 then q' else thn (add_child handler) (thn (sys_close client) (ret x))) m =
      (Ret x, m\<lparr>procs := child_of (self m) path args (next_pid m) # procs m, next_pid := next_pid m + 1,
         mem := k, fds := AList.delete client (fds m)\<rparr>)
    \<and> kids_are k (xs @ [next_pid m])"
proof -
  let ?m = "m\<lparr>procs := child_of (self m) path args (next_pid m) # procs m, next_pid := next_pid m + 1\<rparr>"
  have f: "fork (thn (sys_close socket) (execl path args q)) m = (Ret (next_pid m), ?m)"
    using fork_close_execl_run [OF assms(1,2)] by simp
  from add_child_run [of ?m xs "next_pid m"] assms(3) obtain k where
    k: "add_child (next_pid m) ?m = (Ret (), ?m\<lparr>mem := k\<rparr>)" "kids_are k (xs @ [next_pid m])" by auto
  from sys_close_run [of client "?m\<lparr>mem := k\<rparr>"] obtain r where
    r: "sys_close client (?m\<lparr>mem := k\<rparr>) = (Ret r, (called (?m\<lparr>mem := k\<rparr>))\<lparr>fds := AList.delete client (fds m)\<rparr>)" by auto
  have "\<not> next_pid m < 0" using assms(2) by (simp add: pids_ok_def)
  then show ?thesis using f k r assms(1) by (intro exI [of _ k]) (simp add: bnd_def ret_def)
qed

lemma fork_req_handler_run:
  assumes "env (os m) = []" "pids_ok m" "kids_are (mem m) xs"
  shows "\<exists>k. fork_req_handler socket client m =
      (Ret (), m\<lparr>procs := req_handler_of (self m) client (next_pid m) # procs m, next_pid := next_pid m + 1,
         mem := k, fds := AList.delete client (fds m)\<rparr>)
    \<and> kids_are k (xs @ [next_pid m])"
  unfolding fork_req_handler_def req_handler_of_def by (rule start_handler_run [OF assms])

lemma accept_client_run:
  "env (os m) = [] \<Longrightarrow> map_of (fds m) socket = Some (Listening port) \<Longrightarrow>
   accept_client socket m = (Ret (free_fd (fds m)), m\<lparr>fds := AList.update (free_fd (fds m)) Connected (fds m)\<rparr>)"
  by (intro wp_eqI) (simp add: accept_client_def wp)

lemma accept_loop_run:
  assumes "env (os m) = []" "pids_ok m" "kids_are (mem m) xs" "map_of (fds m) socket = Some (Listening port)"
  shows "\<exists>k. accept_loop n socket m =
      (Ret (), m\<lparr>procs := rev (map (\<lambda>i. req_handler_of (self m) (free_fd (fds m)) (next_pid m + int i)) [0..<n]) @ procs m,
         next_pid := next_pid m + int n, mem := k\<rparr>)
    \<and> kids_are k (xs @ map (\<lambda>i. next_pid m + int i) [0..<n])"
  using assms
proof (induction n arbitrary: m xs)
  case 0
  then show ?case by (intro exI [of _ "mem m"]) (simp add: ret_def)
next
  case (Suc n)
  let ?fd = "free_fd (fds m)"
  let ?m = "m\<lparr>fds := AList.update ?fd Connected (fds m)\<rparr>"
  from fork_req_handler_run [of ?m xs socket ?fd] Suc.prems(1,2,3) obtain k1 where
    k1: "fork_req_handler socket ?fd ?m = (Ret (), m\<lparr>procs := req_handler_of (self m) ?fd (next_pid m) # procs m,
       next_pid := next_pid m + 1, mem := k1\<rparr>)" "kids_are k1 (xs @ [next_pid m])" by auto
  let ?m1 = "m\<lparr>procs := req_handler_of (self m) ?fd (next_pid m) # procs m, next_pid := next_pid m + 1, mem := k1\<rparr>"
  have "pids_ok ?m1" using Suc.prems(2) by (simp add: req_handler_of_def)
  with Suc.IH [of ?m1 "xs @ [next_pid m]"] Suc.prems(1,4) k1(2) obtain k where
    k: "accept_loop n socket ?m1 = (Ret (), m\<lparr>procs := rev (map (\<lambda>i. req_handler_of (self m) ?fd (next_pid m + 1 + int i)) [0..<n])
        @ req_handler_of (self m) ?fd (next_pid m) # procs m, next_pid := next_pid m + 1 + int n, mem := k\<rparr>)"
    "kids_are k ((xs @ [next_pid m]) @ map (\<lambda>i. next_pid m + 1 + int i) [0..<n])" by auto
  have "accept_loop (Suc n) socket m = accept_loop n socket ?m1"
    using accept_client_run [OF Suc.prems(1,4)] k1(1) by (simp add: bnd_def)
  with k show ?case by (intro exI [of _ k]) (simp add: map_upt_Suc_Cons algebra_simps del: upt_Suc)
qed

definition db_handler_of :: "int \<Rightarrow> int \<Rightarrow> int \<Rightarrow> process" where
  "db_handler_of me fd = child_of me ''./db_handler'' [''./db_handler'', three_chars fd]"

lemma db_server_loop_run:
  assumes "env (os m) = []" "pids_ok m" "kids_are (mem m) xs" "map_of (fds m) socket = Some (Listening port)"
  shows "\<exists>k. db_server_loop n socket sem m =
      (Ret (), m\<lparr>procs := rev (map (\<lambda>i. db_handler_of (self m) (free_fd (fds m)) (next_pid m + int i)) [0..<n]) @ procs m,
         next_pid := next_pid m + int n, mem := k\<rparr>)
    \<and> kids_are k (xs @ map (\<lambda>i. next_pid m + int i) [0..<n])"
  using assms
proof (induction n arbitrary: m xs)
  case 0
  then show ?case by (intro exI [of _ "mem m"]) (simp add: ret_def)
next
  case (Suc n)
  let ?fd = "free_fd (fds m)"
  let ?m = "m\<lparr>fds := AList.update ?fd Connected (fds m)\<rparr>"
  let ?m1 = "\<lambda>k. m\<lparr>procs := db_handler_of (self m) ?fd (next_pid m) # procs m, next_pid := next_pid m + 1, mem := k\<rparr>"
  from start_handler_run [of ?m xs socket "''./db_handler''" "[''./db_handler'', three_chars ?fd]" "safe_exit_db socket sem (-1)"
      "safe_exit_db socket sem (-1)" ?fd True] Suc.prems(1,2,3) accept_client_run [OF Suc.prems(1,4)]
  obtain k1 where k1: "db_server_step socket sem m = (Ret True, ?m1 k1)" "kids_are k1 (xs @ [next_pid m])"
    by (auto simp: db_server_step_def bnd_def db_handler_of_def)
  have "pids_ok (?m1 k1)" using Suc.prems(2) by (simp add: db_handler_of_def)
  with Suc.IH [of "?m1 k1" "xs @ [next_pid m]"] Suc.prems(1,4) k1(2) obtain k where
    k: "db_server_loop n socket sem (?m1 k1) = (Ret (), m\<lparr>procs := rev (map (\<lambda>i. db_handler_of (self m) ?fd (next_pid m + 1 + int i)) [0..<n])
        @ db_handler_of (self m) ?fd (next_pid m) # procs m, next_pid := next_pid m + 1 + int n, mem := k\<rparr>)"
    "kids_are k ((xs @ [next_pid m]) @ map (\<lambda>i. next_pid m + 1 + int i) [0..<n])" by auto
  from k1(1) have "db_server_loop (Suc n) socket sem m = db_server_loop n socket sem (?m1 k1)" by (simp add: bnd_def)
  with k show ?case by (intro exI [of _ k]) (simp add: map_upt_Suc_Cons algebra_simps del: upt_Suc)
qed

section \<open>A run of the server\<close>

text \<open>What is left in the table of a process after stopping others: only who is not a child is still there.\<close>

definition left_by :: "int \<Rightarrow> int set \<Rightarrow> process \<Rightarrow> process \<Rightarrow> bool" where
  "left_by me A q p \<longleftrightarrow> p_pid p = p_pid q \<and> p_parent p = p_parent q
     \<and> (if p_pid q \<in> A then p_parent q \<noteq> me \<and> p_status p = (if p_status q = Ended then Ended else Told) else p = q)"

lemma reapedD: "p \<in> set (reaped me x ps) \<Longrightarrow> \<exists>q\<in>set ps. left_by me {x} q p"
  by (auto simp: reaped_def tell_def left_by_def split: if_splits)

lemma left_by_trans: "left_by me A q r \<Longrightarrow> left_by me B r p \<Longrightarrow> left_by me (A \<union> B) q p"
  by (simp add: left_by_def split: if_splits)

lemma fold_reapedD: "p \<in> set (fold (reaped me) xs ps) \<Longrightarrow> \<exists>q\<in>set ps. left_by me (set xs) q p"
proof (induction xs arbitrary: ps)
  case Nil
  then show ?case by (auto simp: left_by_def)
next
  case (Cons x xs)
  then obtain q where q: "q \<in> set (reaped me x ps)" "left_by me (set xs) q p" by auto
  from reapedD [OF q(1)] obtain q' where "q' \<in> set ps" "left_by me {x} q' q" by blast
  with left_by_trans [OF this(2) q(2)] show ?case by auto
qed

lemma fold_reaped_keeps: "p \<in> set ps \<Longrightarrow> p_pid p \<notin> set xs \<Longrightarrow> p \<in> set (fold (reaped me) xs ps)"
  by (induction xs arbitrary: ps) (auto simp: reaped_def tell_def intro!: image_eqI [of p _ p])

text \<open>A process that has just been started.\<close>

definition started :: "int \<Rightarrow> (msg_t, global_ids_t) world \<Rightarrow> server_main \<Rightarrow> bool" where
  "started me w m \<longleftrightarrow> os m = w \<and> self m = me \<and> fds m = [] \<and> procs m = [] \<and> 0 < next_pid m \<and> nodes (kid_heap (mem m)) = Map.empty"

lemma started_pids: "started me w m \<Longrightarrow> pids_ok m"
  by (simp add: started_def pids_ok_def)

text \<open>The ring connection, run beside the server.\<close>

lemma ring_beside_run:
  assumes "server_absent w" "os m = server_started w no_globals" "pids_ok m"
  shows "\<exists>t w'. beside ring () (ring_connection_main ip port) m =
      (Ret (), m\<lparr>os := w', procs := child_of ring ''./resp_handler'' [''./resp_handler'', three_chars 3] (next_pid m) # procs m,
         next_pid := next_pid m + 1\<rparr>)
    \<and> await_ring stk w' = (Ret (next_pid m), server_started w t)"
proof -
  have pid: "0 < next_pid m" using assms(3) by (simp add: pids_ok_def)
  from ring_connection_run [OF assms(1) pid, of stk] obtain t w' where
    r: "ring_connection (next_pid m) (server_started w no_globals) = (Ret 0, w')" "await_ring stk w' = (Ret (next_pid m), server_started w t)"
    by blast
  have e: "env (server_started w no_globals) = []" using server_absentD(1) [OF assms(1)] by (simp add: server_started_def Let_def)
  let ?c = "\<lparr>os = os m, self = ring, fds = [], procs = procs m, next_pid = next_pid m, heeds = heeds m, mem = ()\<rparr>"
  let ?c1 = "?c\<lparr>fds := [(3, Connected)]\<rparr>"
  have "free_fd [] = 3" by (simp add: free_fd_def upto.simps)
  then have c1: "create_client_socket ip port ?c = (Ret 3, ?c1)"
    using create_client_socket_run [of ?c ip port] e assms(2) by simp
  let ?c2 = "?c1\<lparr>procs := child_of ring ''./resp_handler'' [''./resp_handler'', three_chars 3] (next_pid m) # procs m, next_pid := next_pid m + 1\<rparr>"
  have "pids_ok ?c1" using assms(3) by (simp add: pids_ok_def)
  then have f: "fork (execl ''./resp_handler'' [''./resp_handler'', three_chars 3] (stop (Exit (-1)))) ?c1 = (Ret (next_pid m), ?c2)"
    using fork_execl_run [of ?c1] e assms(2) by simp
  have "create_resp_handler_rc 3 ?c1 = (Ret (next_pid m), ?c2\<lparr>fds := []\<rparr>)"
    using f pid sys_close_run [of 3 ?c2] e assms(2) by (auto simp: create_resp_handler_rc_def bnd_def ret_def)
  then have "ring_connection_main ip port ?c = (Ret 0, ?c2\<lparr>fds := [], os := w'\<rparr>)"
    using c1 r(1) assms(2) by (simp add: ring_connection_main_def bnd_def on_os_def)
  then show ?thesis using r(2) by (auto simp: beside_def)
qed

text \<open>The start of the server up to its loop.\<close>

lemma create_workers_run:
  assumes "env (os m) = []" "pids_ok m" "kids_are (mem m) xs"
  shows "\<exists>k. create_workers (Suc 0) m = (Ret (), m\<lparr>procs := child_of (self m) ''./worker'' [''./worker''] (next_pid m) # procs m,
      next_pid := next_pid m + 1, mem := k\<rparr>) \<and> kids_are k (xs @ [next_pid m])"
proof -
  let ?m = "m\<lparr>procs := child_of (self m) ''./worker'' [''./worker''] (next_pid m) # procs m, next_pid := next_pid m + 1\<rparr>"
  from add_child_run [of ?m xs "next_pid m"] assms(3) obtain k where
    k: "add_child (next_pid m) ?m = (Ret (), ?m\<lparr>mem := k\<rparr>)" "kids_are k (xs @ [next_pid m])" by auto
  have "\<not> next_pid m < 0" using assms(2) by (simp add: pids_ok_def)
  with fork_execl_run [OF assms(1,2)] k show ?thesis by (intro exI [of _ k]) (simp add: bnd_def ret_def)
qed

lemma server_main_up:
  assumes "server_absent w" "started me w m"
  shows "\<exists>m3 t. (\<forall>n. server_main (beside ring () (ring_connection_main ip port)) stk n m = thn (accept_loop n 3) (safe_exit 3 0) m3)
    \<and> os m3 = server_started w t \<and> fds m3 = [(3, Listening PORT)] \<and> self m3 = me \<and> next_pid m3 = 3 + next_pid m
    \<and> procs m3 = [child_of ring ''./resp_handler'' [''./resp_handler'', three_chars 3] (2 + next_pid m),
        req_handler_of me 4 (next_pid m + 1), child_of me ''./worker'' [''./worker''] (next_pid m)]
    \<and> kids_are (mem m3) [next_pid m, next_pid m + 1, 2 + next_pid m] \<and> heeds m3 = heeds m"
proof -
  note m = assms(2) [unfolded started_def]
  have fd: "free_fd [] = 3" "free_fd [(3, x)] = 4" for x by (simp_all add: free_fd_def upto.simps)
  from new_childs_run [of m] m obtain k0 where k0: "new_childs m = (Ret (), m\<lparr>mem := k0\<rparr>)" "kids_are k0 []" by auto
  let ?w0 = "server_started w no_globals"
  let ?m0 = "m\<lparr>mem := k0, os := ?w0\<rparr>"
  from server_setup_run [OF assms(1)] obtain w1 where w1: "create_global_ids w = (Ret (), w1)" "create_queues w1 = (Ret (), ?w0)"
    by (auto simp: server_setup_def bnd_def split: prod.splits res.splits)
  have e0: "env ?w0 = []" using server_absentD(1) [OF assms(1)] by (simp add: server_started_def Let_def)
  have ok0: "pids_ok ?m0" using started_pids [OF assms(2)] by simp
  from create_workers_run [of ?m0 "[]"] ok0 e0 k0(2) obtain k1 where
    k1: "create_workers (Suc 0) ?m0 = (Ret (), ?m0\<lparr>procs := [child_of me ''./worker'' [''./worker''] (next_pid m)], next_pid := next_pid m + 1, mem := k1\<rparr>)"
    "kids_are k1 [next_pid m]" using m by auto
  let ?m1 = "?m0\<lparr>procs := [child_of me ''./worker'' [''./worker''] (next_pid m)], next_pid := next_pid m + 1, mem := k1, fds := [(3, Listening PORT)]\<rparr>"
  have s: "create_server_socket PORT (?m0\<lparr>procs := [child_of me ''./worker'' [''./worker''] (next_pid m)], next_pid := next_pid m + 1, mem := k1\<rparr>) = (Ret 3, ?m1)"
    using create_server_socket_run [of "?m0\<lparr>procs := [child_of me ''./worker'' [''./worker''] (next_pid m)], next_pid := next_pid m + 1, mem := k1\<rparr>" PORT] e0 m
    by (simp add: fd)
  have a: "wait_ring_connection 3 ?m1 = (Ret 4, ?m1\<lparr>fds := [(3, Listening PORT), (4, Connected)]\<rparr>)"
    using accept_client_run [of ?m1 3 PORT] e0 by (simp add: fd wait_ring_connection_def bnd_def ret_def)
  have ok1: "pids_ok ?m1" using m by (simp add: pids_ok_def)
  from fork_req_handler_run [of "?m1\<lparr>fds := [(3, Listening PORT), (4, Connected)]\<rparr>" "[next_pid m]" 3 4] ok1 e0 k1(2) obtain k2 where
    k2: "fork_req_handler 3 4 (?m1\<lparr>fds := [(3, Listening PORT), (4, Connected)]\<rparr>) = (Ret (),
      ?m1\<lparr>procs := [req_handler_of me 4 (next_pid m + 1), child_of me ''./worker'' [''./worker''] (next_pid m)], next_pid := 2 + next_pid m, mem := k2, fds := [(3, Listening PORT)]\<rparr>)"
    "kids_are k2 [next_pid m, next_pid m + 1]" using m by auto
  let ?m2 = "?m1\<lparr>procs := [req_handler_of me 4 (next_pid m + 1), child_of me ''./worker'' [''./worker''] (next_pid m)], next_pid := 2 + next_pid m, mem := k2, fds := [(3, Listening PORT)]\<rparr>"
  have ok2: "pids_ok ?m2" using m by (simp add: pids_ok_def req_handler_of_def)
  from ring_beside_run [OF assms(1) _ ok2, where stk = stk and ring = ring and ip = ip and port = port] obtain t w' where
    b: "beside ring () (ring_connection_main ip port) ?m2 = (Ret (), ?m2\<lparr>os := w',
        procs := child_of ring ''./resp_handler'' [''./resp_handler'', three_chars 3] (2 + next_pid m) # procs ?m2, next_pid := 3 + next_pid m\<rparr>)"
    "await_ring stk w' = (Ret (2 + next_pid m), server_started w t)" by auto
  let ?m3 = "?m2\<lparr>procs := child_of ring ''./resp_handler'' [''./resp_handler'', three_chars 3] (2 + next_pid m) # procs ?m2, next_pid := 3 + next_pid m,
      os := server_started w t\<rparr>"
  from add_child_run [of ?m3 "[next_pid m, next_pid m + 1]" "2 + next_pid m"] k2(2) obtain k3 where
    k3: "add_child (2 + next_pid m) ?m3 = (Ret (), ?m3\<lparr>mem := k3\<rparr>)" "kids_are k3 [next_pid m, next_pid m + 1, 2 + next_pid m]" by auto
  have "server_main (beside ring () (ring_connection_main ip port)) stk n m = thn (accept_loop n 3) (safe_exit 3 0) (?m3\<lparr>mem := k3\<rparr>)" for n
    using k0(1) w1 k1(1) s a k2(1) b k3(1) m by (simp add: server_main_def bnd_def on_os_def)
  then show ?thesis using k3(2) m by (intro exI [of _ "?m3\<lparr>mem := k3\<rparr>"] exI [of _ t]) simp
qed

section \<open>Whatever calls fail\<close>

text \<open>
  \<open>clean p\<close>: started with a list of children in memory, \<open>p\<close> returns with one, exits or waits; it is never
  undefined and no assertion of \<^verbatim>\<open>list.c\<close> fails, whatever the system calls do.
\<close>

named_theorems clean "programs that never run into undefined behaviour"

definition fine_end :: "'a res \<Rightarrow> ('m, 's, kids) master \<Rightarrow> bool" where
  "fine_end r m \<longleftrightarrow> (case r of Ret _ \<Rightarrow> \<exists>ys. kids_are (mem m) ys | Undef \<Rightarrow> False | Abort \<Rightarrow> False | _ \<Rightarrow> True)"

definition clean :: "(('m, 's, kids) master, 'a) prog \<Rightarrow> bool" where
  "clean p \<longleftrightarrow> (\<forall>m xs. kids_are (mem m) xs \<longrightarrow> fine_end (fst (p m)) (snd (p m)))"

lemma cleanI: "(\<And>m xs r m'. kids_are (mem m) xs \<Longrightarrow> p m = (r, m') \<Longrightarrow> fine_end r m') \<Longrightarrow> clean p"
  by (simp add: clean_def)

lemma cleanD: "clean p \<Longrightarrow> kids_are (mem m) xs \<Longrightarrow> p m = (r, m') \<Longrightarrow> fine_end r m'"
  unfolding clean_def by fastforce

lemma clean_bind: "clean p \<Longrightarrow> (\<And>x. clean (f x)) \<Longrightarrow> clean (bnd p f)"
proof (rule cleanI)
  fix m xs r m'
  assume a: "clean p" "\<And>x. clean (f x)" "kids_are (mem m) xs" "bnd p f m = (r, m')"
  obtain r1 m1 where p: "p m = (r1, m1)" by (cases "p m")
  from cleanD [OF a(1,3) p] have fine: "fine_end r1 m1" .
  show "fine_end r m'"
  proof (cases r1)
    case (Ret x)
    with fine obtain ys where "kids_are (mem m1) ys" by (auto simp: fine_end_def)
    from cleanD [OF a(2) this] a(4) p Ret show ?thesis by (simp add: bnd_def)
  qed (use p fine a(4) in \<open>auto simp: bnd_def fine_end_def\<close>)
qed

lemma clean_plain:
  assumes "\<And>m. wp p (\<lambda>r m'. mem m' = mem m \<and> r \<noteq> Undef \<and> r \<noteq> Abort) m"
  shows "clean p"
proof (rule cleanI)
  fix m xs r m' assume "kids_are (mem m) xs" "p m = (r, m')"
  with assms [of m] show "fine_end r m'" by (auto simp: wp_def fine_end_def split: res.splits)
qed

lemma clean_basic [clean]:
  "clean (ret x)" "clean (stop (Exit c))" "clean (sys_close fd)" "clean (accept_client fd)"
  by (rule clean_plain; simp add: wp accept_client_def split: outcome.split option.split fd_state.split)+

lemma clean_socket [clean]: "clean (create_server_socket port)"
  by (rule clean_plain) (simp add: create_server_socket_def wp split: outcome.split option.split fd_state.split)

lemma clean_on_os: "(\<And>w. wp p (\<lambda>r _. r \<noteq> Undef \<and> r \<noteq> Abort) w) \<Longrightarrow> clean (on_os p)"
  by (rule clean_plain) simp

lemma clean_if [clean]: "(b \<Longrightarrow> clean p) \<Longrightarrow> (\<not> b \<Longrightarrow> clean q) \<Longrightarrow> clean (if b then p else q)"
  by simp

lemma clean_add [clean]: "clean (add_child pid)"
proof (rule cleanI)
  fix m :: "('a, 'b, kids) master" and xs r m' assume "kids_are (mem m) xs" "add_child pid m = (r, m')"
  with add_child_run [of m xs pid] show "fine_end r m'" by (auto simp: fine_end_def)
qed

lemma exits_clean: "(\<And>m xs. kids_are (mem m) xs \<Longrightarrow> \<exists>r m'. p m = (r, m') \<and> (r = Exit c \<or> r = Exit (-1) \<or> r = Blocked)) \<Longrightarrow> clean p"
  by (rule cleanI) (fastforce simp: fine_end_def)

lemma clean_safe_exit [clean]: "clean (safe_exit socket e)" "clean (safe_exit_db socket sem e)"
proof -
  show "clean (safe_exit socket e)"
    by (rule exits_clean [where c = e], drule safe_exit_run [where socket = socket and e = e], elim exE conjE, intro exI conjI)
  show "clean (safe_exit_db socket sem e)"
    by (rule exits_clean [where c = e], drule safe_exit_db_run [where socket = socket and sem = sem and e = e], elim exE conjE, intro exI conjI)
qed

lemma clean_execl [clean]: "clean p \<Longrightarrow> clean (execl path args p)"
  unfolding execl_def by (intro clean_bind clean_if clean_on_os clean_basic) simp_all

lemma clean_fork [clean]:
  assumes "clean child"
  shows "clean (fork child)"
proof (rule cleanI)
  fix m :: "('a, 'b, kids) master" and xs r' m' assume k: "kids_are (mem m) xs" and f: "fork child m = (r', m')"
  let ?c = "(called m)\<lparr>self := next_pid m, next_pid := next_pid m + 1, procs := \<lparr>p_pid = next_pid m, p_parent = self m, p_status = Forked\<rparr> # procs m\<rparr>"
  obtain r c where c: "child ?c = (r, c)" by (cases "child ?c")
  with cleanD [OF assms _ c] k have "r \<noteq> Undef" by (auto simp: fine_end_def)
  with f k c show "fine_end r' m'"
    by (auto simp: fork_def bnd_def on_os_def syscall_def Let_def fine_end_def split: if_splits)
qed

lemma clean_workers [clean]: "clean (create_workers n)"
  by (induction n) (auto intro!: clean_bind clean)

lemma clean_fork_handler [clean]: "clean (fork_req_handler socket client)"
  unfolding fork_req_handler_def by (auto intro!: clean_bind clean)

lemma clean_wait_ring [clean]: "clean (wait_ring_connection socket)"
  unfolding wait_ring_connection_def by (auto intro!: clean_bind clean)

lemma clean_accept_loop [clean]: "clean (accept_loop n socket)"
  by (induction n) (auto intro!: clean_bind clean)

lemma clean_setup [clean]: "clean (on_os create_global_ids)" "clean (on_os create_queues)" "clean (on_os (await_ring stk))"
  by (rule clean_on_os; simp add: create_global_ids_def global_ids_create_def create_queues_def await_ring_def wp
        split: prod.split option.split)+

lemma clean_beside [clean]: "clean (beside pid x p)"
  by (rule clean_plain) (simp add: beside_def wp_def split: prod.split)

lemma clean_db_step [clean]: "clean (db_server_step socket sem)"
  unfolding db_server_step_def by (auto intro!: clean_bind clean)

lemma clean_db_loop [clean]: "clean (db_server_loop n socket sem)"
  by (induction n) (auto intro!: clean_bind clean)

lemma no_return_exit: "no_return (safe_exit socket e)" "no_return (safe_exit_db socket sem e)"
  unfolding safe_exit_def safe_exit_db_def Let_def by (intro no_return_bind no_return_stop)+

lemma after_new_childs:
  assumes "nodes (kid_heap (mem m)) = Map.empty" "clean p" "no_return p"
  shows "\<exists>c m'. thn new_childs p m = (Exit c, m') \<or> thn new_childs p m = (Blocked, m')"
proof -
  from new_childs_run [OF assms(1)] obtain k where k: "new_childs m = (Ret (), m\<lparr>mem := k\<rparr>)" "kids_are k []" by blast
  obtain r m' where r: "p (m\<lparr>mem := k\<rparr>) = (r, m')" by (cases "p (m\<lparr>mem := k\<rparr>)")
  with cleanD [OF assms(2) _ r] k(2) have "fine_end r m'" by auto
  moreover have "r \<noteq> Ret x" for x using assms(3) r unfolding no_return_def by (metis fst_conv)
  ultimately show ?thesis using k(1) r by (cases r) (auto simp: fine_end_def bnd_def)
qed

section \<open>Properties\<close>

text \<open>The children of a server that was the process before \<open>p\<close> and accepted \<open>n\<close> clients, in the order of its list.\<close>

definition server_children :: "int \<Rightarrow> nat \<Rightarrow> int list" where
  "server_children p n = [p, p + 1] @ map (\<lambda>i. 3 + p + int i) [0..<n]"

text \<open>
  A server that serves: what it has recorded and who of it is its child; \<open>2 + p\<close> is the response handler
  of the ring.
\<close>

lemma server_main_serves:
  assumes "server_absent w" "started me w m" "ring \<noteq> me"
  shows "\<exists>m4 t. server_main (beside ring () (ring_connection_main ip port)) stk n m = safe_exit 3 0 m4
    \<and> os m4 = server_started w t \<and> env (os m4) = [] \<and> fds m4 = [(3, Listening PORT)] \<and> self m4 = me \<and> heeds m4 = heeds m
    \<and> map p_pid (procs m4) = rev (next_pid m # (next_pid m + 1) # (2 + next_pid m) # map (\<lambda>i. 3 + next_pid m + int i) [0..<n])
    \<and> (\<forall>p\<in>set (procs m4). p_parent p = (if p_pid p = 2 + next_pid m then ring else me) \<and> p_status p \<noteq> Told \<and> p_status p \<noteq> Ended)
    \<and> kids_are (mem m4) ([next_pid m, next_pid m + 1, 2 + next_pid m] @ map (\<lambda>i. 3 + next_pid m + int i) [0..<n])"
proof -
  let ?p = "next_pid m"
  from server_main_up [OF assms(1,2), of ring ip port stk] obtain m3 t where m3:
    "server_main (beside ring () (ring_connection_main ip port)) stk n m = thn (accept_loop n 3) (safe_exit 3 0) m3"
    "os m3 = server_started w t" "fds m3 = [(3, Listening PORT)]" "self m3 = me" "next_pid m3 = 3 + ?p" "heeds m3 = heeds m"
    "procs m3 = [child_of ring ''./resp_handler'' [''./resp_handler'', three_chars 3] (2 + ?p),
        req_handler_of me 4 (?p + 1), child_of me ''./worker'' [''./worker''] ?p]"
    "kids_are (mem m3) [?p, ?p + 1, 2 + ?p]" by blast
  have e: "env (os m3) = []" using server_absentD(1) [OF assms(1)] m3(2) by (simp add: server_started_def Let_def)
  have ok: "pids_ok m3" using m3(5,7) assms(2) by (simp add: pids_ok_def req_handler_of_def started_def)
  let ?new = "rev (map (\<lambda>i. req_handler_of me (free_fd (fds m3)) (3 + ?p + int i)) [0..<n])"
  from accept_loop_run [OF e ok m3(8), of 3 PORT n] m3(3,4,5) obtain k where
    k: "accept_loop n 3 m3 = (Ret (), m3\<lparr>procs := ?new @ procs m3, next_pid := 3 + ?p + int n, mem := k\<rparr>)"
    "kids_are k ([?p, ?p + 1, 2 + ?p] @ map (\<lambda>i. 3 + ?p + int i) [0..<n])" by auto
  let ?m4 = "m3\<lparr>procs := ?new @ procs m3, next_pid := 3 + ?p + int n, mem := k\<rparr>"
  have "map p_pid (procs ?m4) = rev (?p # (?p + 1) # (2 + ?p) # map (\<lambda>i. 3 + ?p + int i) [0..<n])"
    by (simp add: m3(7) req_handler_of_def rev_map [symmetric] comp_def)
  moreover have "\<forall>p\<in>set (procs ?m4). p_parent p = (if p_pid p = 2 + ?p then ring else me) \<and> p_status p \<noteq> Told \<and> p_status p \<noteq> Ended"
    by (auto simp: m3(7) req_handler_of_def)
  ultimately show ?thesis using m3(1,2,3,4,6) e k by (intro exI [of _ ?m4] exI [of _ t]) (simp add: bnd_def)
qed

lemma server_stubborn:
  assumes "map p_pid (procs m) = rev ([p, p + 1, 2 + p] @ map (\<lambda>i. 3 + p + int i) [0..<n])"
    "\<forall>q\<in>set (procs m). p_parent q = (if p_pid q = 2 + p then ring else me) \<and> p_status q \<noteq> Told \<and> p_status q \<noteq> Ended"
    "self m = me" "ring \<noteq> me" "x \<in> set ([p, p + 1, 2 + p] @ map (\<lambda>i. 3 + p + int i) [0..<n])"
  shows "stubborn m x \<longleftrightarrow> x \<in> set (server_children p n) \<and> \<not> heeds m x"
proof (cases "my_child me x (procs m)")
  case None
  have "x \<in> p_pid ` set (procs m)" using arg_cong [OF assms(1), of set] assms(5) by (simp only: set_map set_rev)
  then obtain q where "q \<in> set (procs m)" "p_pid q = x" by blast
  with None assms(2) have "x = 2 + p" by (auto simp: my_child_None split: if_splits)
  with None assms(3) show ?thesis by (auto simp: stubborn_def server_children_def)
next
  case (Some q)
  from my_child_Some [OF this] assms(2,4) have "x \<noteq> 2 + p" "p_status q \<noteq> Ended" by (auto split: if_splits)
  with Some assms(3,5) show ?thesis by (auto simp: stubborn_def server_children_def)
qed

text \<open>
  C20: A server that is started on a host without one, is connected to the ring, accepts any number of
  clients and is then told to stop, tells its children to stop and waits for them, one after the other.
  When each of them stops, it exits with 0 and leaves nothing behind: no descriptor, no node of its list, no
  key or object of its table and queues, and no child (what is left is the response handler of the ring,
  told to stop, which is not a child of the server).  When one does not, the server waits for it for
  ever: the children recorded after it are not even told, and the socket, the table and the queues remain.
\<close>

theorem server_leaves_nothing:
  "server_absent w \<Longrightarrow> started me w m \<Longrightarrow> ring \<noteq> me \<Longrightarrow>
   \<exists>r m'. server_main (beside ring () (ring_connection_main ip port)) stk n m = (r, m')
     \<and> (if \<forall>x\<in>set (server_children (next_pid m) n). heeds m x
        then r = Exit 0 \<and> fds m' = [] \<and> nodes (kid_heap (mem m')) = Map.empty
          \<and> (\<forall>p\<in>set (procs m'). p_parent p = ring \<and> p_status p = Told)
          \<and> ipc_keys (queues (os m')) = ipc_keys (queues w) \<and> ipc_objs (queues (os m')) = ipc_objs (queues w)
          \<and> ipc_keys (sems (os m')) = ipc_keys (sems w) \<and> ipc_objs (sems (os m')) = ipc_objs (sems w)
          \<and> ipc_keys (shms (os m')) = ipc_keys (shms w) \<and> ipc_objs (shms (os m')) = ipc_objs (shms w)
        else r = Blocked \<and> fds m' = [(3, Listening PORT)] \<and> (\<exists>t. os m' = server_started w t)
          \<and> (\<exists>x\<in>set (server_children (next_pid m) n). \<not> heeds m x
              \<and> (\<exists>p\<in>set (procs m'). p_pid p = x \<and> p_parent p = me \<and> p_status p = Told)
              \<and> (\<forall>p\<in>set (procs m'). x < p_pid p \<longrightarrow> p_status p \<noteq> Told \<and> p_status p \<noteq> Ended)))"
proof -
  assume a: "server_absent w" "started me w m" "ring \<noteq> me"
  let ?p = "next_pid m"
  let ?kids = "[?p, ?p + 1, 2 + ?p] @ map (\<lambda>i. 3 + ?p + int i) [0..<n]"
  from server_main_serves [OF a, of ip port stk n] obtain m4 t where m4:
    "server_main (beside ring () (ring_connection_main ip port)) stk n m = safe_exit 3 0 m4" "os m4 = server_started w t"
    "env (os m4) = []" "fds m4 = [(3, Listening PORT)]" "self m4 = me" "heeds m4 = heeds m" "map p_pid (procs m4) = rev ?kids"
    "\<forall>p\<in>set (procs m4). p_parent p = (if p_pid p = 2 + ?p then ring else me) \<and> p_status p \<noteq> Told \<and> p_status p \<noteq> Ended"
    "kids_are (mem m4) ?kids" by auto
  have pids: "p_pid ` set (procs m4) = set ?kids" using arg_cong [OF m4(7), of set] by (simp only: set_map set_rev)
  have alive: "stubborn m4 x \<longleftrightarrow> x \<in> set (server_children ?p n) \<and> \<not> heeds m x" if "x \<in> set ?kids" for x
    using server_stubborn [OF m4(7,8) _ a(3)] m4(5,6) that by simp
  from safe_exit_run [where 'a = unit, OF m4(9), of 3 0, unfolded m4(5)] obtain r m' where r: "(safe_exit 3 0 :: (server_main, unit) prog) m4 = (r, m')"
    "r \<noteq> Blocked \<longrightarrow> nodes (kid_heap (mem m')) = Map.empty"
    "(\<exists>x\<in>set ?kids. stubborn m4 x) \<longrightarrow> r = Blocked \<and> m' = snd (stop_children ?kids m4)"
    "(\<forall>x\<in>set ?kids. \<not> stubborn m4 x) \<longrightarrow> r \<noteq> Blocked \<and> procs m' = fold (reaped me) ?kids (procs m4)
        \<and> (fst (server_teardown (os m4)) = Ret () \<longrightarrow> r = Exit 0 \<and> fds m' = AList.delete 3 (fds m4) \<and> os m' = adv (snd (server_teardown (os m4))))"
    using m4(3) by blast
  show ?thesis
  proof (cases "\<forall>x\<in>set (server_children ?p n). heeds m x")
    case True
    then have h: "\<forall>x\<in>set ?kids. \<not> stubborn m4 x" using alive by blast
    from server_teardown_run [OF a(1), of t] obtain w'' where w'': "server_teardown (os m4) = (Ret (), w'')"
      "ipc_keys (queues w'') = ipc_keys (queues w)" "ipc_objs (queues w'') = ipc_objs (queues w)"
      "ipc_keys (sems w'') = ipc_keys (sems w)" "ipc_objs (sems w'') = ipc_objs (sems w)"
      "ipc_keys (shms w'') = ipc_keys (shms w)" "ipc_objs (shms w'') = ipc_objs (shms w)"
      unfolding m4(2) by blast
    have "p_parent p = ring \<and> p_status p = Told" if "p \<in> set (procs m')" for p
    proof -
      from that r(4) h have "p \<in> set (fold (reaped me) ?kids (procs m4))" by simp
      from fold_reapedD [OF this] obtain q where q: "q \<in> set (procs m4)" "left_by me (set ?kids) q p" by blast
      moreover have "p_pid q \<in> set ?kids" using pids q(1) by blast
      ultimately show ?thesis using m4(8) by (auto simp: left_by_def split: if_splits)
    qed
    with True h r w'' m4(1,4) show ?thesis by (intro exI [of _ r] exI [of _ m']) simp
  next
    case False
    then have "\<exists>x\<in>set ?kids. stubborn m4 x" using alive by (auto simp: server_children_def)
    from split_list_first_prop [OF this] obtain ys x zs where x: "?kids = ys @ x # zs" "stubborn m4 x" "\<forall>y\<in>set ys. \<not> stubborn m4 y" by blast
    have m': "r = Blocked" "m' = m4\<lparr>procs := tell x (fold (reaped me) ys (procs m4))\<rparr>"
    proof -
      have "\<exists>x\<in>set ?kids. stubborn m4 x" unfolding x(1) using x(2) by simp
      with r(3) have "r = Blocked" "m' = snd (stop_children ?kids m4)" by blast+
      then show "r = Blocked" "m' = m4\<lparr>procs := tell x (fold (reaped me) ys (procs m4))\<rparr>"
        unfolding x(1) stop_children_stuck [OF x(3,2)] m4(5) by simp_all
    qed
    have xk: "x \<in> set (server_children ?p n)" "\<not> heeds m x" using alive [of x] x(1,2) by (auto simp del: append_Cons)
    have "sorted_wrt (<) ?kids" by (auto simp: sorted_wrt_append sorted_wrt_map)
    then have before: "\<forall>y\<in>set ys. y < x" unfolding x(1) sorted_wrt_append by auto
    have "x \<in> set ?kids" unfolding x(1) by simp
    with pids obtain p where p: "p \<in> set (procs m4)" "p_pid p = x" by (metis imageE)
    have "x \<noteq> 2 + ?p" using xk(1) by (auto simp: server_children_def)
    with p m4(8) have p2: "p_parent p = me" "p_status p \<noteq> Ended" by auto
    have "p \<in> set (fold (reaped me) ys (procs m4))" using p before by (intro fold_reaped_keeps) auto
    then have told: "\<exists>p\<in>set (procs m'). p_pid p = x \<and> p_parent p = me \<and> p_status p = Told"
      using p(2) p2 by (intro bexI [of _ "p\<lparr>p_status := Told\<rparr>"]) (auto simp: m'(2) tell_def intro!: image_eqI [of _ _ p])
    have rest: "p_status q \<noteq> Told \<and> p_status q \<noteq> Ended" if "q \<in> set (procs m')" "x < p_pid q" for q
    proof -
      from that have "q \<in> set (fold (reaped me) ys (procs m4))" by (auto simp: m'(2) tell_def split: if_splits)
      from fold_reapedD [OF this] obtain q' where "q' \<in> set (procs m4)" "left_by me (set ys) q' q" by blast
      with that(2) before m4(8) show ?thesis by (auto simp: left_by_def split: if_splits)
    qed
    from False r(1) m4(1,2,4) m' xk told rest show ?thesis by (intro exI [of _ r] exI [of _ m']) auto
  qed
qed

definition no_kids :: kids where
  "no_kids = \<lparr>kid_list = \<lparr>l_length = 0, l_elementSize = 0, l_head = None, l_tail = None, l_freeFn = False\<rparr>,
     kid_heap = \<lparr>nodes = Map.empty, fresh = 0\<rparr>\<rparr>"

abbreviation new_server :: server_main where
  "new_server \<equiv> \<lparr>os = idle_host, self = 7, fds = [], procs = [], next_pid = 20, heeds = (\<lambda>_. True), mem = no_kids\<rparr>"

theorem server_leaves_nothing_witness:
  "(\<exists>m'. server_main (beside 5 () (ring_connection_main ''broker2'' 8080)) (request 0 0 '''') 4 new_server = (Exit 0, m') \<and> fds m' = [])
   \<and> (\<exists>m'. server_main (beside 5 () (ring_connection_main ''broker2'' 8080)) (request 0 0 '''') 4 (new_server\<lparr>heeds := \<lambda>p. p \<noteq> 24\<rparr>) = (Blocked, m')
        \<and> fds m' = [(3, Listening PORT)])"
proof
  have a: "server_absent (idle_host :: host)" by (simp add: server_absent_def idle_host_def wf_ipc_def wf_base_def)
  have "started 7 idle_host new_server" "started 7 idle_host (new_server\<lparr>heeds := \<lambda>p. p \<noteq> 24\<rparr>)" by (simp_all add: started_def no_kids_def)
  note run = this [THEN server_leaves_nothing [OF a, where ring = 5 and ip = "''broker2''" and port = 8080 and stk = "request 0 0 ''''" and n = 4]]
  show "\<exists>m'. server_main (beside 5 () (ring_connection_main ''broker2'' 8080)) (request 0 0 '''') 4 new_server = (Exit 0, m') \<and> fds m' = []"
    using run(1) by auto
  have "24 \<in> set (server_children 20 4)" by (auto simp: server_children_def intro!: image_eqI [of _ _ 1])
  then show "\<exists>m'. server_main (beside 5 () (ring_connection_main ''broker2'' 8080)) (request 0 0 '''') 4 (new_server\<lparr>heeds := \<lambda>p. p \<noteq> 24\<rparr>) = (Blocked, m')
        \<and> fds m' = [(3, Listening PORT)]"
    using run(2) by auto
qed

text \<open>
  The server starts one request handler per client, in order, and records each in its list; its own
  descriptors are the same after every client, so the descriptor that a handler inherits is always the
  same number, and as long as it has two digits the handler reads it back from its argument.
\<close>

theorem every_client_gets_handler:
  "env (os m) = [] \<Longrightarrow> pids_ok m \<Longrightarrow> kids_are (mem m) xs \<Longrightarrow> map_of (fds m) socket = Some (Listening port) \<Longrightarrow> length (fds m) < 97 \<Longrightarrow>
   \<exists>m' img. accept_loop n socket m = (Ret (), m') \<and> fds m' = fds m \<and> os m' = os m
     \<and> procs m' = rev (map (\<lambda>i. \<lparr>p_pid = next_pid m + int i, p_parent = self m, p_status = Runs img\<rparr>) [0..<n]) @ procs m
     \<and> kids_are (mem m') (xs @ map (\<lambda>i. next_pid m + int i) [0..<n])
     \<and> img_path img = ''./req_handler'' \<and> int_of_long (strtol10 (img_args img ! 1)) = free_fd (fds m)"
proof -
  assume a: "env (os m) = []" "pids_ok m" "kids_are (mem m) xs" "map_of (fds m) socket = Some (Listening port)" "length (fds m) < 97"
  let ?fd = "free_fd (fds m)"
  let ?img = "\<lparr>img_path = ''./req_handler'', img_args = [''./req_handler'', three_chars ?fd]\<rparr>"
  have "0 \<le> ?fd" "?fd < 100" using free_fd_range [of "fds m"] a(5) by linarith+
  then have "int_of_long (strtol10 (three_chars ?fd)) = ?fd" by (simp add: three_chars_small is_int32_def)
  moreover from accept_loop_run [OF a(1-4), of n] obtain k where
    "accept_loop n socket m = (Ret (), m\<lparr>procs := rev (map (\<lambda>i. req_handler_of (self m) ?fd (next_pid m + int i)) [0..<n]) @ procs m,
       next_pid := next_pid m + int n, mem := k\<rparr>)" "kids_are k (xs @ map (\<lambda>i. next_pid m + int i) [0..<n])" by blast
  ultimately show ?thesis
    by (intro exI [of _ "m\<lparr>procs := rev (map (\<lambda>i. req_handler_of (self m) ?fd (next_pid m + int i)) [0..<n]) @ procs m,
       next_pid := next_pid m + int n, mem := k\<rparr>"] exI [of _ ?img]) (simp add: req_handler_of_def)
qed

text \<open>A list of one child.\<close>

definition one_kid :: kids where
  "one_kid = \<lparr>kid_list = \<lparr>l_length = 1, l_elementSize = 4, l_head = Some 0, l_tail = Some 0, l_freeFn = False\<rparr>,
     kid_heap = \<lparr>nodes = [0 \<mapsto> \<lparr>n_data = 20, n_next = None\<rparr>], fresh = 1\<rparr>\<rparr>"

lemma one_kid_is: "kids_are one_kid [20]"
  unfolding kids_are_def one_kid_def by (intro exI [of _ "[0]"]) (auto simp: owns_def tail_last_def)

abbreviation serving_server :: "host \<Rightarrow> server_main" where
  "serving_server w \<equiv> \<lparr>os = w, self = 7, fds = [(3, Listening PORT)], procs = [child_of 7 ''./worker'' [] 20], next_pid = 21, heeds = (\<lambda>_. True), mem = one_kid\<rparr>"

theorem every_client_gets_handler_witness:
  "\<exists>m' img. accept_loop 2 3 (serving_server idle_host) = (Ret (), m')
     \<and> map p_status (procs m') = [Runs img, Runs img, Runs \<lparr>img_path = ''./worker'', img_args = []\<rparr>]
     \<and> kids_are (mem m') [20, 21, 22] \<and> int_of_long (strtol10 (img_args img ! 1)) = 4"
proof -
  let ?m = "serving_server idle_host"
  have "env (os ?m) = []" "pids_ok ?m" "kids_are (mem ?m) [20]" "map_of (fds ?m) 3 = Some (Listening PORT)" "length (fds ?m) < 97"
    using one_kid_is by (simp_all add: idle_host_def pids_ok_def)
  moreover have "free_fd [(3, Listening PORT)] = 4" "[0..<2] = [0, 1]" by (simp_all add: free_fd_def upto.simps upt_rec)
  ultimately show ?thesis using every_client_gets_handler [of ?m "[20]" 3 PORT 2] by fastforce
qed

text \<open>
  C23: When the program of a request handler cannot be executed, the forked child goes on with
  \<open>safe_exit\<close>: it tells every child of the server to stop, its worker included, without being able to wait
  for them (they are not its own), and destroys the queues and the table of the server, which goes on to
  accept clients as if nothing had happened.
\<close>

theorem failed_exec_stops_server:
  "server_absent w \<Longrightarrow> os m = (server_started w t)\<lparr>env := [Ok, Ok, Fail]\<rparr> \<Longrightarrow> pids_ok m \<Longrightarrow> kids_are (mem m) xs \<Longrightarrow>
   next_pid m \<noteq> self m \<and> (\<forall>p\<in>set (procs m). p_parent p \<noteq> next_pid m) \<Longrightarrow>
   \<exists>m' h. fork_req_handler socket client m = (Ret (), m') \<and> kids_are (mem m') (xs @ [h]) \<and> fds m' = AList.delete client (fds m)
     \<and> (\<forall>p\<in>set (procs m'). (p_pid p = h \<longrightarrow> p_status p = Ended) \<and> (p_pid p \<in> set xs \<longrightarrow> p_status p = Told \<or> p_status p = Ended))
     \<and> ipc_keys (queues (os m')) = ipc_keys (queues w) \<and> ipc_keys (shms (os m')) = ipc_keys (shms w) \<and> ipc_keys (sems (os m')) = ipc_keys (sems w)"
proof -
  assume a: "server_absent w" "os m = (server_started w t)\<lparr>env := [Ok, Ok, Fail]\<rparr>" "pids_ok m" "kids_are (mem m) xs"
    "next_pid m \<noteq> self m \<and> (\<forall>p\<in>set (procs m). p_parent p \<noteq> next_pid m)"
  let ?h = "next_pid m" and ?w = "server_started w t"
  have e0: "env ?w = []" using server_absentD(1) [OF a(1)] by (simp add: server_started_def Let_def)
  define c where "c = m\<lparr>self := ?h, next_pid := ?h + 1, procs := \<lparr>p_pid = ?h, p_parent = self m, p_status = Forked\<rparr> # procs m, os := ?w,
      fds := AList.delete socket (fds m)\<rparr>"
  from server_teardown_run [OF a(1), of t] obtain w'' where w'': "server_teardown ?w = (Ret (), w'')"
    "ipc_keys (queues w'') = ipc_keys (queues w)" "ipc_keys (sems w'') = ipc_keys (sems w)" "ipc_keys (shms w'') = ipc_keys (shms w)" by blast
  have "\<not> stubborn c x" for x using a(5) my_child_None [of ?h x "procs c"] by (simp add: stubborn_def c_def)
  with safe_exit_run [of c xs socket "-1"] a(4) obtain c' where
    c': "(safe_exit socket (-1) :: (server_main, image) prog) c = (Exit (-1), c')" "next_pid c' = ?h + 1"
    "procs c' = fold (reaped ?h) xs (procs c)" "os c' = adv w''"
    using w''(1) e0 by (auto simp: c_def)
  let ?m0 = "m\<lparr>os := ?w\<lparr>env := [Ok, Fail]\<rparr>, self := ?h, next_pid := ?h + 1, procs := \<lparr>p_pid = ?h, p_parent = self m, p_status = Forked\<rparr> # procs m\<rparr>"
  have child: "thn (sys_close socket) (execl path args (safe_exit socket (-1))) ?m0 = safe_exit socket (-1) c" for path args
  proof -
    let ?m1 = "(called ?m0)\<lparr>fds := AList.delete socket (fds m)\<rparr>"
    obtain r where "sys_close socket ?m0 = (Ret r, ?m1)" using sys_close_run [of socket ?m0] by auto
    moreover have "called ?m1 = c" using e0 by (intro master.equality) (simp_all add: c_def)
    ultimately show ?thesis by (simp add: execl_def bnd_def on_os_def syscall_def)
  qed
  let ?ps = "set_status ?h Ended (procs c')"
  let ?m1 = "m\<lparr>os := adv w'', procs := ?ps, next_pid := ?h + 1\<rparr>"
  have f: "fork (thn (sys_close socket) (execl path args (safe_exit socket (-1)))) m = (Ret ?h, ?m1)" for path args
    using child [of path args] c' a(2) by (simp add: fork_def bnd_def on_os_def syscall_def Let_def)
  from add_child_run [of ?m1 xs ?h] a(4) obtain k where
    k: "add_child ?h ?m1 = (Ret (), ?m1\<lparr>mem := k\<rparr>)" "kids_are k (xs @ [?h])" by auto
  from sys_close_run [of client "?m1\<lparr>mem := k\<rparr>"] obtain r where
    r: "sys_close client (?m1\<lparr>mem := k\<rparr>) = (Ret r, (called (?m1\<lparr>mem := k\<rparr>))\<lparr>fds := AList.delete client (fds m)\<rparr>)" by auto
  let ?m' = "(called (?m1\<lparr>mem := k\<rparr>))\<lparr>fds := AList.delete client (fds m)\<rparr>"
  have "fork_req_handler socket client m = (Ret (), ?m')"
    using f k(1) r a(3) by (simp add: fork_req_handler_def bnd_def ret_def pids_ok_def)
  moreover have "(p_pid p = ?h \<longrightarrow> p_status p = Ended) \<and> (p_pid p \<in> set xs \<longrightarrow> p_status p = Told \<or> p_status p = Ended)"
    if "p \<in> set ?ps" for p
  proof -
    from that obtain q where q: "q \<in> set (procs c')" "p = (if p_pid q = ?h then q\<lparr>p_status := Ended\<rparr> else q)"
      by (auto simp: set_status_def)
    with fold_reapedD [OF q(1) [unfolded c'(3)]] show ?thesis by (auto simp: left_by_def split: if_splits)
  qed
  ultimately show ?thesis using k(2) w''(2,3,4) by (intro exI [of _ ?m'] exI [of _ ?h]) simp
qed

theorem failed_exec_stops_server_witness:
  "\<exists>m' h. fork_req_handler 3 4 (serving_server ((server_started idle_host no_globals)\<lparr>env := [Ok, Ok, Fail]\<rparr>)) = (Ret (), m')
     \<and> ipc_keys (queues (os m')) 0 = None \<and> kids_are (mem m') [20, h]"
proof -
  let ?m = "serving_server ((server_started idle_host no_globals)\<lparr>env := [Ok, Ok, Fail]\<rparr>)"
  have "server_absent (idle_host :: host)" by (simp add: server_absent_def idle_host_def wf_ipc_def wf_base_def)
  moreover have "os ?m = (server_started idle_host no_globals)\<lparr>env := [Ok, Ok, Fail]\<rparr>" "pids_ok ?m" "kids_are (mem ?m) [20]"
    "next_pid ?m \<noteq> self ?m \<and> (\<forall>p\<in>set (procs ?m). p_parent p \<noteq> next_pid ?m)"
    using one_kid_is by (simp_all add: pids_ok_def)
  ultimately show ?thesis
    using failed_exec_stops_server [of idle_host ?m no_globals "[20]" 3 4] by (fastforce simp: idle_host_def)
qed

text \<open>
  C21: Whatever system calls fail and whatever the other processes do, the main functions of the server
  and of the database end with \<^verbatim>\<open>exit\<close> or wait for a connection, a message or a child: the list of children is never
  used after it was freed, no child is waited for that was not told to end, and nothing is undefined.
\<close>

theorem main_functions_exit_or_wait:
  "nodes (kid_heap (mem m)) = Map.empty \<Longrightarrow> nodes (kid_heap (mem d)) = Map.empty \<Longrightarrow>
   (\<exists>c m'. server_main (beside pid x p) stk n m = (Exit c, m') \<or> server_main (beside pid x p) stk n m = (Blocked, m'))
   \<and> (\<exists>c d'. db_server_main n d = (Exit c, d') \<or> db_server_main n d = (Blocked, d'))"
proof
  assume m: "nodes (kid_heap (mem m)) = Map.empty" and d: "nodes (kid_heap (mem d)) = Map.empty"
  show "\<exists>c m'. server_main (beside pid x p) stk n m = (Exit c, m') \<or> server_main (beside pid x p) stk n m = (Blocked, m')"
    unfolding server_main_def
    by (rule after_new_childs [OF m]; intro clean_bind clean no_return_bind no_return_if no_return_stop no_return_exit)
  let ?rest = "\<lambda>sem. bnd (create_server_socket DB_PORT) (\<lambda>socket.
     if socket < 0 then safe_exit_db socket sem (-1) else thn (db_server_loop n socket sem) (safe_exit_db socket sem 0))"
  have rest: "clean (?rest sem)" "no_return (?rest sem)" for sem
    by (intro clean_bind clean no_return_bind no_return_if no_return_stop no_return_exit)+
  from returns_calls(7) [where k = DB_SEM] obtain sem w where s: "creasem DB_SEM (os d) = (Ret sem, w)" unfolding returns_def by blast
  from returns_calls(8) [where s = sem and n = 1] obtain j w' where i: "inisem sem 1 w = (Ret j, w')" unfolding returns_def by blast
  from after_new_childs [OF _ rest, of "d\<lparr>os := w'\<rparr>" sem] d s i
  show "\<exists>c d'. db_server_main n d = (Exit c, d') \<or> db_server_main n d = (Blocked, d')"
    by (auto simp: db_server_main_def bnd_def on_os_def stop_def)
qed

theorem main_functions_exit_or_wait_witness:
  "\<exists>c m'. server_main (beside 5 () (ring_connection_main ''broker2'' 8080)) (request 0 0 '''') 4 (new_server\<lparr>os := idle_host\<lparr>env := [Ok, Part 3, Fail]\<rparr>\<rparr>) = (Exit c, m')
     \<or> server_main (beside 5 () (ring_connection_main ''broker2'' 8080)) (request 0 0 '''') 4 (new_server\<lparr>os := idle_host\<lparr>env := [Ok, Part 3, Fail]\<rparr>\<rparr>) = (Blocked, m')"
  using main_functions_exit_or_wait [of "new_server\<lparr>os := idle_host\<lparr>env := [Ok, Part 3, Fail]\<rparr>\<rparr>" new_server 5 "()"
      "ring_connection_main ''broker2'' 8080" "request 0 0 ''''" 4] by (simp add: no_kids_def)

text \<open>
  The database process that is started on a host without one, accepts any number of connections and is
  told to stop, exits with 0 if the handlers it started stop when they are told; then it has reaped each of
  them, freed its list, closed its sockets and removed its semaphore.
\<close>

theorem db_server_leaves_nothing:
  "env (os m) = [] \<Longrightarrow> wf_ipc (sems (os m)) \<Longrightarrow> wf_base (dirkey (os m)) \<Longrightarrow> ipc_keys (sems (os m)) (ftok_key (dirkey (os m)) DB_SEM) = None \<Longrightarrow>
   fds m = [] \<Longrightarrow> procs m = [] \<Longrightarrow> 0 < next_pid m \<Longrightarrow> nodes (kid_heap (mem m)) = Map.empty \<Longrightarrow>
   \<forall>i<n. heeds m (next_pid m + int i) \<Longrightarrow>
   \<exists>m'. db_server_main n m = (Exit 0, m') \<and> fds m' = [] \<and> procs m' = [] \<and> nodes (kid_heap (mem m')) = Map.empty
     \<and> ipc_keys (sems (os m')) = ipc_keys (sems (os m)) \<and> ipc_objs (sems (os m')) = ipc_objs (sems (os m))
     \<and> queues (os m') = queues (os m) \<and> shms (os m') = shms (os m) \<and> files (os m') = files (os m)"
proof -
  assume a: "env (os m) = []" "wf_ipc (sems (os m))" "wf_base (dirkey (os m))" "ipc_keys (sems (os m)) (ftok_key (dirkey (os m)) DB_SEM) = None"
    "fds m = []" "procs m = []" "0 < next_pid m" "nodes (kid_heap (mem m)) = Map.empty" "\<forall>i<n. heeds m (next_pid m + int i)"
  let ?w = "os m" and ?i = "ipc_next (sems (os m))" and ?p = "next_pid m"
  let ?w1 = "?w\<lparr>sems := ipc_put ?i 1 (with_objs [(ftok_key (dirkey ?w) DB_SEM, 0)] (sems ?w))\<rparr>"
  have i: "\<not> ?i < 0" using wf_ipc_old(3) [OF a(2)] by simp
  have "bnd (creasem DB_SEM) (\<lambda>sem. thn (inisem sem 1) (ret sem)) ?w = (Ret ?i, ?w1)"
    using a(1-4) by (intro wp_eqI) (simp add: wp ipc_create_fresh with_objs_simps)
  then obtain j w0 where s: "creasem DB_SEM ?w = (Ret ?i, w0)" "inisem ?i 1 w0 = (Ret j, ?w1)"
    by (auto simp: bnd_def ret_def split: prod.splits res.splits)
  from new_childs_run [of "m\<lparr>os := ?w1\<rparr>"] a(8) obtain k0 where
    k0: "new_childs (m\<lparr>os := ?w1\<rparr>) = (Ret (), m\<lparr>os := ?w1, mem := k0\<rparr>)" "kids_are k0 []" by auto
  let ?m1 = "m\<lparr>os := ?w1, mem := k0, fds := [(3, Listening DB_PORT)]\<rparr>"
  have c: "create_server_socket DB_PORT (m\<lparr>os := ?w1, mem := k0\<rparr>) = (Ret 3, ?m1)"
    using create_server_socket_run [of "m\<lparr>os := ?w1, mem := k0\<rparr>" DB_PORT] a(1,5) by (simp add: free_fd_def upto.simps)
  let ?new = "rev (map (\<lambda>i. db_handler_of (self m) (free_fd (fds ?m1)) (?p + int i)) [0..<n])"
  from db_server_loop_run [of ?m1 "[]" 3 DB_PORT n ?i] a(1,6,7) k0(2) obtain k where
    k: "db_server_loop n 3 ?i ?m1 = (Ret (), ?m1\<lparr>procs := ?new, next_pid := ?p + int n, mem := k\<rparr>)" "kids_are k (map (\<lambda>i. ?p + int i) [0..<n])"
    by (auto simp: pids_ok_def)
  let ?m2 = "?m1\<lparr>procs := ?new, next_pid := ?p + int n, mem := k\<rparr>"
  have sem: "ipc_objs (sems ?w1) ?i \<noteq> None" by simp
  have "\<not> stubborn ?m2 x" if "x \<in> set (map (\<lambda>i. ?p + int i) [0..<n])" for x
    using that a(9) by (auto simp: stubborn_def split: option.split)
  with safe_exit_db_run [of ?m2 "map (\<lambda>i. ?p + int i) [0..<n]" 3 ?i 0] k(2) a(1) sem obtain m' where
    m': "(safe_exit_db 3 ?i 0 :: (('a, 'b, kids) master, unit) prog) ?m2 = (Exit 0, m')" "fds m' = AList.delete 3 (fds ?m1)"
    "nodes (kid_heap (mem m')) = Map.empty" "procs m' = fold (reaped (self m)) (map (\<lambda>i. ?p + int i) [0..<n]) ?new" "os m' = snd (delsem ?i ?w1)"
    by (fastforce simp: with_objs_simps)
  have none: "procs m' = []"
  proof (rule ccontr)
    assume "procs m' \<noteq> []"
    then have "hd (procs m') \<in> set (procs m')" by simp
    from fold_reapedD [OF this [unfolded m'(4)]] show False by (auto simp: left_by_def db_handler_of_def split: if_splits)
  qed
  have run: "db_server_main n m = (Exit 0, m')"
    using s k0(1) c k(1) m'(1) i by (simp add: db_server_main_def bnd_def on_os_def)
  note old = wf_ipc_old(1,2) [OF a(2)]
  have "wp (delsem ?i) (\<lambda>r w''. ipc_keys (sems w'') = ipc_keys (sems ?w) \<and> ipc_objs (sems w'') = ipc_objs (sems ?w)
      \<and> queues w'' = queues ?w \<and> shms w'' = shms ?w \<and> files w'' = files ?w) ?w1"
    using a(1,4) old by (auto simp: wp ipc_remove_def with_objs_simps fun_eq_iff)
  then show ?thesis using run none m' by (intro exI [of _ m']) (simp add: wp_run)
qed

theorem db_server_leaves_nothing_witness:
  "\<exists>m'. db_server_main 3 new_server = (Exit 0, m') \<and> fds m' = [] \<and> procs m' = []"
  using db_server_leaves_nothing [of new_server 3] by (auto simp: idle_host_def no_kids_def wf_ipc_def wf_base_def)

section \<open>A connection from its first message to its loss\<close>

text \<open>The system calls of a request handler for a list of messages: a read each, and a \<open>msgsnd\<close> for what is queued.\<close>

definition handler_calls :: "msg_t list \<Rightarrow> nat" where
  "handler_calls ms = length ms
     + length (filter (\<lambda>m. msg_type m \<notin> {ACK_OK, ACK_ERROR, ACK_CREATE, ACK_DESTROY, ACK_NO_MSG, RECEIVE}) ms)"

lemma socket_receive_ok:
  assumes "env w = Ok # e" "wf_msg m" "available w fd = encode_msg m @ later"
  shows "socket_receive fd stk w = (Ret (int sizeof_msg, m), w\<lparr>env := e, got := (got w)(fd := got w fd + sizeof_msg)\<rparr>)"
proof -
  have "available w fd \<noteq> []" "length (encode_msg m) = sizeof_msg" "decode_msg (encode_msg m) = m"
    using assms(3) length_encode_msg [OF assms(2)] decode_encode_msg [OF assms(2)] by (auto simp: sizeof_msg_def)
  with assms(1,3) show ?thesis
    by (intro wp_eqI) (auto simp: socket_receive_def receive_struct_def receive_from.simps wp_sock_read sizeof_msg_def Let_def)
qed

lemma req_handler_step_ok:
  assumes "env w = replicate (handler_calls [m]) Ok @ e" "ipc_objs (queues w) wq = Some q" "wf_msg m" "available w fd = encode_msg m @ later"
  shows "req_handler_step stk fd wq pid w = (Ret True, w\<lparr>env := e, queues := ipc_put wq (q @ accepted pid [m]) (queues w),
    got := (got w)(fd := got w fd + sizeof_msg)\<rparr>)"
proof -
  obtain k where k: "handler_calls [m] = Suc k" "k = (if msg_type m \<in> {ACK_OK, ACK_ERROR, ACK_CREATE, ACK_DESTROY, ACK_NO_MSG, RECEIVE} then 0 else 1)"
    by (simp add: handler_calls_def)
  let ?w = "w\<lparr>env := replicate k Ok @ e, got := (got w)(fd := got w fd + sizeof_msg)\<rparr>"
  have "socket_receive fd stk w = (Ret (int sizeof_msg, m), ?w)" using assms(1,3,4) k(1) by (intro socket_receive_ok) simp_all
  moreover have "process_message_rq wq m pid ?w = (Ret (), ?w\<lparr>env := e, queues := ipc_put wq (q @ accepted pid [m]) (queues w)\<rparr>)"
    using assms(2) k(2) by (intro wp_eqI) (simp add: process_message_rq_def wp accepted_def Let_def)
  ultimately show ?thesis by (simp add: req_handler_step_def bnd_def ret_def sizeof_msg_def)
qed

text \<open>A read that fails or finds the connection closed ends the loop, whatever turns would follow.\<close>

lemma req_handler_step_lost:
  assumes "env w = x # e" "x = Part 0 \<or> x = Fail"
  shows "req_handler_step stk fd wq pid w = (Ret False, w\<lparr>env := e\<rparr>)"
  using assms
  by (intro wp_eqI) (auto simp: req_handler_step_def socket_receive_def receive_struct_def receive_from.simps [of fd _ 0] wp sizeof_msg_def)

lemma handler_calls_Cons: "handler_calls (m # ms) = handler_calls [m] + handler_calls ms"
  by (simp add: handler_calls_def)

lemma req_handler_loop_lost:
  assumes "env w = replicate (handler_calls ms) Ok @ [x]" "x = Part 0 \<or> x = Fail" "ipc_objs (queues w) wq = Some q"
    "available w fd = concat (map encode_msg ms)" "\<forall>m\<in>set ms. wf_msg m" "length stks = length ms"
  shows "req_handler_loop (stks @ stk # later_stks) fd wq pid w =
    (Ret (), w\<lparr>env := [], queues := ipc_put wq (q @ accepted pid ms) (queues w), got := (got w)(fd := got w fd + sizeof_msg * length ms)\<rparr>)"
  using assms(1,3-)
proof (induction ms arbitrary: w q stks)
  case Nil
  with assms(2) req_handler_step_lost [of w x "[]"] show ?case by (simp add: bnd_def ret_def accepted_def handler_calls_def)
next
  case (Cons m ms)
  obtain s ss where ss: "stks = s # ss" using Cons.prems(5) by (cases stks) auto
  have wf: "wf_msg m" using Cons.prems(4) by simp
  let ?w1 = "w\<lparr>env := replicate (handler_calls ms) Ok @ [x], queues := ipc_put wq (q @ accepted pid [m]) (queues w),
    got := (got w)(fd := got w fd + sizeof_msg)\<rparr>"
  have step: "req_handler_step s fd wq pid w = (Ret True, ?w1)"
    using Cons.prems(1,2,3) wf by (intro req_handler_step_ok [where later = "concat (map encode_msg ms)"])
      (simp_all add: handler_calls_Cons [of m ms] replicate_add)
  have "available ?w1 fd = drop sizeof_msg (available w fd)" by (simp add: available_def add.commute)
  then have "available ?w1 fd = concat (map encode_msg ms)" using Cons.prems(3) length_encode_msg [OF wf] by simp
  then have "req_handler_loop (ss @ stk # later_stks) fd wq pid ?w1 = (Ret (), ?w1\<lparr>env := [], queues := ipc_put wq ((q @ accepted pid [m]) @ accepted pid ms) (queues ?w1),
      got := (got ?w1)(fd := got ?w1 fd + sizeof_msg * length ms)\<rparr>)"
    using Cons.prems(4,5) ss by (intro Cons.IH) simp_all
  moreover have "?w1\<lparr>env := [], queues := ipc_put wq ((q @ accepted pid [m]) @ accepted pid ms) (queues ?w1),
      got := (got ?w1)(fd := got ?w1 fd + sizeof_msg * length ms)\<rparr>
    = w\<lparr>env := [], queues := ipc_put wq (q @ accepted pid (m # ms)) (queues w), got := (got w)(fd := got w fd + sizeof_msg * length (m # ms))\<rparr>"
    by (rule world.equality) (simp_all add: fun_eq_iff accepted_Cons [of pid m ms])
  ultimately show ?case using step unfolding ss append_Cons by (simp only: req_handler_loop.simps bnd_def prod.case res.case if_True)
qed

text \<open>
  C22: A request handler that the server started with a descriptor of at most two digits reads that
  descriptor from its argument, starts a response handler and queues for the worker what arrives on the
  connection, creations under the identifier of that response handler.  When the connection is lost (a read
  finds it closed, or fails) it leaves its loop, tells the response handler to stop and waits for it; when
  that one stops it is reaped and the socket closed, and when it does not, the request handler waits for
  ever with the socket open.
\<close>

theorem request_handler_serves_connection:
  "env (os m) = replicate (4 + handler_calls ms) Ok @ [x] \<Longrightarrow> x = Part 0 \<or> x = Fail \<Longrightarrow>
   pids_ok m \<Longrightarrow> 0 \<le> fd \<Longrightarrow> fd < 100 \<Longrightarrow> wf_base (dirkey (os m)) \<Longrightarrow>
   ipc_keys (queues (os m)) (ftok_key (dirkey (os m)) WORKER_QUEUE) = Some wq \<Longrightarrow> 0 \<le> wq \<Longrightarrow> ipc_objs (queues (os m)) wq = Some q \<Longrightarrow>
   available (os m) fd = concat (map encode_msg ms) \<Longrightarrow> \<forall>x\<in>set ms. wf_msg x \<Longrightarrow> length stks = length ms \<Longrightarrow>
   \<exists>r m'. req_handler_main [path, three_chars fd] (stks @ stk # later_stks) m = (r, m')
     \<and> ipc_objs (queues (os m')) wq = Some (q @ accepted (next_pid m) ms) \<and> available (os m') fd = []
     \<and> (if heeds m (next_pid m) then r = Ret () \<and> procs m' = procs m \<and> fds m' = AList.delete fd (fds m)
        else r = Blocked \<and> procs m' = \<lparr>p_pid = next_pid m, p_parent = self m, p_status = Told\<rparr> # procs m \<and> fds m' = fds m)"
proof -
  assume a: "env (os m) = replicate (4 + handler_calls ms) Ok @ [x]" "x = Part 0 \<or> x = Fail"
    "pids_ok m" "0 \<le> fd" "fd < 100" "wf_base (dirkey (os m))"
    "ipc_keys (queues (os m)) (ftok_key (dirkey (os m)) WORKER_QUEUE) = Some wq" "0 \<le> wq" "ipc_objs (queues (os m)) wq = Some q"
    "available (os m) fd = concat (map encode_msg ms)" "\<forall>x\<in>set ms. wf_msg x" "length stks = length ms"
  let ?pid = "next_pid m" and ?e = "replicate (handler_calls ms) Ok @ [x]"
  have e: "env (os m) = Ok # Ok # Ok # Ok # ?e" using a(1) by (simp add: eval_nat_numeral)
  have pid: "\<not> ?pid < 0" "?pid \<notin> p_pid ` set (procs m)" using a(3) by (auto simp: pids_ok_def)
  have arg: "int_of_long (strtol10 (three_chars fd)) = fd" using three_chars_small [OF a(4,5)] a(4,5) by (simp add: is_int32_def)
  let ?m1 = "m\<lparr>os := (os m)\<lparr>env := Ok # Ok # ?e\<rparr>, procs := child_of (self m) ''./resp_handler'' [''./resp_handler'', three_chars fd] ?pid # procs m, next_pid := ?pid + 1\<rparr>"
  have c: "create_resp_handler_rq fd m = (Ret ?pid, ?m1)"
    using pid by (simp add: create_resp_handler_rq_def fork_def execl_def bnd_def ret_def on_os_def syscall_def Let_def e set_status_id)
  have g: "get_worker_queue_rq (os ?m1) = (Ret wq, (os m)\<lparr>env := ?e\<rparr>)"
    using a(6-8) by (intro wp_eqI) (simp add: get_worker_queue_rq_def wp ipc_get_def)
  let ?w = "(os m)\<lparr>env := [], queues := ipc_put wq (q @ accepted ?pid ms) (queues (os m)), got := (got (os m))(fd := got (os m) fd + sizeof_msg * length ms)\<rparr>"
  have l: "req_handler_loop (stks @ stk # later_stks) fd wq ?pid ((os m)\<lparr>env := ?e\<rparr>) = (Ret (), ?w)"
    using a by (subst req_handler_loop_lost [where ms = ms and x = x and q = q]) simp_all
  let ?m2 = "?m1\<lparr>os := ?w\<rparr>"
  have rest: "req_handler_main [path, three_chars fd] (stks @ stk # later_stks) m = thn (stop_process ?pid) (thn (sys_close fd) (ret ())) ?m2"
    using arg c g l unfolding req_handler_main_def stop_process_inline by (simp add: bnd_def on_os_def)
  have s: "stubborn ?m2 ?pid \<longleftrightarrow> \<not> heeds m ?pid" by (simp add: stubborn_def my_child_def)
  have "length (concat (map encode_msg ms)) = sizeof_msg * length ms"
    using a(11) by (induction ms) (simp_all add: length_encode_msg)
  moreover have "available ?w fd = drop (sizeof_msg * length ms) (available (os m) fd)" by (simp add: available_def add.commute)
  ultimately have av: "available ?w fd = []" using a(10) by simp
  show ?thesis
  proof (cases "heeds m ?pid")
    case True
    have p: "reaped (self m) ?pid (procs ?m2) = procs m" using a(3) by simp
    from sys_close_run [of fd "?m2\<lparr>procs := procs m\<rparr>"] obtain r where
      "sys_close fd (?m2\<lparr>procs := procs m\<rparr>) = (Ret r, (called (?m2\<lparr>procs := procs m\<rparr>))\<lparr>fds := AList.delete fd (fds m)\<rparr>)" by auto
    with True rest stop_process_run [of ?m2 ?pid] s p av show ?thesis
      by (intro exI [of _ "Ret ()"] exI [of _ "(called (?m2\<lparr>procs := procs m\<rparr>))\<lparr>fds := AList.delete fd (fds m)\<rparr>"]) (simp add: bnd_def ret_def)
  next
    case False
    have p: "tell ?pid (procs ?m2) = \<lparr>p_pid = ?pid, p_parent = self m, p_status = Told\<rparr> # procs m" using pid(2) by (simp add: tell_id)
    from False rest stop_process_run [of ?m2 ?pid] s p av show ?thesis
      by (intro exI [of _ Blocked] exI [of _ "?m2\<lparr>procs := tell ?pid (procs ?m2)\<rparr>"]) (simp add: bnd_def)
  qed
qed

abbreviation lost_client :: "(int \<Rightarrow> bool) \<Rightarrow> (msg_t, global_ids_t, unit) master" where
  "lost_client h \<equiv> \<lparr>os = idle_host\<lparr>env := replicate 6 Ok @ [Part 0], queues := \<lparr>ipc_keys = [ftok_key 1 WORKER_QUEUE \<mapsto> 0], ipc_objs = [0 \<mapsto> []], ipc_next = 1\<rparr>,
     peer := (\<lambda>_ _. encode_msg (request CREATE 12 ''''))\<rparr>, self = 30, fds = [(4, Connected)], procs = [], next_pid = 77, heeds = h, mem = ()\<rparr>"

theorem request_handler_serves_connection_witness:
  "(\<exists>m'. req_handler_main [''./req_handler'', three_chars 4] (replicate 9 (request 0 0 '''')) (lost_client (\<lambda>_. True)) = (Ret (), m')
     \<and> ipc_objs (queues (os m')) 0 = Some [request CREATE 77 ''''] \<and> procs m' = [] \<and> fds m' = [])
   \<and> (\<exists>m'. req_handler_main [''./req_handler'', three_chars 4] (replicate 9 (request 0 0 '''')) (lost_client (\<lambda>_. False)) = (Blocked, m')
     \<and> ipc_objs (queues (os m')) 0 = Some [request CREATE 77 ''''] \<and> fds m' = [(4, Connected)])"
proof -
  let ?ms = "[request CREATE 12 '''']" and ?b = "request 0 0 ''''"
  have n: "replicate 9 ?b = [?b] @ ?b # replicate 7 ?b" by (simp add: eval_nat_numeral)
  have c: "handler_calls ?ms = 2" by (simp add: handler_calls_def request_def)
  have at: "env (os (lost_client h)) = replicate (4 + handler_calls ?ms) Ok @ [Part 0]" "pids_ok (lost_client h)" "wf_base (dirkey (os (lost_client h)))"
    "ipc_keys (queues (os (lost_client h))) (ftok_key (dirkey (os (lost_client h))) WORKER_QUEUE) = Some 0"
    "ipc_objs (queues (os (lost_client h))) 0 = Some []" "available (os (lost_client h)) 4 = concat (map encode_msg ?ms)" for h
    unfolding c by (simp_all add: idle_host_def pids_ok_def available_def wf_base_def)
  have wf: "\<forall>x\<in>set ?ms. wf_msg x" by (simp add: request_def wf_msg_def is_int32_def is_int64_def)
  have acc: "accepted 77 ?ms = [request CREATE 77 '''']" by (simp add: accepted_def request_def)
  note run = request_handler_serves_connection [OF at(1) _ at(2) _ _ at(3,4) _ at(5,6) wf, of "[?b]" "''./req_handler''" ?b "replicate 7 ?b",
      folded n]
  have "\<exists>r m'. req_handler_main [''./req_handler'', three_chars 4] (replicate 9 ?b) (lost_client h) = (r, m')
      \<and> ipc_objs (queues (os m')) 0 = Some [request CREATE 77 ''''] \<and> (if h 77 then r = Ret () \<and> procs m' = [] \<and> fds m' = []
        else r = Blocked \<and> fds m' = [(4, Connected)])" for h
    using run [of h] acc by (auto split: if_splits)
  from this [of "\<lambda>_. True"] this [of "\<lambda>_. False"] show ?thesis by auto
qed

end
