(* ===== verification/Broker_Main.thy ===== *)
theory Broker_Main
  imports Server_Main Client_Api
begin

text \<open>
  The main functions of the processes that serve a connection: \<^verbatim>\<open>worker.c\<close>, \<^verbatim>\<open>resp_handler.c\<close>,
  \<^verbatim>\<open>db_handler.c\<close>, and the two processes of the local broker, \<^verbatim>\<open>broker_req_handler.c\<close> and
  \<^verbatim>\<open>broker_resp_handler.c\<close>, from their arguments to the closing of their sockets.  Their loops are
  those of the theories \<open>Worker\<close>, \<open>Server_Handlers\<close>, \<open>Db_Handler\<close> and \<open>Local_Broker\<close>.
\<close>

section \<open>The database connection\<close>

abbreviation DB_IP :: string where "DB_IP \<equiv> ''127.0.0.1''"

definition db_connect :: "(('m, 's, 'c) master, int) prog" where
  "db_connect =
     bnd (create_client_socket DB_IP DB_PORT) (\<lambda>db_socket.
     if db_socket < 0 then ret db_socket else ret db_socket)"

definition db_close :: "int \<Rightarrow> (('m, 's, 'c) master, int) prog" where
  "db_close db_socket = thn (sys_close db_socket) (ret 0)"

section \<open>worker.c, resp_handler.c and db_handler.c\<close>

type_synonym 'c process_of = "(msg_t, global_ids_t, 'c) master"

definition worker_main :: "(db_msg_t \<times> msg_t) list \<Rightarrow> ('c process_of, unit) prog" where
  "worker_main stks =
     bnd (on_os get_worker_queue) (\<lambda>worker_queue.
     bnd (on_os get_resp_queue) (\<lambda>resp_queue.
     bnd (on_os global_ids_get) (\<lambda>global_ids.
     bnd db_connect (\<lambda>db_connection.
     thn (on_os (worker_loop stks worker_queue resp_queue global_ids db_connection)) (
     thn (db_close db_connection) (ret ()))))))"

definition resp_handler_main :: "string list \<Rightarrow> msg_t list \<Rightarrow> ('c process_of, unit) prog" where
  "resp_handler_main argv stks =
     (if length argv < 2 then stop (Exit (-1))
      else let client_socket = int_of_long (strtol10 (argv ! 1)) in
        bnd (on_os (getmsg RESP_QUEUE)) (\<lambda>resp_queue.
        bnd (gets self) (\<lambda>pid.
        thn (on_os (resp_handler_loop stks resp_queue pid client_socket)) (
        thn (sys_close client_socket) (ret ())))))"

definition safe_exit_h :: "int \<Rightarrow> int \<Rightarrow> (('m, 's, 'c) master, 'a) prog" where
  "safe_exit_h client_socket error = thn (sys_close client_socket) (stop (Exit error))"

text \<open>
  The loop with the exits of its own process; \<open>db_handler_loop\<close> is the same loop without the socket
  table.
\<close>

primrec db_handler_turns :: "nat \<Rightarrow> int \<Rightarrow> db_msg_t \<Rightarrow> (('m, 's, 'c) master, db_msg_t) prog" where
  "db_handler_turns 0 client_socket msg = ret msg"
| "db_handler_turns (Suc n) client_socket msg =
     bnd (on_os (socket_receive_db client_socket msg)) (\<lambda>(res, msg).
     if res < 0 then safe_exit_h client_socket (-1)
     else if res = 0 then safe_exit_h client_socket (-1)
     else bnd (on_os (process_message_db client_socket msg)) (\<lambda>msg. db_handler_turns n client_socket msg))"

definition db_handler_main :: "string list \<Rightarrow> nat \<Rightarrow> db_msg_t \<Rightarrow> (('m, 's, 'c) master, unit) prog" where
  "db_handler_main argv n stk =
     (if length argv < 2 then stop (Exit (-1))
      else let client_socket = int_of_long (strtol10 (argv ! 1)) in
        thn (db_handler_turns n client_socket stk) (
        thn (sys_close client_socket) (ret ())))"

section \<open>The local broker\<close>

abbreviation SERVER_IP :: string where "SERVER_IP \<equiv> ''127.0.0.1''"
abbreviation SERVER_PORT :: int where "SERVER_PORT \<equiv> 8080"

type_synonym 'c client_process = "(msg_t, broker_ids_t, 'c) master"

definition create_broker_resp_handler :: "int \<Rightarrow> (('m, 's, 'c) master, int) prog" where
  "create_broker_resp_handler socket_fd =
     bnd (fork (execl ''./broker_resp_handler'' [''./broker_resp_handler'', three_chars socket_fd] (stop (Exit (-1))))) (\<lambda>pid.
     if pid < 0 then stop (Exit (-1)) else ret pid)"

text \<open>\<open>others\<close> is what the other processes do before the loop starts.\<close>

definition broker_req_handler_main :: "('c client_process, unit) prog \<Rightarrow> (msg_t \<times> msg_t) list \<Rightarrow> ('c client_process, unit) prog" where
  "broker_req_handler_main others stks =
     bnd (create_client_socket SERVER_IP SERVER_PORT) (\<lambda>server_socket.
     bnd (on_os broker_req_start) (\<lambda>(req_queue, resp_queue, incoming_msg_queue, broker_ids).
     bnd (create_broker_resp_handler server_socket) (\<lambda>resp_handler.
     thn others (
     thn (on_os (broker_req_loop stks req_queue broker_ids resp_queue server_socket incoming_msg_queue)) (
     bnd (sys_kill resp_handler) (\<lambda>r.
     thn (if r < 0 then ret () else thn (sys_waitpid resp_handler) (ret ())) (
     thn (on_os (broker_req_stop req_queue resp_queue incoming_msg_queue broker_ids)) (
     thn (sys_close server_socket) (ret ())))))))))"

definition broker_resp_handler_main :: "string list \<Rightarrow> msg_t list \<Rightarrow> ('c client_process, unit) prog" where
  "broker_resp_handler_main argv stks =
     (if length argv < 2 then stop (Exit (-1))
      else let socket_fd = int_of_long (strtol10 (argv ! 1)) in
        bnd (on_os broker_resp_start) (\<lambda>(resp_queue, incoming_msg_queue, broker_ids).
        thn (on_os (broker_resp_loop stks socket_fd broker_ids resp_queue incoming_msg_queue)) (
        thn (sys_close socket_fd) (ret ()))))"

section \<open>What the operations of a process in service leave alone\<close>

text \<open>
  The keys and the objects of a host.  Everything but creation and deletion keeps them; only the
  contents of the objects change.
\<close>

definition same_names :: "('m, 's) world \<Rightarrow> ('m, 's) world \<Rightarrow> bool" where
  "same_names w0 w \<longleftrightarrow> ipc_keys (queues w) = ipc_keys (queues w0) \<and> dom (ipc_objs (queues w)) = dom (ipc_objs (queues w0))
     \<and> ipc_keys (sems w) = ipc_keys (sems w0) \<and> dom (ipc_objs (sems w)) = dom (ipc_objs (sems w0))
     \<and> ipc_keys (shms w) = ipc_keys (shms w0) \<and> dom (ipc_objs (shms w)) = dom (ipc_objs (shms w0))
     \<and> dirkey w = dirkey w0"

lemma names_calls [keeps]:
  "keeps (same_names w0) syscall (\<lambda>_. True)" "keeps (same_names w0) indeterminate (\<lambda>_. True)"
  "keeps (same_names w0) (getsem i) (\<lambda>_. True)" "keeps (same_names w0) (getshm i) (\<lambda>_. True)" "keeps (same_names w0) (getmsg i) (\<lambda>_. True)"
  "keeps (same_names w0) (sem_p s) (\<lambda>_. True)" "keeps (same_names w0) (sem_v s) (\<lambda>_. True)"
  "keeps (same_names w0) (shm_map a) (\<lambda>_. True)" "keeps (same_names w0) (shm_unmap a) (\<lambda>_. True)"
  "keeps (same_names w0) (shm_load a) (\<lambda>_. True)" "keeps (same_names w0) (shm_store a z) (\<lambda>_. True)"
  "keeps (same_names w0) (sendmsg mt q m) (\<lambda>_. True)" "keeps (same_names w0) (rcvmsg mt q m i) (\<lambda>_. True)"
  "keeps (same_names w0) (rcvmsg_no_wait mt q m i) (\<lambda>_. True)"
  "keeps (same_names w0) (sock_write fd bs) (\<lambda>_. True)" "keeps (same_names w0) (sock_read fd k) (\<lambda>_. True)"
  unfolding keeps_def
  by (auto simp: wp same_names_def insert_absorb domI Let_def split: option.split outcome.split)

lemma names_transfer [keeps]:
  "keeps (same_names w0) (send_from fd b n) (\<lambda>_. True)"
  "keeps (same_names w0) (receive_from fd k j b) (\<lambda>_. True)"
proof -
  show "keeps (same_names w0) (send_from fd b n) (\<lambda>_. True)"
    by (induction fd b n rule: send_from.induct) (subst send_from.simps, auto intro!: keeps)
  show "keeps (same_names w0) (receive_from fd k j b) (\<lambda>_. True)"
    by (induction fd k j b rule: receive_from.induct) (subst receive_from.simps, auto intro!: keeps)
qed

lemma names_sockets [keeps]:
  "keeps (same_names w0) (socket_send fd m) (\<lambda>_. True)" "keeps (same_names w0) (socket_receive fd m) (\<lambda>_. True)"
  by (auto simp: socket_send_def socket_receive_def send_struct_def receive_struct_def intro!: keeps)

lemma names_tables [keeps]:
  fixes w0 :: machine
  shows
  "keeps (same_names w0) (add_local_id a l) (\<lambda>_. True)" "keeps (same_names w0) (set_global_id a g) (\<lambda>_. True)"
  "keeps (same_names w0) (get_global_id a l) (\<lambda>_. True)" "keeps (same_names w0) (get_local_id a g) (\<lambda>_. True)"
  "keeps (same_names w0) (local_id_exists a l) (\<lambda>_. True)" "keeps (same_names w0) (remove_id a l) (\<lambda>_. True)"
  by (auto simp: add_local_id_def set_global_id_def get_global_id_def get_local_id_def local_id_exists_def remove_id_def
      search_ids_def Let_def intro!: keeps keeps_any [OF keeps_basic(4)])

lemma names_request [keeps]: "keeps (same_names w0) (process_msg_br stk a rq fd iq m) (\<lambda>_. True)"
  by (auto simp: process_msg_br_def process_receive_def Let_def intro!: keeps)

lemma names_req_loop [keeps]: "keeps (same_names w0) (broker_req_loop stks q a rq fd iq) (\<lambda>_. True)"
  by (induction stks) (auto simp: broker_req_step_def intro!: keeps)

section \<open>Requests of the clients\<close>

primrec put_requests :: "msg_t list \<Rightarrow> (machine, unit) prog" where
  "put_requests [] = ret ()"
| "put_requests (m # ms) = thn (send m) (put_requests ms)"

lemma put_requests_run:
  assumes "env w = []" "wf_base (dirkey w)" "ipc_keys (queues w) (ftok_key (dirkey w) BROKER_REQ_MSG) = Some q" "0 \<le> q"
    "ipc_objs (queues w) q = Some ys" "\<forall>m\<in>set ms. 0 < mtype m"
  shows "put_requests ms w = (Ret (), w\<lparr>queues := ipc_put q (ys @ ms) (queues w)\<rparr>)"
  using assms
proof (induction ms arbitrary: w ys)
  case Nil
  then show ?case by (simp add: ret_def)
next
  case (Cons m ms)
  have "send m w = (Ret 0, w\<lparr>queues := ipc_put q (ys @ [m]) (queues w)\<rparr>)"
    using Cons.prems by (intro wp_eqI) (simp add: send_def wp ipc_get_def)
  moreover have "put_requests ms (w\<lparr>queues := ipc_put q (ys @ [m]) (queues w)\<rparr>)
      = (Ret (), w\<lparr>queues := ipc_put q (ys @ [m] @ ms) (queues w)\<rparr>)"
    using Cons.IH [of "w\<lparr>queues := ipc_put q (ys @ [m]) (queues w)\<rparr>" "ys @ [m]"] Cons.prems by simp
  ultimately show ?case by (simp add: bnd_def)
qed

section \<open>The local broker from start to end\<close>

text \<open>
  On two hosts with the same names the calls that find and delete objects answer the same and leave the
  same names.
\<close>

definition twins :: "('m, 's) world \<Rightarrow> ('m, 's) world \<Rightarrow> bool" where
  "twins w0 w \<longleftrightarrow> same_names w0 w \<and> env w0 = [] \<and> env w = []"

definition by_names :: "(('m, 's) world, 'a) prog \<Rightarrow> bool" where
  "by_names p \<longleftrightarrow> (\<forall>w0 w. twins w0 w \<longrightarrow>
     (\<exists>r w0' w'. p w0 = (r, w0') \<and> p w = (r, w') \<and> twins w0' w' \<and> sent w' = sent w))"

lemma by_namesD:
  assumes "by_names p" "twins w0 w" "p w0 = (r, w0')"
  shows "\<exists>w'. p w = (r, w') \<and> twins w0' w' \<and> sent w' = sent w"
  using assms unfolding by_names_def by fastforce

lemma by_names_bind:
  assumes "by_names p" "\<And>x. by_names (f x)"
  shows "by_names (bnd p f)"
  unfolding by_names_def
proof (intro allI impI)
  fix w0 w :: "('a, 'b) world"
  assume "twins w0 w"
  with assms(1) obtain r w0' w' where p: "p w0 = (r, w0')" "p w = (r, w')" "twins w0' w'" "sent w' = sent w"
    unfolding by_names_def by blast
  show "\<exists>r w0' w'. bnd p f w0 = (r, w0') \<and> bnd p f w = (r, w') \<and> twins w0' w' \<and> sent w' = sent w"
  proof (cases r)
    case (Ret x)
    with assms(2) [of x] p show ?thesis unfolding by_names_def by (fastforce simp: bnd_def)
  qed (use p in \<open>simp_all add: bnd_def\<close>)
qed

lemma like_remove:
  assumes "ipc_keys t = ipc_keys t0" "dom (ipc_objs t) = dom (ipc_objs t0)"
  shows "fst (ipc_remove i t) = fst (ipc_remove i t0)" "ipc_keys (snd (ipc_remove i t)) = ipc_keys (snd (ipc_remove i t0))"
    "dom (ipc_objs (snd (ipc_remove i t))) = dom (ipc_objs (snd (ipc_remove i t0)))"
proof -
  have "ipc_objs t i = None \<longleftrightarrow> ipc_objs t0 i = None" using assms(2) by (metis domIff)
  with assms show "fst (ipc_remove i t) = fst (ipc_remove i t0)" "ipc_keys (snd (ipc_remove i t)) = ipc_keys (snd (ipc_remove i t0))"
    "dom (ipc_objs (snd (ipc_remove i t))) = dom (ipc_objs (snd (ipc_remove i t0)))"
    by (auto simp: ipc_remove_def split: option.split)
qed

lemma by_names_calls:
  "by_names (ret x)" "by_names (getsem i)" "by_names (delsem i :: (('m, 's) world, int) prog)"
  "by_names (delshm i :: (('m, 's) world, int) prog)" "by_names (delmsg i :: (('m, 's) world, int) prog)"
proof -
  show "by_names (ret x)" by (auto simp: by_names_def ret_def)
  show "by_names (getsem i)"
    by (auto simp: by_names_def twins_def same_names_def getsem_def ftok_def bnd_def syscall_def gets_def ret_def ipc_get_def)
  note calls = twins_def same_names_def delsem_def delshm_def delmsg_def bnd_def syscall_def case_prod_beta
  show "by_names (delsem i :: (('m, 's) world, int) prog)" "by_names (delshm i :: (('m, 's) world, int) prog)"
    "by_names (delmsg i :: (('m, 's) world, int) prog)"
    unfolding by_names_def
  proof (safe)
    fix w0 w :: "('m, 's) world" assume t: "twins w0 w"
    show "\<exists>r w0' w'. delsem i w0 = (r, w0') \<and> delsem i w = (r, w') \<and> twins w0' w' \<and> sent w' = sent w"
      using t like_remove [of "sems w" "sems w0" i] by (simp add: calls)
    show "\<exists>r w0' w'. delshm i w0 = (r, w0') \<and> delshm i w = (r, w') \<and> twins w0' w' \<and> sent w' = sent w"
      using t like_remove [of "shms w" "shms w0" i] by (simp add: calls)
    show "\<exists>r w0' w'. delmsg i w0 = (r, w0') \<and> delmsg i w = (r, w') \<and> twins w0' w' \<and> sent w' = sent w"
      using t like_remove [of "queues w" "queues w0" i] by (simp add: calls)
  qed
qed

lemma by_names_if: "by_names p \<Longrightarrow> by_names q \<Longrightarrow> by_names (if b then p else q)"
  by simp

lemma broker_stop_any:
  assumes "broker_absent w0" "same_names (broker_started w0) w" "env w = []"
  shows "\<exists>w'. broker_req_stop (ipc_next (queues w0)) (ipc_next (queues w0) + 1) (ipc_next (queues w0) + 2) (ipc_next (shms w0)) w = (Ret (), w')
    \<and> same_names w0 w' \<and> sent w' = sent w \<and> env w' = []"
proof -
  let ?stop = "broker_req_stop (ipc_next (queues w0)) (ipc_next (queues w0) + 1) (ipc_next (queues w0) + 2) (ipc_next (shms w0))"
  from broker_req_stop_run [OF assms(1)] obtain w'' where w'': "?stop (broker_started w0) = (Ret (), w'')"
    "ipc_keys (queues w'') = ipc_keys (queues w0)" "ipc_objs (queues w'') = ipc_objs (queues w0)"
    "ipc_keys (sems w'') = ipc_keys (sems w0)" "ipc_objs (sems w'') = ipc_objs (sems w0)"
    "ipc_keys (shms w'') = ipc_keys (shms w0)" "ipc_objs (shms w'') = ipc_objs (shms w0)" "dirkey w'' = dirkey w0" by blast
  have "twins (broker_started w0) w" using assms broker_absentD(1) [OF assms(1)] by (simp add: twins_def broker_started_def Let_def)
  moreover have "by_names ?stop"
    unfolding broker_req_stop_def broker_id_destroy_def by (intro by_names_bind by_names_calls)
  ultimately obtain w' where w': "?stop w = (Ret (), w')" "twins w'' w'" "sent w' = sent w"
    using by_namesD w''(1) by blast
  with w' w'' show ?thesis by (auto simp: twins_def same_names_def)
qed

lemma requests_positive:
  "events_ok (map2 (\<lambda>s x. Request (fst s) x) ss ms) S \<Longrightarrow> length ss = length ms \<Longrightarrow> \<forall>x\<in>set ms. 0 < mtype x"
proof (induction ms arbitrary: ss S)
  case (Cons x ms)
  from Cons.prems(2) obtain s ss' where ss: "ss = s # ss'" by (cases ss) auto
  from Cons.IH [of ss' "fst (abs_request (fst s) x S)"] Cons.prems ss show ?case by (simp add: local_request_ok_def)
qed simp

text \<open>The process at the start of its loop.\<close>

definition broker_running :: "machine \<Rightarrow> 'c client_process \<Rightarrow> 'c client_process" where
  "broker_running w m = m\<lparr>os := broker_started w, fds := AList.update (free_fd (fds m)) Connected (fds m),
     procs := child_of (self m) ''./broker_resp_handler'' [''./broker_resp_handler'', three_chars (free_fd (fds m))] (next_pid m) # procs m,
     next_pid := next_pid m + 1\<rparr>"

lemma broker_main_up:
  assumes "broker_absent w" "os m = w" "pids_ok m"
  shows "broker_req_handler_main others ss m =
    (let q = ipc_next (queues w); a = ipc_next (shms w); s = free_fd (fds m) in
      thn others (thn (on_os (broker_req_loop ss q a (q + 1) s (q + 2))) (
      thn (stop_process (next_pid m)) (thn (on_os (broker_req_stop q (q + 1) (q + 2) a)) (thn (sys_close s) (ret ())))))) (broker_running w m)"
proof -
  let ?s = "free_fd (fds m)" and ?fds = "AList.update (free_fd (fds m)) Connected (fds m)"
  have e: "env w = []" "env (broker_started w) = []" using broker_absentD(1) [OF assms(1)] by (simp_all add: broker_started_def Let_def)
  have "create_client_socket SERVER_IP SERVER_PORT m = (Ret ?s, m\<lparr>fds := ?fds\<rparr>)"
    using create_client_socket_run [of m] assms(2) e(1) by simp
  moreover have "on_os broker_req_start (m\<lparr>fds := ?fds\<rparr>)
      = (Ret (ipc_next (queues w), ipc_next (queues w) + 1, ipc_next (queues w) + 2, ipc_next (shms w)), m\<lparr>os := broker_started w, fds := ?fds\<rparr>)"
    using broker_req_start_run [OF assms(1)] assms(2) by (simp add: on_os_def)
  moreover have "create_broker_resp_handler ?s (m\<lparr>os := broker_started w, fds := ?fds\<rparr>) = (Ret (next_pid m), broker_running w m)"
    using fork_execl_run [of "m\<lparr>os := broker_started w, fds := ?fds\<rparr>"] e(2) assms(3)
    by (simp add: create_broker_resp_handler_def bnd_def ret_def broker_running_def pids_ok_def)
  ultimately show ?thesis
    unfolding broker_req_handler_main_def stop_process_inline by (simp add: bnd_def Let_def)
qed

text \<open>The end of the process: whatever the loop has done to the contents of queues and table.\<close>

lemma broker_main_down:
  assumes "broker_absent w" "pids_ok m" "same_names (broker_started w) w2" "env w2 = []"
  shows "\<exists>r m'. thn (stop_process (next_pid m)) (thn (on_os (broker_req_stop (ipc_next (queues w)) (ipc_next (queues w) + 1) (ipc_next (queues w) + 2) (ipc_next (shms w))))
      (thn (sys_close (free_fd (fds m))) (ret ()))) ((broker_running w m)\<lparr>os := w2\<rparr>) = (r, m')
    \<and> sent (os m') = sent w2
    \<and> (if heeds m (next_pid m) then r = Ret () \<and> procs m' = procs m \<and> fds m' = fds m \<and> same_names w (os m')
       else r = Blocked \<and> procs m' = \<lparr>p_pid = next_pid m, p_parent = self m, p_status = Told\<rparr> # procs m
         \<and> fds m' = AList.update (free_fd (fds m)) Connected (fds m) \<and> same_names (broker_started w) (os m'))"
proof -
  let ?m5 = "(broker_running w m)\<lparr>os := w2\<rparr>" and ?s = "free_fd (fds m)"
  have s: "stubborn ?m5 (next_pid m) \<longleftrightarrow> \<not> heeds m (next_pid m)" by (simp add: broker_running_def stubborn_def my_child_def)
  note stop = stop_process_run [of ?m5 "next_pid m", unfolded s]
  show ?thesis
  proof (cases "heeds m (next_pid m)")
    case True
    let ?m6 = "?m5\<lparr>procs := procs m\<rparr>"
    have "reaped (self ?m5) (next_pid m) (procs ?m5) = procs m" using assms(2) by (simp add: broker_running_def)
    with stop True assms(4) have m6: "stop_process (next_pid m) ?m5 = (Ret (), ?m6)" by simp
    from broker_stop_any [OF assms(1,3,4)] obtain w3 where
      w3: "broker_req_stop (ipc_next (queues w)) (ipc_next (queues w) + 1) (ipc_next (queues w) + 2) (ipc_next (shms w)) w2 = (Ret (), w3)"
        "same_names w w3" "sent w3 = sent w2" "env w3 = []" by blast
    from sys_close_run [of ?s "?m6\<lparr>os := w3\<rparr>"] obtain r where
      "sys_close ?s (?m6\<lparr>os := w3\<rparr>) = (Ret r, (called (?m6\<lparr>os := w3\<rparr>))\<lparr>fds := fds m\<rparr>)" by (auto simp: broker_running_def)
    moreover have "same_names w (adv w3)" using w3(2) by (simp add: same_names_def)
    ultimately show ?thesis
      using True m6 w3 by (intro exI [of _ "Ret ()"] exI [of _ "(called (?m6\<lparr>os := w3\<rparr>))\<lparr>fds := fds m\<rparr>"]) (simp add: bnd_def on_os_def ret_def)
  next
    case False
    have "next_pid m \<notin> p_pid ` set (procs m)" using assms(2) by (auto simp: pids_ok_def)
    then have "tell (next_pid m) (procs ?m5) = \<lparr>p_pid = next_pid m, p_parent = self m, p_status = Told\<rparr> # procs m"
      by (simp add: broker_running_def tell_id)
    with False stop assms(3,4) show ?thesis
      by (intro exI [of _ Blocked] exI [of _ "?m5\<lparr>procs := tell (next_pid m) (procs ?m5)\<rparr>"]) (simp add: bnd_def broker_running_def)
  qed
qed

section \<open>Properties\<close>

text \<open>
  C24: The request handler of the local broker, started on a machine without one, connects to the server,
  puts its queues and its table in service and starts the response handler; it then transmits to the server,
  in order, exactly what the abstract local broker sends for the requests of the clients.  When it is told to
  stop it tells the response handler to stop and waits for it.  When that one stops, it is reaped, and the
  socket is closed and no queue, segment or semaphore left; when it does not (it may wait in a read that the
  signal does not end), the request handler waits for ever and the socket, the queues and the table remain.
\<close>

theorem local_broker_leaves_nothing:
  "broker_absent w \<Longrightarrow> os m = w \<Longrightarrow> pids_ok m \<Longrightarrow> length ss = length ms \<Longrightarrow>
   events_ok (map2 (\<lambda>s x. Request (fst s) x) ss ms) ([], [], []) \<Longrightarrow>
   abs_events (map2 (\<lambda>s x. Request (fst s) x) ss ms) ([], [], []) = (S', out) \<Longrightarrow>
   \<exists>r m'. broker_req_handler_main (beside client () (on_os (put_requests ms))) ss m = (r, m')
     \<and> sent (os m') (free_fd (fds m)) = sent w (free_fd (fds m)) @ concat (map encode_msg out)
     \<and> (if heeds m (next_pid m) then r = Ret () \<and> procs m' = procs m \<and> fds m' = fds m \<and> same_names w (os m')
        else r = Blocked \<and> procs m' = \<lparr>p_pid = next_pid m, p_parent = self m, p_status = Told\<rparr> # procs m
          \<and> fds m' = AList.update (free_fd (fds m)) Connected (fds m) \<and> same_names (broker_started w) (os m'))"
proof -
  assume a: "broker_absent w" "os m = w" "pids_ok m" "length ss = length ms"
    "events_ok (map2 (\<lambda>s x. Request (fst s) x) ss ms) ([], [], [])" "abs_events (map2 (\<lambda>s x. Request (fst s) x) ss ms) ([], [], []) = (S', out)"
  note d = broker_absentD [OF a(1)]
  let ?q = "ipc_next (queues w)" and ?up = "broker_started w" and ?s = "free_fd (fds m)"
  let ?w1 = "?up\<lparr>queues := ipc_put ?q ms (queues ?up)\<rparr>"
  have "put_requests ms ?up = (Ret (), ?w1)"
    using put_requests_run [of ?up ?q "[]" ms] requests_positive [OF a(5,4)] d by (simp add: broker_started_def Let_def with_objs_simps)
  then have others: "beside client () (on_os (put_requests ms)) (broker_running w m) = (Ret (), (broker_running w m)\<lparr>os := ?w1\<rparr>)"
    by (simp add: beside_def on_os_def broker_running_def)
  have "at_state ?w1 (ipc_next (shms w)) (?q + 1) (?q + 2) ([], [], [])"
    using broker_started_state [OF a(1)] by (auto simp: at_state_def at_work_def)
  from broker_req_loop_run [OF this, of ?q ms "[]" ss S' out ?s] a(4-6) obtain w2 where
    w2: "broker_req_loop ss ?q (ipc_next (shms w)) (?q + 1) ?s (?q + 2) ?w1 = (Ret (), w2)" "at_state w2 (ipc_next (shms w)) (?q + 1) (?q + 2) S'"
      "sent w2 = (sent ?w1)(?s := sent ?w1 ?s @ concat (map encode_msg out))" by auto
  have "same_names ?up ?w1" using d by (auto simp: same_names_def broker_started_def Let_def with_objs_simps)
  from keepsD [OF names_req_loop this w2(1)] have names: "same_names ?up w2" by simp
  have "env w2 = []" using w2(2) by (auto simp: at_state_def elim: at_workE)
  from broker_main_down [OF a(1,3) names this] obtain r m' where
    "thn (stop_process (next_pid m)) (thn (on_os (broker_req_stop ?q (?q + 1) (?q + 2) (ipc_next (shms w))))
      (thn (sys_close ?s) (ret ()))) ((broker_running w m)\<lparr>os := w2\<rparr>) = (r, m')" "sent (os m') = sent w2"
    "if heeds m (next_pid m) then r = Ret () \<and> procs m' = procs m \<and> fds m' = fds m \<and> same_names w (os m')
     else r = Blocked \<and> procs m' = \<lparr>p_pid = next_pid m, p_parent = self m, p_status = Told\<rparr> # procs m
       \<and> fds m' = AList.update ?s Connected (fds m) \<and> same_names ?up (os m')" by blast
  moreover have "sent ?w1 = sent w" by (simp add: broker_started_def Let_def)
  ultimately show ?thesis
    using broker_main_up [OF a(1-3)] others w2(1,3) by (intro exI [of _ r] exI [of _ m']) (simp add: bnd_def on_os_def Let_def)
qed

abbreviation new_broker :: "(int \<Rightarrow> bool) \<Rightarrow> unit client_process" where
  "new_broker h \<equiv> \<lparr>os = idle_host, self = 7, fds = [], procs = [], next_pid = 20, heeds = h, mem = ()\<rparr>"

theorem local_broker_leaves_nothing_witness:
  "(\<exists>m'. broker_req_handler_main (beside 30 () (on_os (put_requests [request CREATE 70 '''']))) [(request 0 0 '''', request 0 0 '''')] (new_broker (\<lambda>_. True)) = (Ret (), m')
     \<and> sent (os m') 3 = encode_msg (request CREATE 70 '''') \<and> procs m' = [] \<and> fds m' = [])
   \<and> (\<exists>m'. broker_req_handler_main (beside 30 () (on_os (put_requests [request CREATE 70 '''']))) [(request 0 0 '''', request 0 0 '''')] (new_broker (\<lambda>_. False)) = (Blocked, m')
     \<and> sent (os m') 3 = encode_msg (request CREATE 70 '''') \<and> fds m' = [(3, Connected)])"
proof -
  have h: "broker_absent (idle_host :: machine)" by (simp add: broker_absent_def idle_host_def wf_ipc_def wf_base_def)
  have p: "pids_ok (new_broker h)" "os (new_broker h) = idle_host" for h by (simp_all add: pids_ok_def)
  have e: "events_ok (map2 (\<lambda>s x. Request (fst s) x) [(request 0 0 '''', request 0 0 '''')] [request CREATE 70 '''']) ([], [], [])"
    by (simp add: local_request_ok_def request_def wf_msg_def is_int32_def is_int64_def global_of_def row_of_def)
  have b: "abs_events (map2 (\<lambda>s x. Request (fst s) x) [(request 0 0 '''', request 0 0 '''')] [request CREATE 70 '''']) ([], [], []) =
      (([\<lparr>local_id = 70, b_global_id = 0\<rparr>], [], []), [request CREATE 70 ''''])"
    by (simp add: abs_request_def request_def)
  have fd: "sent (idle_host :: machine) = (\<lambda>_. [])" "free_fd [] = 3" by (simp_all add: idle_host_def free_fd_def upto.simps)
  note run = local_broker_leaves_nothing [OF h p(2,1) _ e b, where client = 30, simplified fd]
  show ?thesis using run [of "\<lambda>_. True"] run [of "\<lambda>_. False"] by (auto simp: fd)
qed

text \<open>
  What a process of a running server finds: the queues for the worker and for responses, and the table.
\<close>

definition attached :: "host \<Rightarrow> int \<Rightarrow> int \<Rightarrow> int \<Rightarrow> bool" where
  "attached w wq q g \<longleftrightarrow> wf_base (dirkey w) \<and> 0 \<le> wq \<and> 0 \<le> q \<and> 0 \<le> g
     \<and> ipc_keys (queues w) (ftok_key (dirkey w) WORKER_QUEUE) = Some wq \<and> ipc_keys (queues w) (ftok_key (dirkey w) RESP_QUEUE) = Some q
     \<and> ipc_keys (shms w) (ftok_key (dirkey w) GLOBAL_IDS_SHM) = Some g"

lemma attached_run:
  assumes "attached w wq q g" "env w = []"
  shows "get_worker_queue w = (Ret wq, w)" "get_resp_queue w = (Ret q, w)" "global_ids_get w = (Ret g, w)"
    "getmsg RESP_QUEUE w = (Ret q, w)"
  using assms
  by (intro wp_eqI; simp add: attached_def get_worker_queue_def get_resp_queue_def global_ids_get_def wp ipc_get_def)+

text \<open>
  C1: A worker that is executed on a host where the server runs attaches to the queues and the table of the
  server, opens the connection to the database on the lowest free descriptor, serves the requests in its
  queue as the abstract server does, and closes that connection when it is told to stop.
\<close>

theorem worker_main_serves:
  "attached (os m) wq q g \<Longrightarrow> wq \<noteq> q \<Longrightarrow> up (os m) g q (free_fd (fds m)) gs ms U T \<Longrightarrow> ipc_objs (queues (os m)) wq = Some (rs @ rest) \<Longrightarrow>
   length ss = length rs \<Longrightarrow> \<forall>s\<in>set ss. wf_db_msg (fst s) \<Longrightarrow> ids_below n U \<Longrightarrow> n + int (length rs) \<le> INT_MAX \<Longrightarrow>
   requests_fit rs (gs, U, T) \<Longrightarrow> abs_serves rs (gs, U, T) = ((gs', U', T'), out) \<Longrightarrow>
   \<exists>m'. worker_main ss m = (Ret (), m') \<and> fds m' = fds m \<and> procs m' = procs m
     \<and> up (os m') g q (free_fd (fds m)) gs' (ms @ out) U' T' \<and> ipc_objs (queues (os m')) wq = Some rest"
proof -
  assume a: "attached (os m) wq q g" "wq \<noteq> q" "up (os m) g q (free_fd (fds m)) gs ms U T" "ipc_objs (queues (os m)) wq = Some (rs @ rest)"
    "length ss = length rs" "\<forall>s\<in>set ss. wf_db_msg (fst s)" "ids_below n U" "n + int (length rs) \<le> INT_MAX"
    "requests_fit rs (gs, U, T)" "abs_serves rs (gs, U, T) = ((gs', U', T'), out)"
  have e: "env (os m) = []" using a(3) by (rule upE)
  let ?d = "free_fd (fds m)"
  let ?m1 = "m\<lparr>fds := AList.update ?d Connected (fds m)\<rparr>"
  have db: "db_connect m = (Ret ?d, ?m1)"
    using create_client_socket_run [OF e] by (simp add: db_connect_def bnd_def ret_def)
  from worker_loop_run [OF a(3,4,2,5-10)] obtain w' where
    w': "worker_loop ss wq q g ?d (os m) = (Ret (), w')" "up w' g q ?d gs' (ms @ out) U' T'" "ipc_objs (queues w') wq = Some rest" by blast
  have e': "env w' = []" using w'(2) by (rule upE)
  from sys_close_run [of ?d "?m1\<lparr>os := w'\<rparr>"] obtain r where
    "sys_close ?d (?m1\<lparr>os := w'\<rparr>) = (Ret r, (called (?m1\<lparr>os := w'\<rparr>))\<lparr>fds := fds m\<rparr>)" by auto
  moreover have "adv w' = w'" using e' by simp
  ultimately have "worker_main ss m = (Ret (), m\<lparr>os := w'\<rparr>)"
    using attached_run [OF a(1) e] db w'(1)
    by (simp add: worker_main_def bnd_def on_os_def db_close_def ret_def)
  with w'(2,3) show ?thesis by (intro exI [of _ "m\<lparr>os := w'\<rparr>"]) simp
qed

theorem worker_main_serves_witness:
  "\<exists>m' out. worker_main (replicate 3 (blank_db_msg, request 0 0 ''''))
      \<lparr>os = server_host [ring_row] three_requests, self = 8, fds = [(3, Connected)], procs = [], next_pid = 20, heeds = (\<lambda>_. True), mem = ()\<rparr> = (Ret (), m')
    \<and> ipc_objs (queues (os m')) 1 = Some out \<and> fds m' = [(3, Connected)]
    \<and> map (\<lambda>m. (mtype m, global_id m, msg_type m)) out
        = [(70, 1, ACK_CREATE), (70, 1, ACK_OK), (70, 1, PUBLISH), (70, 1, ACK_OK)]"
proof -
  let ?m = "\<lparr>os = server_host [ring_row] three_requests, self = 8, fds = [(3, Connected)], procs = [], next_pid = 20, heeds = (\<lambda>_. True), mem = ()\<rparr>"
  obtain gs' U' T' out where t: "abs_serves three_requests ([ring_row], Map.empty, Map.empty) = ((gs', U', T'), out)"
    "map (\<lambda>m. (mtype m, global_id m, msg_type m)) out = [(70, 1, ACK_CREATE), (70, 1, ACK_OK), (70, 1, PUBLISH), (70, 1, ACK_OK)]"
    "requests_fit three_requests ([ring_row], Map.empty, Map.empty)" by (rule three_requests_served)
  have fd: "free_fd (fds ?m) = 4" by (simp add: free_fd_def upto.simps)
  have m: "attached (os ?m) 0 1 0" "ipc_objs (queues (os ?m)) 0 = Some (three_requests @ [])" by (simp_all add: attached_def server_host_def connected_def idle_host_def wf_base_def)
  have u: "up (os ?m) 0 1 (free_fd (fds ?m)) [ring_row] [] Map.empty Map.empty"
    unfolding fd using ring_host_up by simp
  have s: "\<forall>s\<in>set (replicate 3 (blank_db_msg, request 0 0 '''')). wf_db_msg (fst s)" by simp
  from worker_main_serves [OF m(1) _ u m(2) _ s new_db_open(3) _ t(3,1)]
  obtain m' where "worker_main (replicate 3 (blank_db_msg, request 0 0 '''')) ?m = (Ret (), m')" "fds m' = [(3, Connected)]"
    "up (os m') 0 1 (free_fd (fds ?m)) gs' ([] @ out) U' T'"
    by (auto simp: INT_MAX_def)
  with t(2) show ?thesis by (auto elim!: upE)
qed

text \<open>
  A response handler sends to its connection exactly the messages that are queued under its own process
  identifier, in order, each under the identifier of its client.
\<close>

lemma resp_handler_main_run:
  assumes "env (os m) = []" "wf_base (dirkey (os m))" "ipc_keys (queues (os m)) (ftok_key (dirkey (os m)) RESP_QUEUE) = Some rq" "0 \<le> rq"
    "ipc_objs (queues (os m)) rq = Some q" "\<forall>x\<in>set q. wf_msg x" "0 < self m" "0 \<le> fd" "fd < 100"
    "length stks = length (filter (\<lambda>x. mtype x = self m) q)"
  shows "\<exists>m'. resp_handler_main [path, three_chars fd] stks m = (Ret (), m') \<and> fds m' = AList.delete fd (fds m)
    \<and> ipc_objs (queues (os m')) rq = Some (filter (\<lambda>x. mtype x \<noteq> self m) q)
    \<and> sent (os m') = (sent (os m))(fd := sent (os m) fd @ concat (map encode_msg (forwarded (filter (\<lambda>x. mtype x = self m) q))))"
proof -
  have arg: "int_of_long (strtol10 (three_chars fd)) = fd"
    using three_chars_small [OF assms(8,9)] assms(8,9) by (simp add: is_int32_def)
  have g: "getmsg RESP_QUEUE (os m) = (Ret rq, os m)" using assms(1-4) by (intro wp_eqI) (simp add: wp ipc_get_def)
  from resp_handler_loop_run [OF assms(1,5,7,10,6), of fd] obtain w' where
    w': "resp_handler_loop stks rq (self m) fd (os m) = (Ret (), w')" "ipc_objs (queues w') rq = Some (filter (\<lambda>x. mtype x \<noteq> self m) q)"
      "sent w' = (sent (os m))(fd := sent (os m) fd @ concat (map encode_msg (forwarded (filter (\<lambda>x. mtype x = self m) q))))" by simp
  from sys_close_run [of fd "m\<lparr>os := w'\<rparr>"] obtain r where
    "sys_close fd (m\<lparr>os := w'\<rparr>) = (Ret r, (called (m\<lparr>os := w'\<rparr>))\<lparr>fds := AList.delete fd (fds m)\<rparr>)" by auto
  then have "resp_handler_main [path, three_chars fd] stks m = (Ret (), (called (m\<lparr>os := w'\<rparr>))\<lparr>fds := AList.delete fd (fds m)\<rparr>)"
    using arg g w'(1) by (simp add: resp_handler_main_def bnd_def on_os_def gets_def ret_def)
  with w'(2,3) show ?thesis by (intro exI [of _ "(called (m\<lparr>os := w'\<rparr>))\<lparr>fds := AList.delete fd (fds m)\<rparr>"]) simp
qed

text \<open>
  The process of a database connection does what \<open>db_handler_loop\<close> does while the connection lasts: it
  serves the requests that arrive from the files of the database, and closes its socket when it is told to stop.
\<close>

lemma db_handler_turns_run:
  "db_handler_loop n fd msg (os m) = (Ret msg', w) \<Longrightarrow> db_handler_turns n fd msg m = (Ret msg', m\<lparr>os := w\<rparr>)"
proof (induction n arbitrary: msg m)
  case (Suc n)
  obtain r w1 where r: "socket_receive_db fd msg (os m) = (r, w1)" by fastforce
  with Suc.prems obtain x msg1 where x: "r = Ret (x, msg1)" "0 < x" by (cases r) (auto simp: bnd_def stop_def split: if_splits)
  obtain q w2 where q: "process_message_db fd msg1 w1 = (q, w2)" by fastforce
  with Suc.prems r x obtain msg2 where msg2: "q = Ret msg2" "db_handler_loop n fd msg2 w2 = (Ret msg', w)"
    by (cases q) (auto simp: bnd_def)
  with Suc.IH [of msg2 "m\<lparr>os := w2\<rparr>"] r x q show ?case by (simp add: bnd_def on_os_def)
qed (simp add: ret_def)

lemma db_handler_main_serves:
  assumes "served D ms rs D'" "db_open (os m) (fst D) (snd D)" "fed (os m) (wire ms @ rest)" "got (os m) fd = 0" "0 \<le> fd" "fd < 100"
  shows "\<exists>m'. db_handler_main [path, three_chars fd] (length ms) stk m = (Ret (), m') \<and> db_open (os m') (fst D') (snd D')
    \<and> sent (os m') fd = sent (os m) fd @ wire rs \<and> fds m' = AList.delete fd (fds m)"
proof -
  have arg: "int_of_long (strtol10 (three_chars fd)) = fd"
    using three_chars_small [OF assms(5,6)] assms(5,6) by (simp add: is_int32_def)
  from db_handler_loop_serves [OF assms(1-4), of stk] obtain w' msg where
    w': "db_handler_loop (length ms) fd stk (os m) = (Ret msg, w')" "db_open w' (fst D') (snd D')" "sent w' fd = sent (os m) fd @ wire rs" by blast
  have e: "adv w' = w'" using w'(2) by (auto simp: db_open_def)
  from sys_close_run [of fd "m\<lparr>os := w'\<rparr>"] obtain r where
    "sys_close fd (m\<lparr>os := w'\<rparr>) = (Ret r, (called (m\<lparr>os := w'\<rparr>))\<lparr>fds := AList.delete fd (fds m)\<rparr>)" by auto
  with db_handler_turns_run [OF w'(1)] arg e
  have "db_handler_main [path, three_chars fd] (length ms) stk m = (Ret (), m\<lparr>os := w', fds := AList.delete fd (fds m)\<rparr>)"
    by (simp add: db_handler_main_def bnd_def ret_def)
  with w'(2,3) show ?thesis by (intro exI [of _ "m\<lparr>os := w', fds := AList.delete fd (fds m)\<rparr>"]) simp
qed

text \<open>The response handler of the local broker finds the queues and the table that the request handler created.\<close>

lemma broker_resp_handler_main_run:
  assumes "at_state (os m) a rq iq S" "wf_base (dirkey (os m))" "0 \<le> rq" "0 \<le> iq" "0 \<le> a" "rq \<noteq> iq"
    "ipc_keys (queues (os m)) (ftok_key (dirkey (os m)) BROKER_RESP_MSG) = Some rq"
    "ipc_keys (queues (os m)) (ftok_key (dirkey (os m)) INCOMING_MSG_QUEUE) = Some iq"
    "ipc_keys (shms (os m)) (ftok_key (dirkey (os m)) BROKER_IDS_SHM) = Some a"
    "0 \<le> fd" "fd < 100" "available (os m) fd = concat (map encode_msg ms) @ rest" "length stks = length ms"
    "\<forall>x\<in>set ms. wf_msg x" "events_ok (map Response ms) S" "abs_events (map Response ms) S = (S', out)"
  shows "\<exists>m'. broker_resp_handler_main [path, three_chars fd] stks m = (Ret (), m') \<and> fds m' = AList.delete fd (fds m)
    \<and> at_state (os m') a rq iq S' \<and> available (os m') fd = rest"
proof -
  have arg: "int_of_long (strtol10 (three_chars fd)) = fd"
    using three_chars_small [OF assms(10,11)] assms(10,11) by (simp add: is_int32_def)
  have "env (os m) = []" using assms(1) by (auto simp: at_state_def elim: at_workE)
  then have s: "broker_resp_start (os m) = (Ret (rq, iq, a), os m)"
    using assms(2-5,7-9) by (intro wp_eqI) (simp add: broker_resp_start_def get_msg_resp_queue_def get_incoming_msg_queue_def broker_id_get_def wp ipc_get_def)
  from broker_resp_loop_run [OF assms(1,6,12-16)] obtain w' where
    w': "broker_resp_loop stks fd a rq iq (os m) = (Ret (), w')" "at_state w' a rq iq S'" "available w' fd = rest" by blast
  have "env w' = []" using w'(2) by (auto simp: at_state_def elim: at_workE)
  then have e: "adv w' = w'" by simp
  from sys_close_run [of fd "m\<lparr>os := w'\<rparr>"] obtain r where
    "sys_close fd (m\<lparr>os := w'\<rparr>) = (Ret r, (called (m\<lparr>os := w'\<rparr>))\<lparr>fds := AList.delete fd (fds m)\<rparr>)" by auto
  with s w'(1) arg e have "broker_resp_handler_main [path, three_chars fd] stks m = (Ret (), m\<lparr>os := w', fds := AList.delete fd (fds m)\<rparr>)"
    by (simp add: broker_resp_handler_main_def bnd_def ret_def on_os_def)
  with w'(2,3) show ?thesis by (intro exI [of _ "m\<lparr>os := w', fds := AList.delete fd (fds m)\<rparr>"]) simp
qed

end
