(* ===== verification/Museum.thy ===== *)
theory Museum
  imports Ipc
begin

text \<open>
  The museum exercise (\<^verbatim>\<open>museum/src\<close>): doors, visitors, tours with a guide and a timer, the administrator
  and the process that creates and destroys their semaphores, shared memory and queues.  The wrappers
  of its own \<^verbatim>\<open>include\<close> directory are those of \<open>Ipc\<close>, except that sending and receiving return nothing.
  Here are the parts of the processes that work on them; their main functions are in the theories
  \<open>Museum_Main\<close> and \<open>Museum_Doors\<close>.  Sleeping and logging are left out; the random choices of a visitor are
  parameters.  \<open>stk\<close> is what an uninitialised message struct held.
\<close>

section \<open>Constants and messages\<close>

abbreviation ENTRANCE_DOORS :: int where "ENTRANCE_DOORS \<equiv> 3"
abbreviation MUSEUM_CAP :: int where "MUSEUM_CAP \<equiv> 20"
abbreviation TOUR_CAP :: int where "TOUR_CAP \<equiv> 5"
abbreviation MUSEUM_CAP_SEM :: int where "MUSEUM_CAP_SEM \<equiv> 1"
abbreviation MUSEUM_OPEN_SEM :: int where "MUSEUM_OPEN_SEM \<equiv> 2"
abbreviation MUSEUM_TOUR_COUNT_SEM :: int where "MUSEUM_TOUR_COUNT_SEM \<equiv> 3"
abbreviation MUSEUM_TOUR_START_SEM :: int where "MUSEUM_TOUR_START_SEM \<equiv> 4"
abbreviation MUSEUM_CAP_SHM :: int where "MUSEUM_CAP_SHM \<equiv> 1"
abbreviation MUSEUM_OPEN_SHM :: int where "MUSEUM_OPEN_SHM \<equiv> 2"
abbreviation MUSEUM_TOUR_COUNT_SHM :: int where "MUSEUM_TOUR_COUNT_SHM \<equiv> 3"
abbreviation EXIT_DOOR_REQ_MSG :: int where "EXIT_DOOR_REQ_MSG \<equiv> 6"
abbreviation EXIT_DOOR_RESP_MSG :: int where "EXIT_DOOR_RESP_MSG \<equiv> 7"
abbreviation TOUR_REQ_MSG :: int where "TOUR_REQ_MSG \<equiv> 8"
abbreviation TOUR_RESP_MSG :: int where "TOUR_RESP_MSG \<equiv> 9"

abbreviation ENTRANCE_REQUEST :: int where "ENTRANCE_REQUEST \<equiv> 1"
abbreviation EXIT_REQUEST :: int where "EXIT_REQUEST \<equiv> 2"
abbreviation ACCEPT :: int where "ACCEPT \<equiv> 3"
abbreviation REJECT :: int where "REJECT \<equiv> 4"
abbreviation TOUR_REQUEST :: int where "TOUR_REQUEST \<equiv> 5"
abbreviation TOUR_START :: int where "TOUR_START \<equiv> 6"

record message_t =
  m_mtype :: int
  m_type :: int

text \<open>Shared memory holds an \<open>int\<close>, or a \<open>bool\<close> as 0 or 1.\<close>

type_synonym house = "(message_t, int) world"

text \<open>Arithmetic on an \<open>int\<close> in shared memory; overflow is undefined.\<close>

definition add_int :: "int \<Rightarrow> int \<Rightarrow> int res" where
  "add_int x y = (if is_int32 (x + y) then Ret (x + y) else Undef)"

definition send_m :: "int \<Rightarrow> message_t \<Rightarrow> (house, unit) prog" where
  "send_m q msg = thn (sendmsg m_mtype q msg) (ret ())"

definition rcv_m :: "int \<Rightarrow> message_t \<Rightarrow> int \<Rightarrow> (house, message_t) prog" where
  "rcv_m q stk ty = bnd (rcvmsg m_mtype q stk ty) (\<lambda>(_, msg). ret msg)"

definition found :: "(house, int) prog \<Rightarrow> (house, int) prog" where
  "found p = bnd p (\<lambda>i. if i < 0 then stop (Exit (-1)) else ret i)"

section \<open>Doors\<close>

definition entrance_start :: "int \<Rightarrow> int \<Rightarrow> (house, int \<times> int \<times> int \<times> int \<times> int) prog" where
  "entrance_start req_queue_id resp_queue_id =
     bnd (getmsg req_queue_id) (\<lambda>req_queue.
     bnd (getmsg resp_queue_id) (\<lambda>resp_queue.
     if req_queue < 0 then stop (Exit (-1))
     else if resp_queue < 0 then stop (Exit (-1))
     else bnd (found (getshm MUSEUM_CAP_SHM)) (\<lambda>cap_shm_id.
     bnd (shm_map cap_shm_id) (\<lambda>cap_shm.
     bnd (found (getsem MUSEUM_CAP_SEM)) (\<lambda>cap_sem.
     bnd (found (getshm MUSEUM_OPEN_SHM)) (\<lambda>open_shm_id.
     bnd (shm_map open_shm_id) (\<lambda>open_shm.
     ret (req_queue, resp_queue, cap_shm, cap_sem, open_shm))))))))"

definition entrance_step :: "message_t \<Rightarrow> int \<Rightarrow> int \<Rightarrow> int \<Rightarrow> int \<Rightarrow> int \<Rightarrow> (house, unit) prog" where
  "entrance_step stk req_queue resp_queue cap_shm cap_sem open_shm =
     bnd (rcv_m req_queue stk 0) (\<lambda>msg.
     if m_type msg \<noteq> ENTRANCE_REQUEST then ret ()
     else thn (sem_p cap_sem) (
     bnd (shm_load cap_shm) (\<lambda>cap.
     bnd (if cap > 0 then bnd (shm_load open_shm) (\<lambda>b. ret (b \<noteq> 0)) else ret False) (\<lambda>room.
     bnd (if room then bnd (lift_res (add_int cap (-1))) (\<lambda>n. thn (shm_store cap_shm n) (ret (msg\<lparr>m_type := ACCEPT\<rparr>)))
          else ret (msg\<lparr>m_type := REJECT\<rparr>)) (\<lambda>msg.
     thn (sem_v cap_sem) (send_m resp_queue msg))))))"

primrec entrance_loop :: "message_t list \<Rightarrow> int \<Rightarrow> int \<Rightarrow> int \<Rightarrow> int \<Rightarrow> int \<Rightarrow> (house, unit) prog" where
  "entrance_loop [] req_queue resp_queue cap_shm cap_sem open_shm =
     thn (shm_unmap cap_shm) (thn (shm_unmap open_shm) (ret ()))"
| "entrance_loop (stk # stks) req_queue resp_queue cap_shm cap_sem open_shm =
     thn (entrance_step stk req_queue resp_queue cap_shm cap_sem open_shm)
       (entrance_loop stks req_queue resp_queue cap_shm cap_sem open_shm)"

definition exit_start :: "int \<Rightarrow> int \<Rightarrow> (house, int \<times> int \<times> int \<times> int) prog" where
  "exit_start req_queue_id resp_queue_id =
     bnd (getmsg req_queue_id) (\<lambda>req_queue.
     bnd (getmsg resp_queue_id) (\<lambda>resp_queue.
     if req_queue < 0 then stop (Exit (-1))
     else if resp_queue < 0 then stop (Exit (-1))
     else bnd (found (getshm MUSEUM_CAP_SHM)) (\<lambda>shm_id.
     bnd (shm_map shm_id) (\<lambda>shm.
     bnd (found (getsem MUSEUM_CAP_SEM)) (\<lambda>sem.
     ret (req_queue, resp_queue, shm, sem))))))"

definition exit_step :: "message_t \<Rightarrow> int \<Rightarrow> int \<Rightarrow> int \<Rightarrow> int \<Rightarrow> (house, unit) prog" where
  "exit_step stk req_queue resp_queue shm sem =
     bnd (rcv_m req_queue stk 0) (\<lambda>msg.
     if m_type msg \<noteq> EXIT_REQUEST then ret ()
     else thn (sem_p sem) (
     bnd (shm_load shm) (\<lambda>cap.
     bnd (lift_res (add_int cap 1)) (\<lambda>n.
     thn (shm_store shm n) (
     thn (sem_v sem) (send_m resp_queue (msg\<lparr>m_type := ACCEPT\<rparr>)))))))"

primrec exit_loop :: "message_t list \<Rightarrow> int \<Rightarrow> int \<Rightarrow> int \<Rightarrow> int \<Rightarrow> (house, unit) prog" where
  "exit_loop [] req_queue resp_queue shm sem = thn (shm_unmap shm) (ret ())"
| "exit_loop (stk # stks) req_queue resp_queue shm sem =
     thn (exit_step stk req_queue resp_queue shm sem) (exit_loop stks req_queue resp_queue shm sem)"

section \<open>The administrator\<close>

text \<open>
  The effect of a choice of the menu.  The menu itself, which reads the choice through a pointer that it never
  initialises, is in the theory \<open>Museum_Doors\<close>.
\<close>

definition admin_choice :: "int \<Rightarrow> int \<Rightarrow> (house, unit) prog" where
  "admin_choice opt open_shm =
     (if opt = 1 then shm_store open_shm 1 else if opt = 2 then shm_store open_shm 0 else ret ())"

section \<open>Tours\<close>

definition tour_ipcs :: "(house, int \<times> int \<times> int \<times> int \<times> int) prog" where
  "tour_ipcs =
     bnd (found (getmsg TOUR_REQ_MSG)) (\<lambda>req_queue.
     bnd (found (getmsg TOUR_RESP_MSG)) (\<lambda>resp_queue.
     bnd (found (getshm MUSEUM_TOUR_COUNT_SHM)) (\<lambda>tour_count_shm_id.
     bnd (shm_map tour_count_shm_id) (\<lambda>tour_count_shm.
     bnd (found (getsem MUSEUM_TOUR_COUNT_SEM)) (\<lambda>tour_count_sem.
     bnd (found (getsem MUSEUM_TOUR_START_SEM)) (\<lambda>tour_start_sem.
     ret (req_queue, resp_queue, tour_count_shm, tour_count_sem, tour_start_sem)))))))"

text \<open>The guide looks up the same resources as a visitor on a tour.\<close>

definition guide_start :: "(house, int \<times> int \<times> int \<times> int \<times> int) prog" where
  "guide_start = tour_ipcs"

text \<open>A visitor registers; the result says whether it waits for the tour.\<close>

definition tour_register :: "int \<Rightarrow> int \<Rightarrow> int \<Rightarrow> int \<Rightarrow> int \<Rightarrow> (house, bool) prog" where
  "tour_register pid req_queue tour_count_shm tour_count_sem tour_start_sem =
     thn (sem_p tour_count_sem) (
     bnd (shm_load tour_count_shm) (\<lambda>n.
     if n < TOUR_CAP then
       bnd (lift_res (add_int n 1)) (\<lambda>n.
       thn (shm_store tour_count_shm n) (
       thn (send_m req_queue \<lparr>m_mtype = pid, m_type = TOUR_REQUEST\<rparr>) (
       thn (if n = TOUR_CAP then sem_v tour_start_sem else ret 1) (
       thn (sem_v tour_count_sem) (ret True)))))
     else thn (sem_v tour_count_sem) (ret False)))"

text \<open>While the visitor waits, the other processes run, which is the program \<open>others\<close>.\<close>

definition go_on_tour :: "(house, unit) prog \<Rightarrow> int \<Rightarrow> (house, unit) prog" where
  "go_on_tour others pid =
     bnd tour_ipcs (\<lambda>(req_queue, resp_queue, tour_count_shm, tour_count_sem, tour_start_sem).
     bnd (tour_register pid req_queue tour_count_shm tour_count_sem tour_start_sem) (\<lambda>registered.
     thn (if registered then thn others (thn (rcv_m resp_queue \<lparr>m_mtype = pid, m_type = TOUR_REQUEST\<rparr> pid) (ret ())) else ret ()) (
     thn (shm_unmap tour_count_shm) (ret ()))))"

text \<open>
  \<^verbatim>\<open>for (int i = 0; i < people_for_tour;)\<close>: the body does not change \<open>i\<close>.  The list has the content of
  the message struct in each turn; the result is whether the loop ended before the list did.
\<close>

primrec tour_reads :: "message_t list \<Rightarrow> int \<Rightarrow> int \<Rightarrow> int \<Rightarrow> int \<Rightarrow> int \<Rightarrow> (house, bool) prog" where
  "tour_reads [] req_queue resp_queue tour_count_shm people_for_tour i = ret (\<not> i < people_for_tour)"
| "tour_reads (stk # stks) req_queue resp_queue tour_count_shm people_for_tour i =
     (if i < people_for_tour then
        bnd (rcv_m req_queue stk 0) (\<lambda>msg.
        thn (if m_type msg = TOUR_REQUEST then send_m resp_queue (msg\<lparr>m_type := TOUR_START\<rparr>) else ret ()) (
        bnd (shm_load tour_count_shm) (\<lambda>n.
        bnd (lift_res (add_int n (-1))) (\<lambda>n.
        thn (shm_store tour_count_shm n) (
        tour_reads stks req_queue resp_queue tour_count_shm people_for_tour i)))))
      else ret True)"

definition guide_step :: "message_t list \<Rightarrow> int \<Rightarrow> int \<Rightarrow> int \<Rightarrow> int \<Rightarrow> int \<Rightarrow> (house, bool) prog" where
  "guide_step stks req_queue resp_queue tour_count_shm tour_count_sem tour_start_sem =
     thn (sem_p tour_start_sem) (
     thn (sem_p tour_count_sem) (
     bnd (shm_load tour_count_shm) (\<lambda>people_for_tour.
     bnd (tour_reads stks req_queue resp_queue tour_count_shm people_for_tour 0) (\<lambda>done.
     if done then thn (sem_v tour_count_sem) (ret True) else ret False))))"

definition timer_start :: "(house, int \<times> int \<times> int) prog" where
  "timer_start =
     bnd (found (getshm MUSEUM_TOUR_COUNT_SHM)) (\<lambda>tour_count_shm_id.
     bnd (shm_map tour_count_shm_id) (\<lambda>tour_count_shm.
     bnd (found (getsem MUSEUM_TOUR_COUNT_SEM)) (\<lambda>tour_count_sem.
     bnd (found (getsem MUSEUM_TOUR_START_SEM)) (\<lambda>tour_start_sem.
     ret (tour_count_shm, tour_count_sem, tour_start_sem)))))"

definition timer_step :: "int \<Rightarrow> int \<Rightarrow> int \<Rightarrow> (house, unit) prog" where
  "timer_step tour_count_shm tour_count_sem tour_start_sem =
     thn (sem_p tour_count_sem) (
     bnd (shm_load tour_count_shm) (\<lambda>n.
     thn (if n > 0 then sem_v tour_start_sem else ret 1) (
     thn (sem_v tour_count_sem) (ret ()))))"

section \<open>Visitors\<close>

text \<open>The parts of a visitor's main function between its two waits.\<close>

definition person_asks :: "int \<Rightarrow> int \<Rightarrow> (house, int \<times> message_t) prog" where
  "person_asks entrance_door pid =
     bnd (found (getmsg (2 * entrance_door))) (\<lambda>entrance_req_queue.
     bnd (found (getmsg (2 * entrance_door + 1))) (\<lambda>entrance_resp_queue.
     let msg = \<lparr>m_mtype = pid, m_type = ENTRANCE_REQUEST\<rparr> in
     thn (send_m entrance_req_queue msg) (ret (entrance_resp_queue, msg))))"

definition person_leaves :: "message_t \<Rightarrow> (house, int \<times> message_t) prog" where
  "person_leaves msg =
     bnd (found (getmsg EXIT_DOOR_REQ_MSG)) (\<lambda>exit_req_queue.
     bnd (found (getmsg EXIT_DOOR_RESP_MSG)) (\<lambda>exit_resp_queue.
     let msg = msg\<lparr>m_type := EXIT_REQUEST\<rparr> in
     thn (send_m exit_req_queue msg) (ret (exit_resp_queue, msg))))"

definition person :: "(house, unit) prog \<Rightarrow> int \<Rightarrow> bool \<Rightarrow> int \<Rightarrow> (house, unit) prog" where
  "person others entrance_door tour pid =
     bnd (person_asks entrance_door pid) (\<lambda>(entrance_resp_queue, msg).
     thn others (
     bnd (rcv_m entrance_resp_queue msg pid) (\<lambda>msg.
     if m_type msg = ACCEPT then
       thn (if tour then go_on_tour others pid else ret ()) (
       bnd (person_leaves msg) (\<lambda>(exit_resp_queue, msg).
       thn others (
       bnd (rcv_m exit_resp_queue msg pid) (\<lambda>msg.
       if m_type msg \<noteq> ACCEPT then stop (Exit (-1)) else ret ()))))
     else ret ())))"

section \<open>Creation and destruction\<close>

definition delete_msg_queue :: "int \<Rightarrow> (house, unit) prog" where
  "delete_msg_queue i = bnd (getmsg i) (\<lambda>queue. if queue < 0 then ret () else thn (delmsg queue) (ret ()))"

definition delete_shm :: "int \<Rightarrow> (house, unit) prog" where
  "delete_shm i = bnd (getshm i) (\<lambda>shm. if shm < 0 then ret () else thn (delshm shm) (ret ()))"

definition delete_sem :: "int \<Rightarrow> (house, unit) prog" where
  "delete_sem i = bnd (getsem i) (\<lambda>sem. if sem < 0 then ret () else thn (delsem sem) (ret ()))"

primrec each :: "('a \<Rightarrow> ('w, unit) prog) \<Rightarrow> 'a list \<Rightarrow> ('w, unit) prog" where
  "each f [] = ret ()"
| "each f (x # xs) = thn (f x) (each f xs)"

definition destroy_ipcs :: "(house, unit) prog" where
  "destroy_ipcs =
     thn (each (\<lambda>i. thn (delete_msg_queue (2 * i)) (delete_msg_queue (2 * i + 1))) [0..ENTRANCE_DOORS - 1]) (
     thn (delete_msg_queue EXIT_DOOR_REQ_MSG) (
     thn (delete_msg_queue EXIT_DOOR_RESP_MSG) (
     thn (delete_msg_queue TOUR_REQ_MSG) (
     thn (delete_msg_queue TOUR_RESP_MSG) (
     thn (delete_sem MUSEUM_CAP_SEM) (
     thn (delete_shm MUSEUM_CAP_SHM) (
     thn (delete_sem MUSEUM_OPEN_SEM) (
     thn (delete_shm MUSEUM_OPEN_SHM) (
     thn (delete_sem MUSEUM_TOUR_COUNT_SEM) (
     thn (delete_shm MUSEUM_TOUR_COUNT_SHM) (
     delete_sem MUSEUM_TOUR_START_SEM)))))))))))"

text \<open>\<^verbatim>\<open>safe_exit\<close> without the children.\<close>

definition safe_exit_m :: "(house, 'a) prog" where
  "safe_exit_m = thn destroy_ipcs (stop (Exit (-1)))"

definition created :: "(house, int) prog \<Rightarrow> (house, int) prog" where
  "created p = bnd p (\<lambda>i. if i < 0 then safe_exit_m else ret i)"

definition create_door :: "int \<Rightarrow> int \<Rightarrow> (house, unit) prog" where
  "create_door req_queue_id resp_queue_id =
     thn (created (creamsg req_queue_id)) (thn (created (creamsg resp_queue_id)) (ret ()))"

definition create_tour :: "(house, unit) prog" where
  "create_tour =
     bnd (created (creasem MUSEUM_TOUR_COUNT_SEM)) (\<lambda>tour_count_sem.
     thn (inisem tour_count_sem 1) (
     bnd (created (creashm MUSEUM_TOUR_COUNT_SHM 0)) (\<lambda>tour_count_shm_id.
     bnd (shm_map tour_count_shm_id) (\<lambda>tour_count_shm.
     thn (shm_store tour_count_shm 0) (
     bnd (created (creasem MUSEUM_TOUR_START_SEM)) (\<lambda>tour_start_sem.
     thn (inisem tour_start_sem 0) (
     thn (created (creamsg TOUR_REQ_MSG)) (
     thn (created (creamsg TOUR_RESP_MSG)) (ret ())))))))))"

definition create_museum :: "(house, unit) prog" where
  "create_museum =
     bnd (created (creasem MUSEUM_CAP_SEM)) (\<lambda>cap_sem.
     thn (inisem cap_sem 1) (
     bnd (created (creashm MUSEUM_CAP_SHM 0)) (\<lambda>cap_shm_id.
     bnd (shm_map cap_shm_id) (\<lambda>cap_shm.
     thn (shm_store cap_shm MUSEUM_CAP) (
     bnd (created (creasem MUSEUM_OPEN_SEM)) (\<lambda>open_sem.
     thn (inisem open_sem 1) (
     bnd (created (creashm MUSEUM_OPEN_SHM 0)) (\<lambda>open_shm_id.
     bnd (shm_map open_shm_id) (\<lambda>open_shm.
     thn (shm_store open_shm 1) create_tour)))))))))"

text \<open>The resources that \<^verbatim>\<open>main\<close> creates.\<close>

definition museum_setup :: "(house, unit) prog" where
  "museum_setup =
     thn create_museum (
     thn (each (\<lambda>i. create_door (2 * i) (2 * i + 1)) [0..ENTRANCE_DOORS - 1])
       (create_door EXIT_DOOR_REQ_MSG EXIT_DOOR_RESP_MSG))"

section \<open>The tour that never ends\<close>



lemma tour_reads_run:
  assumes "env w = []" "ipc_objs (queues w) rq = Some reqs" "ipc_objs (queues w) sq = Some out" "rq \<noteq> sq"
    "\<forall>m\<in>set reqs. m_type m = TOUR_REQUEST \<and> 0 < m_mtype m" "ipc_objs (shms w) c = Some (int (length reqs))"
    "is_int32 (int (length reqs))" "i < people" "length reqs < length stks"
  shows "tour_reads stks rq sq c people i w = (Blocked, w\<lparr>queues := ipc_put sq (out @ map (\<lambda>m. m\<lparr>m_type := TOUR_START\<rparr>) reqs) (ipc_put rq [] (queues w)),
    shms := ipc_put c 0 (shms w)\<rparr>)"
  using assms
proof (induction reqs arbitrary: w out stks)
  case Nil
  then obtain s ss where "stks = s # ss" by (cases stks) auto
  with Nil show ?case
    by (intro wp_eqI) (simp add: rcv_m_def wp take_msg_any ipc_put_same)
next
  case (Cons m reqs)
  obtain s ss where ss: "stks = s # ss" using Cons.prems(9) by (cases stks) auto
  let ?w = "w\<lparr>queues := ipc_put sq (out @ [m\<lparr>m_type := TOUR_START\<rparr>]) (ipc_put rq reqs (queues w)), shms := ipc_put c (int (length reqs)) (shms w)\<rparr>"
  have "is_int32 (int (length reqs))" using Cons.prems(7) by (simp add: is_int32_def)
  with Cons.prems have "tour_reads ss rq sq c people i ?w = (Blocked, ?w\<lparr>queues := ipc_put sq ((out @ [m\<lparr>m_type := TOUR_START\<rparr>]) @ map (\<lambda>m. m\<lparr>m_type := TOUR_START\<rparr>) reqs)
      (ipc_put rq [] (queues ?w)), shms := ipc_put c 0 (shms ?w)\<rparr>)"
    using ss by (intro Cons.IH) simp_all
  moreover have "tour_reads stks rq sq c people i w = tour_reads ss rq sq c people i ?w"
    using Cons.prems \<open>is_int32 (int (length reqs))\<close> ss
    by (simp add: rcv_m_def send_m_def bnd_def rcvmsg_def sendmsg_def syscall_def ret_def take_msg_any shm_load_def shm_store_def
        lift_res_def add_int_def)
  ultimately show ?case by simp
qed

lemma tour_reads_never_done: "i < people \<Longrightarrow> keeps (\<lambda>_. True) (tour_reads stks rq sq c people i) (\<lambda>r. \<not> r)"
proof (induction stks)
  case (Cons stk stks)
  have any: "keeps (\<lambda>_. True) p (\<lambda>_. True)" for p :: "(house, 'a) prog" by (simp add: keeps_def wp_run)
  show ?case
    using Cons by (simp only: tour_reads.simps if_True) (rule keeps_bind [OF any])+
qed (simp add: keeps_ret)

section \<open>Room in the museum\<close>

text \<open>
  Where the parts of the museum are: the queues of the doors, the capacity with its semaphore, the
  flag, and the queues, counter and semaphores of the tours.
\<close>

record layout =
  l_req :: "nat \<Rightarrow> int"
  l_resp :: "nat \<Rightarrow> int"
  l_exit_req :: int
  l_exit_resp :: int
  l_cap :: int
  l_cap_sem :: int
  l_open :: int
  l_tour_req :: int
  l_tour_resp :: int
  l_count :: int
  l_count_sem :: int
  l_start_sem :: int

abbreviation doors :: "nat set" where "doors \<equiv> {0, 1, 2}"

text \<open>
  The queues that carry places: an acceptance on its way to a visitor, and a request to leave, each
  stand for one place that is not free.
\<close>

definition place_queues :: "layout \<Rightarrow> int set" where
  "place_queues L = insert (l_exit_req L) (l_resp L ` doors)"

definition places :: "layout \<Rightarrow> int \<Rightarrow> message_t list \<Rightarrow> int" where
  "places L q ms = int (length (filter (\<lambda>m. m_type m = ACCEPT \<and> q \<in> l_resp L ` doors \<or> m_type m = EXIT_REQUEST \<and> q = l_exit_req L) ms))"

definition pending :: "layout \<Rightarrow> house \<Rightarrow> int" where
  "pending L w = (\<Sum>q\<in>place_queues L. case ipc_objs (queues w) q of None \<Rightarrow> 0 | Some ms \<Rightarrow> places L q ms)"

text \<open>
  \<open>room L V k w\<close>: with the visitors \<open>V\<close> inside and \<open>k\<close> more places taken by the process that runs, the
  capacity left is not negative, and all places together are within the capacity of the museum.
\<close>

definition room :: "layout \<Rightarrow> int set \<Rightarrow> int \<Rightarrow> house \<Rightarrow> bool" where
  "room L V k w \<longleftrightarrow> env w = [] \<and> finite V \<and> (\<forall>q\<in>place_queues L. ipc_objs (queues w) q \<noteq> None)
     \<and> (\<exists>cap. ipc_objs (shms w) (l_cap L) = Some cap \<and> 0 \<le> cap \<and> cap + pending L w + int (card V) + k \<le> MUSEUM_CAP)
     \<and> ipc_keys (queues w) (ftok_key (dirkey w) EXIT_DOOR_REQ_MSG) = Some (l_exit_req L)
     \<and> (\<forall>d\<in>doors. ipc_keys (queues w) (ftok_key (dirkey w) (2 * int d)) = Some (l_req L d))"

lemma room_free [simp]:
  "room L V k (w\<lparr>sems := x\<rparr>) = room L V k w" "room L V k w \<Longrightarrow> room L V k (w\<lparr>env := tl (env w)\<rparr>)"
  "a \<noteq> l_cap L \<Longrightarrow> room L V k (w\<lparr>shms := ipc_put a y (shms w)\<rparr>) = room L V k w"
  by (simp_all add: room_def pending_def)

lemma room_env: "room L V k w \<Longrightarrow> env w = []"
  by (simp add: room_def)

lemma room_less: "room L V k w \<Longrightarrow> j \<le> k \<Longrightarrow> room L V j w"
  by (auto simp: room_def)

lemma places_simps [simp]:
  "places L q [] = 0" "places L q (ms @ ms') = places L q ms + places L q ms'" "0 \<le> places L q ms"
  by (simp_all add: places_def)

lemma places_elsewhere: "q \<notin> place_queues L \<Longrightarrow> places L q ms = 0"
  by (auto simp: places_def place_queues_def)

lemma pending_put:
  assumes "ipc_objs (queues w) q = Some old"
  shows "pending L (w\<lparr>queues := ipc_put q new (queues w)\<rparr>) = pending L w - places L q old + places L q new"
proof (cases "q \<in> place_queues L")
  case True
  have fin: "finite (place_queues L)" by (simp add: place_queues_def)
  show ?thesis
    unfolding pending_def using assms True
    by (simp add: sum.remove [OF fin True] cong: sum.cong_simp)
next
  case False
  then show ?thesis
    unfolding pending_def using assms places_elsewhere [OF False]
    by (auto intro!: sum.cong)
qed

lemma room_put:
  assumes "room L V k w" "ipc_objs (queues w) q = Some old" "k' \<le> k + places L q old - places L q new"
  shows "room L V k' (w\<lparr>queues := ipc_put q new (queues w)\<rparr>)"
  using assms by (auto simp: room_def pending_put)

text \<open>\<open>runs P p Q E\<close>: from \<open>P\<close>, the program returns with \<open>Q\<close> or does not return, with \<open>E\<close>.\<close>

definition runs :: "(house \<Rightarrow> bool) \<Rightarrow> (house, 'a) prog \<Rightarrow> ('a \<Rightarrow> house \<Rightarrow> bool) \<Rightarrow> (house \<Rightarrow> bool) \<Rightarrow> bool" where
  "runs P p Q E \<longleftrightarrow> (\<forall>w. P w \<longrightarrow> wp p (\<lambda>r w'. case r of Ret x \<Rightarrow> Q x w' | _ \<Rightarrow> E w') w)"

named_theorems steps "programs between two assertions about the places"

lemma runs_bind:
  assumes "runs P p Q E" "\<And>x. runs (Q x) (f x) R E"
  shows "runs P (bnd p f) R E"
  unfolding runs_def wp_bnd
proof (intro allI impI)
  fix w assume "P w"
  then have "wp p (\<lambda>r w'. case r of Ret x \<Rightarrow> Q x w' | _ \<Rightarrow> E w') w" using assms(1) by (simp add: runs_def)
  then show "wp p (and_then (\<lambda>x. wp (f x) (\<lambda>r w'. case r of Ret x \<Rightarrow> R x w' | _ \<Rightarrow> E w')) (\<lambda>r w'. case r of Ret x \<Rightarrow> R x w' | _ \<Rightarrow> E w')) w"
  proof (rule wp_mono)
    fix r w' assume "case r of Ret x \<Rightarrow> Q x w' | _ \<Rightarrow> E w'"
    with assms(2) show "and_then (\<lambda>x. wp (f x) (\<lambda>r w'. case r of Ret x \<Rightarrow> R x w' | _ \<Rightarrow> E w')) (\<lambda>r w'. case r of Ret x \<Rightarrow> R x w' | _ \<Rightarrow> E w') r w'"
      by (cases r) (simp_all add: runs_def)
  qed
qed

lemma runs_pre: "runs P p Q E \<Longrightarrow> (\<And>w. P' w \<Longrightarrow> P w) \<Longrightarrow> runs P' p Q E"
  by (simp add: runs_def)

lemma runs_result:
  assumes "runs P p Q E" "P w" "p w = (r, w')"
  shows "case r of Ret x \<Rightarrow> Q x w' | _ \<Rightarrow> E w'"
  using assms unfolding runs_def wp_run by (metis fst_conv snd_conv)

lemma runs_ret: "(\<And>w. P w \<Longrightarrow> Q x w) \<Longrightarrow> runs P (ret x) Q E"
  by (simp add: runs_def)

lemma runs_if: "(b \<Longrightarrow> runs P p Q E) \<Longrightarrow> (\<not> b \<Longrightarrow> runs P p' Q E) \<Longrightarrow> runs P (if b then p else p') Q E"
  by simp

text \<open>The primitives, with \<open>k\<close> places in the hands of the process.\<close>

lemma runs_calls [steps]:
  "0 \<le> k \<Longrightarrow> runs (room L V k) (sem_p s) (\<lambda>_. room L V k) (room L V 0)"
  "0 \<le> k \<Longrightarrow> runs (room L V k) (sem_v s) (\<lambda>_. room L V k) (room L V 0)"
  "0 \<le> k \<Longrightarrow> runs (room L V k) (shm_load a) (\<lambda>_. room L V k) (room L V 0)"
  "0 \<le> k \<Longrightarrow> runs (room L V k) (shm_unmap a) (\<lambda>_. room L V k) (room L V 0)"
  "0 \<le> k \<Longrightarrow> runs (room L V k) (lift_res z) (\<lambda>_. room L V k) (room L V 0)"
  "0 \<le> k \<Longrightarrow> a \<noteq> l_cap L \<Longrightarrow> runs (room L V k) (shm_store a y) (\<lambda>_. room L V k) (room L V 0)"
  by (auto simp: runs_def wp room_env room_less split: option.split res.split)

lemma runs_rcv [steps]:
  assumes "0 \<le> k"
  shows "runs (room L V k) (rcv_m q stk ty) (\<lambda>m. room L V (k + places L q [m])) (room L V 0)"
proof -
  have take: "room L V (k + places L q [m]) (w\<lparr>queues := ipc_put q rest (queues w)\<rparr>)"
    if w: "room L V k w" "ipc_objs (queues w) q = Some ms" "take_msg m_mtype ty ms = Some (m, rest)" for w m ms rest
  proof -
    obtain us vs where "ms = us @ m # vs" "rest = us @ vs"
      using w(3) by (auto simp: take_msg_def split: if_splits dest!: take_first_SomeD)
    then have "places L q ms = places L q [m] + places L q rest" by (simp add: places_def)
    with w show ?thesis by (intro room_put [OF w(1,2)]) simp
  qed
  have none: "places L q ms = 0" if "room L V k w" "ipc_objs (queues w) q = None" for w ms
    using that by (intro places_elsewhere) (auto simp: room_def)
  show ?thesis
    using assms by (auto simp: runs_def rcv_m_def wp room_env room_less take none split: option.split)
qed

lemma runs_send [steps]:
  assumes "0 \<le> k"
  shows "runs (room L V (k + places L q [m])) (send_m q m) (\<lambda>_. room L V k) (room L V 0)"
proof -
  have "room L V k (w\<lparr>queues := ipc_put q (ms @ [m]) (queues w)\<rparr>)"
    if "room L V (k + places L q [m]) w" "ipc_objs (queues w) q = Some ms" for w ms
    using that by (intro room_put [OF that]) simp
  moreover have "room L V k w" if "room L V (k + places L q [m]) w" for w using that by (auto intro: room_less)
  ultimately show ?thesis by (auto simp: runs_def send_m_def wp room_env split: option.split)
qed

text \<open>Taking a place and giving one back.\<close>

lemma runs_take_place:
  "runs (room L V 0) (bnd (shm_load (l_cap L)) (\<lambda>cap.
     bnd (if cap > 0 then bnd (shm_load a) (\<lambda>b. ret (b \<noteq> 0)) else ret False) (\<lambda>room.
     if room then bnd (lift_res (add_int cap (-1))) (\<lambda>n. thn (shm_store (l_cap L) n) (ret (msg\<lparr>m_type := ACCEPT\<rparr>)))
     else ret (msg\<lparr>m_type := REJECT\<rparr>))))
     (\<lambda>msg'. room L V (if m_type msg' = ACCEPT then 1 else 0)) (room L V 0)"
  by (auto simp: runs_def wp room_def pending_def add_int_def split: option.split)

lemma runs_give_place:
  "runs (room L V 1) (bnd (shm_load (l_cap L)) (\<lambda>cap. bnd (lift_res (add_int cap 1)) (\<lambda>n. shm_store (l_cap L) n)))
     (\<lambda>_. room L V 0) (room L V 0)"
  by (auto simp: runs_def wp room_def pending_def add_int_def split: option.split)

definition laid_out :: "layout \<Rightarrow> bool" where
  "laid_out L \<longleftrightarrow> inj_on (l_resp L) doors \<and> l_exit_req L \<notin> l_resp L ` doors
     \<and> l_req L ` doors \<inter> place_queues L = {} \<and> {l_exit_resp L, l_tour_req L, l_tour_resp L} \<inter> place_queues L = {}
     \<and> l_cap L \<notin> {l_open L, l_count L}"

lemma runs_entrance_step:
  assumes "laid_out L" "d \<in> doors"
  shows "runs (room L V 0) (entrance_step stk (l_req L d) (l_resp L d) (l_cap L) s (l_open L)) (\<lambda>_. room L V 0) (room L V 0)"
proof -
  have req: "places L (l_req L d) ms = 0" for ms using assms by (intro places_elsewhere) (auto simp: laid_out_def)
  have resp: "places L (l_resp L d) [m] = (if m_type m = ACCEPT then 1 else 0)" for m
    using assms by (auto simp: places_def laid_out_def)
  let ?A = "\<lambda>msg. room L V (if m_type msg = ACCEPT then 1 else 0)"
  have send: "runs (?A m) (thn (sem_v s) (send_m (l_resp L d) m)) (\<lambda>_. room L V 0) (room L V 0)" for m
    using runs_send [of 0 L V "l_resp L d" m] by (intro runs_bind [OF runs_calls(2)]) (simp_all add: resp)
  note go = runs_bind [OF runs_take_place [of L V "l_open L"] send, unfolded bnd_assoc]
  show ?thesis
    unfolding entrance_step_def
    by (rule runs_bind [OF runs_rcv]) (auto simp: req intro!: runs_if runs_ret runs_bind [OF runs_calls(1)] go)
qed

lemma runs_exit_step:
  assumes "laid_out L"
  shows "runs (room L V 0) (exit_step stk (l_exit_req L) (l_exit_resp L) (l_cap L) s) (\<lambda>_. room L V 0) (room L V 0)"
proof -
  have req: "places L (l_exit_req L) [m] = (if m_type m = EXIT_REQUEST then 1 else 0)" for m
    using assms by (auto simp: places_def laid_out_def)
  have resp: "places L (l_exit_resp L) ms = 0" for ms using assms by (intro places_elsewhere) (auto simp: laid_out_def)
  have send: "runs (room L V 0) (thn (sem_v s) (send_m (l_exit_resp L) m)) (\<lambda>_. room L V 0) (room L V 0)" for m
    using runs_send [of 0 L V "l_exit_resp L" m] by (intro runs_bind [OF runs_calls(2)]) (simp_all add: resp)
  note go = runs_bind [OF runs_give_place send, unfolded bnd_assoc]
  show ?thesis
    unfolding exit_step_def
    by (rule runs_bind [OF runs_rcv]) (auto simp: req intro!: runs_if runs_ret runs_bind [OF runs_calls(1)] go)
qed

text \<open>Tours move no places.\<close>

lemma runs_elsewhere [steps]:
  assumes "q \<notin> place_queues L"
  shows "runs (room L V 0) (rcv_m q stk ty) (\<lambda>_. room L V 0) (room L V 0)"
    "runs (room L V 0) (send_m q m) (\<lambda>_. room L V 0) (room L V 0)"
  using runs_rcv [of 0 L V q stk ty] runs_send [of 0 L V q m] by (simp_all add: places_elsewhere [OF assms])

lemmas still = runs_calls [where k = 0, simplified] runs_elsewhere runs_ret runs_if

lemma tour_parts:
  "laid_out L \<Longrightarrow> l_tour_req L \<notin> place_queues L \<and> l_tour_resp L \<notin> place_queues L \<and> l_exit_resp L \<notin> place_queues L
     \<and> l_count L \<noteq> l_cap L \<and> l_open L \<noteq> l_cap L"
  by (auto simp: laid_out_def)

lemma runs_tour:
  assumes "laid_out L"
  shows "runs (room L V 0) (tour_register pid (l_tour_req L) (l_count L) cs ss) (\<lambda>_. room L V 0) (room L V 0)"
    "runs (room L V 0) (guide_step stks (l_tour_req L) (l_tour_resp L) (l_count L) cs ss) (\<lambda>_. room L V 0) (room L V 0)"
    "runs (room L V 0) (timer_step (l_count L) cs ss) (\<lambda>_. room L V 0) (room L V 0)"
    "runs (room L V 0) (admin_choice opt (l_open L)) (\<lambda>_. room L V 0) (room L V 0)"
proof -
  note p = tour_parts [OF assms]
  have reads: "runs (room L V 0) (tour_reads stks (l_tour_req L) (l_tour_resp L) (l_count L) n i) (\<lambda>_. room L V 0) (room L V 0)" for n i
    by (induction stks) (auto simp: p intro!: runs_bind still)
  show "runs (room L V 0) (tour_register pid (l_tour_req L) (l_count L) cs ss) (\<lambda>_. room L V 0) (room L V 0)"
    unfolding tour_register_def by (auto simp: p intro!: runs_bind still)
  show "runs (room L V 0) (guide_step stks (l_tour_req L) (l_tour_resp L) (l_count L) cs ss) (\<lambda>_. room L V 0) (room L V 0)"
    unfolding guide_step_def by (auto simp: p intro!: runs_bind still reads)
  show "runs (room L V 0) (timer_step (l_count L) cs ss) (\<lambda>_. room L V 0) (room L V 0)"
    unfolding timer_step_def by (auto simp: p intro!: runs_bind still)
  show "runs (room L V 0) (admin_choice opt (l_open L)) (\<lambda>_. room L V 0) (room L V 0)"
    unfolding admin_choice_def by (auto simp: p intro!: runs_bind still)
qed

text \<open>A visitor finds the queues of the doors under their numbers.\<close>

lemma runs_found:
  assumes "\<And>w. room L V k w \<Longrightarrow> ipc_keys (queues w) (ftok_key (dirkey w) n) = Some q" "0 \<le> k"
  shows "runs (room L V k) (found (getmsg n)) (\<lambda>i w. i = q \<and> room L V k w) (room L V 0)"
  unfolding runs_def
proof (intro allI impI)
  fix w assume w: "room L V k w"
  with assms show "wp (found (getmsg n)) (\<lambda>r w'. case r of Ret x \<Rightarrow> x = q \<and> room L V k w' | _ \<Rightarrow> room L V 0 w') w"
    by (simp add: found_def wp room_env ipc_get_def room_less)
qed

lemma runs_get_any: "0 \<le> k \<Longrightarrow> runs (room L V k) (found (getmsg n)) (\<lambda>_. room L V k) (room L V 0)"
  by (simp add: runs_def found_def wp room_env room_less)

lemma runs_fact: "(b \<Longrightarrow> runs P p Q E) \<Longrightarrow> runs (\<lambda>w. b \<and> P w) p Q E"
  by (simp add: runs_def)

lemma runs_person_asks:
  assumes "laid_out L" "d \<in> doors"
  shows "runs (room L V 0) (person_asks (int d) pid) (\<lambda>_. room L V 0) (room L V 0)"
proof -
  have req: "l_req L d \<notin> place_queues L" using assms by (auto simp: laid_out_def)
  have key: "room L V 0 w \<Longrightarrow> ipc_keys (queues w) (ftok_key (dirkey w) (2 * int d)) = Some (l_req L d)" for w
    using assms(2) by (auto simp: room_def)
  have rest: "runs (room L V 0) (bnd (found (getmsg (2 * int d + 1))) (\<lambda>resp. let msg = \<lparr>m_mtype = pid, m_type = ENTRANCE_REQUEST\<rparr> in
     thn (send_m (l_req L d) msg) (ret (resp, msg)))) (\<lambda>_. room L V 0) (room L V 0)"
    by (rule runs_bind [OF runs_get_any]) (auto simp: Let_def req intro!: runs_bind still)
  show ?thesis
    unfolding person_asks_def
    by (rule runs_bind [OF runs_found [OF key]], simp, simp, rule runs_fact) (use rest in simp)
qed

lemma runs_person_leaves:
  assumes "laid_out L"
  shows "runs (room L V 1) (person_leaves msg) (\<lambda>_. room L V 0) (room L V 0)"
proof -
  have one: "places L (l_exit_req L) [msg\<lparr>m_type := EXIT_REQUEST\<rparr>] = 1" by (simp add: places_def)
  have key: "room L V 1 w \<Longrightarrow> ipc_keys (queues w) (ftok_key (dirkey w) EXIT_DOOR_REQ_MSG) = Some (l_exit_req L)" for w
    by (simp add: room_def)
  have send: "runs (room L V 1) (send_m (l_exit_req L) (msg\<lparr>m_type := EXIT_REQUEST\<rparr>)) (\<lambda>_. room L V 0) (room L V 0)"
    using runs_send [of 0 L V "l_exit_req L" "msg\<lparr>m_type := EXIT_REQUEST\<rparr>"] by (simp add: one)
  have rest: "runs (room L V 1) (bnd (found (getmsg EXIT_DOOR_RESP_MSG)) (\<lambda>resp. let msg = msg\<lparr>m_type := EXIT_REQUEST\<rparr> in
     thn (send_m (l_exit_req L) msg) (ret (resp, msg)))) (\<lambda>_. room L V 0) (room L V 0)"
    by (rule runs_bind [OF runs_get_any]) (auto simp: Let_def intro!: runs_bind [OF send] runs_ret)
  show ?thesis
    unfolding person_leaves_def
    by (rule runs_bind [OF runs_found [OF key]], simp, simp, rule runs_fact) (use rest in simp)
qed

section \<open>The museum as a state machine\<close>

text \<open>
  The state is the host and the visitors inside: those who have received an acceptance and have not
  asked to leave.  A visitor takes the parts of its main function, and every other process an
  iteration of its loop, in any order; a process that waits may do so in the middle of its iteration.
\<close>

inductive museum_step :: "layout \<Rightarrow> house \<times> int set \<Rightarrow> house \<times> int set \<Rightarrow> bool" for L where
  asks: "d \<in> doors \<Longrightarrow> person_asks (int d) pid w = (r, w') \<Longrightarrow> museum_step L (w, V) (w', V)"
| enters: "d \<in> doors \<Longrightarrow> pid \<notin> V \<Longrightarrow> rcv_m (l_resp L d) stk pid w = (Ret msg, w') \<Longrightarrow>
    museum_step L (w, V) (w', if m_type msg = ACCEPT then insert pid V else V)"
| leaves: "pid \<in> V \<Longrightarrow> person_leaves msg w = (r, w') \<Longrightarrow> museum_step L (w, V) (w', V - {pid})"
| let_out: "rcv_m (l_exit_resp L) stk pid w = (r, w') \<Longrightarrow> museum_step L (w, V) (w', V)"
| registers: "tour_register pid (l_tour_req L) (l_count L) (l_count_sem L) (l_start_sem L) w = (r, w') \<Longrightarrow> museum_step L (w, V) (w', V)"
| on_tour: "rcv_m (l_tour_resp L) stk pid w = (r, w') \<Longrightarrow> museum_step L (w, V) (w', V)"
| entrance: "d \<in> doors \<Longrightarrow>
    entrance_step stk (l_req L d) (l_resp L d) (l_cap L) (l_cap_sem L) (l_open L) w = (r, w') \<Longrightarrow> museum_step L (w, V) (w', V)"
| exit: "exit_step stk (l_exit_req L) (l_exit_resp L) (l_cap L) (l_cap_sem L) w = (r, w') \<Longrightarrow> museum_step L (w, V) (w', V)"
| guide: "guide_step stks (l_tour_req L) (l_tour_resp L) (l_count L) (l_count_sem L) (l_start_sem L) w = (r, w') \<Longrightarrow>
    museum_step L (w, V) (w', V)"
| timer: "timer_step (l_count L) (l_count_sem L) (l_start_sem L) w = (r, w') \<Longrightarrow> museum_step L (w, V) (w', V)"
| admin: "admin_choice opt (l_open L) w = (r, w') \<Longrightarrow> museum_step L (w, V) (w', V)"

lemma room_after:
  assumes "runs (room L V k) p (\<lambda>_. room L V 0) (room L V 0)" "room L V k w" "p w = (r, w')"
  shows "room L V 0 w'"
  using runs_result [OF assms] by (cases r) simp_all

lemma room_step:
  assumes "museum_step L S S'" "laid_out L" "room L (snd S) 0 (fst S)"
  shows "room L (snd S') 0 (fst S')"
  using assms(1)
proof cases
  case (enters d pid V stk w msg w')
  have "places L (l_resp L d) [msg] = (if m_type msg = ACCEPT then 1 else 0)"
    using assms(2) enters(3) by (auto simp: places_def laid_out_def)
  with runs_result [OF runs_rcv [of 0 L V "l_resp L d" stk pid] _ enters(5)] assms(3) enters(1)
  have "room L V (if m_type msg = ACCEPT then 1 else 0) w'" by simp
  with enters(2,4) show ?thesis by (auto simp: room_def)
next
  case (leaves pid V msg w r w')
  have "finite V" using assms(3) leaves(1) by (simp add: room_def)
  from card.remove [OF this leaves(3)] assms(3) leaves(1) have "room L (V - {pid}) 1 w" by (auto simp: room_def)
  from room_after [OF runs_person_leaves [OF assms(2)] this leaves(4)] leaves(2) show ?thesis by simp
next
  case (asks d pid w r w' V)
  with room_after [OF runs_person_asks [OF assms(2)] _ asks(4)] assms(3) show ?thesis by simp
next
  case (let_out stk pid w r w' V)
  with room_after [OF runs_elsewhere(1) _ let_out(3)] tour_parts [OF assms(2)] assms(3) show ?thesis by simp
next
  case (registers pid w r w' V)
  with room_after [OF runs_tour(1) [OF assms(2)] _ registers(3)] assms(3) show ?thesis by simp
next
  case (on_tour stk pid w r w' V)
  with room_after [OF runs_elsewhere(1) _ on_tour(3)] tour_parts [OF assms(2)] assms(3) show ?thesis by simp
next
  case (entrance d stk w r w' V)
  with room_after [OF runs_entrance_step [OF assms(2)] _ entrance(4)] assms(3) show ?thesis by simp
next
  case (exit stk w r w' V)
  with room_after [OF runs_exit_step [OF assms(2)] _ exit(3)] assms(3) show ?thesis by simp
next
  case (guide stks w r w' V)
  with room_after [OF runs_tour(2) [OF assms(2)] _ guide(3)] assms(3) show ?thesis by simp
next
  case (timer w r w' V)
  with room_after [OF runs_tour(3) [OF assms(2)] _ timer(3)] assms(3) show ?thesis by simp
next
  case (admin opt w r w' V)
  with room_after [OF runs_tour(4) [OF assms(2)] _ admin(3)] assms(3) show ?thesis by simp
qed

lemma room_reachable: "(museum_step L)\<^sup>*\<^sup>* S S' \<Longrightarrow> laid_out L \<Longrightarrow> room L (snd S) 0 (fst S) \<Longrightarrow> room L (snd S') 0 (fst S')"
  by (induction rule: rtranclp_induct) (auto intro: room_step)

section \<open>Set up and destroyed\<close>

text \<open>An object made under a key that is not used.\<close>

definition ipc_add :: "int \<Rightarrow> 'a \<Rightarrow> 'a ipc \<Rightarrow> 'a ipc" where
  "ipc_add k x t = t\<lparr>ipc_keys := (ipc_keys t)(k \<mapsto> ipc_next t), ipc_objs := (ipc_objs t)(ipc_next t \<mapsto> x), ipc_next := ipc_next t + 1\<rparr>"

lemma ipc_add_simps [simp]:
  "ipc_keys (ipc_add k x t) = (ipc_keys t)(k \<mapsto> ipc_next t)"
  "ipc_objs (ipc_add k x t) = (ipc_objs t)(ipc_next t \<mapsto> x)"
  "ipc_next (ipc_add k x t) = ipc_next t + 1"
  by (simp_all add: ipc_add_def)

lemma ipc_create_add: "ipc_keys t k = None \<Longrightarrow> ipc_create x k t = (ipc_next t, ipc_add k x t)"
  by (simp add: ipc_create_def ipc_add_def)

definition museum_absent :: "house \<Rightarrow> bool" where
  "museum_absent w \<longleftrightarrow> env w = [] \<and> wf_base (dirkey w) \<and> wf_ipc (queues w) \<and> wf_ipc (sems w) \<and> wf_ipc (shms w)
     \<and> (\<forall>k\<in>{0..9}. ipc_keys (queues w) (ftok_key (dirkey w) k) = None)
     \<and> (\<forall>k\<in>{1..4}. ipc_keys (sems w) (ftok_key (dirkey w) k) = None)
     \<and> (\<forall>k\<in>{1..3}. ipc_keys (shms w) (ftok_key (dirkey w) k) = None)"

abbreviation entry :: "house \<Rightarrow> int \<Rightarrow> 'a \<Rightarrow> 'a ipc \<Rightarrow> 'a ipc" where
  "entry w i x \<equiv> ipc_add (ftok_key (dirkey w) i) x"

definition museum_started :: "house \<Rightarrow> house" where
  "museum_started w = (let s = ipc_next (sems w); m = ipc_next (shms w) in w\<lparr>
     queues := entry w 7 [] (entry w 6 [] (entry w 5 [] (entry w 4 [] (entry w 3 [] (entry w 2 [] (entry w 1 [] (entry w 0 [] (entry w 9 [] (entry w 8 [] (queues w)))))))))),
     sems := ipc_put (3 + s) 0 (entry w 4 0 (ipc_put (2 + s) 1 (entry w 3 0 (ipc_put (s + 1) 1 (entry w 2 0 (ipc_put s 1 (entry w 1 0 (sems w)))))))),
     shms := ipc_put (2 + m) 0 (entry w 3 0 (ipc_put (m + 1) 1 (entry w 2 0 (ipc_put m MUSEUM_CAP (entry w 1 0 (shms w))))))\<rparr>)"

definition museum_layout :: "house \<Rightarrow> layout" where
  "museum_layout w = (let q = ipc_next (queues w); s = ipc_next (sems w); m = ipc_next (shms w) in
     \<lparr>l_req = (\<lambda>d. q + 2 + 2 * int d), l_resp = (\<lambda>d. q + 3 + 2 * int d), l_exit_req = q + 8, l_exit_resp = q + 9,
      l_cap = m, l_cap_sem = s, l_open = m + 1, l_tour_req = q, l_tour_resp = q + 1, l_count = m + 2,
      l_count_sem = s + 2, l_start_sem = s + 3\<rparr>)"

lemma museum_absentD:
  assumes "museum_absent w"
  shows "env w = []" "wf_base (dirkey w)" "0 \<le> ipc_next (queues w)" "0 \<le> ipc_next (sems w)" "0 \<le> ipc_next (shms w)"
    "0 \<le> k \<Longrightarrow> k \<le> 9 \<Longrightarrow> ipc_keys (queues w) (ftok_key (dirkey w) k) = None"
    "1 \<le> k \<Longrightarrow> k \<le> 4 \<Longrightarrow> ipc_keys (sems w) (ftok_key (dirkey w) k) = None"
    "1 \<le> k \<Longrightarrow> k \<le> 3 \<Longrightarrow> ipc_keys (shms w) (ftok_key (dirkey w) k) = None"
  using assms by (simp_all add: museum_absent_def wf_ipc_old(3))

lemma three_doors: "[0..2] = [0, 1, 2 :: int]"
  by (simp add: upto.simps)

lemma museum_setup_run:
  assumes "museum_absent w"
  shows "museum_setup w = (Ret (), museum_started w)"
  using museum_absentD [OF assms]
  by (intro wp_eqI) (simp add: museum_started_def Let_def museum_setup_def create_museum_def create_tour_def create_door_def
      created_def three_doors wp ipc_create_add del: upto.simps)

lemma museum_started_simps [simp]:
  "env (museum_started w) = env w" "dirkey (museum_started w) = dirkey w"
  by (simp_all add: museum_started_def Let_def)

lemma museum_laid_out:
  assumes "museum_absent w"
  shows "laid_out (museum_layout w)"
  using museum_absentD(3,4,5) [OF assms] by (auto simp: laid_out_def museum_layout_def Let_def place_queues_def inj_on_def)

lemma museum_started_room:
  assumes "museum_absent w"
  shows "room (museum_layout w) {} 0 (museum_started w)"
proof -
  note w = museum_absentD [OF assms]
  let ?q = "ipc_next (queues w)"
  have pq: "place_queues (museum_layout w) = {?q + 3, ?q + 5, ?q + 7, ?q + 8}"
    by (auto simp: place_queues_def museum_layout_def Let_def)
  have objs: "ipc_objs (queues (museum_started w)) i = Some []" if "i \<in> place_queues (museum_layout w)" for i
    using that unfolding pq by (auto simp: museum_started_def Let_def)
  then have "pending (museum_layout w) (museum_started w) = 0" by (simp add: pending_def)
  moreover have "ipc_objs (shms (museum_started w)) (l_cap (museum_layout w)) = Some MUSEUM_CAP"
    by (simp add: museum_started_def museum_layout_def Let_def)
  moreover have "ipc_keys (queues (museum_started w)) (ftok_key (dirkey w) 6) = Some (l_exit_req (museum_layout w))"
    using w(2) by (simp add: museum_started_def museum_layout_def Let_def)
  moreover have "ipc_keys (queues (museum_started w)) (ftok_key (dirkey w) (2 * int i)) = Some (l_req (museum_layout w) i)" if "i \<in> doors" for i
    using w(2) that by (auto simp: museum_started_def museum_layout_def Let_def)
  ultimately show ?thesis using w(1) objs by (auto simp: room_def)
qed

section \<open>Destruction\<close>

text \<open>A name space in which every name has an object of its own.\<close>

definition named :: "'a ipc \<Rightarrow> bool" where
  "named t \<longleftrightarrow> wf_ipc t \<and> (\<forall>k i. ipc_keys t k = Some i \<longrightarrow> ipc_objs t i \<noteq> None)
     \<and> (\<forall>k k' i. ipc_keys t k = Some i \<longrightarrow> ipc_keys t k' = Some i \<longrightarrow> k = k')"

definition ipc_rm :: "int \<Rightarrow> 'a ipc \<Rightarrow> 'a ipc" where
  "ipc_rm k t = (case ipc_keys t k of None \<Rightarrow> t | Some i \<Rightarrow> snd (ipc_remove i t))"

lemma namedD:
  "named t \<Longrightarrow> wf_ipc t" "named t \<Longrightarrow> ipc_keys t k = Some i \<Longrightarrow> ipc_objs t i \<noteq> None"
  "named t \<Longrightarrow> ipc_keys t k = Some i \<Longrightarrow> ipc_keys t k' = Some i \<longleftrightarrow> k' = k"
  by (auto simp: named_def)

lemma ipc_rm_some:
  assumes "named t" "ipc_keys t k = Some i"
  shows "ipc_rm k t = t\<lparr>ipc_keys := (ipc_keys t)(k := None), ipc_objs := (ipc_objs t)(i := None)\<rparr>"
proof -
  have "(\<lambda>k. if ipc_keys t k = Some i then None else ipc_keys t k) = (ipc_keys t)(k := None)"
    using namedD(3) [OF assms] by (auto simp: fun_eq_iff)
  then show ?thesis using namedD(2) [OF assms] assms(2) by (auto simp: ipc_rm_def ipc_remove_def)
qed

lemma ipc_rm_none: "ipc_keys t k = None \<Longrightarrow> ipc_rm k t = t"
  by (simp add: ipc_rm_def)

lemma ipc_rm_named:
  assumes "named t"
  shows "named (ipc_rm k t)" "ipc_keys (ipc_rm k t) = (ipc_keys t)(k := None)"
    "k' \<noteq> k \<Longrightarrow> ipc_keys t k' = Some i \<Longrightarrow> ipc_objs (ipc_rm k t) i = ipc_objs t i"
proof -
  have some: "named (ipc_rm k t)" if "ipc_keys t k = Some j" for j
    using assms namedD(3) [OF assms that] unfolding named_def wf_ipc_def ipc_rm_some [OF assms that] by (auto split: if_splits)
  show "named (ipc_rm k t)" using assms some by (cases "ipc_keys t k") (auto simp: ipc_rm_none)
  show "ipc_keys (ipc_rm k t) = (ipc_keys t)(k := None)"
    using assms by (cases "ipc_keys t k") (auto simp: ipc_rm_none ipc_rm_some)
  show "ipc_objs (ipc_rm k t) i = ipc_objs t i" if "k' \<noteq> k" "ipc_keys t k' = Some i"
    using that namedD(3) [OF assms that(2), of k] assms by (cases "ipc_keys t k") (auto simp: ipc_rm_none ipc_rm_some)
qed

lemma fold_rm_named:
  "named t \<Longrightarrow> named (fold ipc_rm ks t)
     \<and> (\<forall>k. ipc_keys (fold ipc_rm ks t) k = (if k \<in> set ks then None else ipc_keys t k))
     \<and> (\<forall>k i. k \<notin> set ks \<longrightarrow> ipc_keys t k = Some i \<longrightarrow> ipc_objs (fold ipc_rm ks t) i = ipc_objs t i)"
proof (induction ks arbitrary: t)
  case (Cons k ks)
  note one = ipc_rm_named [OF Cons.prems, where k = k]
  from Cons.IH [OF one(1)] one(2) show ?case by (auto simp: one(3))
qed simp

lemma fold_rm:
  assumes "named t"
  shows "named (fold ipc_rm ks t)" "k \<in> set ks \<Longrightarrow> ipc_keys (fold ipc_rm ks t) k = None"
    "\<forall>k i. k \<notin> set ks \<longrightarrow> ipc_keys t k = Some i \<longrightarrow>
       ipc_keys (fold ipc_rm ks t) k = Some i \<and> ipc_objs (fold ipc_rm ks t) i = ipc_objs t i"
  using fold_rm_named [OF assms, of ks] by simp_all

lemma ipc_rm_get:
  assumes "named t"
  shows "ipc_get k t < 0 \<longleftrightarrow> ipc_keys t k = None" "ipc_keys t k = None \<Longrightarrow> ipc_rm k t = t"
    "ipc_keys t k = Some i \<Longrightarrow> ipc_rm k t = snd (ipc_remove (ipc_get k t) t)"
  using assms by (fastforce simp: ipc_get_def ipc_rm_def named_def wf_ipc_def split: option.splits)+

text \<open>A host on which nothing fails.\<close>

definition tidy :: "house \<Rightarrow> bool" where
  "tidy w \<longleftrightarrow> env w = [] \<and> wf_base (dirkey w) \<and> named (queues w) \<and> named (sems w) \<and> named (shms w)"

lemma delete_run:
  assumes "tidy w" "0 \<le> n" "n < 128"
  shows "delete_msg_queue n w = (Ret (), w\<lparr>queues := ipc_rm (ftok_key (dirkey w) n) (queues w)\<rparr>)"
    "delete_sem n w = (Ret (), w\<lparr>sems := ipc_rm (ftok_key (dirkey w) n) (sems w)\<rparr>)"
    "delete_shm n w = (Ret (), w\<lparr>shms := ipc_rm (ftok_key (dirkey w) n) (shms w)\<rparr>)"
  using assms unfolding tidy_def delete_msg_queue_def delete_sem_def delete_shm_def
  by - (intro wp_eqI; auto simp: wp ipc_rm_get split: prod.split option.split)+

lemma tidy_rm [simp]:
  "tidy w \<Longrightarrow> tidy (w\<lparr>queues := q\<rparr>) = named q" "tidy w \<Longrightarrow> tidy (w\<lparr>sems := s\<rparr>) = named s"
  "tidy w \<Longrightarrow> tidy (w\<lparr>shms := m\<rparr>) = named m" "tidy w \<Longrightarrow> named (queues w)" "tidy w \<Longrightarrow> named (sems w)"
  "tidy w \<Longrightarrow> named (shms w)"
  by (simp_all add: tidy_def)

abbreviation ids :: "house \<Rightarrow> int list \<Rightarrow> int list" where
  "ids w \<equiv> map (ftok_key (dirkey w))"

lemma destroy_ipcs_run:
  assumes "tidy w"
  shows "destroy_ipcs w = (Ret (), w\<lparr>queues := fold ipc_rm (ids w [0..9]) (queues w),
    sems := fold ipc_rm (ids w [1..4]) (sems w), shms := fold ipc_rm (ids w [1..3]) (shms w)\<rparr>)"
proof -
  have upto: "[0..9] = [0, 1, 2, 3, 4, 5, 6, 7, 8, 9 :: int]" "[1..4] = [1, 2, 3, 4 :: int]" "[1..3] = [1, 2, 3 :: int]"
    by (simp_all add: upto.simps)
  show ?thesis
    using assms by (simp add: destroy_ipcs_def three_doors upto bnd_def ret_def delete_run ipc_rm_named(1) del: upto.simps)
qed

lemma destroyed_museum:
  "tidy w \<Longrightarrow> \<exists>w'. destroy_ipcs w = (Ret (), w') \<and> museum_absent w' \<and> museum_setup w' = (Ret (), museum_started w')
     \<and> (\<forall>k i. k \<notin> set (ids w [0..9]) \<longrightarrow> ipc_keys (queues w) k = Some i \<longrightarrow>
          ipc_keys (queues w') k = Some i \<and> ipc_objs (queues w') i = ipc_objs (queues w) i)
     \<and> (\<forall>k i. k \<notin> set (ids w [1..4]) \<longrightarrow> ipc_keys (sems w) k = Some i \<longrightarrow>
          ipc_keys (sems w') k = Some i \<and> ipc_objs (sems w') i = ipc_objs (sems w) i)
     \<and> (\<forall>k i. k \<notin> set (ids w [1..3]) \<longrightarrow> ipc_keys (shms w) k = Some i \<longrightarrow>
          ipc_keys (shms w') k = Some i \<and> ipc_objs (shms w') i = ipc_objs (shms w) i)"
proof -
  assume t: "tidy w"
  define w' where "w' = w\<lparr>queues := fold ipc_rm (ids w [0..9]) (queues w),
    sems := fold ipc_rm (ids w [1..4]) (sems w), shms := fold ipc_rm (ids w [1..3]) (shms w)\<rparr>"
  have parts: "queues w' = fold ipc_rm (ids w [0..9]) (queues w)" "sems w' = fold ipc_rm (ids w [1..4]) (sems w)"
    "shms w' = fold ipc_rm (ids w [1..3]) (shms w)" "env w' = env w" "dirkey w' = dirkey w"
    by (simp_all add: w'_def del: upto.simps)
  have n: "named (queues w)" "named (sems w)" "named (shms w)" using t by simp_all
  have gone: "museum_absent w'"
    using t n unfolding museum_absent_def tidy_def parts
    by (intro conjI ballI; simp add: namedD(1) fold_rm(1) fold_rm(2) del: upto.simps fold_simps)
  note kept = fold_rm(3) [OF n(1), of "ids w [0..9]", folded parts(1)] fold_rm(3) [OF n(2), of "ids w [1..4]", folded parts(2)]
    fold_rm(3) [OF n(3), of "ids w [1..3]", folded parts(3)]
  show ?thesis
    by (rule exI [of _ w'], intro conjI kept gone museum_setup_run [OF gone]) (rule destroy_ipcs_run [OF t, folded w'_def])
qed

definition tour_host :: house where
  "tour_host = idle_host\<lparr>sems := \<lparr>ipc_keys = (\<lambda>_. None), ipc_objs = [0 \<mapsto> 1, 1 \<mapsto> 1], ipc_next = 2\<rparr>,
    queues := \<lparr>ipc_keys = (\<lambda>_. None), ipc_objs = [0 \<mapsto> [\<lparr>m_mtype = 11, m_type = TOUR_REQUEST\<rparr>], 1 \<mapsto> []], ipc_next = 2\<rparr>,
    shms := \<lparr>ipc_keys = (\<lambda>_. None), ipc_objs = [0 \<mapsto> 1], ipc_next = 1\<rparr>\<rparr>"

lemma reach_bound:
  assumes "museum_absent w0" "(museum_step (museum_layout w0))\<^sup>*\<^sup>* (museum_started w0, {}) (w, V)"
  shows "int (card V) \<le> MUSEUM_CAP
    \<and> (\<exists>cap. ipc_objs (shms w) (l_cap (museum_layout w0)) = Some cap \<and> 0 \<le> cap \<and> cap + int (card V) \<le> MUSEUM_CAP)"
proof -
  let ?L = "museum_layout w0"
  from room_reachable [OF assms(2) museum_laid_out [OF assms(1)]] museum_started_room [OF assms(1)] have "room ?L V 0 w" by simp
  moreover have "0 \<le> pending ?L w" unfolding pending_def by (intro sum_nonneg) (auto split: option.split)
  ultimately show ?thesis by (auto simp: room_def)
qed

section \<open>Properties\<close>

text \<open>
  C25: From a host without the resources of the museum, \<^verbatim>\<open>main\<close> creates them; after that, whatever order
  the doors, visitors, tours and administrator take their turns in, the visitors inside are never more
  than the capacity of the museum, and the capacity left in the shared memory is never negative.
\<close>

theorem museum_never_overfull:
  "museum_absent w0 \<Longrightarrow> \<exists>w. museum_setup w0 = (Ret (), w) \<and> (\<forall>w' V. (museum_step (museum_layout w0))\<^sup>*\<^sup>* (w, {}) (w', V) \<longrightarrow>
     int (card V) \<le> MUSEUM_CAP
     \<and> (\<exists>cap. ipc_objs (shms w') (l_cap (museum_layout w0)) = Some cap \<and> 0 \<le> cap \<and> cap + int (card V) \<le> MUSEUM_CAP))"
proof -
  assume "museum_absent w0"
  from reach_bound [OF this] museum_setup_run [OF this] show ?thesis by blast
qed

theorem museum_never_overfull_witness:
  "\<exists>w. museum_setup idle_host = (Ret (), w) \<and> (\<forall>w' V. (museum_step (museum_layout idle_host))\<^sup>*\<^sup>* (w, {}) (w', V) \<longrightarrow>
     int (card V) \<le> MUSEUM_CAP
     \<and> (\<exists>cap. ipc_objs (shms w') (l_cap (museum_layout idle_host)) = Some cap \<and> 0 \<le> cap \<and> cap + int (card V) \<le> MUSEUM_CAP))"
  by (rule museum_never_overfull) (simp add: museum_absent_def idle_host_def wf_ipc_def)

text \<open>
  Destroying the museum leaves none of its resources, whichever of them there were, so that it can be created
  again; every other name keeps its object.
\<close>

theorem destroyed_museum_is_absent:
  "tidy w \<Longrightarrow> \<exists>w'. destroy_ipcs w = (Ret (), w') \<and> museum_absent w' \<and> museum_setup w' = (Ret (), museum_started w')
     \<and> (\<forall>k i. k \<notin> set (ids w [0..9]) \<longrightarrow> ipc_keys (queues w) k = Some i \<longrightarrow>
          ipc_keys (queues w') k = Some i \<and> ipc_objs (queues w') i = ipc_objs (queues w) i)
     \<and> (\<forall>k i. k \<notin> set (ids w [1..4]) \<longrightarrow> ipc_keys (sems w) k = Some i \<longrightarrow>
          ipc_keys (sems w') k = Some i \<and> ipc_objs (sems w') i = ipc_objs (sems w) i)
     \<and> (\<forall>k i. k \<notin> set (ids w [1..3]) \<longrightarrow> ipc_keys (shms w) k = Some i \<longrightarrow>
          ipc_keys (shms w') k = Some i \<and> ipc_objs (shms w') i = ipc_objs (shms w) i)"
  by (rule destroyed_museum)

theorem destroyed_museum_is_absent_witness:
  "\<exists>w'. destroy_ipcs tour_host = (Ret (), w') \<and> museum_absent w'"
proof -
  have "tidy tour_host" by (simp add: tour_host_def idle_host_def tidy_def named_def wf_ipc_def)
  from destroyed_museum_is_absent [OF this] show ?thesis by blast
qed

text \<open>
  C28: The guide's loop over the people of a tour never ends: it starts the tour of everyone who has
  registered, goes on to wait for one more request, and keeps the semaphore of the counter, so that
  every later registration for a tour waits for ever.
\<close>

theorem tour_never_ends:
  "env w = [] \<Longrightarrow> ipc_objs (sems w) start_sem = Some k \<Longrightarrow> 0 < k \<Longrightarrow> ipc_objs (sems w) count_sem = Some 1 \<Longrightarrow> start_sem \<noteq> count_sem \<Longrightarrow>
   ipc_objs (queues w) rq = Some reqs \<Longrightarrow> ipc_objs (queues w) sq = Some out \<Longrightarrow> rq \<noteq> sq \<Longrightarrow> reqs \<noteq> [] \<Longrightarrow>
   \<forall>m\<in>set reqs. m_type m = TOUR_REQUEST \<and> 0 < m_mtype m \<Longrightarrow> ipc_objs (shms w) c = Some (int (length reqs)) \<Longrightarrow>
   is_int32 (int (length reqs)) \<Longrightarrow>
   (\<forall>stks r w'. guide_step stks rq sq c count_sem start_sem w = (r, w') \<longrightarrow> r \<noteq> Ret True)
   \<and> (\<forall>stks. length reqs < length stks \<longrightarrow> (\<exists>w'. guide_step stks rq sq c count_sem start_sem w = (Blocked, w')
       \<and> ipc_objs (queues w') sq = Some (out @ map (\<lambda>m. m\<lparr>m_type := TOUR_START\<rparr>) reqs)
       \<and> (\<forall>pid. tour_register pid rq c count_sem start_sem w' = (Blocked, w'))))"
proof -
  assume a: "env w = []" "ipc_objs (sems w) start_sem = Some k" "0 < k" "ipc_objs (sems w) count_sem = Some 1" "start_sem \<noteq> count_sem"
    "ipc_objs (queues w) rq = Some reqs" "ipc_objs (queues w) sq = Some out" "rq \<noteq> sq" "reqs \<noteq> []"
    "\<forall>m\<in>set reqs. m_type m = TOUR_REQUEST \<and> 0 < m_mtype m" "ipc_objs (shms w) c = Some (int (length reqs))"
    "is_int32 (int (length reqs))"
  let ?w = "w\<lparr>sems := ipc_put count_sem 0 (ipc_put start_sem (k - 1) (sems w))\<rparr>" and ?n = "int (length reqs)"
  have n: "0 < ?n" using a(9) by simp
  have go: "guide_step stks rq sq c count_sem start_sem w
      = bnd (tour_reads stks rq sq c ?n 0) (\<lambda>done. if done then thn (sem_v count_sem) (ret True) else ret False) ?w" for stks
    using a by (simp add: guide_step_def bnd_def sem_p_def syscall_def shm_load_def)
  have never: "r \<noteq> Ret True" if "guide_step stks rq sq c count_sem start_sem w = (r, w')" for stks r w'
  proof -
    have "keeps (\<lambda>_. True) (bnd (tour_reads stks rq sq c ?n 0) (\<lambda>done. if done then thn (sem_v count_sem) (ret True) else ret False)) (\<lambda>r. \<not> r)"
      by (rule keeps_bind [OF tour_reads_never_done [OF n]]) (simp add: keeps_ret)
    from keepsD [OF this _ that [unfolded go]] show ?thesis by auto
  qed
  have waits: "\<exists>w'. guide_step stks rq sq c count_sem start_sem w = (Blocked, w')
      \<and> ipc_objs (queues w') sq = Some (out @ map (\<lambda>m. m\<lparr>m_type := TOUR_START\<rparr>) reqs)
      \<and> (\<forall>pid. tour_register pid rq c count_sem start_sem w' = (Blocked, w'))" if "length reqs < length stks" for stks
  proof -
    let ?w' = "?w\<lparr>queues := ipc_put sq (out @ map (\<lambda>m. m\<lparr>m_type := TOUR_START\<rparr>) reqs) (ipc_put rq [] (queues ?w)), shms := ipc_put c 0 (shms ?w)\<rparr>"
    have "tour_reads stks rq sq c ?n 0 ?w = (Blocked, ?w')" using a n that by (intro tour_reads_run) simp_all
    then have "guide_step stks rq sq c count_sem start_sem w = (Blocked, ?w')" unfolding go by (simp add: bnd_def)
    moreover have "tour_register pid rq c count_sem start_sem ?w' = (Blocked, ?w')" for pid
      using a(1) by (simp add: tour_register_def bnd_def sem_p_def syscall_def)
    ultimately show ?thesis by (intro exI [of _ ?w'] conjI allI) simp_all
  qed
  show ?thesis using never waits by blast
qed

abbreviation tour_stack :: message_t where
  "tour_stack \<equiv> \<lparr>m_mtype = 7, m_type = 7\<rparr>"

theorem tour_never_ends_witness:
  "(\<forall>stks. fst (guide_step stks 0 1 0 0 1 tour_host) \<noteq> Ret True)
   \<and> (\<exists>w'. guide_step [tour_stack, tour_stack] 0 1 0 0 1 tour_host = (Blocked, w')
       \<and> ipc_objs (queues w') 1 = Some [\<lparr>m_mtype = 11, m_type = TOUR_START\<rparr>]
       \<and> (\<forall>pid. tour_register pid 0 0 0 1 w' = (Blocked, w')))"
proof -
  have "(\<forall>stks r w'. guide_step stks 0 1 0 0 1 tour_host = (r, w') \<longrightarrow> r \<noteq> Ret True)
    \<and> (\<forall>stks. 1 < length stks \<longrightarrow> (\<exists>w'. guide_step stks 0 1 0 0 1 tour_host = (Blocked, w')
       \<and> ipc_objs (queues w') 1 = Some [\<lparr>m_mtype = 11, m_type = TOUR_START\<rparr>]
       \<and> (\<forall>pid. tour_register pid 0 0 0 1 w' = (Blocked, w'))))"
    using tour_never_ends [of tour_host 1 1 0 0 "[\<lparr>m_mtype = 11, m_type = TOUR_REQUEST\<rparr>]" 1 "[]" 0]
    by (simp add: tour_host_def idle_host_def is_int32_def)
  then show ?thesis by (metis One_nat_def length_Cons lessI list.size(3) prod.collapse)
qed

end
