(* ===== verification/Museum_Main.thy ===== *)
theory Museum_Main
  imports Museum Processes
begin

text \<open>
  The processes of the museum exercise as a whole: \<^verbatim>\<open>main.c\<close>, which creates the resources, starts the doors,
  the guide and the person generator, waits for them and removes the resources; \<^verbatim>\<open>guide.c\<close> with its timer;
  \<^verbatim>\<open>personGen.c\<close>.  \<open>main.c\<close> keeps its children in an array of fixed size.
\<close>

section \<open>main.c\<close>

record troupe =
  childs_arr :: "int list"
  childs :: nat

abbreviation MAX_CHILDS :: nat where "MAX_CHILDS \<equiv> 6"

type_synonym museum_process = "(message_t, int, troupe) master"

text \<open>\<^verbatim>\<open>childs_arr[childs++] = pid\<close>\<close>

definition note_child :: "int \<Rightarrow> (museum_process, unit) prog" where
  "note_child pid =
     bnd (gets mem) (\<lambda>k.
     if childs k < length (childs_arr k)
     then set_mem (k\<lparr>childs_arr := (childs_arr k)[childs k := pid], childs := childs k + 1\<rparr>)
     else stop Undef)"

primrec wait_times :: "nat \<Rightarrow> (museum_process, unit) prog" where
  "wait_times 0 = ret ()"
| "wait_times (Suc n) = thn sys_wait (wait_times n)"

definition wait_childs_m :: "(museum_process, unit) prog" where
  "wait_childs_m = bnd (gets (\<lambda>m. childs (mem m))) wait_times"

text \<open>\<open>n\<close> turns of the loop are left, the next one for the child at \<open>i\<close>.\<close>

primrec kill_from :: "nat \<Rightarrow> nat \<Rightarrow> (museum_process, unit) prog" where
  "kill_from 0 i = ret ()"
| "kill_from (Suc n) i =
     bnd (gets mem) (\<lambda>k.
     if i < length (childs_arr k) then thn (sys_kill (childs_arr k ! i)) (kill_from n (Suc i)) else stop Undef)"

definition kill_childs_m :: "(museum_process, unit) prog" where
  "kill_childs_m = bnd (gets (\<lambda>m. childs (mem m))) (\<lambda>n. kill_from n 0)"

definition safe_exit_museum :: "(museum_process, 'a) prog" where
  "safe_exit_museum =
     thn kill_childs_m (
     thn wait_childs_m (
     thn (on_os destroy_ipcs) (
     stop (Exit (-1)))))"

text \<open>\<^verbatim>\<open>fork\<close>, \<^verbatim>\<open>execl\<close> and the entry in the array, as \<^verbatim>\<open>main\<close> and \<^verbatim>\<open>create_door\<close> write it out.\<close>

definition start_child :: "string \<Rightarrow> string list \<Rightarrow> (museum_process, unit) prog" where
  "start_child exec args =
     bnd (fork (execl exec args safe_exit_museum)) (\<lambda>pid.
     if pid < 0 then safe_exit_museum else note_child pid)"

definition create_queue_m :: "int \<Rightarrow> (museum_process, unit) prog" where
  "create_queue_m i = bnd (on_os (creamsg i)) (\<lambda>r. if r < 0 then safe_exit_museum else ret ())"

definition create_door_m :: "int \<Rightarrow> int \<Rightarrow> string \<Rightarrow> (museum_process, unit) prog" where
  "create_door_m req_queue_id resp_queue_id exec =
     thn (create_queue_m req_queue_id) (
     thn (create_queue_m resp_queue_id) (
     start_child exec [exec, three_chars req_queue_id, three_chars resp_queue_id]))"

text \<open>
  The start of \<^verbatim>\<open>main\<close>.  While \<open>create_museum\<close> runs there are no children, so its exits have none to kill.
\<close>

definition open_museum :: "(museum_process, unit) prog" where
  "open_museum =
     thn (on_os create_museum) (
     thn (each (\<lambda>i. create_door_m (2 * i) (2 * i + 1) ''./entranceDoor'') [0..ENTRANCE_DOORS - 1]) (
     thn (create_door_m EXIT_DOOR_REQ_MSG EXIT_DOOR_RESP_MSG ''./exitDoor'') (
     thn (start_child ''./guide'' [''./guide'']) (
     start_child ''./personGen'' [''./personGen'']))))"

text \<open>
  \<open>others\<close> is what happens before \<^verbatim>\<open>main\<close> waits.  \<open>signal = Some k\<close> says that a signal comes when \<open>k\<close> of its
  waits have returned; the handler is \<^verbatim>\<open>safe_exit\<close>.
\<close>

definition museum_main :: "(museum_process, unit) prog \<Rightarrow> nat option \<Rightarrow> (museum_process, unit) prog" where
  "museum_main others signal =
     thn open_museum (
     thn others (
     case signal of
       Some k \<Rightarrow> thn (bnd (gets (\<lambda>m. childs (mem m))) (\<lambda>n. wait_times (min k n))) safe_exit_museum
     | None \<Rightarrow> thn wait_childs_m (
          thn (on_os destroy_ipcs) (
          stop (Exit 0)))))"

section \<open>guide.c, timer.c and personGen.c\<close>

type_synonym 'c museum_child = "(message_t, int, 'c) master"

definition start_timer :: "('c museum_child, int) prog" where
  "start_timer =
     bnd (fork (execl ''./timer'' [''./timer''] (stop (Exit (-1))))) (\<lambda>timer_pid.
     if timer_pid < 0 then stop (Exit (-1)) else ret timer_pid)"

primrec guide_loop :: "message_t list list \<Rightarrow> int \<Rightarrow> int \<Rightarrow> int \<Rightarrow> int \<Rightarrow> int \<Rightarrow> (house, unit) prog" where
  "guide_loop [] req_queue resp_queue tour_count_shm tour_count_sem tour_start_sem = ret ()"
| "guide_loop (stks # stkss) req_queue resp_queue tour_count_shm tour_count_sem tour_start_sem =
     bnd (guide_step stks req_queue resp_queue tour_count_shm tour_count_sem tour_start_sem) (\<lambda>on.
     if on then guide_loop stkss req_queue resp_queue tour_count_shm tour_count_sem tour_start_sem else ret ())"

definition guide_main :: "message_t list list \<Rightarrow> ('c museum_child, unit) prog" where
  "guide_main stkss =
     thn start_timer (
     bnd (on_os guide_start) (\<lambda>(req_queue, resp_queue, tour_count_shm, tour_count_sem, tour_start_sem).
     thn (on_os (guide_loop stkss req_queue resp_queue tour_count_shm tour_count_sem tour_start_sem)) (
     thn (on_os (shm_unmap tour_count_shm)) (ret ()))))"

primrec timer_loop :: "nat \<Rightarrow> int \<Rightarrow> int \<Rightarrow> int \<Rightarrow> (house, unit) prog" where
  "timer_loop 0 tour_count_shm tour_count_sem tour_start_sem = ret ()"
| "timer_loop (Suc n) tour_count_shm tour_count_sem tour_start_sem =
     thn (timer_step tour_count_shm tour_count_sem tour_start_sem) (timer_loop n tour_count_shm tour_count_sem tour_start_sem)"

definition timer_main :: "nat \<Rightarrow> (house, unit) prog" where
  "timer_main n =
     bnd timer_start (\<lambda>(tour_count_shm, tour_count_sem, tour_start_sem).
     thn (timer_loop n tour_count_shm tour_count_sem tour_start_sem) (
     thn (shm_unmap tour_count_shm) (ret ())))"

primrec person_gen :: "nat \<Rightarrow> ('c museum_child, unit) prog" where
  "person_gen 0 = ret ()"
| "person_gen (Suc n) =
     bnd (fork (execl ''./person'' [''./person''] (stop (Exit (-1))))) (\<lambda>pid.
     if pid < 0 then stop (Exit (-1)) else person_gen n)"

section \<open>Starting the children\<close>

definition museum_made :: "house \<Rightarrow> house" where
  "museum_made w = (museum_started w)\<lparr>queues := entry w 9 [] (entry w 8 [] (queues w))\<rparr>"

lemma create_museum_run: "museum_absent w \<Longrightarrow> create_museum w = (Ret (), museum_made w)"
  using museum_absentD [of w]
  by (intro wp_eqI) (simp add: museum_made_def museum_started_def Let_def create_museum_def create_tour_def
      created_def wp ipc_create_add)

text \<open>
  \<open>setting_up w m0 ks kids m\<close>: on the way from \<open>m0\<close>, where the host is \<open>w\<close>, the queues \<open>ks\<close> have been
  created and the programs \<open>kids\<close> have been started, in this order.
\<close>

definition crew :: "int \<Rightarrow> int \<Rightarrow> (string \<times> string list) list \<Rightarrow> process list" where
  "crew me p kids = map (\<lambda>(i, exec, args). child_of me exec args (p + int i)) (zip [0..<length kids] kids)"

definition setting_up :: "house \<Rightarrow> museum_process \<Rightarrow> int list \<Rightarrow> (string \<times> string list) list \<Rightarrow> museum_process \<Rightarrow> bool" where
  "setting_up w m0 ks kids m \<longleftrightarrow>
     os m = (museum_made w)\<lparr>queues := fold (\<lambda>k. entry w k []) ks (queues (museum_made w))\<rparr> \<and> self m = self m0 \<and> fds m = fds m0
     \<and> procs m = rev (crew (self m0) (next_pid m0) kids) @ procs m0 \<and> next_pid m = next_pid m0 + int (length kids) \<and> pids_ok m \<and> heeds m = heeds m0
     \<and> childs (mem m) = length kids \<and> length (childs_arr (mem m)) = MAX_CHILDS
     \<and> take (length kids) (childs_arr (mem m)) = map (\<lambda>i. next_pid m0 + int i) [0..<length kids]"

lemma crew_snoc: "crew me p (kids @ [(exec, args)]) = crew me p kids @ [child_of me exec args (p + int (length kids))]"
  by (simp add: crew_def)

lemma start_child_opening:
  assumes "setting_up w m0 ks kids m" "museum_absent w" "length kids < MAX_CHILDS"
  shows "\<exists>m'. start_child exec args m = (Ret (), m') \<and> setting_up w m0 ks (kids @ [(exec, args)]) m'"
proof -
  note o = assms(1) [unfolded setting_up_def]
  have e: "env (os m) = []" using o museum_absentD(1) [OF assms(2)] by (simp add: museum_made_def)
  let ?p = "next_pid m" and ?k = "mem m"
  let ?m' = "m\<lparr>procs := child_of (self m) exec args ?p # procs m, next_pid := ?p + 1,
    mem := ?k\<lparr>childs_arr := (childs_arr ?k)[childs ?k := ?p], childs := childs ?k + 1\<rparr>\<rparr>"
  have ok: "pids_ok m" using o by blast
  then have p: "\<not> ?p < 0" by (simp add: pids_ok_def)
  have "start_child exec args m = (Ret (), ?m')"
    using fork_execl_run [OF e ok, of exec args safe_exit_museum] p o assms(3)
    by (simp add: start_child_def bnd_def note_child_def gets_def set_mem_def)
  moreover have "pids_ok ?m'" using ok by simp
  with o assms(3) have "setting_up w m0 ks (kids @ [(exec, args)]) ?m'"
    by (simp add: setting_up_def crew_snoc take_Suc_conv_app_nth)
  ultimately show ?thesis by blast
qed

lemma fold_entries:
  "wf_base (dirkey w) \<Longrightarrow> 0 \<le> k \<Longrightarrow> k < 128 \<Longrightarrow> \<forall>j\<in>set ks. 0 \<le> j \<and> j < 128 \<and> j \<noteq> k \<Longrightarrow> ipc_keys q (ftok_key (dirkey w) k) = None \<Longrightarrow>
   ipc_keys (fold (\<lambda>k. entry w k []) ks q) (ftok_key (dirkey w) k) = None \<and> ipc_next q \<le> ipc_next (fold (\<lambda>k. entry w k []) ks q)"
proof (induction ks arbitrary: q)
  case (Cons j ks)
  have "ftok_key (dirkey w) k \<noteq> ftok_key (dirkey w) j" using Cons.prems by simp
  with Cons.IH [of "entry w j [] q"] Cons.prems show ?case by simp
qed simp

lemma create_queue_opening:
  assumes "setting_up w m0 ks kids m" "museum_absent w" "0 \<le> k" "k < 8" "set ks \<subseteq> {0..7} - {k}"
  shows "\<exists>m'. create_queue_m k m = (Ret (), m') \<and> setting_up w m0 (ks @ [k]) kids m'"
proof -
  note o = assms(1) [unfolded setting_up_def]
  note a = museum_absentD [OF assms(2)]
  let ?q = "queues (museum_made w)"
  have none: "ipc_keys ?q (ftok_key (dirkey w) k) = None" using a(2,3) a(6) [of k] a(6) [of 8] a(6) [of 9] assms(3,4) by (simp add: museum_made_def)
  have f: "ipc_keys (fold (\<lambda>k. entry w k []) ks ?q) (ftok_key (dirkey w) k) = None"
    "ipc_next ?q \<le> ipc_next (fold (\<lambda>k. entry w k []) ks ?q)"
    using fold_entries [OF a(2) _ _ _ none, of ks] assms(3-5) by force+
  have "0 \<le> ipc_next ?q" using a(3) by (simp add: museum_made_def)
  then have "create_queue_m k m = (Ret (), m\<lparr>os := (os m)\<lparr>queues := entry w k [] (queues (os m))\<rparr>\<rparr>)"
    using o a(1,2) f assms(3,4)
    by (intro wp_eqI) (simp add: create_queue_m_def wp ipc_create_add museum_made_def)
  moreover have "setting_up w m0 (ks @ [k]) kids (m\<lparr>os := (os m)\<lparr>queues := entry w k [] (queues (os m))\<rparr>\<rparr>)"
    using o by (simp add: setting_up_def)
  ultimately show ?thesis by blast
qed

lemma create_door_setting_up:
  assumes "setting_up w m0 ks kids m" "museum_absent w" "0 \<le> r" "r < 7" "set ks \<subseteq> {0..<r}" "length kids < MAX_CHILDS"
  shows "\<exists>m'. create_door_m r (r + 1) exec m = (Ret (), m')
    \<and> setting_up w m0 (ks @ [r, r + 1]) (kids @ [(exec, [exec, three_chars r, three_chars (r + 1)])]) m'"
proof -
  from create_queue_opening [OF assms(1,2), of r] assms(3-5) obtain m1 where
    m1: "create_queue_m r m = (Ret (), m1)" "setting_up w m0 (ks @ [r]) kids m1" by fastforce
  from create_queue_opening [OF m1(2) assms(2), of "r + 1"] assms(3-5) obtain m2 where
    m2: "create_queue_m (r + 1) m1 = (Ret (), m2)" "setting_up w m0 (ks @ [r, r + 1]) kids m2" by fastforce
  from start_child_opening [OF m2(2) assms(2,6)] obtain m3 where
    "start_child exec [exec, three_chars r, three_chars (r + 1)] m2 = (Ret (), m3)"
    "setting_up w m0 (ks @ [r, r + 1]) (kids @ [(exec, [exec, three_chars r, three_chars (r + 1)])]) m3" by blast
  with m1(1) m2(1) show ?thesis by (auto simp: create_door_m_def bnd_def)
qed

definition museum_crew :: "(string \<times> string list) list" where
  "museum_crew = [(''./entranceDoor'', [''./entranceDoor'', three_chars 0, three_chars 1]),
     (''./entranceDoor'', [''./entranceDoor'', three_chars 2, three_chars 3]),
     (''./entranceDoor'', [''./entranceDoor'', three_chars 4, three_chars 5]),
     (''./exitDoor'', [''./exitDoor'', three_chars 6, three_chars 7]),
     (''./guide'', [''./guide'']), (''./personGen'', [''./personGen''])]"

lemma open_museum_run:
  assumes "museum_absent w" "os m = w" "pids_ok m" "childs (mem m) = 0" "length (childs_arr (mem m)) = MAX_CHILDS"
  shows "\<exists>m'. open_museum m = (Ret (), m') \<and> os m' = museum_started w \<and> self m' = self m \<and> fds m' = fds m
    \<and> procs m' = rev (crew (self m) (next_pid m) museum_crew) @ procs m \<and> pids_ok m' \<and> heeds m' = heeds m
    \<and> mem m' = \<lparr>childs_arr = map (\<lambda>i. next_pid m + int i) [0..<6], childs = 6\<rparr>"
proof -
  let ?m1 = "m\<lparr>os := museum_made w\<rparr>"
  have "on_os create_museum m = (Ret (), ?m1)" using create_museum_run [OF assms(1)] assms(2) by (simp add: on_os_def)
  moreover have "setting_up w m [] [] ?m1" using assms by (simp add: setting_up_def crew_def)
  from create_door_setting_up [OF this assms(1), of 0 "''./entranceDoor''"] obtain m2 where
    m2: "create_door_m 0 1 ''./entranceDoor'' ?m1 = (Ret (), m2)"
      "setting_up w m [0, 1] (take 1 museum_crew) m2" by (auto simp: museum_crew_def)
  from create_door_setting_up [OF m2(2) assms(1), of 2 "''./entranceDoor''"] obtain m3 where
    m3: "create_door_m 2 3 ''./entranceDoor'' m2 = (Ret (), m3)"
      "setting_up w m [0, 1, 2, 3] (take 2 museum_crew) m3" by (auto simp: museum_crew_def numeral_eq_Suc)
  from create_door_setting_up [OF m3(2) assms(1), of 4 "''./entranceDoor''"] obtain m4 where
    m4: "create_door_m 4 5 ''./entranceDoor'' m3 = (Ret (), m4)"
      "setting_up w m [0, 1, 2, 3, 4, 5] (take 3 museum_crew) m4" by (auto simp: museum_crew_def numeral_eq_Suc)
  from create_door_setting_up [OF m4(2) assms(1), of 6 "''./exitDoor''"] obtain m5 where
    m5: "create_door_m 6 7 ''./exitDoor'' m4 = (Ret (), m5)"
      "setting_up w m [0, 1, 2, 3, 4, 5, 6, 7] (take 4 museum_crew) m5" by (auto simp: museum_crew_def numeral_eq_Suc)
  from start_child_opening [OF m5(2) assms(1), of "''./guide''" "[''./guide'']"] obtain m6 where
    m6: "start_child ''./guide'' [''./guide''] m5 = (Ret (), m6)"
      "setting_up w m [0, 1, 2, 3, 4, 5, 6, 7] (take 5 museum_crew) m6" by (auto simp: museum_crew_def numeral_eq_Suc)
  from start_child_opening [OF m6(2) assms(1), of "''./personGen''" "[''./personGen'']"] obtain m7 where
    m7: "start_child ''./personGen'' [''./personGen''] m6 = (Ret (), m7)"
      "setting_up w m [0, 1, 2, 3, 4, 5, 6, 7] museum_crew m7" by (auto simp: museum_crew_def numeral_eq_Suc)
  have "open_museum m = (Ret (), m7)"
    using calculation m2(1) m3(1) m4(1) m5(1) m6(1) m7(1)
    by (simp add: open_museum_def three_doors bnd_def ret_def del: upto.simps)
  moreover have six: "length museum_crew = 6" by (simp add: museum_crew_def)
  moreover have "mem m7 = \<lparr>childs_arr = map (\<lambda>i. next_pid m + int i) [0..<6], childs = 6\<rparr>"
    using m7(2) six by (intro troupe.equality) (auto simp: setting_up_def simp del: upt_rec_numeral)
  ultimately show ?thesis
    using m7(2) by (intro exI [of _ m7]) (simp add: setting_up_def museum_made_def museum_started_def Let_def)
qed

section \<open>Stopping them\<close>

lemma sys_kill_run:
  "env (os m) = [] \<Longrightarrow> \<exists>r. sys_kill pid m = (Ret r, m\<lparr>procs := tell pid (procs m)\<rparr>)"
  by (auto simp: sys_kill_def bnd_def on_os_def syscall_def tell_id)

lemma kill_from_run:
  "env (os m) = [] \<Longrightarrow> i + n \<le> length (childs_arr (mem m)) \<Longrightarrow>
   kill_from n i m = (Ret (), m\<lparr>procs := fold tell (take n (drop i (childs_arr (mem m)))) (procs m)\<rparr>)"
proof (induction n arbitrary: i m)
  case (Suc n)
  let ?a = "childs_arr (mem m)"
  from sys_kill_run [OF Suc.prems(1), of "?a ! i"] obtain r where
    k: "sys_kill (?a ! i) m = (Ret r, m\<lparr>procs := tell (?a ! i) (procs m)\<rparr>)" by blast
  have "take (Suc n) (drop i ?a) = ?a ! i # take n (drop (Suc i) ?a)"
    using Suc.prems(2) Cons_nth_drop_Suc [of i ?a] by (metis Suc_le_lessD add_Suc_right le_add1 le_trans take_Suc_Cons not_less_eq_eq)
  with k Suc.IH [of "m\<lparr>procs := tell (?a ! i) (procs m)\<rparr>" "Suc i"] Suc.prems show ?case
    by (simp add: bnd_def gets_def)
qed (simp add: ret_def)

definition told_to_stop :: "process \<Rightarrow> process" where
  "told_to_stop p = (if p_status p = Ended then p else p\<lparr>p_status := Told\<rparr>)"

lemma told_to_stop_simps [simp]: "p_pid (told_to_stop p) = p_pid p" "p_parent (told_to_stop p) = p_parent p" "told_to_stop (told_to_stop p) = told_to_stop p"
  "ends m (told_to_stop p) \<longleftrightarrow> p_status p = Ended \<or> heeds m (p_pid p)"
  by (auto simp: told_to_stop_def ends_def)

lemma tell_all: "fold tell pids ps = map (\<lambda>p. if p_pid p \<in> set pids then told_to_stop p else p) ps"
  by (induction pids arbitrary: ps) (auto simp: tell_def told_to_stop_def intro!: map_cong)

lemma kill_childs_m_run:
  assumes "env (os m) = []" "procs m = ps @ qs" "childs_arr (mem m) = pids" "childs (mem m) = length pids"
    "\<forall>p\<in>set ps. p_pid p \<in> set pids" "\<forall>q\<in>set qs. p_pid q \<notin> set pids"
  shows "kill_childs_m m = (Ret (), m\<lparr>procs := map told_to_stop ps @ qs\<rparr>)"
proof -
  have "map (\<lambda>p. if p_pid p \<in> set pids then told_to_stop p else p) (ps @ qs) = map told_to_stop ps @ qs"
    using assms(5,6) by (simp add: map_idI)
  with kill_from_run [OF assms(1), of 0 "length pids"] assms(2-4) show ?thesis
    by (simp add: kill_childs_m_def bnd_def gets_def tell_all)
qed

text \<open>Waiting \<open>n\<close> times: the first \<open>n\<close> children that are over are reaped, and a wait for others does not end.\<close>

lemma find_filter: "filter P xs = y # ys \<Longrightarrow> find P xs = Some y"
  by (induction xs) (auto split: if_splits)

definition over_now :: "('m, 's, 'c) master \<Rightarrow> process list" where
  "over_now m = filter (\<lambda>p. p_parent p = self m \<and> ends m p) (procs m)"

lemma sys_wait_first:
  assumes "env (os m) = []" "distinct (map p_pid (procs m))" "over_now m = p # ps"
  shows "sys_wait m = (Ret (p_pid p), m\<lparr>procs := filter (\<lambda>q. q \<noteq> p) (procs m)\<rparr>)"
    and "over_now (m\<lparr>procs := filter (\<lambda>q. q \<noteq> p) (procs m)\<rparr>) = ps"
proof -
  note f = assms(3) [unfolded over_now_def]
  have p: "p \<in> set (procs m)" using filter_eq_ConsD [OF f] by (metis in_set_conv_decomp)
  have "filter (\<lambda>q. p_pid q \<noteq> p_pid p) (procs m) = filter (\<lambda>q. q \<noteq> p) (procs m)"
    by (rule filter_cong [OF refl]) (metis assms(2) distinct_map inj_on_contraD p)
  with find_filter [OF f] assms(1) show "sys_wait m = (Ret (p_pid p), m\<lparr>procs := filter (\<lambda>q. q \<noteq> p) (procs m)\<rparr>)"
    by (simp add: sys_wait_def bnd_def on_os_def syscall_def)
  have "distinct (p # ps)" unfolding f [symmetric] using assms(2) by (simp add: distinct_map)
  then have "filter (\<lambda>q. q \<noteq> p) (p # ps) = ps" by (simp add: filter_id_conv) metis
  then show "over_now (m\<lparr>procs := filter (\<lambda>q. q \<noteq> p) (procs m)\<rparr>) = ps"
    unfolding f [symmetric] by (simp add: over_now_def conj_commute)
qed

lemma wait_times_run:
  assumes "env (os m) = []" "distinct (map p_pid (procs m))"
  shows "wait_times n m =
    (if n \<le> length (over_now m) \<or> (\<forall>p\<in>set (procs m). p_parent p = self m \<longrightarrow> ends m p) then Ret () else Blocked,
     m\<lparr>procs := filter (\<lambda>p. p \<notin> set (take n (over_now m))) (procs m)\<rparr>)"
  using assms
proof (induction n arbitrary: m)
  case 0
  then show ?case by (simp add: ret_def)
next
  case (Suc n)
  show ?case
  proof (cases "over_now m")
    case Nil
    then have none: "find (\<lambda>p. p_parent p = self m \<and> ends m p) (procs m) = None"
      by (auto simp: over_now_def find_None_iff filter_empty_conv)
    have "\<forall>p\<in>set (procs m). p_parent p = self m \<longrightarrow> \<not> ends m p" using Nil by (auto simp: over_now_def filter_empty_conv)
    with none Nil Suc.prems Suc.IH [OF Suc.prems] show ?thesis
      by (auto simp: sys_wait_def bnd_def on_os_def syscall_def)
  next
    case (Cons p ps)
    note first = sys_wait_first [OF Suc.prems Cons]
    let ?m = "m\<lparr>procs := filter (\<lambda>q. q \<noteq> p) (procs m)\<rparr>"
    have "distinct (map p_pid (procs ?m))" using Suc.prems(2) by (simp add: distinct_map_filter)
    moreover have "env (os ?m) = []" using Suc.prems(1) by simp
    ultimately have ih: "wait_times n ?m =
      (if n \<le> length ps \<or> (\<forall>q\<in>set (procs ?m). p_parent q = self ?m \<longrightarrow> ends ?m q) then Ret () else Blocked,
       ?m\<lparr>procs := filter (\<lambda>q. q \<notin> set (take n ps)) (procs ?m)\<rparr>)"
      using Suc.IH [of ?m] unfolding first(2) by blast
    have "p \<in> set (over_now m)" using Cons by simp
    then have "p_parent p = self m \<and> ends m p" by (simp add: over_now_def)
    then have "(\<forall>q\<in>set (procs ?m). p_parent q = self ?m \<longrightarrow> ends ?m q) \<longleftrightarrow> (\<forall>q\<in>set (procs m). p_parent q = self m \<longrightarrow> ends m q)"
      by auto
    note all = this
    have "filter (\<lambda>q. q \<notin> set (take n ps)) (procs ?m) = filter (\<lambda>q. q \<notin> set (take (Suc n) (over_now m))) (procs m)"
      by (simp add: Cons)
    moreover have "wait_times (Suc n) m = wait_times n ?m" using first(1) by (simp add: bnd_def)
    ultimately show ?thesis using ih all Cons by simp
  qed
qed

text \<open>As many waits as there are children.\<close>

lemma wait_all:
  assumes "env (os m) = []" "procs m = ps @ qs" "\<forall>p\<in>set ps. p_parent p = self m" "\<forall>q\<in>set qs. p_parent q \<noteq> self m"
    "distinct (map p_pid (ps @ qs))" "length ps \<le> n"
  shows "wait_times n m = (if \<forall>p\<in>set ps. ends m p then Ret () else Blocked, m\<lparr>procs := filter (\<lambda>p. \<not> ends m p) ps @ qs\<rparr>)"
proof -
  have o: "over_now m = filter (ends m) ps"
    unfolding over_now_def assms(2) using assms(3,4) by (auto intro!: filter_cong simp: filter_empty_conv)
  have t: "take n (over_now m) = over_now m" using le_trans [OF length_filter_le assms(6)] unfolding o by simp
  have "n \<le> length (over_now m) \<Longrightarrow> \<forall>p\<in>set ps. ends m p"
    using assms(6) length_filter_less [of _ ps "ends m"] unfolding o by fastforce
  moreover have "(\<forall>p\<in>set (procs m). p_parent p = self m \<longrightarrow> ends m p) \<longleftrightarrow> (\<forall>p\<in>set ps. ends m p)" using assms(2-4) by auto
  moreover have "filter (\<lambda>p. p \<notin> set (filter (ends m) ps)) qs = qs" using assms(3,4) by (auto simp: filter_id_conv)
  then have "filter (\<lambda>p. p \<notin> set (over_now m)) (procs m) = filter (\<lambda>p. \<not> ends m p) ps @ qs"
    unfolding o assms(2) filter_append by (auto intro!: filter_cong)
  ultimately show ?thesis using wait_times_run [OF assms(1), of n] assms(2,5) unfolding t by auto
qed

text \<open>
  What happens while the museum is open: its resources end up in the state \<open>w'\<close>, and the children of
  \<^verbatim>\<open>main\<close> in \<open>over\<close> end by themselves.
\<close>

definition day :: "house \<Rightarrow> int set \<Rightarrow> (museum_process, unit) prog" where
  "day w' over m = (Ret (), m\<lparr>os := w',
     procs := map (\<lambda>p. if p_parent p = self m \<and> p_pid p \<in> over then p\<lparr>p_status := Ended\<rparr> else p) (procs m)\<rparr>)"

lemma crew_pids:
  "length kids = n \<Longrightarrow> map p_pid (crew me p kids) = map (\<lambda>i. p + int i) [0..<n]"
  "c \<in> set (crew me p kids) \<Longrightarrow> p_parent c = me"
proof -
  assume n: "length kids = n"
  have z: "map (\<lambda>x. p + int (fst x)) zs = map (\<lambda>i. p + int i) (map fst zs)" for zs :: "(nat \<times> string \<times> string list) list"
    by simp
  show "map p_pid (crew me p kids) = map (\<lambda>i. p + int i) [0..<n]"
    using n by (simp add: crew_def comp_def case_prod_unfold) (subst z, simp)
qed (auto simp: crew_def)

lemma museum_closes:
  assumes "tidy (os m)" "procs m = ps @ qs" "\<forall>p\<in>set ps. p_parent p = self m" "\<forall>q\<in>set qs. p_parent q \<noteq> self m"
    "distinct (map p_pid (ps @ qs))" "length ps \<le> childs (mem m)"
  shows "\<exists>r m'. thn wait_childs_m (thn (on_os destroy_ipcs) (stop (Exit c))) m = (r, m') \<and> fds m' = fds m
    \<and> (if \<forall>p\<in>set ps. ends m p then r = Exit c \<and> procs m' = qs \<and> museum_absent (os m')
       else r = Blocked \<and> procs m' = filter (\<lambda>p. \<not> ends m p) ps @ qs \<and> os m' = os m)"
proof -
  have e: "env (os m) = []" using assms(1) unfolding tidy_def by blast
  have w: "wait_childs_m m = (if \<forall>p\<in>set ps. ends m p then Ret () else Blocked, m\<lparr>procs := filter (\<lambda>p. \<not> ends m p) ps @ qs\<rparr>)"
    using wait_all [OF e assms(2-6)] by (simp add: wait_childs_m_def bnd_def gets_def)
  obtain w' where d: "destroy_ipcs (os m) = (Ret (), w')" "museum_absent w'"
    using destroyed_museum [OF assms(1)] by (elim exE conjE)
  show ?thesis
  proof (cases "\<forall>p\<in>set ps. ends m p")
    case True
    then have "filter (\<lambda>p. \<not> ends m p) ps = []" by (simp add: filter_empty_conv)
    with True w d show ?thesis
      by (intro exI [of _ "Exit c"] exI [of _ "m\<lparr>os := w', procs := qs\<rparr>"]) (simp add: bnd_def on_os_def stop_def)
  next
    case False
    with w show ?thesis
      by (intro exI [of _ Blocked] exI [of _ "m\<lparr>procs := filter (\<lambda>p. \<not> ends m p) ps @ qs\<rparr>"]) (simp add: bnd_def)
  qed
qed

text \<open>A signal after \<open>k\<close> waits.\<close>

lemma museum_interrupted:
  assumes "tidy (os m)" "procs m = ps @ qs" "\<forall>p\<in>set ps. p_parent p = self m" "\<forall>q\<in>set qs. p_parent q \<noteq> self m"
    "distinct (map p_pid (ps @ qs))" "childs_arr (mem m) = pids" "childs (mem m) = length pids" "length ps \<le> length pids"
    "\<forall>p\<in>set ps. p_pid p \<in> set pids" "\<forall>q\<in>set qs. p_pid q \<notin> set pids"
    "\<forall>p\<in>set ps. ends m p \<longleftrightarrow> p_status p = Ended" "k \<le> length (filter (ends m) ps)"
  shows "\<exists>r m'. thn (wait_times k) (safe_exit_museum :: (museum_process, unit) prog) m = (r, m') \<and> fds m' = fds m
    \<and> (if \<forall>p\<in>set ps. p_status p = Ended \<or> heeds m (p_pid p) then r = Exit (-1) \<and> procs m' = qs \<and> museum_absent (os m')
       else r = Blocked \<and> os m' = os m \<and> procs m' = map told_to_stop (filter (\<lambda>p. p_status p \<noteq> Ended \<and> \<not> heeds m (p_pid p)) ps) @ qs)"
proof -
  have e: "env (os m) = []" using assms(1) unfolding tidy_def by blast
  have o: "over_now m = filter (ends m) ps"
    unfolding over_now_def assms(2) using assms(3,4) by (auto intro!: filter_cong simp: filter_empty_conv)
  let ?ps = "filter (\<lambda>p. p \<notin> set (take k (over_now m))) ps"
  have gone: "p_status p = Ended" if "p \<in> set (take k (over_now m))" for p
    using in_set_takeD [OF that] assms(11) unfolding o by auto
  have "set (take k (over_now m)) \<subseteq> set ps" using set_take_subset [of k "over_now m"] unfolding o by auto
  then have "filter (\<lambda>p. p \<notin> set (take k (over_now m))) (procs m) = ?ps @ qs"
    using assms(2,3,4) by (auto simp: filter_id_conv)
  then have w: "wait_times k m = (Ret (), m\<lparr>procs := ?ps @ qs\<rparr>)"
    using wait_times_run [OF e, of k] assms(2,5,12) unfolding o by simp
  let ?m = "m\<lparr>procs := map told_to_stop ?ps @ qs\<rparr>"
  have kill: "kill_childs_m (m\<lparr>procs := ?ps @ qs\<rparr>) = (Ret (), ?m)"
    using kill_childs_m_run [of "m\<lparr>procs := ?ps @ qs\<rparr>" ?ps qs pids] e assms(6,7,9,10) by simp
  have "distinct (map p_pid (map told_to_stop ?ps @ qs))" using assms(5) by (auto simp: distinct_map_filter comp_def)
  note dist = this
  have "length (map told_to_stop ?ps) \<le> childs (mem ?m)" using le_trans [OF length_filter_le assms(8)] assms(7) by simp
  note len = this
  have par: "\<forall>p\<in>set (map told_to_stop ?ps). p_parent p = self ?m" "\<forall>q\<in>set qs. p_parent q \<noteq> self ?m" using assms(3,4) by auto
  have t: "tidy (os ?m)" "procs ?m = map told_to_stop ?ps @ qs" using assms(1) by simp_all
  from museum_closes [where c = "-1", OF t par dist len] obtain r m' where
    "thn wait_childs_m (thn (on_os destroy_ipcs) (stop (Exit (-1)) :: (museum_process, unit) prog)) ?m = (r, m') \<and> fds m' = fds ?m
    \<and> (if \<forall>p\<in>set (map told_to_stop ?ps). ends ?m p then r = Exit (-1) \<and> procs m' = qs \<and> museum_absent (os m')
     else r = Blocked \<and> procs m' = filter (\<lambda>p. \<not> ends ?m p) (map told_to_stop ?ps) @ qs \<and> os m' = os ?m)" by (elim exE)
  then have r: "thn wait_childs_m (thn (on_os destroy_ipcs) (stop (Exit (-1)))) ?m = (r, m')" "fds m' = fds m"
    "if \<forall>p\<in>set (map told_to_stop ?ps). ends ?m p then r = Exit (-1) \<and> procs m' = qs \<and> museum_absent (os m')
     else r = Blocked \<and> procs m' = filter (\<lambda>p. \<not> ends ?m p) (map told_to_stop ?ps) @ qs \<and> os m' = os m" by simp_all
  have all: "(\<forall>p\<in>set (map told_to_stop ?ps). ends ?m p) \<longleftrightarrow> (\<forall>p\<in>set ps. p_status p = Ended \<or> heeds m (p_pid p))"
    using gone by auto
  have "filter (\<lambda>p. \<not> ends ?m p) (map told_to_stop ?ps) = map told_to_stop (filter (\<lambda>p. p_status p \<noteq> Ended \<and> \<not> heeds m (p_pid p)) ps)"
    using gone by (auto simp: filter_map comp_def intro!: arg_cong [where f = "map told_to_stop"] filter_cong)
  note eq = this
  have "thn (wait_times k) safe_exit_museum m = (r, m')" using w kill r(1) by (simp add: safe_exit_museum_def bnd_def)
  with r(2) r(3) [unfolded all eq] show ?thesis by (intro exI [of _ r] exI [of _ m'] conjI) (simp_all split: if_splits)
qed

section \<open>Whatever fails\<close>

text \<open>Programs on the resources that never run into undefined behaviour.\<close>

named_theorems defined "programs that never run into undefined behaviour"

definition is_defined :: "('w, 'a) prog \<Rightarrow> bool" where
  "is_defined p \<longleftrightarrow> (\<forall>w. wp p (\<lambda>r _. r \<noteq> Undef \<and> r \<noteq> Abort) w)"

lemma is_defined_bind [defined]: "is_defined p \<Longrightarrow> (\<And>x. is_defined (f x)) \<Longrightarrow> is_defined (bnd p f)"
proof -
  assume p: "is_defined p" and f: "\<And>x. is_defined (f x)"
  show "is_defined (bnd p f)"
    unfolding is_defined_def
  proof
    fix w
    obtain r w' where r: "p w = (r, w')" by fastforce
    with p have "r \<noteq> Undef" "r \<noteq> Abort" by (auto simp: is_defined_def wp_run dest: spec [of _ w])
    with r f show "wp (bnd p f) (\<lambda>r _. r \<noteq> Undef \<and> r \<noteq> Abort) w"
      by (cases r) (auto simp: is_defined_def wp_run bnd_def)
  qed
qed

lemma is_defined_if [defined]: "(b \<Longrightarrow> is_defined p) \<Longrightarrow> (\<not> b \<Longrightarrow> is_defined q) \<Longrightarrow> is_defined (if b then p else q)"
  by simp

lemma is_defined_calls [defined]:
  "is_defined (ret x)" "is_defined (stop (Exit c))" "is_defined (getsem i)" "is_defined (getshm i)" "is_defined (getmsg i)"
  "is_defined (creasem i)" "is_defined (creashm i z)" "is_defined (creamsg i)" "is_defined (inisem s n)"
  "is_defined (delsem s)" "is_defined (delshm a)" "is_defined (delmsg q)"
  unfolding is_defined_def by (auto simp: wp split: option.split prod.split)

text \<open>A segment that has just been mapped can be written.\<close>

lemma is_defined_map_store [defined]: "is_defined k \<Longrightarrow> is_defined (bnd (shm_map i) (\<lambda>a. thn (shm_store a x) k))"
  unfolding is_defined_def by (auto simp: wp split: option.split)

lemma is_defined_each [defined]: "(\<And>x. is_defined (f x)) \<Longrightarrow> is_defined (each f xs)"
  by (induction xs) (auto intro!: defined)

lemma is_defined_museum [defined]:
  "is_defined destroy_ipcs" "is_defined create_museum"
  unfolding destroy_ipcs_def delete_msg_queue_def delete_sem_def delete_shm_def create_museum_def create_tour_def created_def safe_exit_m_def
  by (intro defined)+

text \<open>
  \<open>within n p n'\<close>: with at most \<open>n\<close> children in the array, \<open>p\<close> is never undefined, and when it returns
  there are at most \<open>n'\<close>.
\<close>

definition few :: "nat \<Rightarrow> museum_process \<Rightarrow> bool" where
  "few n m \<longleftrightarrow> childs (mem m) \<le> n \<and> length (childs_arr (mem m)) = MAX_CHILDS"

definition within_arr :: "nat \<Rightarrow> (museum_process, 'a) prog \<Rightarrow> nat \<Rightarrow> bool" where
  "within_arr n p n' \<longleftrightarrow> (\<forall>m. few n m \<longrightarrow> wp p (\<lambda>r m'. r \<noteq> Undef \<and> r \<noteq> Abort \<and> (\<forall>x. r = Ret x \<longrightarrow> few n' m')) m)"

lemma withinD: "within_arr n p n' \<Longrightarrow> few n m \<Longrightarrow> p m = (r, m') \<Longrightarrow> r \<noteq> Undef \<and> r \<noteq> Abort \<and> (\<forall>x. r = Ret x \<longrightarrow> few n' m')"
  by (auto simp: within_arr_def wp_run dest: spec [of _ m])

lemma within_bind:
  assumes "within_arr n p n1" "\<And>x. within_arr n1 (f x) n2"
  shows "within_arr n (bnd p f) n2"
  unfolding within_arr_def
proof (intro allI impI)
  fix m assume m: "few n m"
  obtain r m' where r: "p m = (r, m')" by fastforce
  from withinD [OF assms(1) m r] r assms(2) show "wp (bnd p f) (\<lambda>r m'. r \<noteq> Undef \<and> r \<noteq> Abort \<and> (\<forall>x. r = Ret x \<longrightarrow> few n2 m')) m"
    by (cases r) (auto simp: within_arr_def wp_run bnd_def)
qed

lemma within_seq: "within_arr n p n \<Longrightarrow> (\<And>x. within_arr n (f x) k) \<Longrightarrow> within_arr n (bnd p f) k"
  by (rule within_bind)

lemma within_calls:
  "within_arr n (ret x) n" "within_arr n (stop (Exit c)) k" "within_arr n (gets f) n" "within_arr n (sys_kill pid) n" "within_arr n sys_wait n"
  by (auto simp: within_arr_def few_def wp split: option.split)

lemma within_os: "is_defined p \<Longrightarrow> within_arr n (on_os p) n"
  by (auto simp: within_arr_def few_def is_defined_def elim: wp_mono)

lemma within_if: "within_arr n p k \<Longrightarrow> within_arr n q k \<Longrightarrow> within_arr n (if b then p else q) k"
  by simp

lemma within_signal: "within_arr n p k \<Longrightarrow> (\<And>x. within_arr n (q x) k) \<Longrightarrow> within_arr n (case x of None \<Rightarrow> p | Some y \<Rightarrow> q y) k"
  by (cases x) simp_all

lemma within_beside: "within_arr n (beside pid x p) n"
  by (auto simp: within_arr_def few_def wp_run beside_def split: prod.split)

lemma within_kill_from: "i + j \<le> MAX_CHILDS \<Longrightarrow> within_arr n (kill_from j i) n"
proof (induction j arbitrary: i)
  case 0
  show ?case by (simp add: within_calls)
next
  case (Suc j)
  have "within_arr n (thn (sys_kill pid) (kill_from j (Suc i))) n" for pid
    using Suc by (intro within_seq within_calls) simp
  with Suc.prems show ?case by (auto simp: within_arr_def few_def)
qed

lemma within_wait_times: "within_arr n (wait_times j) n"
  by (induction j) (auto intro!: within_seq within_calls)

lemma within_safe_exit: "n \<le> MAX_CHILDS \<Longrightarrow> within_arr n safe_exit_museum k"
proof -
  assume n: "n \<le> MAX_CHILDS"
  have "within_arr n kill_childs_m n"
    using within_kill_from [of 0] n by (fastforce simp: kill_childs_m_def within_arr_def few_def)
  moreover have "within_arr n wait_childs_m n"
    unfolding wait_childs_m_def by (intro within_seq within_calls within_wait_times)
  ultimately show ?thesis
    unfolding safe_exit_museum_def by (intro within_seq within_calls within_os defined)
qed

lemma within_fork:
  assumes "within_arr n child k"
  shows "within_arr n (fork child) n"
  unfolding within_arr_def [of n "fork child"]
proof (intro allI impI)
  fix m assume m: "few n m"
  let ?c = "(called m)\<lparr>self := next_pid m, next_pid := next_pid m + 1,
    procs := \<lparr>p_pid = next_pid m, p_parent = self m, p_status = Forked\<rparr> # procs m\<rparr>"
  have "few n ?c" using m by (simp add: few_def)
  obtain r c where c: "child ?c = (r, c)" by fastforce
  from withinD [OF assms \<open>few n ?c\<close> c] c m
  show "wp (fork child) (\<lambda>r m'. r \<noteq> Undef \<and> r \<noteq> Abort \<and> (\<forall>x. r = Ret x \<longrightarrow> few n m')) m"
    by (simp add: wp_def fork_def bnd_def on_os_def syscall_def Let_def few_def)
qed

lemma within_start_child:
  assumes "n < MAX_CHILDS"
  shows "within_arr n (start_child exec args) (Suc n)"
proof -
  have exit: "within_arr n safe_exit_museum k" for k using assms by (intro within_safe_exit) simp
  have "within_arr n (execl exec args safe_exit_museum) n"
    unfolding execl_def by (intro within_seq within_if exit within_os within_calls) (simp add: is_defined_def)
  then have "within_arr n (fork (execl exec args safe_exit_museum)) n" by (rule within_fork)
  moreover have "within_arr n (note_child pid) (Suc n)" for pid
    using assms by (auto simp: within_arr_def few_def note_child_def)
  ultimately show ?thesis unfolding start_child_def by (intro within_seq [where p = "fork c" for c] within_if exit)
qed

lemma within_create_door: "n < MAX_CHILDS \<Longrightarrow> within_arr n (create_door_m r s exec) (Suc n)"
  unfolding create_door_m_def create_queue_m_def
  by (intro within_seq within_if within_os defined within_calls within_safe_exit within_start_child) simp_all

lemma within_open_museum: "within_arr 0 open_museum (Suc (Suc (Suc (Suc (Suc (Suc 0))))))"
proof -
  have doors: "[0..ENTRANCE_DOORS - 1] = [0, 1, 2]" by (simp add: upto.simps)
  show ?thesis
    unfolding open_museum_def doors each.simps bnd_assoc
    by (rule within_seq [OF within_os [OF is_defined_museum(2)]] within_bind [OF within_create_door] within_bind [OF within_start_child]
        within_bind [OF within_calls(1)] within_start_child; simp?)+
qed

text \<open>
  The person generator starts a visitor per turn and never waits for one: those that have ended stay in the
  table of processes.
\<close>

lemma person_gen_run:
  "env (os m) = [] \<Longrightarrow> pids_ok m \<Longrightarrow> person_gen n m = (Ret (), m\<lparr>
     procs := rev (map (\<lambda>i. child_of (self m) ''./person'' [''./person''] (next_pid m + int i)) [0..<n]) @ procs m,
     next_pid := next_pid m + int n\<rparr>)"
proof (induction n arbitrary: m)
  case (Suc n)
  let ?m = "m\<lparr>procs := child_of (self m) ''./person'' [''./person''] (next_pid m) # procs m, next_pid := next_pid m + 1\<rparr>"
  have "person_gen (Suc n) m = person_gen n ?m"
    using fork_execl_run [OF Suc.prems, of "''./person''" "[''./person'']"] Suc.prems(2) by (simp add: bnd_def pids_ok_def)
  moreover have "env (os ?m) = []" "pids_ok ?m" using Suc.prems by simp_all
  ultimately show ?case using Suc.IH [of ?m] by (simp add: map_upt_Suc_Cons ac_simps del: upt_Suc person_gen.simps)
qed (simp add: ret_def)

section \<open>Properties\<close>

lemma six_pids: "set (map (\<lambda>i. p + int i) [0..<6]) = {p..<p + 6}"
proof -
  have "x \<in> (\<lambda>i. p + int i) ` {0..<6}" if "x \<in> {p..<p + 6}" for x
    using that by (intro image_eqI [of _ _ "nat (x - p)"]) auto
  then show ?thesis by (auto simp del: upt_rec_numeral)
qed

text \<open>The children that neither end by themselves nor stop when they are told to.\<close>

definition staying :: "int set \<Rightarrow> nat option \<Rightarrow> museum_process \<Rightarrow> int set" where
  "staying over signal m = {x \<in> {next_pid m..<next_pid m + 6}. x \<notin> over \<and> (signal = None \<or> \<not> heeds m x)}"

lemma day_run:
  assumes "self m1 = self m" "procs m1 = rev (crew (self m) (next_pid m) museum_crew) @ procs m" "\<forall>q\<in>set (procs m). p_parent q \<noteq> self m"
  shows "\<exists>ps. day w' over m1 = (Ret (), m1\<lparr>os := w', procs := ps @ procs m\<rparr>)
    \<and> map p_pid ps = rev (map (\<lambda>i. next_pid m + int i) [0..<6])
    \<and> (\<forall>p\<in>set ps. p_parent p = self m \<and> p_status p \<noteq> Told \<and> (p_status p = Ended \<longleftrightarrow> p_pid p \<in> over))"
proof -
  let ?f = "\<lambda>p. if p_parent p = self m \<and> p_pid p \<in> over then p\<lparr>p_status := Ended\<rparr> else p"
  let ?ps = "map ?f (rev (crew (self m) (next_pid m) museum_crew))"
  have "map p_pid ?ps = rev (map p_pid (crew (self m) (next_pid m) museum_crew))" by (simp add: rev_map comp_def)
  also have "map p_pid (crew (self m) (next_pid m) museum_crew) = map (\<lambda>i. next_pid m + int i) [0..<6]"
    by (rule crew_pids(1)) (simp add: museum_crew_def)
  finally have pids: "map p_pid ?ps = rev (map (\<lambda>i. next_pid m + int i) [0..<6])" .
  have "map ?f (procs m) = procs m" using assms(3) by (simp add: map_idI)
  then have run: "day w' over m1 = (Ret (), m1\<lparr>os := w', procs := ?ps @ procs m\<rparr>)" using assms(1,2) by (simp add: day_def)
  have "\<forall>p\<in>set (crew (self m) (next_pid m) museum_crew). p_parent p = self m \<and> p_status p \<noteq> Told \<and> p_status p \<noteq> Ended"
    by (auto simp: crew_def)
  then have "\<forall>p\<in>set ?ps. p_parent p = self m \<and> p_status p \<noteq> Told \<and> (p_status p = Ended \<longleftrightarrow> p_pid p \<in> over)"
    by (simp only: set_map set_rev ball_simps) simp
  with run pids show ?thesis by blast
qed

text \<open>
  C27: Started on a host without a museum, \<^verbatim>\<open>main\<close> creates its resources, starts three entrance doors with
  their queues, the exit door, the guide and the person generator, in this order, and records all six.  Then
  some of its children end by themselves, and perhaps a signal comes after some of its waits; after a signal
  it tells the children that are left to stop.  When no child stays it has reaped exactly its children,
  removes every resource of the museum and exits, with -1 after a signal and else with 0.  A child
  stays that has not ended by itself and was told nothing or does not stop when it is told, like a guide in
  a tour; then \<^verbatim>\<open>main\<close> waits for it for ever and every resource of the museum remains.
\<close>

theorem museum_opens_and_closes:
  "museum_absent w \<Longrightarrow> os m = w \<Longrightarrow> pids_ok m \<Longrightarrow> \<forall>p\<in>set (procs m). p_parent p \<noteq> self m \<Longrightarrow>
   childs (mem m) = 0 \<Longrightarrow> length (childs_arr (mem m)) = MAX_CHILDS \<Longrightarrow> tidy w' \<Longrightarrow>
   (case signal of None \<Rightarrow> True | Some k \<Rightarrow> k \<le> card (over \<inter> {next_pid m..<next_pid m + 6})) \<Longrightarrow>
   \<exists>m1 r m'. open_museum m = (Ret (), m1) \<and> os m1 = museum_started w
     \<and> procs m1 = rev (crew (self m) (next_pid m) museum_crew) @ procs m \<and> childs_arr (mem m1) = map (\<lambda>i. next_pid m + int i) [0..<6]
     \<and> museum_main (day w' over) signal m = (r, m') \<and> fds m' = fds m
     \<and> (if staying over signal m = {} then r = Exit (if signal = None then 0 else -1) \<and> procs m' = procs m \<and> museum_absent (os m')
        else r = Blocked \<and> os m' = w' \<and> p_pid ` {p \<in> set (procs m'). p_parent p = self m} = staying over signal m)"
proof -
  assume a: "museum_absent w" "os m = w" "pids_ok m" "\<forall>p\<in>set (procs m). p_parent p \<noteq> self m"
    "childs (mem m) = 0" "length (childs_arr (mem m)) = MAX_CHILDS" "tidy w'"
    "case signal of None \<Rightarrow> True | Some k \<Rightarrow> k \<le> card (over \<inter> {next_pid m..<next_pid m + 6})"
  let ?pids = "map (\<lambda>i. next_pid m + int i) [0..<6]"
  from open_museum_run [OF a(1-3,5,6)] obtain m1 where
    m1: "open_museum m = (Ret (), m1)" "os m1 = museum_started w" "self m1 = self m" "heeds m1 = heeds m" "fds m1 = fds m"
      "procs m1 = rev (crew (self m) (next_pid m) museum_crew) @ procs m" "pids_ok m1" "mem m1 = \<lparr>childs_arr = ?pids, childs = 6\<rparr>" by blast
  from day_run [OF m1(3,6) a(4), of w' over] obtain ps where
    ps: "day w' over m1 = (Ret (), m1\<lparr>os := w', procs := ps @ procs m\<rparr>)" "map p_pid ps = rev ?pids"
      "\<forall>p\<in>set ps. p_parent p = self m \<and> p_status p \<noteq> Told \<and> (p_status p = Ended \<longleftrightarrow> p_pid p \<in> over)" by blast
  let ?m2 = "m1\<lparr>os := w', procs := ps @ procs m\<rparr>"
  have set_pids: "set ?pids = {next_pid m..<next_pid m + 6}" by (rule six_pids)
  have img: "p_pid ` set ps = {next_pid m..<next_pid m + 6}" using arg_cong [OF ps(2), of set] unfolding set_pids [symmetric] by simp
  have len: "length ps = 6" using arg_cong [OF ps(2), of length] by simp
  have ends: "ends ?m2 p \<longleftrightarrow> p_pid p \<in> over" if "p \<in> set ps" for p using ps(3) that by (auto simp: ends_def)
  have par: "\<forall>p\<in>set ps. p_parent p = self ?m2" "\<forall>q\<in>set (procs m). p_parent q \<noteq> self ?m2" using ps(3) a(4) m1(3) by auto
  have "distinct (map p_pid (rev (crew (self m) (next_pid m) museum_crew) @ procs m))" using m1(6,7) by (simp add: pids_ok_def)
  moreover have "map p_pid ps = map p_pid (rev (crew (self m) (next_pid m) museum_crew))"
    using ps(2) crew_pids(1) [of museum_crew 6 "self m" "next_pid m"] by (simp add: museum_crew_def rev_map [symmetric] del: upt_rec_numeral)
  ultimately have dist: "distinct (map p_pid (ps @ procs m))" by (simp only: map_append)
  have shape: "p_pid ` {p \<in> set (map f (filter P ps) @ procs m). p_parent p = self m} = {x \<in> {next_pid m..<next_pid m + 6}. R x}"
    if "\<And>p. p \<in> set ps \<Longrightarrow> P p \<longleftrightarrow> R (p_pid p)" "\<And>p. p_pid (f p) = p_pid p" "\<And>p. p_parent (f p) = p_parent p" for P R and f :: "process \<Rightarrow> process"
  proof -
    have "{p \<in> set (map f (filter P ps) @ procs m). p_parent p = self m} = f ` set (filter P ps)" using that(3) ps(3) a(4) by auto
    also have "p_pid ` \<dots> = {x \<in> p_pid ` set ps. R x}" using that(1,2) by (auto simp: image_image)
    finally show ?thesis unfolding img .
  qed
  have t: "tidy (os ?m2)" "procs ?m2 = ps @ procs m" using a(7) by simp_all
  show ?thesis
  proof (cases signal)
    case None
    from museum_closes [where c = 0, OF t par dist] len m1(8) obtain r m' where
      r: "thn wait_childs_m (thn (on_os destroy_ipcs) (stop (Exit 0) :: (museum_process, unit) prog)) ?m2 = (r, m')" "fds m' = fds ?m2"
        "if \<forall>p\<in>set ps. ends ?m2 p then r = Exit 0 \<and> procs m' = procs m \<and> museum_absent (os m')
         else r = Blocked \<and> procs m' = filter (\<lambda>p. \<not> ends ?m2 p) ps @ procs m \<and> os m' = os ?m2" by auto
    have all: "(\<forall>p\<in>set ps. ends ?m2 p) \<longleftrightarrow> staying over signal m = {}"
      unfolding staying_def img [symmetric] using ends None by auto
    have left: "p_pid ` {p \<in> set (filter (\<lambda>p. \<not> ends ?m2 p) ps @ procs m). p_parent p = self m} = staying over signal m"
      using shape [of "\<lambda>p. \<not> ends ?m2 p" "\<lambda>x. x \<notin> over" id] ends None by (simp add: staying_def)
    have "museum_main (day w' over) signal m = (r, m')"
      using r(1) m1(1) ps(1) None by (simp add: museum_main_def bnd_def)
    with r(2) r(3) [unfolded all] left m1 show ?thesis
      by (intro exI [of _ m1] exI [of _ r] exI [of _ m']) (auto simp: None split: if_splits simp del: upt_rec_numeral set_append set_map)
  next
    case (Some k)
    have "length (filter (ends ?m2) ps) = length (filter (\<lambda>x. x \<in> over) (map p_pid ps))"
      using ends by (simp add: filter_map comp_def cong: filter_cong)
    also have "\<dots> = card (over \<inter> {next_pid m..<next_pid m + 6})"
      using dist by (subst distinct_card [symmetric]) (auto simp: img [symmetric] intro!: arg_cong [where f = card])
    finally have k: "k \<le> length (filter (ends ?m2) ps)" using a(8) Some by simp
    then have k6: "min k 6 = k" using length_filter_le [of "ends ?m2" ps] len by simp
    have qs: "\<forall>q\<in>set (procs m). p_pid q \<notin> set ?pids" using a(3) unfolding set_pids by (auto simp: pids_ok_def)
    have pp: "\<forall>p\<in>set ps. p_pid p \<in> set ?pids" using img unfolding set_pids by blast
    have ee: "\<forall>p\<in>set ps. ends ?m2 p \<longleftrightarrow> p_status p = Ended" using ps(3) by (auto simp: ends_def)
    have arr: "childs_arr (mem ?m2) = ?pids" "childs (mem ?m2) = length ?pids" "length ps \<le> length ?pids"
      using m1(8) len by simp_all
    from museum_interrupted [OF t par dist arr pp qs ee k] obtain r m' where
      r: "thn (wait_times k) (safe_exit_museum :: (museum_process, unit) prog) ?m2 = (r, m')" "fds m' = fds ?m2"
        "if \<forall>p\<in>set ps. p_status p = Ended \<or> heeds ?m2 (p_pid p) then r = Exit (-1) \<and> procs m' = procs m \<and> museum_absent (os m')
         else r = Blocked \<and> os m' = os ?m2 \<and> procs m' = map told_to_stop (filter (\<lambda>p. p_status p \<noteq> Ended \<and> \<not> heeds ?m2 (p_pid p)) ps) @ procs m"
      by (elim exE conjE)
    have all: "(\<forall>p\<in>set ps. p_status p = Ended \<or> heeds ?m2 (p_pid p)) \<longleftrightarrow> staying over signal m = {}"
      unfolding staying_def img [symmetric] using ps(3) Some m1(4) by auto
    have left: "p_pid ` {p \<in> set (map told_to_stop (filter (\<lambda>p. p_status p \<noteq> Ended \<and> \<not> heeds ?m2 (p_pid p)) ps) @ procs m). p_parent p = self m} = staying over signal m"
      using shape [of "\<lambda>p. p_status p \<noteq> Ended \<and> \<not> heeds ?m2 (p_pid p)" "\<lambda>x. x \<notin> over \<and> \<not> heeds m x" told_to_stop] ps(3) Some m1(4) by (simp add: staying_def)
    have "museum_main (day w' over) signal m = (r, m')"
      using r(1) m1(1,8) ps(1) Some k6 by (simp add: museum_main_def bnd_def gets_def del: upt_rec_numeral)
    with r(2) r(3) [unfolded all] left m1 show ?thesis
      by (intro exI [of _ m1] exI [of _ r] exI [of _ m']) (auto simp: Some split: if_splits simp del: upt_rec_numeral set_append set_map)
  qed
qed

abbreviation museum_starter :: "(int \<Rightarrow> bool) \<Rightarrow> museum_process" where
  "museum_starter h \<equiv> \<lparr>os = idle_host, self = 7, fds = [], procs = [], next_pid = 20, heeds = h, mem = \<lparr>childs_arr = replicate 6 0, childs = 0\<rparr>\<rparr>"

text \<open>The museum as it is opened is tidy.\<close>

lemma named_entry:
  "named t \<Longrightarrow> ipc_keys t k = None \<Longrightarrow> named (ipc_add k x t)"
  "named t \<Longrightarrow> ipc_objs t i \<noteq> None \<Longrightarrow> named (ipc_put i x t)"
proof -
  show "named t \<Longrightarrow> ipc_keys t k = None \<Longrightarrow> named (ipc_add k x t)"
    by (fastforce simp: named_def wf_ipc_def ipc_add_def)
  show "named t \<Longrightarrow> ipc_objs t i \<noteq> None \<Longrightarrow> named (ipc_put i x t)"
    by (simp add: named_def wf_ipc_def ipc_put_def)
qed

lemma named_empty: "named \<lparr>ipc_keys = Map.empty, ipc_objs = Map.empty, ipc_next = i\<rparr> \<longleftrightarrow> 0 \<le> i"
  by (simp add: named_def wf_ipc_def)

lemma museum_started_tidy: "tidy (museum_started idle_host)"
proof -
  have key: "ftok_key 1 i = i * 16777216 + 1" if "0 \<le> i" "i < 128" for i
    using ftok_key_nonneg [of 1 i] that by (simp add: wf_base_def)
  show ?thesis
    by (simp add: tidy_def museum_started_def idle_host_def wf_base_def key named_entry named_empty)
qed

theorem museum_opens_and_closes_witness:
  "(\<exists>m'. museum_main (day (museum_started idle_host) {21, 25}) (Some 1) (museum_starter (\<lambda>_. True)) = (Exit (-1), m')
     \<and> procs m' = [] \<and> museum_absent (os m'))
   \<and> (\<exists>m'. museum_main (day tour_host {25}) (Some 1) (museum_starter (\<lambda>p. p \<noteq> 24)) = (Blocked, m')
     \<and> os m' = tour_host \<and> p_pid ` {p \<in> set (procs m'). p_parent p = 7} = {24})"
proof -
  have a: "museum_absent idle_host" by (simp add: museum_absent_def idle_host_def wf_ipc_def wf_base_def)
  have t: "tidy tour_host" by (simp add: tour_host_def idle_host_def tidy_def named_def wf_ipc_def)
  have s: "staying {21, 25} (Some 1) (museum_starter (\<lambda>_. True)) = {}" "staying {25} (Some 1) (museum_starter (\<lambda>p. p \<noteq> 24)) = {24}"
    by (auto simp: staying_def)
  have c: "1 \<le> card ({21, 25} \<inter> {20..<26::int})" "1 \<le> card ({25} \<inter> {20..<26::int})" by simp_all
  have o: "os (museum_starter h) = idle_host" "pids_ok (museum_starter h)" "\<forall>p\<in>set (procs (museum_starter h)). p_parent p \<noteq> self (museum_starter h)"
    "childs (mem (museum_starter h)) = 0" "length (childs_arr (mem (museum_starter h))) = MAX_CHILDS" for h
    by (simp_all add: pids_ok_def)
  from museum_opens_and_closes [OF a o [of "\<lambda>_. True"] museum_started_tidy, where signal = "Some 1" and over = "{21, 25}"]
    museum_opens_and_closes [OF a o [of "\<lambda>p. p \<noteq> 24"] t, where signal = "Some 1" and over = "{25}"] c s
  show ?thesis by auto
qed

text \<open>
  Whatever calls fail, at any moment, and whatever runs beside it, \<^verbatim>\<open>main\<close> only writes and reads the
  array of children below its six entries and is never undefined: it exits or waits for its children.
\<close>

theorem museum_children_fit:
  "childs (mem m) = 0 \<Longrightarrow> length (childs_arr (mem m)) = MAX_CHILDS \<Longrightarrow>
   (\<exists>c m'. museum_main (beside pid x p) signal m = (Exit c, m')) \<or> (\<exists>m'. museum_main (beside pid x p) signal m = (Blocked, m'))"
proof -
  assume a: "childs (mem m) = 0" "length (childs_arr (mem m)) = MAX_CHILDS"
  let ?p = "museum_main (beside pid x p) signal"
  have "within_arr 6 (thn wait_childs_m (thn (on_os destroy_ipcs) (stop (Exit 0)))) 6"
    unfolding wait_childs_m_def by (intro within_seq within_calls within_wait_times within_os defined)
  moreover have "within_arr 6 (thn (bnd (gets (\<lambda>m. childs (mem m))) (\<lambda>n. wait_times (min k n))) safe_exit_museum) 6" for k
    by (intro within_seq [where n = 6] within_calls within_wait_times within_safe_exit) simp
  moreover have "within_arr 0 open_museum 6" using within_open_museum by (simp add: numeral_eq_Suc)
  ultimately have "within_arr 0 ?p 6"
    unfolding museum_main_def
    by (intro within_bind [of 0 open_museum 6] within_bind [of 6 "beside pid x p" 6] within_beside within_signal)
  note w = this
  have "few 0 m" using a by (simp add: few_def)
  obtain r m' where r: "?p m = (r, m')" by fastforce
  from withinD [OF w \<open>few 0 m\<close> r] have d: "r \<noteq> Undef" "r \<noteq> Abort" by blast+
  have "no_return ?p"
    unfolding museum_main_def safe_exit_museum_def by (intro no_return_bind; cases signal) (simp_all add: no_return_bind no_return_stop)
  then have "r \<noteq> Ret y" for y using r unfolding no_return_def by (metis fst_conv)
  with d r show ?thesis by (cases r) auto
qed

theorem museum_children_fit_witness:
  "\<exists>r m'. museum_main (beside 50 () (person_gen 3)) (Some 1) (museum_starter (\<lambda>_. True)\<lparr>os := idle_host\<lparr>env := replicate 40 Ok @ [Fail]\<rparr>\<rparr>) = (r, m')
     \<and> (r = Blocked \<or> r \<in> range Exit)"
  using museum_children_fit [of "museum_starter (\<lambda>_. True)\<lparr>os := idle_host\<lparr>env := replicate 40 Ok @ [Fail]\<rparr>\<rparr>" 50 "()" "person_gen 3" "Some 1"]
  by auto

end
