(* ===== verification/Signals.thy ===== *)
theory Signals
  imports Server_Handlers Museum_Main
begin

text \<open>
  Signals (\<^verbatim>\<open>broker/common/ipc/sig.c\<close> and the handlers for SIGINT).  The other theories cut the main loops off
  at any turn; here the loops run as they are written, with the flag that the handler sets and a signal at any
  moment: before the test, between the test and the blocking call, while the call waits, or in the body.
\<close>

section \<open>Actions\<close>

abbreviation SIGINT :: int where "SIGINT \<equiv> 2"

text \<open>
  The state of a process for signals: what it does for each, and its variables \<open>'g\<close>.  \<^verbatim>\<open>SA_RESTART\<close> is bit 28 of
  \<open>sa_flags\<close>.
\<close>

record 'g sigaction =
  sa_handler :: "int \<Rightarrow> 'g \<Rightarrow> 'g"
  sa_mask :: "int set"
  sa_flags :: int

record 'g signals =
  actions :: "int \<rightharpoonup> 'g sigaction"
  globals :: 'g

definition restarts :: "'g sigaction \<Rightarrow> bool" where
  "restarts sa \<longleftrightarrow> bit (sa_flags sa) 28"

text \<open>\<open>sa\<close> is what the struct on the stack held: the flags are never set.\<close>

definition register_handler :: "'g sigaction \<Rightarrow> (int \<Rightarrow> 'g \<Rightarrow> 'g) \<Rightarrow> 'g signals \<Rightarrow> 'g signals" where
  "register_handler sa handler s =
     (let sa = sa\<lparr>sa_mask := {}\<rparr>;
          sa = sa\<lparr>sa_mask := insert SIGINT (sa_mask sa)\<rparr>;
          sa = sa\<lparr>sa_handler := handler\<rparr>
      in s\<lparr>actions := (actions s)(SIGINT \<mapsto> sa)\<rparr>)"

text \<open>The handler of every process of the broker; the variable is \<^verbatim>\<open>graceful_quit\<close>.\<close>

definition SIGINT_handler :: "int \<Rightarrow> bool \<Rightarrow> bool" where
  "SIGINT_handler signum graceful_quit = (if signum \<noteq> SIGINT then graceful_quit else True)"

text \<open>A process of the broker, with its signals as its memory.\<close>

type_synonym 's quitter = "(msg_t, 's, bool signals) master"

text \<open>A signal without an action kills the process.\<close>

definition sys_signal :: "int \<Rightarrow> ('s quitter, unit) prog" where
  "sys_signal signum =
     bnd (gets (\<lambda>m. actions (mem m) signum)) (\<lambda>a. case a of
       None \<Rightarrow> stop Abort
     | Some sa \<Rightarrow> bnd (gets mem) (\<lambda>s. set_mem (s\<lparr>globals := sa_handler sa signum (globals s)\<rparr>)))"

text \<open>
  A call during which SIGINT arrives.  When it waits, it fails with \<open>failed\<close>, unless it is one of those that
  are restarted and the action says so: then it goes on waiting.
\<close>

definition interrupted_call :: "bool \<Rightarrow> 'x \<Rightarrow> ((msg_t, 's) world, 'x) prog \<Rightarrow> ('s quitter, 'x) prog" where
  "interrupted_call restartable failed call m =
     (case on_os call m of
        (Blocked, m') \<Rightarrow> thn (sys_signal SIGINT)
          (bnd (gets (\<lambda>m. actions (mem m) SIGINT)) (\<lambda>a. case a of
             None \<Rightarrow> ret failed
           | Some sa \<Rightarrow> if restartable \<and> restarts sa then stop Blocked else ret failed)) m'
      | (Ret x, m') \<Rightarrow> thn (sys_signal SIGINT) (ret x) m'
      | (r, m') \<Rightarrow> (r, m'))"

section \<open>Loops\<close>

datatype moment = Calm | Before_Test | Before_Call | In_Call | In_Body

text \<open>
  A turn of \<^verbatim>\<open>while (!graceful_quit) { x = call(); if (graceful_quit) break; body(x) }\<close>: what the call is, what it
  returns when it is interrupted, the body, which says whether the loop goes on, and when SIGINT arrives.
\<close>

record ('s, 'x) turn =
  the_call :: "((msg_t, 's) world, 'x) prog"
  on_failure :: 'x
  the_body :: "'x \<Rightarrow> ((msg_t, 's) world, bool) prog"
  signalled :: moment

text \<open>The result is whether the loop has ended.\<close>

primrec quit_loop :: "bool \<Rightarrow> ('s, 'x) turn list \<Rightarrow> ('s quitter, bool) prog" where
  "quit_loop restartable [] = ret False"
| "quit_loop restartable (t # ts) =
     thn (if signalled t = Before_Test then sys_signal SIGINT else ret ()) (
     bnd (gets (\<lambda>m. globals (mem m))) (\<lambda>graceful_quit.
     if graceful_quit then ret True
     else thn (if signalled t = Before_Call then sys_signal SIGINT else ret ()) (
       bnd (if signalled t = In_Call then interrupted_call restartable (on_failure t) (the_call t) else on_os (the_call t)) (\<lambda>x.
       bnd (gets (\<lambda>m. globals (mem m))) (\<lambda>graceful_quit.
       if graceful_quit then ret True
       else bnd (on_os (the_body t x)) (\<lambda>on.
         thn (if signalled t = In_Body then sys_signal SIGINT else ret ()) (
         if on then quit_loop restartable ts else ret True)))))))"

text \<open>
  The loops of the worker, the request handler and the response handler of a server.  As on Linux, \<^verbatim>\<open>msgrcv\<close>
  is never restarted, and \<^verbatim>\<open>read\<close> from a socket is when the action says so.
\<close>

definition worker_turn :: "int \<Rightarrow> int \<Rightarrow> int \<Rightarrow> int \<Rightarrow> db_msg_t \<times> msg_t \<times> moment \<Rightarrow> (global_ids_t, int \<times> msg_t) turn" where
  "worker_turn worker_queue resp_queue global_ids db_connection = (\<lambda>(stk, stk_msg, at).
     \<lparr>the_call = rcvmsg mtype worker_queue stk_msg 0, on_failure = (-1, stk_msg),
      the_body = (\<lambda>(_, msg). thn (process_msg_w stk db_connection global_ids resp_queue msg) (ret True)), signalled = at\<rparr>)"

definition worker_quits :: "(db_msg_t \<times> msg_t \<times> moment) list \<Rightarrow> int \<Rightarrow> int \<Rightarrow> int \<Rightarrow> int \<Rightarrow> (global_ids_t quitter, bool) prog" where
  "worker_quits turns worker_queue resp_queue global_ids db_connection =
     quit_loop False (map (worker_turn worker_queue resp_queue global_ids db_connection) turns)"

definition req_handler_turn :: "int \<Rightarrow> int \<Rightarrow> int \<Rightarrow> msg_t \<times> moment \<Rightarrow> (global_ids_t, int \<times> msg_t) turn" where
  "req_handler_turn client_socket worker_queue resp_handler_pid = (\<lambda>(stk, at).
     \<lparr>the_call = socket_receive client_socket stk, on_failure = (-1, stk),
      the_body = (\<lambda>(res, msg).
        if res < 0 then ret False
        else if res = 0 then ret False
        else thn (process_message_rq worker_queue msg resp_handler_pid) (ret True)), signalled = at\<rparr>)"

definition req_handler_quits :: "(msg_t \<times> moment) list \<Rightarrow> int \<Rightarrow> int \<Rightarrow> int \<Rightarrow> (global_ids_t quitter, bool) prog" where
  "req_handler_quits turns client_socket worker_queue resp_handler_pid =
     quit_loop True (map (req_handler_turn client_socket worker_queue resp_handler_pid) turns)"

section \<open>Handlers that do more\<close>

text \<open>The guide of the museum stops its timer; its variables are the process identifier and the flag.\<close>

definition SIGINT_handler_guide :: "int \<Rightarrow> (message_t, int, int \<times> bool) master \<Rightarrow> unit res \<times> (message_t, int, int \<times> bool) master" where
  "SIGINT_handler_guide signum =
     (if signum \<noteq> SIGINT then ret ()
      else bnd (gets mem) (\<lambda>(timer_pid, graceful_quit).
           thn (sys_kill timer_pid) (set_mem (timer_pid, True))))"

text \<open>The main process of the museum ends in its handler.\<close>

definition SIGINT_handler_museum :: "int \<Rightarrow> (museum_process, unit) prog" where
  "SIGINT_handler_museum signum = (if signum \<noteq> SIGINT then ret () else safe_exit_museum)"

text \<open>It is the branch that \<open>museum_main\<close> takes when a signal comes.\<close>

lemma museum_main_interrupted:
  "museum_main others (Some k) = thn open_museum (thn others (
     thn (bnd (gets (\<lambda>m. childs (mem m))) (\<lambda>n. wait_times (min k n))) (SIGINT_handler_museum SIGINT)))"
  by (simp add: museum_main_def SIGINT_handler_museum_def)

section \<open>Turns without a signal\<close>

primrec calm_loop :: "('s, 'x) turn list \<Rightarrow> ((msg_t, 's) world, bool) prog" where
  "calm_loop [] = ret True"
| "calm_loop (t # ts) = bnd (the_call t) (\<lambda>x. bnd (the_body t x) (\<lambda>on. if on then calm_loop ts else ret False))"

lemma quit_calm:
  assumes "calm_loop ts (os m) = (Ret True, w)" "\<forall>t\<in>set ts. signalled t = Calm" "\<not> globals (mem m)"
  shows "quit_loop restartable (ts @ us) m = quit_loop restartable us (m\<lparr>os := w\<rparr>)"
  using assms
proof (induction ts arbitrary: m)
  case (Cons t ts)
  obtain x w1 where x: "the_call t (os m) = (Ret x, w1)"
    using Cons.prems(1) by (auto simp: bnd_def split: prod.splits res.splits)
  obtain on w2 where y: "the_body t x w1 = (Ret on, w2)"
    using Cons.prems(1) x by (auto simp: bnd_def split: prod.splits res.splits)
  have "on" "calm_loop ts w2 = (Ret True, w)" using Cons.prems(1) x y by (auto simp: bnd_def ret_def split: if_splits)
  then show ?case
    using Cons.IH [of "m\<lparr>os := w2\<rparr>"] Cons.prems(2,3) x y by (simp add: bnd_def ret_def gets_def on_os_def)
qed (auto simp: ret_def)

lemma calm_worker:
  "worker_loop ss wq rq g d w = (Ret (), w') \<Longrightarrow>
   calm_loop (map (worker_turn wq rq g d) (map (\<lambda>(a, b). (a, b, Calm)) ss)) w = (Ret True, w')"
proof (induction ss arbitrary: w)
  case (Cons s ss)
  then show ?case
    by (cases s) (auto simp: worker_turn_def worker_step_unfold bnd_def ret_def split: prod.splits res.splits)
qed (simp add: ret_def)

text \<open>After \<open>register_handler\<close>, whatever the flags, the first SIGINT sets the flag.\<close>

lemma sys_signal_run:
  assumes "mem m = register_handler sa SIGINT_handler s"
  shows "sys_signal SIGINT m = (Ret (), m\<lparr>mem := (mem m)\<lparr>globals := True\<rparr>\<rparr>)"
  using assms by (simp add: sys_signal_def register_handler_def Let_def bnd_def gets_def set_mem_def SIGINT_handler_def)

lemma registered_run [simp]:
  "globals (register_handler sa h s) = globals s"
  "actions (register_handler sa h s) SIGINT = Some (sa\<lparr>sa_mask := {SIGINT}, sa_handler := h\<rparr>)"
  "restarts (sa\<lparr>sa_mask := M, sa_handler := h\<rparr>) = restarts sa"
  by (simp_all add: register_handler_def Let_def restarts_def)

lemma last_turn:
  assumes "mem m = register_handler sa SIGINT_handler s" "\<not> globals s"
  shows "signalled t = Before_Test \<Longrightarrow> quit_loop re [t] m = (Ret True, m\<lparr>mem := (mem m)\<lparr>globals := True\<rparr>\<rparr>)"
    "signalled t \<in> {Before_Call, In_Call} \<Longrightarrow> the_call t (os m) = (Ret x, w) \<Longrightarrow>
     quit_loop re [t] m = (Ret True, m\<lparr>os := w, mem := (mem m)\<lparr>globals := True\<rparr>\<rparr>)"
    "signalled t = Before_Call \<Longrightarrow> the_call t (os m) = (Blocked, w) \<Longrightarrow>
     quit_loop re [t] m = (Blocked, m\<lparr>os := w, mem := (mem m)\<lparr>globals := True\<rparr>\<rparr>)"
    "signalled t = In_Call \<Longrightarrow> the_call t (os m) = (Blocked, w) \<Longrightarrow>
     quit_loop re [t] m = ((if re \<and> restarts sa then Blocked else Ret True), m\<lparr>os := w, mem := (mem m)\<lparr>globals := True\<rparr>\<rparr>)"
  using assms sys_signal_run [OF assms(1)] sys_signal_run [of "m\<lparr>os := w\<rparr>" sa s]
  by (auto simp: bnd_def gets_def ret_def on_os_def interrupted_call_def stop_def)

lemma rcvmsg_any:
  assumes "env w = []" "ipc_objs (queues w) i = Some q"
  shows "rcvmsg mt i buf 0 w = (case q of [] \<Rightarrow> (Blocked, w) | x # xs \<Rightarrow> (Ret (0, x), w\<lparr>queues := ipc_put i xs (queues w)\<rparr>))"
  using assms by (intro wp_eqI) (simp add: wp take_msg_any split: list.split)

lemma receive_waits: "env w = [] \<Longrightarrow> available w fd = [] \<Longrightarrow> socket_receive fd stk w = (Blocked, w)"
  by (intro wp_eqI) (simp add: socket_receive_def receive_struct_def receive_from.simps [of fd _ 0] wp sizeof_msg_def)

abbreviation odd_request :: msg_t where
  "odd_request \<equiv> \<lparr>mtype = 9, global_id = 4, msg_type = 42, payload = \<lparr>topic = [], body = []\<rparr>, broker_id = 1\<rparr>"

abbreviation odd_host :: "msg_t list \<Rightarrow> msg_t list \<Rightarrow> host" where
  "odd_host q q' \<equiv> idle_host\<lparr>queues := \<lparr>ipc_keys = (\<lambda>_. None), ipc_objs = [0 \<mapsto> q, 1 \<mapsto> q'], ipc_next = 2\<rparr>\<rparr>"

abbreviation told :: "host \<Rightarrow> int \<Rightarrow> global_ids_t quitter" where
  "told w flags \<equiv> \<lparr>os = w, self = 9, fds = [], procs = [], next_pid = 20, heeds = (\<lambda>_. True),
     mem = register_handler \<lparr>sa_handler = (\<lambda>_ b. b), sa_mask = {}, sa_flags = flags\<rparr> SIGINT_handler \<lparr>actions = Map.empty, globals = False\<rparr>\<rparr>"

lemma odd_run:
  "worker_loop [(blank_db_msg, odd_request)] 0 1 0 5 (odd_host (odd_request # q) [])
     = (Ret (), odd_host q [odd_request\<lparr>msg_type := ACK_ERROR\<rparr>])"
  by (intro wp_eqI) (simp add: worker_step_unfold process_msg_w_unfold wp take_msg_any idle_host_def ipc_put_def fun_upd_twist)

declare quit_loop.simps [simp del]

section \<open>Properties\<close>

text \<open>
  C15: A worker that is told to stop between two requests, or while it waits for one, stops at once, whatever
  its struct \<^verbatim>\<open>sigaction\<close> held: it has performed the requests of the turns before, completely and nothing else.
\<close>

theorem signal_stops_worker:
  "worker_loop ss wq rq g d (os m) = (Ret (), w) \<Longrightarrow> env w = [] \<Longrightarrow> ipc_objs (queues w) wq = Some q \<Longrightarrow>
   mem m = register_handler sa SIGINT_handler s \<Longrightarrow> \<not> globals s \<Longrightarrow> at = Before_Test \<or> at = In_Call \<and> q = [] \<Longrightarrow>
   worker_quits (map (\<lambda>(a, b). (a, b, Calm)) ss @ [(stk, stk_msg, at)]) wq rq g d m
     = (Ret True, m\<lparr>os := w, mem := (mem m)\<lparr>globals := True\<rparr>\<rparr>)"
proof -
  assume a: "worker_loop ss wq rq g d (os m) = (Ret (), w)" "env w = []" "ipc_objs (queues w) wq = Some q"
    "mem m = register_handler sa SIGINT_handler s" "\<not> globals s" and at: "at = Before_Test \<or> at = In_Call \<and> q = []"
  let ?t = "worker_turn wq rq g d (stk, stk_msg, at)" and ?m = "m\<lparr>os := w\<rparr>"
  have t: "signalled ?t = at" "q = [] \<Longrightarrow> the_call ?t (os ?m) = (Blocked, w)"
    using rcvmsg_any [OF a(2,3)] by (simp_all add: worker_turn_def)
  have "worker_quits (map (\<lambda>(a, b). (a, b, Calm)) ss @ [(stk, stk_msg, at)]) wq rq g d m = quit_loop False [?t] ?m"
    unfolding worker_quits_def map_append
    by (subst quit_calm [OF calm_worker [OF a(1)]]) (auto simp: worker_turn_def a(4,5))
  with last_turn [of ?m sa s ?t] t at a(4,5) show ?thesis by auto
qed

theorem signal_stops_worker_witness:
  "\<exists>m'. worker_quits [(blank_db_msg, odd_request, Calm), (blank_db_msg, odd_request, In_Call)] 0 1 0 5
       (told (odd_host [odd_request] []) 268435456) = (Ret True, m')
     \<and> os m' = odd_host [] [odd_request\<lparr>msg_type := ACK_ERROR\<rparr>]"
  using signal_stops_worker [of "[(blank_db_msg, odd_request)]" 0 1 0 5 "told (odd_host [odd_request] []) 268435456"
      "odd_host [] [odd_request\<lparr>msg_type := ACK_ERROR\<rparr>]" "[]" _ _ In_Call blank_db_msg odd_request] odd_run [of "[]"]
  by (simp add: idle_host_def)

text \<open>
  C16: A signal that comes between the test and the call is late.  A request that waits in the queue is taken
  from it and never performed; without one the worker waits although it was told to stop.  A request that
  arrives together with the signal during the call is lost as well.
\<close>

theorem late_signal_loses_request:
  "worker_loop ss wq rq g d (os m) = (Ret (), w) \<Longrightarrow> env w = [] \<Longrightarrow> ipc_objs (queues w) wq = Some q \<Longrightarrow>
   mem m = register_handler sa SIGINT_handler s \<Longrightarrow> \<not> globals s \<Longrightarrow>
   at = Before_Call \<or> at = In_Call \<and> q \<noteq> [] \<Longrightarrow>
   worker_quits (map (\<lambda>(a, b). (a, b, Calm)) ss @ [(stk, stk_msg, at)]) wq rq g d m
     = (case q of [] \<Rightarrow> (Blocked, m\<lparr>os := w, mem := (mem m)\<lparr>globals := True\<rparr>\<rparr>)
        | _ # q' \<Rightarrow> (Ret True, m\<lparr>os := w\<lparr>queues := ipc_put wq q' (queues w)\<rparr>, mem := (mem m)\<lparr>globals := True\<rparr>\<rparr>))"
proof -
  assume a: "worker_loop ss wq rq g d (os m) = (Ret (), w)" "env w = []" "ipc_objs (queues w) wq = Some q"
    "mem m = register_handler sa SIGINT_handler s" "\<not> globals s" and at: "at = Before_Call \<or> at = In_Call \<and> q \<noteq> []"
  let ?t = "worker_turn wq rq g d (stk, stk_msg, at)" and ?m = "m\<lparr>os := w\<rparr>"
  have t: "signalled ?t = at" "the_call ?t = rcvmsg mtype wq stk_msg 0" by (simp_all add: worker_turn_def)
  have "worker_quits (map (\<lambda>(a, b). (a, b, Calm)) ss @ [(stk, stk_msg, at)]) wq rq g d m = quit_loop False [?t] ?m"
    unfolding worker_quits_def map_append
    by (subst quit_calm [OF calm_worker [OF a(1)]]) (auto simp: worker_turn_def a(4,5))
  with last_turn [of ?m sa s ?t] t at a(4,5) rcvmsg_any [OF a(2,3), of mtype stk_msg] show ?thesis
    by (cases q) auto
qed

theorem late_signal_loses_request_witness:
  "(\<exists>m'. worker_quits [(blank_db_msg, odd_request, Calm), (blank_db_msg, odd_request, In_Call)] 0 1 0 5
       (told (odd_host [odd_request, odd_request] []) 0) = (Ret True, m')
     \<and> os m' = odd_host [] [odd_request\<lparr>msg_type := ACK_ERROR\<rparr>])
   \<and> fst (worker_quits [(blank_db_msg, odd_request, Calm), (blank_db_msg, odd_request, Before_Call)] 0 1 0 5
       (told (odd_host [odd_request] []) 0)) = Blocked"
  using late_signal_loses_request [of "[(blank_db_msg, odd_request)]" 0 1 0 5 "told (odd_host [odd_request, odd_request] []) 0"
      "odd_host [odd_request] [odd_request\<lparr>msg_type := ACK_ERROR\<rparr>]" "[odd_request]" _ _ In_Call blank_db_msg odd_request]
    late_signal_loses_request [of "[(blank_db_msg, odd_request)]" 0 1 0 5 "told (odd_host [odd_request] []) 0"
      "odd_host [] [odd_request\<lparr>msg_type := ACK_ERROR\<rparr>]" "[]" _ _ Before_Call blank_db_msg odd_request]
    odd_run [of "[]"] odd_run [of "[odd_request]"]
  by (simp add: idle_host_def ipc_put_def fun_upd_twist)

text \<open>
  C17: A request handler that waits for its client stops at a signal only when the struct \<^verbatim>\<open>sigaction\<close>, whose flags
  are never set, happened not to ask for a restart; otherwise it goes on waiting.
\<close>

theorem request_handler_may_not_stop:
  "env (os m) = [] \<Longrightarrow> available (os m) fd = [] \<Longrightarrow> mem m = register_handler sa SIGINT_handler s \<Longrightarrow> \<not> globals s \<Longrightarrow>
   req_handler_quits [(stk, In_Call)] fd wq pid m
     = (if bit (sa_flags sa) 28 then Blocked else Ret True, m\<lparr>mem := (mem m)\<lparr>globals := True\<rparr>\<rparr>)"
proof -
  assume a: "env (os m) = []" "available (os m) fd = []" "mem m = register_handler sa SIGINT_handler s" "\<not> globals s"
  have "signalled (req_handler_turn fd wq pid (stk, In_Call)) = In_Call"
    "the_call (req_handler_turn fd wq pid (stk, In_Call)) (os m) = (Blocked, os m)"
    using receive_waits [OF a(1,2)] by (simp_all add: req_handler_turn_def)
  from last_turn(4) [OF a(3,4) this, of True] show ?thesis by (simp add: req_handler_quits_def restarts_def)
qed

theorem request_handler_may_not_stop_witness:
  "fst (req_handler_quits [(odd_request, In_Call)] 5 0 9 (told idle_host 268435456)) = Blocked
   \<and> fst (req_handler_quits [(odd_request, In_Call)] 5 0 9 (told idle_host 0)) = Ret True"
  using request_handler_may_not_stop [of "told idle_host 268435456" 5 _ _ odd_request 0 9]
    request_handler_may_not_stop [of "told idle_host 0" 5 _ _ odd_request 0 9]
  by (simp add: idle_host_def available_def bit_iff_odd)

end
