(* ===== verification/Museum_Doors.thy ===== *)
theory Museum_Doors
  imports Museum_Main
begin

text \<open>
  The main functions of the museum processes that \<open>Museum\<close> treats turn by turn: \<^verbatim>\<open>entranceDoor.c\<close>,
  \<^verbatim>\<open>exitDoor.c\<close> and \<^verbatim>\<open>admin.c\<close>, and what they have in common with \<^verbatim>\<open>guide.c\<close> and \<^verbatim>\<open>timer.c\<close>: started in the
  museum that \<^verbatim>\<open>main.c\<close> opened, whenever it may be, they find its resources and then make steps of the
  machine \<open>museum_step\<close> only.
\<close>

section \<open>Main functions\<close>

text \<open>
  \<^verbatim>\<open>sscanf(s, "%d", &n)\<close>: without a number \<open>n\<close> keeps its old value.
\<close>

definition has_number :: "string \<Rightarrow> bool" where
  "has_number s =
     (case dropWhile is_space s of
        [] \<Rightarrow> False
      | c # cs \<Rightarrow> is_digit c \<or> c \<in> {CHR ''-'', CHR ''+''} \<and> cs \<noteq> [] \<and> is_digit (hd cs))"

definition sscanf_int :: "string \<Rightarrow> int \<Rightarrow> int" where
  "sscanf_int s old = (if has_number s then int_of_long (strtol10 s) else old)"

text \<open>\<open>u\<close> and \<open>v\<close> are what the variables for the two numbers held; a missing argument is a null pointer.\<close>

definition door_numbers :: "string list \<Rightarrow> int \<Rightarrow> int \<Rightarrow> (house, int \<times> int) prog" where
  "door_numbers argv u v =
     (if length argv < 3 then stop Undef else ret (sscanf_int (argv ! 1) u, sscanf_int (argv ! 2) v))"

definition entrance_main :: "string list \<Rightarrow> int \<Rightarrow> int \<Rightarrow> message_t list \<Rightarrow> (house, unit) prog" where
  "entrance_main argv u v stks =
     bnd (door_numbers argv u v) (\<lambda>(req_queue_id, resp_queue_id).
     bnd (entrance_start req_queue_id resp_queue_id) (\<lambda>(req_queue, resp_queue, cap_shm, cap_sem, open_shm).
     entrance_loop stks req_queue resp_queue cap_shm cap_sem open_shm))"

definition exit_main :: "string list \<Rightarrow> int \<Rightarrow> int \<Rightarrow> message_t list \<Rightarrow> (house, unit) prog" where
  "exit_main argv u v stks =
     bnd (door_numbers argv u v) (\<lambda>(req_queue_id, resp_queue_id).
     bnd (exit_start req_queue_id resp_queue_id) (\<lambda>(req_queue, resp_queue, shm, sem).
     exit_loop stks req_queue resp_queue shm sem))"

text \<open>
  The menu of the administrator tests \<open>option\<close> before it is set, and reads a word into the memory that the
  pointer \<open>option_str\<close> happens to address: each turn has whether that memory may be written, which is all that
  can save it, and the word.  A list that is used up leaves the menu waiting for input.
\<close>

fun admin_menu :: "(bool \<times> string) list \<Rightarrow> int \<Rightarrow> int \<Rightarrow> (house, unit) prog" where
  "admin_menu [] option open_shm = (if option \<noteq> 3 then stop Blocked else ret ())"
| "admin_menu ((writable, word) # turns) option open_shm =
     (if option \<noteq> 3 then
        if writable then
          thn (admin_choice (sscanf_int word option) open_shm) (admin_menu turns (sscanf_int word option) open_shm)
        else stop Undef
      else ret ())"

definition admin_main :: "int \<Rightarrow> (bool \<times> string) list \<Rightarrow> (house, unit) prog" where
  "admin_main option turns =
     bnd (found (getshm MUSEUM_OPEN_SHM)) (\<lambda>open_shm_id.
     bnd (shm_map open_shm_id) (\<lambda>open_shm.
     thn (admin_menu turns option open_shm) (
     thn (shm_unmap open_shm) (ret ()))))"

section \<open>Finding the resources\<close>

text \<open>\<open>addressed L w\<close>: nothing fails, and the resources of the layout are found under their numbers.\<close>

definition queue_ids :: "layout \<Rightarrow> (int \<times> int) list" where
  "queue_ids L = [(0, l_req L 0), (1, l_resp L 0), (2, l_req L 1), (3, l_resp L 1), (4, l_req L 2), (5, l_resp L 2),
     (EXIT_DOOR_REQ_MSG, l_exit_req L), (EXIT_DOOR_RESP_MSG, l_exit_resp L), (TOUR_REQ_MSG, l_tour_req L), (TOUR_RESP_MSG, l_tour_resp L)]"

definition sem_ids :: "layout \<Rightarrow> (int \<times> int) list" where
  "sem_ids L = [(MUSEUM_CAP_SEM, l_cap_sem L), (MUSEUM_TOUR_COUNT_SEM, l_count_sem L), (MUSEUM_TOUR_START_SEM, l_start_sem L)]"

definition shm_ids :: "layout \<Rightarrow> (int \<times> int) list" where
  "shm_ids L = [(MUSEUM_CAP_SHM, l_cap L), (MUSEUM_OPEN_SHM, l_open L), (MUSEUM_TOUR_COUNT_SHM, l_count L)]"

definition finds :: "int \<Rightarrow> (int \<times> int) list \<Rightarrow> 'a ipc \<Rightarrow> bool" where
  "finds b xs t \<longleftrightarrow> (\<forall>(k, i)\<in>set xs. 0 \<le> i \<and> ipc_keys t (ftok_key b k) = Some i \<and> ipc_objs t i \<noteq> None)"

definition addressed :: "layout \<Rightarrow> house \<Rightarrow> bool" where
  "addressed L w \<longleftrightarrow> env w = [] \<and> wf_base (dirkey w) \<and> finds (dirkey w) (queue_ids L) (queues w)
     \<and> finds (dirkey w) (sem_ids L) (sems w) \<and> finds (dirkey w) (shm_ids L) (shms w)"

lemma finds_put [simp]: "finds b xs t \<Longrightarrow> finds b xs (ipc_put i x t)"
  by (auto simp: finds_def)

lemma addressed_put [simp]:
  "addressed L w \<Longrightarrow> addressed L (w\<lparr>queues := ipc_put i x (queues w)\<rparr>)"
  "addressed L w \<Longrightarrow> addressed L (w\<lparr>sems := ipc_put i y (sems w)\<rparr>)"
  "addressed L w \<Longrightarrow> addressed L (w\<lparr>shms := ipc_put i z (shms w)\<rparr>)"
  "addressed L w \<Longrightarrow> env w = []"
  by (simp_all add: addressed_def)

lemma finds_get: "finds b xs t \<Longrightarrow> (k, i) \<in> set xs \<Longrightarrow> ipc_get (ftok_key b k) t = i \<and> 0 \<le> i \<and> (\<exists>x. ipc_objs t i = Some x)"
  by (force simp: finds_def ipc_get_def)

lemma found_run:
  assumes "addressed L w" "0 \<le> k" "k < 128"
  shows "(k, i) \<in> set (queue_ids L) \<Longrightarrow> getmsg k w = (Ret i, w)" "(k, i) \<in> set (sem_ids L) \<Longrightarrow> found (getsem k) w = (Ret i, w)"
    "(k, i) \<in> set (shm_ids L) \<Longrightarrow> found (getshm k) w = (Ret i, w)" "(k, i) \<in> set (shm_ids L) \<Longrightarrow> shm_map i w = (Ret i, w)"
    "(k, i) \<in> set (queue_ids L) \<Longrightarrow> 0 \<le> i"
proof -
  have w: "env w = []" "0 \<le> ftok_key (dirkey w) k" "wf_base (dirkey w)"
    using assms ftok_key_nonneg [of "dirkey w" k] by (auto simp: addressed_def wf_base_def)
  note f = finds_get [of "dirkey w" _ _ k i]
  have t: "finds (dirkey w) (queue_ids L) (queues w)" "finds (dirkey w) (sem_ids L) (sems w)" "finds (dirkey w) (shm_ids L) (shms w)"
    using assms(1) by (simp_all add: addressed_def)
  show "(k, i) \<in> set (queue_ids L) \<Longrightarrow> getmsg k w = (Ret i, w)"
    using w f [OF t(1)] assms(2,3) by (intro wp_eqI) (simp add: wp)
  show "(k, i) \<in> set (queue_ids L) \<Longrightarrow> 0 \<le> i"
    using f [OF t(1)] by blast
  show "(k, i) \<in> set (sem_ids L) \<Longrightarrow> found (getsem k) w = (Ret i, w)"
    using w f [OF t(2)] assms(2,3) by (intro wp_eqI) (simp add: found_def wp)
  show "(k, i) \<in> set (shm_ids L) \<Longrightarrow> found (getshm k) w = (Ret i, w)"
    using w f [OF t(3)] assms(2,3) by (intro wp_eqI) (simp add: found_def wp)
  show "(k, i) \<in> set (shm_ids L) \<Longrightarrow> shm_map i w = (Ret i, w)"
    using w f [OF t(3)] by (intro wp_eqI) (auto simp: wp)
qed

lemma keeps_addressed_calls [keeps]:
  "keeps (addressed L) (sem_p s) (\<lambda>_. True)" "keeps (addressed L) (sem_v s) (\<lambda>_. True)"
  "keeps (addressed L) (shm_load a) (\<lambda>_. True)" "keeps (addressed L) (shm_store a z) (\<lambda>_. True)"
  "keeps (addressed L) (getmsg i) (\<lambda>_. True)" "keeps (addressed L) (shm_unmap a) (\<lambda>_. True)"
  "keeps (addressed L) (rcv_m q stk ty) (\<lambda>_. True)" "keeps (addressed L) (send_m q msg) (\<lambda>_. True)"
  unfolding keeps_def rcv_m_def send_m_def by (auto simp: wp split: option.split)

lemma keeps_found [keeps]: "keeps I p (\<lambda>_. True) \<Longrightarrow> keeps I (found p) (\<lambda>_. True)"
  unfolding found_def by (intro keeps keeps_thn) auto

lemma keeps_lift [keeps]: "keeps I (lift_res r) (\<lambda>_. True)"
  by (simp add: keeps_def)

lemma keeps_addressed_parts:
  "keeps (addressed L) (person_asks d pid) (\<lambda>_. True)" "keeps (addressed L) (person_leaves msg) (\<lambda>_. True)"
  "keeps (addressed L) (tour_register pid q c cs ss) (\<lambda>_. True)" "keeps (addressed L) (entrance_step stk q r c s a) (\<lambda>_. True)"
  "keeps (addressed L) (exit_step stk q r c s) (\<lambda>_. True)" "keeps (addressed L) (guide_step stks q r c cs ss) (\<lambda>_. True)"
  "keeps (addressed L) (timer_step c cs ss) (\<lambda>_. True)" "keeps (addressed L) (admin_choice opt a) (\<lambda>_. True)"
proof -
  have reads: "keeps (addressed L) (tour_reads stks q r c n i) (\<lambda>_. True)" for n i
    by (induction stks) (auto intro!: keeps)
  show "keeps (addressed L) (guide_step stks q r c cs ss) (\<lambda>_. True)"
    unfolding guide_step_def by (intro keeps reads)
qed (unfold person_asks_def person_leaves_def tour_register_def entrance_step_def exit_step_def timer_step_def admin_choice_def Let_def,
  (intro keeps)+)

lemma keeps_result: "keeps I p R \<Longrightarrow> p w = (r, w') \<Longrightarrow> I w \<Longrightarrow> I w'"
  by (auto dest: keepsD)

lemmas addressed_after = keeps_addressed_parts [THEN keeps_result] keeps_addressed_calls(7) [THEN keeps_result]

inductive_cases museum_stepE: "museum_step L S S'"

lemma addressed_step: "museum_step L S S' \<Longrightarrow> addressed L' (fst S) \<Longrightarrow> addressed L' (fst S')"
  by (elim museum_stepE) (auto dest: addressed_after)

section \<open>Main functions make steps\<close>

abbreviation reach :: "layout \<Rightarrow> house \<times> int set \<Rightarrow> house \<times> int set \<Rightarrow> bool" where
  "reach L \<equiv> (museum_step L)\<^sup>*\<^sup>*"

lemma addressed_reach: "reach L S S' \<Longrightarrow> addressed L' (fst S) \<Longrightarrow> addressed L' (fst S')"
  by (induction rule: rtranclp_induct) (auto intro: addressed_step)

text \<open>
  \<open>visits L P pid b p f\<close>: started with the visitor \<open>pid\<close> inside or not, as \<open>b\<close> says, the program \<open>p\<close> makes steps of
  the machine in which no visitors but those in \<open>P\<close> enter or leave, whatever becomes of it; when it returns \<open>x\<close>,
  the visitor is inside or not as \<open>f x\<close> says.
\<close>

definition visits :: "layout \<Rightarrow> int set \<Rightarrow> int \<Rightarrow> bool \<Rightarrow> (house, 'a) prog \<Rightarrow> ('a \<Rightarrow> bool) \<Rightarrow> bool" where
  "visits L P pid b p f \<longleftrightarrow> (\<forall>w V r w'. addressed L w \<longrightarrow> (pid \<in> V \<longleftrightarrow> b) \<longrightarrow> p w = (r, w') \<longrightarrow>
     (\<exists>V'. reach L (w, V) (w', V') \<and> V' - P = V - P \<and> (\<forall>x. r = Ret x \<longrightarrow> (pid \<in> V' \<longleftrightarrow> f x))))"

lemma visitsD:
  "visits L P pid b p f \<Longrightarrow> addressed L w \<Longrightarrow> (pid \<in> V \<longleftrightarrow> b) \<Longrightarrow> p w = (r, w') \<Longrightarrow>
   \<exists>V'. reach L (w, V) (w', V') \<and> V' - P = V - P \<and> (\<forall>x. r = Ret x \<longrightarrow> (pid \<in> V' \<longleftrightarrow> f x))"
  unfolding visits_def by blast

lemma visits_bind_value:
  assumes "visits L P pid b p f" "\<And>x. R x \<Longrightarrow> visits L P pid (f x) (k x) g"
    "\<And>w x w'. addressed L w \<Longrightarrow> p w = (Ret x, w') \<Longrightarrow> R x"
  shows "visits L P pid b (bnd p k) g"
  unfolding visits_def
proof (intro allI impI)
  fix w V r w' assume a: "addressed L w" "pid \<in> V \<longleftrightarrow> b" "bnd p k w = (r, w')"
  obtain r1 w1 where 1: "p w = (r1, w1)" by fastforce
  from visitsD [OF assms(1) a(1,2) 1] obtain V1 where
    V1: "reach L (w, V) (w1, V1)" "V1 - P = V - P" "\<forall>x. r1 = Ret x \<longrightarrow> (pid \<in> V1 \<longleftrightarrow> f x)" by blast
  show "\<exists>V'. reach L (w, V) (w', V') \<and> V' - P = V - P \<and> (\<forall>x. r = Ret x \<longrightarrow> (pid \<in> V' \<longleftrightarrow> g x))"
  proof (cases r1)
    case (Ret x)
    have w1: "addressed L w1" using addressed_reach [OF V1(1)] a(1) by simp
    have k: "k x w1 = (r, w')" using a(3) 1 Ret by (simp add: bnd_def)
    have v: "pid \<in> V1 \<longleftrightarrow> f x" using V1(3) Ret by simp
    from visitsD [OF assms(2) w1 v k] assms(3) [OF a(1) 1 [unfolded Ret]] obtain V' where
      "reach L (w1, V1) (w', V')" "V' - P = V1 - P" "\<forall>x. r = Ret x \<longrightarrow> (pid \<in> V' \<longleftrightarrow> g x)" by blast
    then show ?thesis using rtranclp_trans [OF V1(1)] V1(2) by metis
  qed (use a(3) 1 V1(1,2) in \<open>auto simp: bnd_def\<close>)
qed

lemma visits_bind: "visits L P pid b p f \<Longrightarrow> (\<And>x. visits L P pid (f x) (k x) g) \<Longrightarrow> visits L P pid b (bnd p k) g"
  by (rule visits_bind_value [where R = "\<lambda>_. True"]) auto

text \<open>A program that leaves the host as it is and returns \<open>y\<close>, or does not return.\<close>

lemma visits_still: "(\<And>w. addressed L w \<Longrightarrow> p w = (Ret y, w)) \<Longrightarrow> visits L P pid (f y) p f"
  by (auto simp: visits_def intro!: exI)

lemma visits_ret: "visits L P pid (f x) (ret x) f"
  by (rule visits_still) (simp add: ret_def)

lemma visits_stop: "(\<And>x. r \<noteq> Ret x) \<Longrightarrow> visits L P pid b (stop r) f"
  by (auto simp: visits_def stop_def intro!: exI)

lemma visits_if: "(c \<Longrightarrow> visits L P pid b p f) \<Longrightarrow> (\<not> c \<Longrightarrow> visits L P pid b q f) \<Longrightarrow> visits L P pid b (if c then p else q) f"
  by simp

lemma visits_step: "(\<And>w V r w'. p w = (r, w') \<Longrightarrow> museum_step L (w, V) (w', V)) \<Longrightarrow> visits L P pid b p (\<lambda>_. b)"
  unfolding visits_def by blast

lemma visits_steps [intro]:
  "d \<in> doors \<Longrightarrow> visits L P pid b (entrance_step stk (l_req L d) (l_resp L d) (l_cap L) (l_cap_sem L) (l_open L)) (\<lambda>_. b)"
  "visits L P pid b (exit_step stk (l_exit_req L) (l_exit_resp L) (l_cap L) (l_cap_sem L)) (\<lambda>_. b)"
  "visits L P pid b (guide_step stks (l_tour_req L) (l_tour_resp L) (l_count L) (l_count_sem L) (l_start_sem L)) (\<lambda>_. b)"
  "visits L P pid b (timer_step (l_count L) (l_count_sem L) (l_start_sem L)) (\<lambda>_. b)"
  "visits L P pid b (admin_choice opt (l_open L)) (\<lambda>_. b)"
  "visits L P pid b (tour_register pid' (l_tour_req L) (l_count L) (l_count_sem L) (l_start_sem L)) (\<lambda>_. b)"
  "visits L P pid b (rcv_m (l_tour_resp L) stk pid') (\<lambda>_. b)" "visits L P pid b (rcv_m (l_exit_resp L) stk pid') (\<lambda>_. b)"
  by (rule visits_step, erule museum_step.intros, assumption?)+

lemma addressed_calm: "addressed L w \<Longrightarrow> shm_unmap a w = (Ret 0, w)"
  by (intro wp_eqI) (simp add: wp addressed_def)

lemma visits_unmap: "visits L P pid b (shm_unmap a) (\<lambda>_. b)"
  by (rule visits_still [where f = "\<lambda>_. b"]) (erule addressed_calm)

lemmas visiting = visits_bind [where f = "\<lambda>_. b" for b] visits_steps visits_unmap visits_ret visits_stop visits_if

lemma visits_loops:
  "d \<in> doors \<Longrightarrow> visits L P pid b (entrance_loop stks (l_req L d) (l_resp L d) (l_cap L) (l_cap_sem L) (l_open L)) (\<lambda>_. b)"
  "visits L P pid b (exit_loop stks (l_exit_req L) (l_exit_resp L) (l_cap L) (l_cap_sem L)) (\<lambda>_. b)"
  "visits L P pid b (guide_loop stkss (l_tour_req L) (l_tour_resp L) (l_count L) (l_count_sem L) (l_start_sem L)) (\<lambda>_. b)"
  "visits L P pid b (timer_loop n (l_count L) (l_count_sem L) (l_start_sem L)) (\<lambda>_. b)"
  subgoal by (induction stks) (auto intro!: visiting)
  subgoal by (induction stks) (auto intro!: visiting)
  subgoal by (induction stkss) (auto intro!: visiting)
  subgoal by (induction n) (auto intro!: visiting)
  done

lemma visits_admin_menu: "visits L P pid b (admin_menu turns opt (l_open L)) (\<lambda>_. b)"
  by (induction turns opt "l_open L" rule: admin_menu.induct) (auto intro!: visiting)

lemma door_argument: "k \<in> {0..<10} \<Longrightarrow> sscanf_int (three_chars k) u = k"
proof -
  assume k: "k \<in> {0..<10}"
  then have "nat k < 10" by auto
  then have s: "three_chars k = [digit (nat k)]" using k by (simp add: three_chars_def show_int_def show_nat.simps)
  have "is_digit (digit (nat k))" using \<open>nat k < 10\<close> by simp
  then have "has_number (three_chars k)" by (auto simp: s has_number_def is_digit_def is_space_def)
  moreover have "strtol10 (three_chars k) = k" using k by (intro three_chars_small) auto
  ultimately show ?thesis using k by (simp add: sscanf_int_def is_int32_def)
qed

lemma starts_run:
  assumes "addressed L w"
  shows "d \<in> doors \<Longrightarrow> entrance_start (2 * int d) (2 * int d + 1) w = (Ret (l_req L d, l_resp L d, l_cap L, l_cap_sem L, l_open L), w)"
    "exit_start EXIT_DOOR_REQ_MSG EXIT_DOOR_RESP_MSG w = (Ret (l_exit_req L, l_exit_resp L, l_cap L, l_cap_sem L), w)"
    "tour_ipcs w = (Ret (l_tour_req L, l_tour_resp L, l_count L, l_count_sem L, l_start_sem L), w)"
    "timer_start w = (Ret (l_count L, l_count_sem L, l_start_sem L), w)"
proof -
  note f = found_run [OF assms]
  have "\<forall>(k, i)\<in>set (queue_ids L). getmsg k w = (Ret i, w) \<and> found (getmsg k) w = (Ret i, w) \<and> \<not> i < 0"
  proof clarify
    fix k i assume i: "(k, i) \<in> set (queue_ids L)"
    then have k: "0 \<le> k" "k < 128" by (auto simp: queue_ids_def)
    show "getmsg k w = (Ret i, w) \<and> found (getmsg k) w = (Ret i, w) \<and> \<not> i < 0"
      using f(1,5) [OF k i] by (simp add: found_def bnd_def ret_def)
  qed
  note q = this [unfolded queue_ids_def, simplified]
  have "\<forall>(k, i)\<in>set (sem_ids L). found (getsem k) w = (Ret i, w)"
    using f(2) by (auto simp: sem_ids_def)
  note s = this [unfolded sem_ids_def, simplified]
  have "\<forall>(k, i)\<in>set (shm_ids L). found (getshm k) w = (Ret i, w) \<and> shm_map i w = (Ret i, w)"
  proof clarify
    fix k i assume i: "(k, i) \<in> set (shm_ids L)"
    then have "0 \<le> k" "k < 128" by (auto simp: shm_ids_def)
    then show "found (getshm k) w = (Ret i, w) \<and> shm_map i w = (Ret i, w)" using f(3,4) i by simp
  qed
  note m = this [unfolded shm_ids_def, simplified]
  show "d \<in> doors \<Longrightarrow> entrance_start (2 * int d) (2 * int d + 1) w = (Ret (l_req L d, l_resp L d, l_cap L, l_cap_sem L, l_open L), w)"
    by (auto simp: entrance_start_def bnd_def q s m ret_def)
  show "exit_start EXIT_DOOR_REQ_MSG EXIT_DOOR_RESP_MSG w = (Ret (l_exit_req L, l_exit_resp L, l_cap L, l_cap_sem L), w)"
    by (simp add: exit_start_def bnd_def q s m ret_def)
  show "tour_ipcs w = (Ret (l_tour_req L, l_tour_resp L, l_count L, l_count_sem L, l_start_sem L), w)"
    by (simp add: tour_ipcs_def bnd_def q s m ret_def)
  show "timer_start w = (Ret (l_count L, l_count_sem L, l_start_sem L), w)"
    by (simp add: timer_start_def bnd_def q s m ret_def)
qed

lemma visits_from: "(\<And>w. addressed L w \<Longrightarrow> p w = (Ret y, w)) \<Longrightarrow> visits L P pid b (k y) f \<Longrightarrow> visits L P pid b (bnd p k) f"
  unfolding visits_def by (auto simp: bnd_def)

lemma visits_mains:
  "d \<in> doors \<Longrightarrow>
   visits L P pid b (entrance_main [exec, three_chars (2 * int d), three_chars (2 * int d + 1)] u v stks) (\<lambda>_. b)"
  "visits L P pid b (exit_main [exec, three_chars EXIT_DOOR_REQ_MSG, three_chars EXIT_DOOR_RESP_MSG] u v stks) (\<lambda>_. b)"
  "visits L P pid b (timer_main n) (\<lambda>_. b)" "visits L P pid b (admin_main opt turns) (\<lambda>_. b)"
proof -
  show "visits L P pid b (entrance_main [exec, three_chars (2 * int d), three_chars (2 * int d + 1)] u v stks) (\<lambda>_. b)" if "d \<in> doors"
  proof -
    have "door_numbers [exec, three_chars (2 * int d), three_chars (2 * int d + 1)] u v w = (Ret (2 * int d, 2 * int d + 1), w)" for w
      using that by (auto simp: door_numbers_def door_argument ret_def)
    then show ?thesis
      unfolding entrance_main_def using that
      by (intro visits_from [where p = "door_numbers x u v" for x]) (auto intro!: visits_from [OF starts_run(1)] visits_loops)
  qed
  have "door_numbers [exec, three_chars EXIT_DOOR_REQ_MSG, three_chars EXIT_DOOR_RESP_MSG] u v w = (Ret (EXIT_DOOR_REQ_MSG, EXIT_DOOR_RESP_MSG), w)" for w
    by (simp add: door_numbers_def door_argument ret_def)
  then show "visits L P pid b (exit_main [exec, three_chars EXIT_DOOR_REQ_MSG, three_chars EXIT_DOOR_RESP_MSG] u v stks) (\<lambda>_. b)"
    unfolding exit_main_def
    by (intro visits_from [where p = "door_numbers x u v" for x]) (auto intro!: visits_from [OF starts_run(2)] visits_loops)
  show "visits L P pid b (timer_main n) (\<lambda>_. b)"
    unfolding timer_main_def by (rule visits_from [OF starts_run(4)]) (auto intro!: visiting visits_loops)
  have "found (getshm MUSEUM_OPEN_SHM) w = (Ret (l_open L), w)" "shm_map (l_open L) w = (Ret (l_open L), w)" if "addressed L w" for w
    using found_run(3,4) [OF that, of MUSEUM_OPEN_SHM "l_open L"] by (simp_all add: shm_ids_def)
  then show "visits L P pid b (admin_main opt turns) (\<lambda>_. b)"
    unfolding admin_main_def
    by (intro visits_from [where p = "found q" for q] visits_from [where p = "shm_map a" for a]) (auto intro!: visiting visits_admin_menu)
qed

text \<open>A visitor; \<open>others\<close> is what happens while it waits, in which it neither enters nor leaves.\<close>

lemma visits_goes_in:
  assumes "d \<in> doors"
  shows "visits L UNIV pid False (rcv_m (l_resp L d) stk pid) (\<lambda>msg. m_type msg = ACCEPT)"
  unfolding visits_def
proof (intro allI impI)
  fix w V r w' assume a: "addressed L w" "pid \<in> V \<longleftrightarrow> False" "rcv_m (l_resp L d) stk pid w = (r, w')"
  show "\<exists>V'. reach L (w, V) (w', V') \<and> V' - UNIV = V - UNIV \<and> (\<forall>msg. r = Ret msg \<longrightarrow> (pid \<in> V' \<longleftrightarrow> m_type msg = ACCEPT))"
  proof (cases r)
    case (Ret msg)
    with a museum_step.enters [OF assms, of pid V L stk w msg w'] show ?thesis by (auto split: if_splits)
  next
    case Blocked
    with a have "w' = w" by (auto simp: rcv_m_def bnd_def rcvmsg_def syscall_def addressed_def ret_def split: option.splits prod.splits)
    with Blocked show ?thesis by blast
  qed (use a in \<open>auto simp: rcv_m_def bnd_def rcvmsg_def syscall_def ret_def split: option.splits prod.splits if_splits\<close>)
qed

lemma visits_goes_out: "visits L UNIV pid True (person_leaves msg) (\<lambda>_. False)"
  unfolding visits_def
proof (intro allI impI)
  fix w V r w' assume "pid \<in> V \<longleftrightarrow> True" "person_leaves msg w = (r, w')"
  with museum_step.leaves [of pid V msg w r w' L]
  show "\<exists>V'. reach L (w, V) (w', V') \<and> V' - UNIV = V - UNIV \<and> (\<forall>x. r = Ret x \<longrightarrow> (pid \<in> V' \<longleftrightarrow> False))" by blast
qed

lemma visits_asks: "d \<in> doors \<Longrightarrow> visits L P pid b (person_asks (int d) pid) (\<lambda>_. b)"
  by (rule visits_step, erule museum_step.intros, assumption)

text \<open>The queues that the parts of a visitor look up.\<close>

lemma looked_up:
  assumes "addressed L w"
  shows "d \<in> doors \<Longrightarrow> person_asks (int d) pid w = (Ret x, w') \<Longrightarrow> fst x = l_resp L d"
    "person_leaves msg w = (Ret x, w') \<Longrightarrow> fst x = l_exit_resp L"
proof -
  have "\<forall>(k, i)\<in>set (queue_ids L). found (getmsg k) w = (Ret i, w)"
  proof clarify
    fix k i assume i: "(k, i) \<in> set (queue_ids L)"
    then have "0 \<le> k" "k < 128" by (auto simp: queue_ids_def)
    then show "found (getmsg k) w = (Ret i, w)" using found_run(1,5) [OF assms _ _ i] by (simp add: found_def bnd_def ret_def)
  qed
  note q = this [unfolded queue_ids_def, simplified]
  show "d \<in> doors \<Longrightarrow> person_asks (int d) pid w = (Ret x, w') \<Longrightarrow> fst x = l_resp L d"
    by (auto simp: person_asks_def bnd_def q ret_def Let_def split: prod.splits res.splits)
  show "person_leaves msg w = (Ret x, w') \<Longrightarrow> fst x = l_exit_resp L"
    by (auto simp: person_leaves_def bnd_def q ret_def Let_def split: prod.splits res.splits)
qed

lemma visits_person:
  assumes "d \<in> doors" "\<And>b. visits L UNIV pid b others (\<lambda>_. b)"
  shows "visits L UNIV pid False (person others (int d) tour pid) (\<lambda>_. False)"
proof -
  have tour: "visits L UNIV pid b (go_on_tour others pid) (\<lambda>_. b)" for b
    unfolding go_on_tour_def by (rule visits_from [OF starts_run(3)]) (auto intro!: visiting assms(2))
  have after: "visits L UNIV pid False (bnd (rcv_m (fst x) (snd x) pid) (\<lambda>msg. if m_type msg \<noteq> ACCEPT then stop (Exit (-1)) else ret ())) (\<lambda>_. False)"
    if "fst x = l_exit_resp L" for x
    using that by (auto intro!: visiting)
  have leave: "visits L UNIV pid True (bnd (person_leaves msg) (\<lambda>x. thn others
      (bnd (rcv_m (fst x) (snd x) pid) (\<lambda>msg. if m_type msg \<noteq> ACCEPT then stop (Exit (-1)) else ret ())))) (\<lambda>_. False)" for msg
    by (rule visits_bind_value [OF visits_goes_out visits_bind [OF assms(2) after] looked_up(2)])
  have inside: "visits L UNIV pid (m_type msg = ACCEPT) (if m_type msg = ACCEPT then thn (if tour then go_on_tour others pid else ret ())
      (bnd (person_leaves msg) (\<lambda>x. thn others
      (bnd (rcv_m (fst x) (snd x) pid) (\<lambda>msg. if m_type msg \<noteq> ACCEPT then stop (Exit (-1)) else ret ())))) else ret ()) (\<lambda>_. False)" for msg
    by (auto intro!: visits_bind [where f = "\<lambda>_. True", OF _ leave] tour visiting)
  have goes: "visits L UNIV pid False (thn others (bnd (rcv_m (fst x) (snd x) pid) (\<lambda>msg.
      if m_type msg = ACCEPT then thn (if tour then go_on_tour others pid else ret ())
      (bnd (person_leaves msg) (\<lambda>x. thn others
      (bnd (rcv_m (fst x) (snd x) pid) (\<lambda>msg. if m_type msg \<noteq> ACCEPT then stop (Exit (-1)) else ret ())))) else ret ()))) (\<lambda>_. False)" if "fst x = l_resp L d" for x
    unfolding that by (rule visits_bind [OF assms(2)], rule visits_bind [OF visits_goes_in [OF assms(1)] inside])
  have "visits L UNIV pid False (bnd (person_asks (int d) pid) (\<lambda>x. thn others (bnd (rcv_m (fst x) (snd x) pid) (\<lambda>msg.
      if m_type msg = ACCEPT then thn (if tour then go_on_tour others pid else ret ())
      (bnd (person_leaves msg) (\<lambda>x. thn others
      (bnd (rcv_m (fst x) (snd x) pid) (\<lambda>msg. if m_type msg \<noteq> ACCEPT then stop (Exit (-1)) else ret ())))) else ret ())))) (\<lambda>_. False)"
    by (rule visits_bind_value [OF visits_asks [OF assms(1)] goes looked_up(1) [OF _ assms(1)]])
  then show ?thesis unfolding person_def case_prod_unfold .
qed

lemma guide_reaches:
  assumes "addressed L (os m)" "pids_ok m" "guide_main stkss m = (r, m')"
  shows "reach L (os m, V) (os m', V)"
proof -
  have e: "env (os m) = []" using assms(1) by simp
  let ?m = "m\<lparr>procs := \<lparr>p_pid = next_pid m, p_parent = self m, p_status = Runs \<lparr>img_path = ''./timer'', img_args = [''./timer'']\<rparr>\<rparr> # procs m,
    next_pid := next_pid m + 1\<rparr>"
  let ?p = "thn (guide_loop stkss (l_tour_req L) (l_tour_resp L) (l_count L) (l_count_sem L) (l_start_sem L)) (thn (shm_unmap (l_count L)) (ret ()))"
  have "start_timer m = (Ret (next_pid m), ?m)"
    using fork_execl_run [OF e assms(2)] assms(2) by (simp add: start_timer_def bnd_def pids_ok_def ret_def)
  moreover have "guide_start (os m) = (Ret (l_tour_req L, l_tour_resp L, l_count L, l_count_sem L, l_start_sem L), os m)"
    using starts_run(3) [OF assms(1)] by (simp add: guide_start_def)
  ultimately have "guide_main stkss m = on_os ?p ?m"
    unfolding guide_main_def by (auto simp: bnd_def on_os_def ret_def split: prod.split res.split)
  with assms(3) have "?p (os m) = (r, os m')" by (auto simp: on_os_def split: prod.splits)
  moreover have "visits L {} 0 (0 \<in> V) ?p (\<lambda>_. 0 \<in> V)" by (auto intro!: visiting visits_loops)
  ultimately show ?thesis using visitsD [of L "{}" 0 "0 \<in> V" ?p "\<lambda>_. 0 \<in> V" "os m" V] assms(1) by fastforce
qed

lemma museum_started_addressed:
  assumes "museum_absent w"
  shows "addressed (museum_layout w) (museum_started w)"
proof -
  note w = museum_absentD [OF assms]
  have "finds (dirkey w) (queue_ids (museum_layout w)) (queues (museum_started w))"
    using w(2,3) by (simp add: finds_def queue_ids_def museum_started_def museum_layout_def Let_def)
  moreover have "finds (dirkey w) (sem_ids (museum_layout w)) (sems (museum_started w))"
    using w(2,4) by (simp add: finds_def sem_ids_def museum_started_def museum_layout_def Let_def)
  moreover have "finds (dirkey w) (shm_ids (museum_layout w)) (shms (museum_started w))"
    using w(2,5) by (simp add: finds_def shm_ids_def museum_started_def museum_layout_def Let_def)
  ultimately show ?thesis using w(1,2) by (simp add: addressed_def)
qed

text \<open>
  The menu: choices are carried out in order up to the first 3; a turn whose memory may not be written is
  undefined, and with 3 left in \<open>option\<close> by chance the menu is never shown.
\<close>

lemma admin_menu_lucky:
  assumes "addressed L w" "i = 3 \<or> turns = [] \<or> \<not> fst (hd turns)"
  shows "admin_menu turns i (l_open L) w = ((if i = 3 then Ret () else if turns = [] then Blocked else Undef), w)"
  using assms(2) by (cases turns rule: list.exhaust) (auto simp: stop_def ret_def)

section \<open>Properties\<close>

text \<open>
  C26: At any time after \<^verbatim>\<open>main\<close> opened the museum, a door started with the arguments that \<^verbatim>\<open>main\<close> gives it, the
  guide, the timer, the administrator and a visitor make steps of the machine \<open>museum_step\<close> only, for any
  number of turns and wherever they stop; only the visitor enters or leaves.  So the museum is never overfull
  after any of them.
\<close>

theorem museum_processes_refine:
  "museum_absent w0 \<Longrightarrow> reach (museum_layout w0) (museum_started w0, {}) (w, V) \<Longrightarrow> d \<in> doors \<Longrightarrow>
   (\<forall>p\<in>{entrance_main [''./entranceDoor'', three_chars (2 * int d), three_chars (2 * int d + 1)] u v stks,
        exit_main [''./exitDoor'', three_chars EXIT_DOOR_REQ_MSG, three_chars EXIT_DOOR_RESP_MSG] u v stks,
        timer_main n, admin_main opt turns}.
      \<forall>r w'. p w = (r, w') \<longrightarrow> reach (museum_layout w0) (w, V) (w', V))
   \<and> (\<forall>m r m'. os m = w \<longrightarrow> pids_ok m \<longrightarrow> guide_main stkss m = (r, m') \<longrightarrow> reach (museum_layout w0) (w, V) (os m', V))
   \<and> (\<forall>pid others r w'. pid \<notin> V \<longrightarrow> (\<forall>b. visits (museum_layout w0) UNIV pid b others (\<lambda>_. b)) \<longrightarrow>
        person others (int d) tour pid w = (r, w') \<longrightarrow>
        (\<exists>V'. reach (museum_layout w0) (w, V) (w', V') \<and> int (card V') \<le> MUSEUM_CAP))"
proof -
  assume a: "museum_absent w0" "reach (museum_layout w0) (museum_started w0, {}) (w, V)" "d \<in> doors"
  let ?L = "museum_layout w0"
  have w: "addressed ?L w" using addressed_reach [OF a(2)] museum_started_addressed [OF a(1)] by simp
  have same: "reach ?L (w, V) (w', V)" if "\<And>pid b. visits ?L {} pid b p (\<lambda>_. b)" "p w = (r, w')" for p :: "(house, unit) prog" and r w'
    using visitsD [OF that(1) w _ that(2), where V = V and pid = 0] by fastforce
  show ?thesis
  proof (intro conjI ballI allI impI)
    fix p r w' assume "p \<in> {entrance_main [''./entranceDoor'', three_chars (2 * int d), three_chars (2 * int d + 1)] u v stks,
        exit_main [''./exitDoor'', three_chars EXIT_DOOR_REQ_MSG, three_chars EXIT_DOOR_RESP_MSG] u v stks,
        timer_main n, admin_main opt turns}" and r: "p w = (r, w')"
    then have "visits ?L {} pid b p (\<lambda>_. b)" for pid b
      by (elim insertE emptyE; simp only:; intro visits_mains a(3))
    from same [OF this r] show "reach ?L (w, V) (w', V)" .
  next
    fix m r m' assume "os m = w" "pids_ok m" "guide_main stkss m = (r, m')"
    then show "reach ?L (w, V) (os m', V)" using guide_reaches [of ?L m] w by simp
  next
    fix pid others r w' assume p: "pid \<notin> V" "\<forall>b. visits ?L UNIV pid b others (\<lambda>_. b)" "person others (int d) tour pid w = (r, w')"
    from visitsD [OF visits_person [OF a(3) p(2) [rule_format]] w _ p(3)] p(1) obtain V' where "reach ?L (w, V) (w', V')" by blast
    with reach_bound [OF a(1) rtranclp_trans [OF a(2)]] show "\<exists>V'. reach ?L (w, V) (w', V') \<and> int (card V') \<le> MUSEUM_CAP" by blast
  qed
qed

theorem museum_processes_refine_witness:
  "(\<exists>r w'. admin_main 0 [(True, ''2''), (True, ''x''), (True, ''3'')] (museum_started idle_host) = (r, w')
      \<and> reach (museum_layout idle_host) (museum_started idle_host, {}) (w', {}))
   \<and> (\<exists>r w' V'. person (ret ()) (int 1) True 40 (museum_started idle_host) = (r, w')
      \<and> reach (museum_layout idle_host) (museum_started idle_host, {}) (w', V') \<and> int (card V') \<le> MUSEUM_CAP)"
proof -
  have "museum_absent idle_host" by (simp add: museum_absent_def idle_host_def wf_ipc_def wf_base_def)
  note p = museum_processes_refine [OF this rtranclp.rtrancl_refl, of 1 0 0 "[]" 0 0
    "[(True, ''2''), (True, ''x''), (True, ''3'')]" "[]" True]
  have "visits (museum_layout idle_host) UNIV 40 b (ret ()) (\<lambda>_. b)" for b by (rule visits_ret)
  with p show ?thesis by (metis empty_iff insertCI prod.collapse)
qed

end
