(* ===== verification/Debug_Exercise.thy ===== *)
theory Debug_Exercise
  imports Museum_Doors
begin

text \<open>
  The debugging exercise (\<^verbatim>\<open>ejercicioDebug/codigo\<close>), whose programs have planted mistakes: \<^verbatim>\<open>debugueame.c\<close> starts
  one process per letter of a text, \<^verbatim>\<open>even.c\<close> or \<^verbatim>\<open>odd.c\<close>, which are to pass a message around and print the text.
  The wrappers of its \<^verbatim>\<open>include\<close> directory differ from those of \<open>Ipc\<close>: they do not test the key.
\<close>

section \<open>Wrappers\<close>

record mensaje =
  d_mtype :: int
  d_data :: "char list"

text \<open>Standard output is what is written to descriptor 1; shared memory holds an array of \<open>int\<close>.\<close>

type_synonym lab = "(mensaje, int list) world"

definition creasem_d :: "int \<Rightarrow> (lab, int) prog" where
  "creasem_d identif =
     bnd (ftok identif) (\<lambda>clave. bnd syscall (\<lambda>x.
     if x = Fail then ret (-1)
     else (\<lambda>w. case ipc_create 0 clave (sems w) of (i, t) \<Rightarrow> (Ret i, w\<lparr>sems := t\<rparr>))))"

definition getsem_d :: "int \<Rightarrow> (lab, int) prog" where
  "getsem_d identif =
     bnd (ftok identif) (\<lambda>clave. bnd syscall (\<lambda>x. if x = Fail then ret (-1) else gets (\<lambda>w. ipc_get clave (sems w))))"

definition creashm_d :: "int \<Rightarrow> int list \<Rightarrow> (lab, int) prog" where
  "creashm_d i zeros =
     bnd (ftok i) (\<lambda>clave. bnd syscall (\<lambda>x.
     if x = Fail then ret (-1)
     else (\<lambda>w. case ipc_create zeros clave (shms w) of (j, t) \<Rightarrow> (Ret j, w\<lparr>shms := t\<rparr>))))"

definition getshm_d :: "int \<Rightarrow> (lab, int) prog" where
  "getshm_d i =
     bnd (ftok i) (\<lambda>clave. bnd syscall (\<lambda>x. if x = Fail then ret (-1) else gets (\<lambda>w. ipc_get clave (shms w))))"

definition creamsg_d :: "int \<Rightarrow> (lab, int) prog" where
  "creamsg_d i =
     bnd (ftok i) (\<lambda>clave. bnd syscall (\<lambda>x.
     if x = Fail then ret (-1)
     else (\<lambda>w. case ipc_create [] clave (queues w) of (j, t) \<Rightarrow> (Ret j, w\<lparr>queues := t\<rparr>))))"

definition getmsg_d :: "int \<Rightarrow> (lab, int) prog" where
  "getmsg_d i =
     bnd (ftok i) (\<lambda>clave. bnd syscall (\<lambda>x. if x = Fail then ret (-1) else gets (\<lambda>w. ipc_get clave (queues w))))"

definition enviarmsg :: "int \<Rightarrow> mensaje \<Rightarrow> (lab, unit) prog" where
  "enviarmsg i msgp = bnd (sendmsg d_mtype i msgp) (\<lambda>r. if r = -1 then stop (Exit (-1)) else ret ())"

definition recibirmsg :: "int \<Rightarrow> mensaje \<Rightarrow> int \<Rightarrow> (lab, mensaje) prog" where
  "recibirmsg i msgp ty = bnd (rcvmsg d_mtype i msgp ty) (\<lambda>(r, m). if r = -1 then stop (Exit (-1)) else ret m)"

section \<open>The programs of the letters\<close>

text \<open>Reading and writing an entry of the shared array.\<close>

definition mem_get :: "int \<Rightarrow> nat \<Rightarrow> (lab, int) prog" where
  "mem_get a i = bnd (shm_load a) (\<lambda>xs. if i < length xs then ret (xs ! i) else stop Undef)"

definition mem_put :: "int \<Rightarrow> nat \<Rightarrow> int \<Rightarrow> (lab, unit) prog" where
  "mem_put a i x = bnd (shm_load a) (\<lambda>xs. if i < length xs then shm_store a (xs[i := x]) else stop Undef)"

definition print_out :: "string \<Rightarrow> (lab, unit) prog" where
  "print_out s w = (Ret (), w\<lparr>sent := (sent w)(1 := sent w 1 @ s)\<rparr>)"

text \<open>\<^verbatim>\<open>char\<close> is signed.\<close>

definition char_val :: "char \<Rightarrow> int" where
  "char_val c = (if (of_char c :: int) < 128 then of_char c else of_char c - 256)"

text \<open>\<open>u\<close> and \<open>v\<close> are what \<^verbatim>\<open>orden\<close> and \<^verbatim>\<open>n\<close> held, \<open>stk\<close> what a message held before its constructor.\<close>

definition new_mensaje :: "mensaje \<Rightarrow> mensaje" where
  "new_mensaje stk = stk\<lparr>d_data := replicate 100 NUL\<rparr>"

definition arguments :: "string list \<Rightarrow> int \<Rightarrow> int \<Rightarrow> (lab, int \<times> int) prog" where
  "arguments argv u v =
     (if length argv < 3 then stop Undef else ret (sscanf_int (argv ! 1) u, sscanf_int (argv ! 2) v))"

definition read_total :: "int \<Rightarrow> int \<Rightarrow> (lab, int) prog" where
  "read_total sem memoria = thn (sem_p sem) (bnd (mem_get memoria 1) (\<lambda>total. thn (sem_v sem) (ret total)))"

definition even_main :: "string list \<Rightarrow> int \<Rightarrow> int \<Rightarrow> mensaje \<Rightarrow> (lab, int) prog" where
  "even_main argv u v stk =
     bnd (getshm_d 0) (\<lambda>shm.
     bnd (getsem_d 0) (\<lambda>sem.
     bnd (getsem_d 1) (\<lambda>wait_sem.
     bnd (getmsg_d 0) (\<lambda>msg.
     bnd (shm_map shm) (\<lambda>memoria.
     bnd (arguments argv u v) (\<lambda>(orden, n).
     bnd (read_total sem memoria) (\<lambda>total.
     thn (if orden = total div 2 then enviarmsg msg ((new_mensaje stk)\<lparr>d_mtype := total\<rparr>) else ret ()) (
     bnd (recibirmsg msg (new_mensaje stk) (total - orden)) (\<lambda>m.
     thn (if 0 \<le> orden \<and> orden < int (length (d_data m)) then
            bnd (lift_res (add_int n (char_val (d_data m ! nat orden)))) (\<lambda>c. print_out [char_of (nat (c mod 256))])
          else stop Undef) (
     thn (if d_mtype m > 1 then enviarmsg msg (m\<lparr>d_mtype := d_mtype m - 1\<rparr>) else ret ()) (
     thn (sem_p sem) (
     bnd (mem_get memoria 0) (\<lambda>k.
     bnd (lift_res (add_int k 1)) (\<lambda>k.
     thn (mem_put memoria 0 k) (
     thn (if k = total then thn (sem_v wait_sem) (ret ()) else ret ()) (
     thn (sem_v sem) (ret 0)))))))))))))))))"

definition colors :: "string list" where
  "colors = map (\<lambda>s. CHR 0x1B # s) [''[00m'', ''[31m'', ''[32m'', ''[33m'', ''[34m'', ''[35m'', ''[36m'', ''[37m'',
     ''[90m'', ''[91m'', ''[92m'', ''[93m'', ''[94m'', ''[95m'', ''[96m'', ''[97m'']"

text \<open>\<^verbatim>\<open>sprintf(buffer, "%s", s)\<close> into an array of \<open>n\<close> characters.\<close>

definition sprintf_s :: "nat \<Rightarrow> string \<Rightarrow> string res" where
  "sprintf_s n s = (if length s < n then Ret s else Undef)"

text \<open>
  \<open>rand\<close> is what \<^verbatim>\<open>rand()\<close> returns, which is not negative, as the type of a message is not.  \<^verbatim>\<open>execv\<close> goes on with the other program, unless it fails.
\<close>

definition odd_main :: "int \<Rightarrow> string list \<Rightarrow> int \<Rightarrow> int \<Rightarrow> mensaje \<Rightarrow> (lab, int) prog" where
  "odd_main rand argv u v stk =
     bnd (getmsg_d 0) (\<lambda>msg.
     bnd (getshm_d 0) (\<lambda>shm.
     bnd (getsem_d 0) (\<lambda>sem.
     bnd (shm_map shm) (\<lambda>memoria.
     bnd (arguments argv u v) (\<lambda>(orden, n).
     bnd (read_total sem memoria) (\<lambda>total.
     bnd (recibirmsg msg (new_mensaje stk) (total - orden)) (\<lambda>m.
     let k = (d_mtype m + rand) mod 14 + 1 in
     bnd (lift_res (sprintf_s 3 (colors ! nat k))) (\<lambda>buffer.
     thn (print_out buffer) (
     thn (enviarmsg msg m) (
     bnd syscall (\<lambda>x.
     if x \<noteq> Fail then even_main argv u v stk
     else thn (recibirmsg msg m 0) (ret 0))))))))))))"

section \<open>The main program\<close>

definition buffer_d :: "int list" where
  "buffer_d = [66, 105, 101, 110, 118,
     101, 110, 105, 100, 111,
     115, 32, 97, 32, 83, 105,
     115, 116, 101, 109, 97,
     115, 32, 68, 105, 115,
     116, 114, 105, 98, 117,
     105, 100, 111, 115, 32,
     50, 48, 49, 56]"

type_synonym lab_process = "(mensaje, int list, unit) master"

text \<open>\<^verbatim>\<open>snprintf(s, 2, "%d", n)\<close> keeps one character.\<close>

definition one_char :: "int \<Rightarrow> string" where
  "one_char n = take 1 (show_int n)"

definition letter_process :: "int \<Rightarrow> int \<Rightarrow> (lab_process, image) prog" where
  "letter_process i number =
     (let number_str = one_char number; idx_str = one_char i in
      if number mod 2 \<noteq> 0 then execl ''./procesar_2n'' [''./procesar_2n'', idx_str, number_str] (stop (Exit 1))
      else execl ''./procesar_n'' [''./procesar_n'', idx_str, number_str] (stop (Exit 1)))"

definition debugueame_main :: "(lab_process, unit) prog \<Rightarrow> (lab_process, int) prog" where
  "debugueame_main others =
     (let total = int (length buffer_d) in
     bnd (on_os (creashm_d 0 [0, 0])) (\<lambda>shm.
     bnd (on_os (shm_map shm)) (\<lambda>memoria.
     thn (on_os (mem_put memoria 0 0)) (
     thn (on_os (mem_put memoria 1 total)) (
     bnd (on_os (creasem_d 0)) (\<lambda>sem.
     thn (on_os (inisem sem 1)) (
     bnd (on_os (creasem_d 1)) (\<lambda>wait_sem.
     thn (on_os (inisem wait_sem 0)) (
     bnd (on_os (creamsg_d 0)) (\<lambda>cola.
     thn (each (\<lambda>i. thn (fork (letter_process i (buffer_d ! nat i))) (ret ())) [0..total - 1]) (
     thn others (
     thn (on_os (sem_p wait_sem)) (
     thn (on_os (print_out [NL])) (ret 0))))))))))))))"

section \<open>Waiting for a message that nobody sends\<close>

text \<open>
  \<open>set_up w a s ws q k\<close>: the resources of the exercise are found under their numbers, no letter has been
  printed and no message sent.
\<close>

definition set_up :: "lab \<Rightarrow> int \<Rightarrow> int \<Rightarrow> int \<Rightarrow> int \<Rightarrow> bool" where
  "set_up w a s ws q \<longleftrightarrow> env w = [] \<and> s \<noteq> ws
     \<and> ipc_get (ftok_key (dirkey w) 0) (shms w) = a \<and> ipc_objs (shms w) a = Some [0, int (length buffer_d)]
     \<and> ipc_get (ftok_key (dirkey w) 0) (sems w) = s \<and> ipc_objs (sems w) s = Some 1
     \<and> ipc_get (ftok_key (dirkey w) 1) (sems w) = ws \<and> ipc_objs (sems w) ws = Some 0
     \<and> ipc_get (ftok_key (dirkey w) 0) (queues w) = q \<and> ipc_objs (queues w) q = Some []"

lemma get_d_run:
  assumes "env w = []"
  shows "getshm_d i w = (Ret (ipc_get (ftok_key (dirkey w) i) (shms w)), w)"
    "getsem_d i w = (Ret (ipc_get (ftok_key (dirkey w) i) (sems w)), w)"
    "getmsg_d i w = (Ret (ipc_get (ftok_key (dirkey w) i) (queues w)), w)"
  using assms by (simp_all add: getshm_d_def getsem_d_def getmsg_d_def ftok_def bnd_def syscall_def gets_def)

lemma read_total_run: "set_up w a s ws q \<Longrightarrow> read_total s a w = (Ret (int (length buffer_d)), w)"
  by (intro wp_eqI) (simp add: set_up_def read_total_def mem_get_def wp)

lemma recibirmsg_waits: "set_up w a s ws q \<Longrightarrow> 0 < ty \<Longrightarrow> recibirmsg q m ty w = (Blocked, w)"
  by (intro wp_eqI) (simp add: set_up_def recibirmsg_def wp take_msg_def)

lemma shm_map_d_run: "set_up w a s ws q \<Longrightarrow> shm_map a w = (Ret a, w)"
  by (intro wp_eqI) (simp add: set_up_def wp)

text \<open>An index of one digit is never the middle of the text.\<close>

lemma letters_wait:
  assumes "set_up w a s ws q" "0 \<le> sscanf_int i u" "sscanf_int i u < 10"
  shows "even_main [p, i, c] u v stk w = (Blocked, w)" "odd_main r [p, i, c] u v stk w = (Blocked, w)"
proof -
  have h: "env w = []" "ipc_get (ftok_key (dirkey w) 0) (shms w) = a" "ipc_get (ftok_key (dirkey w) 0) (sems w) = s"
    "ipc_get (ftok_key (dirkey w) 0) (queues w) = q"
    using assms(1) by (simp_all add: set_up_def)
  have n: "int (length buffer_d) = 40" by (simp add: buffer_d_def)
  have args: "arguments [p, i, c] u v w = (Ret (sscanf_int i u, sscanf_int c v), w)" by (simp add: arguments_def ret_def)
  note runs = get_d_run [OF h(1)] h(2-4) args read_total_run [OF assms(1), unfolded n] shm_map_d_run [OF assms(1)]
    recibirmsg_waits [OF assms(1)]
  show "even_main [p, i, c] u v stk w = (Blocked, w)" "odd_main r [p, i, c] u v stk w = (Blocked, w)"
    using assms(2,3) by (simp_all add: even_main_def odd_main_def bnd_def runs ret_def)
qed

text \<open>The program of a letter, as \<^verbatim>\<open>main\<close> starts it.\<close>

definition letter_image :: "nat \<Rightarrow> image" where
  "letter_image k =
     (let path = (if buffer_d ! k mod 2 \<noteq> 0 then ''./procesar_2n'' else ''./procesar_n'') in
      \<lparr>img_path = path, img_args = [path, one_char (int k), one_char (buffer_d ! k)]\<rparr>)"

definition run_letter :: "image \<Rightarrow> int \<Rightarrow> int \<Rightarrow> int \<Rightarrow> mensaje \<Rightarrow> (lab, int) prog" where
  "run_letter img rand u v stk =
     (if img_path img = ''./procesar_2n'' then even_main (img_args img) u v stk else odd_main rand (img_args img) u v stk)"

lemma one_char_digit: "0 \<le> n \<Longrightarrow> 0 \<le> sscanf_int (one_char n) u \<and> sscanf_int (one_char n) u < 10"
proof -
  assume n: "0 \<le> n"
  obtain c cs where c: "show_nat (nat n) = c # cs" "is_digit c" by (rule show_nat_Cons)
  then have s: "one_char n = [c]" using n by (simp add: one_char_def show_int_def)
  have v: "0 \<le> (of_char c - 48 :: int)" "(of_char c - 48 :: int) < 10" using c(2) by (auto simp: is_digit_def)
  have "strtol10 [c] = of_char c - 48" "has_number [c]"
    using c(2) v digit_not_space [OF c(2)] by (simp_all add: strtol10_def has_number_def)
  then show ?thesis using v by (simp add: s sscanf_int_def is_int32_def)
qed

lemma letter_waits: "set_up w a s ws q \<Longrightarrow> run_letter (letter_image k) r u v stk w = (Blocked, w)"
  using letters_wait [of w a s ws q "one_char (int k)" u] one_char_digit [of "int k" u]
  by (simp add: run_letter_def letter_image_def Let_def)

lemma letter_forks:
  "env (os m) = [] \<Longrightarrow> pids_ok m \<Longrightarrow> each (\<lambda>i. thn (fork (letter_process i (buffer_d ! nat i))) (ret ())) (map int ks) m = (Ret (), m\<lparr>
     procs := rev (map (\<lambda>(j, k). \<lparr>p_pid = next_pid m + int j, p_parent = self m, p_status = Runs (letter_image k)\<rparr>) (zip [0..<length ks] ks)) @ procs m,
     next_pid := next_pid m + int (length ks)\<rparr>)"
proof (induction ks arbitrary: m)
  case (Cons k ks)
  let ?m = "m\<lparr>procs := \<lparr>p_pid = next_pid m, p_parent = self m, p_status = Runs (letter_image k)\<rparr> # procs m, next_pid := next_pid m + 1\<rparr>"
  have "fork (letter_process (int k) (buffer_d ! k)) m = (Ret (next_pid m), ?m)"
    using Cons.prems by (simp add: letter_process_def letter_image_def Let_def fork_execl_run)
  moreover have "env (os ?m) = []" "pids_ok ?m" using Cons.prems by simp_all
  moreover have "zip [0..<length (k # ks)] (k # ks) = (0, k) # map (\<lambda>(j, k). (Suc j, k)) (zip [0..<length ks] ks)"
    by (simp add: upt_conv_Cons map_Suc_upt [symmetric] zip_map1 del: upt_Suc)
  ultimately show ?case
    using Cons.IH [of ?m] by (simp add: bnd_def ret_def comp_def case_prod_unfold ac_simps del: upt_Suc)
qed (simp add: ret_def)

definition lab_absent :: "lab \<Rightarrow> bool" where
  "lab_absent w \<longleftrightarrow> env w = [] \<and> wf_base (dirkey w) \<and> ipc_keys (shms w) (ftok_key (dirkey w) 0) = None
     \<and> ipc_keys (sems w) (ftok_key (dirkey w) 0) = None \<and> ipc_keys (sems w) (ftok_key (dirkey w) 1) = None
     \<and> ipc_keys (queues w) (ftok_key (dirkey w) 0) = None"

lemma on_os_bnd: "on_os (bnd p f) = bnd (on_os p) (\<lambda>x. on_os (f x))" "on_os (ret x) = ret x"
  by (auto simp: fun_eq_iff on_os_def bnd_def ret_def split: prod.split res.split)

definition lab_start :: "(lab, int) prog" where
  "lab_start =
     bnd (creashm_d 0 [0, 0]) (\<lambda>shm.
     bnd (shm_map shm) (\<lambda>memoria.
     thn (mem_put memoria 0 0) (
     thn (mem_put memoria 1 (int (length buffer_d))) (
     bnd (creasem_d 0) (\<lambda>sem.
     thn (inisem sem 1) (
     bnd (creasem_d 1) (\<lambda>wait_sem.
     thn (inisem wait_sem 0) (
     thn (creamsg_d 0) (ret wait_sem)))))))))"

lemma bnd_ret: "bnd (ret x) f = f x"
  by (simp add: fun_eq_iff bnd_def ret_def)

lemma debugueame_main_split:
  "debugueame_main others = bnd (on_os lab_start) (\<lambda>wait_sem.
     thn (each (\<lambda>i. thn (fork (letter_process i (buffer_d ! nat i))) (ret ())) [0..int (length buffer_d) - 1]) (
     thn others (
     thn (on_os (sem_p wait_sem)) (
     thn (on_os (print_out [NL])) (ret 0)))))"
  by (simp add: debugueame_main_def lab_start_def Let_def on_os_bnd bnd_assoc bnd_ret)

lemma create_d_run:
  assumes "env w = []"
  shows "ipc_keys (shms w) (ftok_key (dirkey w) i) = None \<Longrightarrow>
      creashm_d i z w = (Ret (ipc_next (shms w)), w\<lparr>shms := ipc_add (ftok_key (dirkey w) i) z (shms w)\<rparr>)"
    "ipc_keys (sems w) (ftok_key (dirkey w) i) = None \<Longrightarrow>
      creasem_d i w = (Ret (ipc_next (sems w)), w\<lparr>sems := ipc_add (ftok_key (dirkey w) i) 0 (sems w)\<rparr>)"
    "ipc_keys (queues w) (ftok_key (dirkey w) i) = None \<Longrightarrow>
      creamsg_d i w = (Ret (ipc_next (queues w)), w\<lparr>queues := ipc_add (ftok_key (dirkey w) i) [] (queues w)\<rparr>)"
    "ipc_objs (shms w) a \<noteq> None \<Longrightarrow> shm_map a w = (Ret a, w)"
    "ipc_objs (shms w) a = Some xs \<Longrightarrow> j < length xs \<Longrightarrow> mem_put a j x w = (Ret (), w\<lparr>shms := ipc_put a (xs[j := x]) (shms w)\<rparr>)"
    "ipc_objs (sems w) c \<noteq> None \<Longrightarrow> inisem c n w = (Ret 0, w\<lparr>sems := ipc_put c n (sems w)\<rparr>)"
  using assms by (simp_all add: creashm_d_def creasem_d_def creamsg_d_def ftok_def bnd_def syscall_def gets_def ipc_create_add
      shm_map_def mem_put_def shm_load_def shm_store_def inisem_def)

lemma lab_start_run:
  assumes "lab_absent w"
  shows "\<exists>w' a s ws q. lab_start w = (Ret ws, w') \<and> set_up w' a s ws q \<and> sent w' = sent w"
proof -
  have k: "ftok_key (dirkey w) 0 \<noteq> ftok_key (dirkey w) 1" using assms ftok_key_eq_iff [of "dirkey w" 0 1] by (simp add: lab_absent_def)
  let ?k = "ftok_key (dirkey w)" and ?a = "ipc_next (shms w)" and ?s = "ipc_next (sems w)" and ?q = "ipc_next (queues w)"
  let ?w = "w\<lparr>shms := ipc_put ?a [0, int (length buffer_d)] (ipc_add (?k 0) [0, 0] (shms w)),
    sems := ipc_put (?s + 1) 0 (ipc_add (?k 1) 0 (ipc_put ?s 1 (ipc_add (?k 0) 0 (sems w)))), queues := ipc_add (?k 0) [] (queues w)\<rparr>"
  have "lab_start w = (Ret (?s + 1), ?w)"
    using assms k by (simp add: lab_start_def lab_absent_def bnd_def create_d_run ret_def)
  moreover have "set_up ?w ?a ?s (?s + 1) ?q"
    using assms k by (simp add: set_up_def lab_absent_def ipc_get_def)
  ultimately show ?thesis by (intro exI) auto
qed

section \<open>Properties\<close>

text \<open>
  C40: The exercise never prints: \<^verbatim>\<open>snprintf\<close> keeps one digit of each index, so no letter finds itself in the middle
  of the text and nobody sends the first message.  Every letter waits for it, \<^verbatim>\<open>main\<close> waits for the letters.
\<close>

theorem exercise_never_prints:
  "lab_absent (os m) \<Longrightarrow> pids_ok m \<Longrightarrow> \<forall>t\<in>set turns. \<exists>k<40. \<exists>r u v stk. t = on_os (run_letter (letter_image k) r u v stk) \<Longrightarrow>
   \<exists>m1 m'. debugueame_main (\<lambda>m. (Ret (), m)) m = (Blocked, m1)
     \<and> procs m1 = rev (map (\<lambda>k. \<lparr>p_pid = next_pid m + int k, p_parent = self m, p_status = Runs (letter_image k)\<rparr>) [0..<40]) @ procs m
     \<and> debugueame_main (each (beside pid ()) turns) m = (Blocked, m')
     \<and> sent (os m') = sent (os m)"
proof -
  assume a: "lab_absent (os m)" "pids_ok m" and t: "\<forall>t\<in>set turns. \<exists>k<40. \<exists>r u v stk. t = on_os (run_letter (letter_image k) r u v stk)"
  from lab_start_run [OF a(1)] obtain w a s ws q where
    w: "lab_start (os m) = (Ret ws, w)" "set_up w a s ws q" "sent w = sent (os m)" by blast
  let ?m1 = "m\<lparr>os := w,
     procs := rev (map (\<lambda>k. \<lparr>p_pid = next_pid m + int k, p_parent = self m, p_status = Runs (letter_image k)\<rparr>) [0..<40]) @ procs m,
     next_pid := next_pid m + 40\<rparr>"
  have n: "[0..int (length buffer_d) - 1] = map int [0..<40]"
    by code_simp
  have "env w = []" using w(2) by (simp add: set_up_def)
  then have f: "each (\<lambda>i. thn (fork (letter_process i (buffer_d ! nat i))) (ret ())) (map int [0..<40]) (m\<lparr>os := w\<rparr>) = (Ret (), ?m1)"
    using letter_forks [of "m\<lparr>os := w\<rparr>" "[0..<40]"] a(2) by (simp add: zip_same_conv_map comp_def del: upt_rec_numeral)
  have still: "beside pid () t ?m1 = (Ret (), ?m1)" if "t \<in> set turns" for t
  proof -
    from t that obtain k r u v stk where "t = on_os (run_letter (letter_image k) r u v stk)" by blast
    then show ?thesis using letter_waits [OF w(2), of k r u v stk] by (simp add: beside_def on_os_def)
  qed
  then have turns: "each (beside pid ()) turns ?m1 = (Ret (), ?m1)"
    by (induction turns) (simp_all add: bnd_def ret_def)
  have p: "on_os (sem_p ws) ?m1 = (Blocked, ?m1)"
    using w(2) by (simp add: on_os_def sem_p_def bnd_def syscall_def set_up_def)
  have "debugueame_main others m = (Blocked, ?m1)" if "others ?m1 = (Ret (), ?m1)" for others
    unfolding debugueame_main_split n using w(1) f that p by (simp add: bnd_def on_os_def)
  then show ?thesis using turns w(3) by (intro exI [of _ ?m1]) simp
qed

theorem exercise_never_prints_witness:
  "\<exists>m'. debugueame_main (each (beside 60 ()) [on_os (run_letter (letter_image 20) 0 0 0 \<lparr>d_mtype = 0, d_data = []\<rparr>)])
     \<lparr>os = idle_host, self = 7, fds = [], procs = [], next_pid = 20, heeds = (\<lambda>_. True), mem = ()\<rparr> = (Blocked, m') \<and> sent (os m') 1 = []"
proof -
  let ?ts = "[on_os (run_letter (letter_image 20) 0 0 0 \<lparr>d_mtype = 0, d_data = []\<rparr>)]"
    and ?m = "\<lparr>os = idle_host, self = 7, fds = [], procs = [], next_pid = 20, heeds = (\<lambda>_. True), mem = ()\<rparr> :: lab_process"
  have "lab_absent (os ?m)" by (simp add: lab_absent_def idle_host_def wf_base_def)
  moreover have "pids_ok ?m" by (simp add: pids_ok_def)
  moreover have "\<forall>t\<in>set ?ts. \<exists>k<40. \<exists>r u v stk. t = on_os (run_letter (letter_image k) r u v stk)"
    by (simp, rule exI [of _ 20], simp) blast
  ultimately obtain m' where "debugueame_main (each (beside 60 ()) ?ts) ?m = (Blocked, m')" "sent (os m') = sent (os ?m)"
    using exercise_never_prints [of ?m ?ts 60] by blast
  then show ?thesis by (intro exI [of _ m']) (simp add: idle_host_def)
qed

end
