(* ===== verification/Vowels.thy ===== *)
theory Vowels
  imports Processes
begin

text \<open>
  The socket exercise (\<^verbatim>\<open>sockets/server.c\<close>, \<^verbatim>\<open>sockets/client.c\<close>): a server that answers a text with its
  vowels removed, one child per connection, and a client that sends its argument and prints the answer.
  The buffer of the server is a local array of 100 characters; \<open>stk\<close> is what the stack holds there.
\<close>

section \<open>server.c\<close>

abbreviation BUFFER :: nat where "BUFFER \<equiv> 100"

text \<open>The loop of \<^verbatim>\<open>remove_vowels\<close>; the result is \<^verbatim>\<open>j\<close> and the array.\<close>

function vowels_from :: "char list \<Rightarrow> nat \<Rightarrow> nat \<Rightarrow> (nat \<times> char list) res" where
  "vowels_from str i j =
     (if i < BUFFER then
        if i < length str \<and> j < length str then
          let c = str ! i in
          if c \<noteq> CHR ''a'' \<and> c \<noteq> CHR ''A'' \<and> c \<noteq> CHR ''e'' \<and> c \<noteq> CHR ''E'' \<and> c \<noteq> CHR ''i'' \<and> c \<noteq> CHR ''I''
             \<and> c \<noteq> CHR ''o'' \<and> c \<noteq> CHR ''O'' \<and> c \<noteq> CHR ''u'' \<and> c \<noteq> CHR ''U''
          then vowels_from (str[j := c]) (Suc i) (Suc j)
          else vowels_from str (Suc i) j
        else Undef
      else Ret (j, str))"
  by pat_completeness auto
termination
  by (relation "measure (\<lambda>(str, i, j). BUFFER - i)") (auto simp: Let_def)

declare vowels_from.simps [simp del]

definition remove_vowels :: "char list \<Rightarrow> char list res" where
  "remove_vowels str =
     rbind (vowels_from str 0 0) (\<lambda>(j, str).
     if j < BUFFER then (if j < length str then Ret (str[j := NUL]) else Undef) else Ret str)"

text \<open>
  The child of a connection: \<^verbatim>\<open>printf("%s")\<close> reads the buffer up to a terminator.
\<close>

definition vowel_session :: "char list \<Rightarrow> int \<Rightarrow> (('m, 's, 'c) master, image) prog" where
  "vowel_session stk client_fd =
     bnd (on_os (sock_read client_fd BUFFER)) (\<lambda>(n, bs).
     if n < 0 then stop (Exit (-1))
     else let buffer = bs @ drop (length bs) stk in
       bnd (lift_res (field_str buffer)) (\<lambda>_.
       bnd (lift_res (remove_vowels buffer)) (\<lambda>buffer.
       bnd (lift_res (field_str buffer)) (\<lambda>_.
       bnd (on_os (sock_write client_fd buffer)) (\<lambda>n.
       if n < 0 then stop (Exit (-1)) else stop (Exit 0))))))"

text \<open>The loop until a signal; each turn has its own stack.\<close>

primrec vowel_loop :: "char list list \<Rightarrow> int \<Rightarrow> (('m, 's, 'c) master, unit) prog" where
  "vowel_loop [] socket_fd = ret ()"
| "vowel_loop (stk # stks) socket_fd =
     bnd (sys_accept socket_fd) (\<lambda>client_fd.
     if client_fd < 0 then stop (Exit (-1))
     else bnd (fork (vowel_session stk client_fd)) (\<lambda>req_proc.
     if req_proc < 0 then stop (Exit (-1)) else vowel_loop stks socket_fd))"

definition vowel_server :: "char list list \<Rightarrow> (('m, 's, 'c) master, unit) prog" where
  "vowel_server stks =
     bnd sys_socket (\<lambda>socket_fd.
     bnd (sys_bind socket_fd 8080) (\<lambda>r.
     if r < 0 then stop (Exit (-1))
     else bnd (sys_listen socket_fd) (\<lambda>r.
     if r < 0 then stop (Exit (-1))
     else thn (vowel_loop stks socket_fd) (thn (sys_close socket_fd) (ret ())))))"

section \<open>client.c\<close>

text \<open>
  The result is the text that is printed as the answer, if any.  \<^verbatim>\<open>msg\<close> points to the argument, which is
  overwritten by the answer and keeps its terminator.
\<close>

definition vowel_client :: "string list \<Rightarrow> (('m, 's, 'c) master, string option) prog" where
  "vowel_client argv =
     (if length argv < 2 then stop (Exit (-1))
      else
        bnd sys_socket (\<lambda>socket_fd.
        if socket_fd < 0 then stop (Exit (-1))
        else bnd (sys_gethostbyname ''127.0.0.1'') (\<lambda>server.
        if \<not> server then stop (Exit (-1))
        else bnd (sys_connect socket_fd 8080) (\<lambda>r.
        if r \<noteq> 0 then stop (Exit (-1))
        else let msg = argv ! 1; n = length msg in
          bnd (on_os (sock_write socket_fd msg)) (\<lambda>r.
          bnd (if r < 0 then ret None
               else bnd (on_os (sock_read socket_fd n)) (\<lambda>(r, bs).
                 if r < 0 then ret None
                 else bnd (lift_res (field_str (bs @ drop (length bs) msg @ [NUL]))) (\<lambda>s. ret (Some s)))) (\<lambda>printed.
          thn (sys_close socket_fd) (ret printed)))))))"

section \<open>The loop removes the vowels\<close>

definition vowel :: "char \<Rightarrow> bool" where
  "vowel c \<longleftrightarrow> c \<in> set ''aeiouAEIOU''"

abbreviation novowels :: "char list \<Rightarrow> char list" where
  "novowels \<equiv> filter (\<lambda>c. \<not> vowel c)"

lemma vowels_from_step:
  "i < BUFFER \<Longrightarrow> i < length str \<Longrightarrow> j < length str \<Longrightarrow> vowels_from str i j =
     (if vowel (str ! i) then vowels_from str (Suc i) j else vowels_from (str[j := str ! i]) (Suc i) (Suc j))"
  by (subst vowels_from.simps) (auto simp: vowel_def Let_def)

text \<open>What has been read so far has been filtered to the front; the rest is untouched.\<close>

lemma vowels_from_run:
  assumes "length orig = BUFFER" "i \<le> BUFFER" "j = length (novowels (take i orig))" "str = novowels (take i orig) @ drop j orig"
  shows "vowels_from str i j = Ret (length (novowels orig), novowels orig @ drop (length (novowels orig)) orig)"
  using assms
proof (induction "BUFFER - i" arbitrary: i j str)
  case 0
  then show ?case by (subst vowels_from.simps) simp
next
  case (Suc n)
  have i: "i < BUFFER" "i < length orig" using Suc.hyps(2) Suc.prems(1) by simp_all
  have j: "j \<le> i" using Suc.prems(3) length_filter_le [of "\<lambda>c. \<not> vowel c" "take i orig"] i by simp
  have len: "length str = BUFFER" using Suc.prems j i by simp
  have c: "str ! i = orig ! i" using Suc.prems(3,4) j i by (simp add: nth_append)
  have t: "take (Suc i) orig = take i orig @ [orig ! i]" using i(2) by (rule take_Suc_conv_app_nth)
  have n: "n = BUFFER - Suc i" using Suc.hyps(2) by simp
  show ?case
  proof (cases "vowel (orig ! i)")
    case True
    with Suc.hyps(1) [OF n Suc.prems(1), of j str] Suc.prems(3,4) t i c len j show ?thesis
      by (simp add: vowels_from_step)
  next
    case False
    have "drop j orig = orig ! j # drop (Suc j) orig" using i j by (simp add: Cons_nth_drop_Suc)
    then have "str[j := orig ! i] = novowels (take (Suc i) orig) @ drop (Suc j) orig"
      using Suc.prems(3,4) t False by (simp add: list_update_append)
    with Suc.hyps(1) [OF n Suc.prems(1), of "Suc j" "str[j := orig ! i]"] Suc.prems(3) t False i c len j show ?thesis
      by (simp add: vowels_from_step)
  qed
qed

lemma novowels_fit: "length (novowels str) = length str \<Longrightarrow> novowels str = str"
  by (metis filter_id_conv length_filter_less less_irrefl)

lemma NUL_no_vowel [simp]: "\<not> vowel NUL"
  by code_simp

lemma cstr_novowels: "NUL \<in> set str \<Longrightarrow> cstr (novowels str @ xs) = novowels (cstr str)"
  unfolding cstr_def by (induction str) auto

text \<open>The array after the call: the filtered text, a terminator if a vowel was dropped, and what was there.\<close>

definition devowelled :: "char list \<Rightarrow> char list" where
  "devowelled str =
     (let kept = novowels str in if length kept < length str then kept @ NUL # drop (Suc (length kept)) str else str)"

lemma remove_vowels_run:
  assumes "length str = BUFFER"
  shows "remove_vowels str = Ret (devowelled str)"
proof -
  let ?k = "length (novowels str)"
  have r: "vowels_from str 0 0 = Ret (?k, novowels str @ drop ?k str)" using vowels_from_run [OF assms, of 0 0 str] by simp
  show ?thesis
  proof (cases "?k < BUFFER")
    case True
    then have "drop ?k str = str ! ?k # drop (Suc ?k) str" using assms by (simp add: Cons_nth_drop_Suc)
    with r True assms show ?thesis by (simp add: remove_vowels_def devowelled_def Let_def list_update_append)
  next
    case False
    then have "?k = length str" using assms length_filter_le [of "\<lambda>c. \<not> vowel c" str] by linarith
    with r False assms novowels_fit [of str] show ?thesis by (simp add: remove_vowels_def devowelled_def Let_def)
  qed
qed

lemma devowelled_text: "NUL \<in> set str \<Longrightarrow> cstr (devowelled str) = novowels (cstr str) \<and> NUL \<in> set (devowelled str)"
proof -
  assume n: "NUL \<in> set str"
  show ?thesis
  proof (cases "length (novowels str) < length str")
    case True
    with n show ?thesis by (simp add: devowelled_def Let_def cstr_novowels)
  next
    case False
    then have "novowels str = str" using novowels_fit [of str] length_filter_le [of "\<lambda>c. \<not> vowel c" str] by linarith
    with n cstr_novowels [OF n, of "[]"] show ?thesis by (simp add: devowelled_def Let_def)
  qed
qed

lemma length_devowelled [simp]: "length (devowelled str) = length str"
  by (auto simp: devowelled_def Let_def)

section \<open>Both ends\<close>

lemma vowel_session_run:
  assumes "env (os m) = []" "available (os m) fd = t" "t \<noteq> []" "length t \<le> BUFFER" "length stk = BUFFER"
    "NUL \<in> set (t @ drop (length t) stk)"
  shows "\<exists>m'. vowel_session stk fd m = (Exit 0, m')
    \<and> sent (os m') = (sent (os m))(fd := sent (os m) fd @ devowelled (t @ drop (length t) stk))"
proof -
  let ?b = "t @ drop (length t) stk"
  have "remove_vowels ?b = Ret (devowelled ?b)" using assms by (intro remove_vowels_run) simp
  moreover have "NUL \<in> set (devowelled ?b)" using devowelled_text assms(6) by blast
  ultimately have "wp (vowel_session stk fd) (\<lambda>r m'. r = Exit 0
      \<and> sent (os m') = (sent (os m))(fd := sent (os m) fd @ devowelled ?b)) m"
    using assms unfolding vowel_session_def by (simp add: wp field_str_def Let_def)
  then show ?thesis by (cases "vowel_session stk fd m") (auto simp: wp_run)
qed

text \<open>What a server whose stack holds \<open>stk\<close> answers when it receives \<open>bs\<close>.\<close>

definition vowel_child :: "char list \<Rightarrow> (unit, unit, unit) master" where
  "vowel_child bs = \<lparr>os = idle_host\<lparr>peer := (\<lambda>_ _. bs)\<rparr>, self = 9, fds = [(3, Listening 8080), (4, Connected)],
     procs = [], next_pid = 10, heeds = (\<lambda>_. True), mem = ()\<rparr>"

definition answer_to :: "char list \<Rightarrow> char list \<Rightarrow> char list" where
  "answer_to stk bs = sent (os (snd (vowel_session stk 4 (vowel_child bs)))) 4"

lemma answer_to_text:
  assumes "t \<noteq> []" "length t \<le> BUFFER" "length stk = BUFFER" "NUL \<in> set (t @ drop (length t) stk)"
  shows "answer_to stk t = devowelled (t @ drop (length t) stk)"
proof -
  have c: "env (os (vowel_child t)) = []" "available (os (vowel_child t)) 4 = t" "sent (os (vowel_child t)) = (\<lambda>_. [])"
    by (simp_all add: vowel_child_def idle_host_def available_def)
  from vowel_session_run [OF c(1,2) assms] c(3) show ?thesis by (auto simp: answer_to_def)
qed

lemma takeWhile_take: "takeWhile P (take n xs) = take n (takeWhile P xs)"
  by (induction xs arbitrary: n) (auto simp: take_Cons split: nat.split)

lemma cstr_take: "cstr (take n buf @ [NUL]) = take n (cstr buf)"
  by (simp add: cstr_def takeWhile_tail takeWhile_take)

section \<open>Properties\<close>

text \<open>
  C37: On its array of 100 characters the loop of \<^verbatim>\<open>remove_vowels\<close> computes the reference definition: the
  characters that are not vowels, in order, at the front, a terminator after them if one was dropped, and
  the text in the array is the filter of the text that was there.
\<close>

theorem remove_vowels_filters:
  "length str = BUFFER \<Longrightarrow>
   \<exists>buf. remove_vowels str = Ret buf \<and> length buf = BUFFER \<and> take (length (novowels str)) buf = novowels str
     \<and> (length (novowels str) < BUFFER \<longrightarrow> buf ! length (novowels str) = NUL)
     \<and> (NUL \<in> set str \<longrightarrow> cstr buf = filter (\<lambda>c. c \<notin> set ''aeiouAEIOU'') (cstr str))"
  using remove_vowels_run [of str] devowelled_text [of str] novowels_fit [of str] length_filter_le [of "\<lambda>c. \<not> vowel c" str]
  by (auto simp: devowelled_def Let_def nth_append vowel_def [abs_def])

theorem remove_vowels_filters_witness:
  "\<exists>buf. remove_vowels (''museum'' @ replicate 94 NUL) = Ret buf \<and> cstr buf = ''msm''"
proof -
  have n: "replicate 94 NUL = NUL # replicate 93 NUL" by (simp add: numeral_eq_Suc)
  have m: "NUL \<notin> set ''museum''" "filter (\<lambda>c. c \<notin> set ''aeiouAEIOU'') ''museum'' = ''msm''" by code_simp+
  have "cstr (''museum'' @ replicate 94 NUL) = ''museum''" unfolding n using m(1) by (rule cstr_append_NUL)
  then show ?thesis using remove_vowels_filters [of "''museum'' @ replicate 94 NUL"] m(2) by auto
qed

text \<open>
  A client that sends a text of less than 100 characters prints its text without the vowels, followed
  by as many characters as there were vowels of what the stack of the server holds behind the text: the
  server does not terminate what it has read.
\<close>

theorem client_prints_leftovers:
  "env (os m) = [] \<Longrightarrow> t \<noteq> [] \<Longrightarrow> NUL \<notin> set t \<Longrightarrow> length t < BUFFER \<Longrightarrow> length stk = BUFFER \<Longrightarrow>
   NUL \<in> set (drop (length t) stk) \<Longrightarrow> peer (os m) (free_fd (fds m)) = answer_to stk \<Longrightarrow>
   sent (os m) (free_fd (fds m)) = [] \<Longrightarrow> got (os m) (free_fd (fds m)) = 0 \<Longrightarrow>
   \<exists>m'. vowel_client [path, t] m = (Ret (Some (take (length t) (novowels (t @ cstr (drop (length t) stk))))), m') \<and> fds m' = fds m"
proof -
  assume a: "env (os m) = []" "t \<noteq> []" "NUL \<notin> set t" "length t < BUFFER" "length stk = BUFFER" "NUL \<in> set (drop (length t) stk)"
    "peer (os m) (free_fd (fds m)) = answer_to stk" "sent (os m) (free_fd (fds m)) = []" "got (os m) (free_fd (fds m)) = 0"
  let ?b = "t @ drop (length t) stk"
  have ans: "answer_to stk t = devowelled ?b" using a by (intro answer_to_text) auto
  have "cstr ?b = t @ cstr (drop (length t) stk)" using a(3) by (simp add: cstr_def takeWhile_append)
  then have cs: "cstr (devowelled ?b) = novowels (t @ cstr (drop (length t) stk))" using devowelled_text [of ?b] a(6) by simp
  have len: "length (devowelled ?b) = BUFFER" using a(4,5) by simp
  have "devowelled ?b \<noteq> []"
  proof
    assume "devowelled ?b = []"
    with len show False by (simp del: length_devowelled)
  qed
  then have "wp (vowel_client [path, t]) (\<lambda>r m'. r = Ret (Some (cstr (take (length t) (devowelled ?b) @ [NUL]))) \<and> fds m' = fds m) m"
    using a(1,2,4,7-9) ans len unfolding vowel_client_def
    by (simp add: wp update_conv Let_def available_def field_str_def)
  then have "wp (vowel_client [path, t]) (\<lambda>r m'. r = Ret (Some (take (length t) (cstr (devowelled ?b)))) \<and> fds m' = fds m) m"
    by (simp only: cstr_take)
  then show ?thesis unfolding cs by (cases "vowel_client [path, t] m") (auto simp: wp_run)
qed

theorem client_prints_leftovers_witness:
  "\<exists>m'. vowel_client [''./client'', ''museum''] \<lparr>os = (idle_host :: (unit, unit) world)\<lparr>peer := (\<lambda>_. answer_to (''previous text'' @ replicate 87 NUL))\<rparr>,
      self = 9, fds = [], procs = [], next_pid = 10, heeds = (\<lambda>_. True), mem = ()\<rparr> = (Ret (Some ''msms t''), m')"
proof -
  let ?stk = "''previous text'' @ replicate 87 NUL"
  let ?m = "\<lparr>os = (idle_host :: (unit, unit) world)\<lparr>peer := (\<lambda>_. answer_to ?stk)\<rparr>, self = 9, fds = [], procs = [], next_pid = 10, heeds = (\<lambda>_. True), mem = ()\<rparr>"
  have n: "replicate 87 NUL = NUL # replicate 86 NUL" by (simp add: numeral_eq_Suc)
  have m: "NUL \<notin> set ''museum''" "NUL \<notin> set ''us text''" "take (length ''museum'') (novowels (''museum'' @ ''us text'')) = ''msms t''" by code_simp+
  have d: "drop (length ''museum'') ?stk = ''us text'' @ replicate 87 NUL" by simp
  have c: "cstr (drop (length ''museum'') ?stk) = ''us text''" unfolding d unfolding n using m(2) by (rule cstr_append_NUL)
  have "NUL \<in> set (drop (length ''museum'') ?stk)" unfolding d by simp
  moreover have "env (os ?m) = []" "peer (os ?m) (free_fd (fds ?m)) = answer_to ?stk" "sent (os ?m) (free_fd (fds ?m)) = []"
    "got (os ?m) (free_fd (fds ?m)) = 0" by (simp_all add: idle_host_def)
  ultimately obtain m' where "vowel_client [''./client'', ''museum''] ?m
      = (Ret (Some (take (length ''museum'') (novowels (''museum'' @ cstr (drop (length ''museum'') ?stk))))), m')"
    using client_prints_leftovers [of ?m "''museum''" ?stk "''./client''"] m(1) by auto
  then show ?thesis unfolding c m(3) by (rule exI)
qed

text \<open>
  The server never closes the connections that it accepts: each turn of its loop that returns leaves one
  more descriptor open, whatever calls fail.
\<close>

lemma length_update_fresh: "k \<notin> fst ` set t \<Longrightarrow> length (AList.update k v t) = Suc (length t)"
  by (induction t) auto

lemma sys_accept_opens:
  "sys_accept s m = (Ret c, m') \<Longrightarrow> 0 \<le> c \<Longrightarrow> length (fds m') = Suc (length (fds m))"
  by (auto simp: sys_accept_def bnd_def on_os_def syscall_def Let_def length_update_fresh free_fd_range split: outcome.splits option.splits fd_state.splits)

lemma fork_keeps_fds: "fork child m = (r, m') \<Longrightarrow> fds m' = fds m"
  by (auto simp: fork_def bnd_def on_os_def syscall_def Let_def split: prod.splits if_splits)

lemma vowel_loop_keeps_connections:
  "vowel_loop stks s m = (Ret (), m') \<Longrightarrow> length (fds m') = length (fds m) + length stks"
proof (induction stks arbitrary: m)
  case (Cons stk stks)
  obtain r m1 where a: "sys_accept s m = (r, m1)" by fastforce
  with Cons.prems obtain c where c: "r = Ret c" "0 \<le> c" by (cases r) (auto simp: bnd_def stop_def split: if_splits)
  obtain q m2 where f: "fork (vowel_session stk c) m1 = (q, m2)" by fastforce
  with Cons.prems a c have "vowel_loop stks s m2 = (Ret (), m')"
    by (cases q) (auto simp: bnd_def stop_def split: if_splits)
  with Cons.IH fork_keeps_fds [OF f] sys_accept_opens [OF a [unfolded c(1)] c(2)] show ?case by simp
qed (simp add: ret_def)

end
