(* ===== verification/Spec2Isabelle.thy ===== *)
theory Spec2Isabelle
  imports List_DS Map_DS Ring Server_Main Broker_Main Signals Museum_Doors Debug_Exercise Vowels
begin

text \<open>
  A publish/subscribe broker in C (\<^verbatim>\<open>src/broker\<close>) and the exercises beside it.

  \<^bold>\<open>The program.\<close> Clients of one machine call a library (\<^verbatim>\<open>client/broker.c\<close>) that puts a request into a
  System V queue of the local broker and waits for the response.  The local broker is two processes:
  \<^verbatim>\<open>broker_req_handler.c\<close> takes requests to a server over a socket, \<^verbatim>\<open>broker_resp_handler.c\<close> takes what
  the server sends to the clients, or puts publications into their mailboxes; a table in shared memory
  (\<^verbatim>\<open>broker_id.c\<close>) maps the clients of the machine to global identifiers.  A server is a main process
  that accepts connections (\<^verbatim>\<open>server/server.c\<close>), for each connection a request handler and a response
  handler, a worker (\<^verbatim>\<open>worker.c\<close>) that performs the requests, a table of the clients connected here
  (\<^verbatim>\<open>global_id.c\<close>) and a connection to the database process (\<^verbatim>\<open>db-connection.c\<close>, \<^verbatim>\<open>db-server\<close>), which
  keeps users and topics in files.  The servers form a ring (\<^verbatim>\<open>ring_connection.c\<close>): a publication for
  a client that a server does not know goes to the next server, whose number in the table is 0.

  \<^bold>\<open>How the code is modelled.\<close> A C function is a program of type \<open>('w, 'a) prog\<close>: a function from the
  state to an outcome and a state.  The outcome \<open>res\<close> is a value, \<^verbatim>\<open>exit\<close> with its code, waiting for
  ever, a failed \<^verbatim>\<open>assert\<close>, or behaviour that the C standard leaves undefined; so every error path is
  a value.  The state \<open>world\<close> of a host has its semaphores, shared memory, queues, files and sockets.
  Every system call takes one outcome from the list \<open>env\<close>: a property that quantifies over the state
  covers every pattern of failures and short reads and writes; \<open>env w = []\<close> says that no call fails.
  A process that starts others (\<open>master\<close>, theory \<open>Processes\<close>) sees besides the table of processes and its own
  descriptors and memory; \<^verbatim>\<open>fork\<close> runs the code of the child up to \<^verbatim>\<open>execl\<close> or its end, and what the other
  processes do while one waits is a program \<open>others\<close> or \<open>beside\<close>.  \<^verbatim>\<open>kill\<close> only tells a process to stop: the
  programs set a flag in their handler, which their loops may see late or never (theory \<open>Signals\<close>, and the
  guide of the museum in a tour).  Which of the processes that are told do stop is the parameter \<open>heeds\<close>; the
  properties of main functions say what happens in both cases, and who waits for one that does not, waits for ever.
  A struct that the code leaves uninitialised is a parameter \<open>stk\<close>.  A function that ends without
  \<^verbatim>\<open>return\<close> returns \<open>indeterminate\<close>, which the environment chooses.  A loop that runs until a signal is
  indexed by the list of what its stack holds in each turn, so a theorem about the loop covers every
  number of turns; loops that must end are \<open>function\<close>s with a measure, or \<open>partial_function\<close>s where
  the heap may be cyclic, with a theorem that they end.  Integers are unbounded where the code copies
  and compares them only; conversions to \<^verbatim>\<open>int\<close> (\<open>int_of_long\<close>), overflow and the widths in the byte
  images of structs are written out.

  \<^bold>\<open>Theories.\<close>
  \<^item> \<open>Prelude\<close>: outcomes, programs, weakest preconditions (collection \<open>wp\<close>), invariants of programs
    (collection \<open>keeps\<close>), C integers, the search and shift loops over arrays.
  \<^item> \<open>Vector_DS\<close>, \<open>List_DS\<close>, \<open>Map_DS\<close>: \<^verbatim>\<open>common/ds/implementation\<close> (vector.c; list.c, queue.c, stack.c
    over a heap of nodes; map.c), each against an interface (locales \<open>seq_buffer\<close>, \<open>container\<close>, \<open>fifo\<close>,
    \<open>lifo\<close>, \<open>kv_store\<close>) that the code is shown to implement.
  \<^item> \<open>Ipc\<close>: \<^verbatim>\<open>common/ipc\<close> semaphore.c, shm.c, msg_queue.c and the state of a host; locale \<open>name_space\<close>.
  \<^item> \<open>Message\<close>, \<open>Socket_IO\<close>: \<^verbatim>\<open>message.h\<close>, \<^verbatim>\<open>db_message.h\<close> with their byte images, and the loops of
    \<^verbatim>\<open>socket.c\<close>; locale \<open>codec\<close>.
  \<^item> \<open>Id_Table\<close>, \<open>Global_Id\<close>, \<open>Broker_Id\<close>: the two identifier tables (\<^verbatim>\<open>global_id.c\<close>, at most 50 rows;
    \<^verbatim>\<open>broker_id.c\<close>, at most 10 rows); locale \<open>id_table\<close>.
  \<^item> \<open>File_Store\<close>, \<open>Db\<close>, \<open>Db_Handler\<close>, \<open>Db_Connection\<close>: paths, files and decimal numbers; \<^verbatim>\<open>db.c\<close>;
    the process of a database connection (\<^verbatim>\<open>db_handler.c\<close>); the server's side of it
    (\<^verbatim>\<open>db-connection.c\<close>).  The locale \<open>topic_store\<close> is the contract of a database; it is interpreted
    on the files and again on requests over the socket.
  \<^item> \<open>Worker\<close>, \<open>Server_Handlers\<close>: the turns of \<^verbatim>\<open>worker.c\<close>, \<^verbatim>\<open>req_handler.c\<close> and \<^verbatim>\<open>resp_handler.c\<close>,
    \<^verbatim>\<open>ring_connection.c\<close> and the resources of \<^verbatim>\<open>server.c\<close>.
  \<^item> \<open>Processes\<close>, \<open>Server_Main\<close>, \<open>Broker_Main\<close>: processes and the opening of sockets (\<^verbatim>\<open>socket.c\<close>); the main
    functions of the server, its request handlers and ring connection and of the database (\<^verbatim>\<open>db_server.c\<close>),
    with the children they start, record, kill and reap; the main functions of worker, response handler,
    database handler and of the two processes of the local broker.
  \<^item> \<open>Signals\<close>: \<^verbatim>\<open>sig.c\<close> and the handlers for SIGINT.  The other theories cut the main loops off at any turn;
    here the loops of worker and request handler run with the flag of the handler and a signal at any moment.
  \<^item> \<open>Local_Broker\<close>, \<open>Client_Api\<close>: the two handlers of the local broker; \<^verbatim>\<open>broker.c\<close> and the interactive
    \<^verbatim>\<open>client.c\<close>.
  \<^item> \<open>Kept\<close>, \<open>Network\<close>, \<open>Delivery\<close>: the composition.  \<open>Kept\<close> has the frame conditions of the operations
    (locales \<open>store_inv\<close>, \<open>link_inv\<close>, \<open>server_inv\<close>, \<open>machine_inv\<close>); \<open>Network\<close> is a step relation over
    the programs of one server and any number of machines, with its invariant \<open>net_ok\<close>; \<open>Delivery\<close>
    follows a publication from end to end.
  \<^item> \<open>Ring\<close>: any number of servers in a ring, each with its own \<^verbatim>\<open>BROKER_ID\<close>, as a step relation over the programs
    of \<open>Worker\<close> and \<open>Server_Handlers\<close>; its invariant \<open>ring_ok\<close> says which publications can be where.  Clients only
    publish in it: who is connected where, and the subscriptions, stay as they are.
  \<^item> \<open>Museum\<close>, \<open>Museum_Main\<close>, \<open>Museum_Doors\<close>: the museum exercise (\<^verbatim>\<open>museum/src\<close>): the turns of its processes
    and the machine they form; the main process, guide, timer and person generator; doors and administrator.
  \<^item> \<open>Vowels\<close>, \<open>Debug_Exercise\<close>: the socket exercise (\<^verbatim>\<open>sockets\<close>) and the debugging exercise
    (\<^verbatim>\<open>ejercicioDebug\<close>), the one a server with a child per connection, the other forty processes that wait for
    one another.

  \<^bold>\<open>What the lemmas show.\<close>  Each component has lemmas that run its operations when no call fails (\<open>_run\<close>),
  that they keep its invariant whatever fails, and, where it has a contract, that they implement an
  abstract specification: the worker an abstract server, the local broker an abstract table with
  mailboxes, the database a map of users and topics, the processes of the museum a machine.  What a main function creates
  is shown to be gone when it ends, which it does exactly when its children stop; with any failing calls it exits or waits.
  The properties (C1 to C40) are in the section
  \<open>Properties\<close> of the theory of their component.

  \<^bold>\<open>Not modelled.\<close>  Logging (\<^verbatim>\<open>log.c\<close>, a third-party library, and the \<^verbatim>\<open>logger.h\<close> of the exercises), printing
  by the broker and sleeping have no effect on the state.  \<^verbatim>\<open>malloc\<close> succeeds and queues have no capacity limit.
  The wrappers in \<^verbatim>\<open>museum/src/include\<close> are those of \<^verbatim>\<open>common/ipc\<close> over again and modelled once.  \<^verbatim>\<open>rpc\<close> is the
  output of \<^verbatim>\<open>rpcgen\<close> with templates that only print; the Java exercises are not C.
\<close>

end
